(* ===== verification/RLNC_Prelude.thy ===== *)
theory RLNC_Prelude
  imports Main "HOL-Library.Word" "HOL-Library.Monad_Syntax"
begin

text \<open>
  Shared material: the types of the model, Go's run-time panics as \<^const>\<open>None\<close>, checked
  slice access, the counted loops of the source as folds in the option monad with their
  invariant rules, and generic list lemmas.
\<close>

type_synonym byte = "8 word"
type_synonym bytes = "byte list"

text \<open>
  A value of type \<^typ>\<open>'a option\<close> is the outcome of Go code that may panic:
  \<^const>\<open>None\<close> is a run-time panic (index or slice bounds out of range).  An error result is a
  value of a sum type, \<^const>\<open>Inl\<close> the error.
\<close>

named_theorems go_simps \<open>equations that evaluate checked accesses in range\<close>
named_theorems wf_intros \<open>preservation of well-formedness\<close>

section \<open>Checked access\<close>

definition nth_opt :: "'a list \<Rightarrow> nat \<Rightarrow> 'a option" where
  "nth_opt xs i = (if i < length xs then Some (xs ! i) else None)"

definition set_opt :: "'a list \<Rightarrow> nat \<Rightarrow> 'a \<Rightarrow> 'a list option" where
  "set_opt xs i v = (if i < length xs then Some (xs[i := v]) else None)"

text \<open>The slice expression \<^verbatim>\<open>xs[lo:hi]\<close> of a slice whose capacity is its length.\<close>

definition slice_opt :: "'a list \<Rightarrow> nat \<Rightarrow> nat \<Rightarrow> 'a list option" where
  "slice_opt xs lo hi =
     (if lo \<le> hi \<and> hi \<le> length xs then Some (take (hi - lo) (drop lo xs)) else None)"

definition mget :: "'a list list \<Rightarrow> nat \<Rightarrow> nat \<Rightarrow> 'a option" where
  "mget m i j = nth_opt m i \<bind> (\<lambda>r. nth_opt r j)"

definition mset :: "'a list list \<Rightarrow> nat \<Rightarrow> nat \<Rightarrow> 'a \<Rightarrow> 'a list list option" where
  "mset m i j v = nth_opt m i \<bind> (\<lambda>r. set_opt r j v \<bind> (\<lambda>r'. set_opt m i r'))"

lemma nth_opt_in [go_simps]: "i < length xs \<Longrightarrow> nth_opt xs i = Some (xs ! i)"
  by (simp add: nth_opt_def)

lemma set_opt_in [go_simps]: "i < length xs \<Longrightarrow> set_opt xs i v = Some (xs[i := v])"
  by (simp add: set_opt_def)

lemma slice_opt_in [go_simps]:
  "lo \<le> hi \<Longrightarrow> hi \<le> length xs \<Longrightarrow> slice_opt xs lo hi = Some (take (hi - lo) (drop lo xs))"
  by (simp add: slice_opt_def)

lemma mget_in [go_simps]:
  "i < length m \<Longrightarrow> j < length (m ! i) \<Longrightarrow> mget m i j = Some (m ! i ! j)"
  by (simp add: mget_def nth_opt_def)

lemma mset_in [go_simps]:
  "i < length m \<Longrightarrow> j < length (m ! i) \<Longrightarrow> mset m i j v = Some (m[i := (m ! i)[j := v]])"
  by (simp add: mset_def nth_opt_def set_opt_def)

lemma nth_eqI: "length xs = length ys \<Longrightarrow> (\<And>i. i < length ys \<Longrightarrow> xs ! i = ys ! i) \<Longrightarrow> xs = ys"
  by (rule nth_equalityI) auto

section \<open>Counted loops\<close>

text \<open>
  A \<^verbatim>\<open>for\<close> loop whose bounds are fixed before it starts runs its body on the indices in
  order; a panic of the body ends it.
\<close>

fun for_list :: "('i \<Rightarrow> 's \<Rightarrow> 's option) \<Rightarrow> 'i list \<Rightarrow> 's \<Rightarrow> 's option" where
  "for_list body [] s = Some s"
| "for_list body (k # ks) s = body k s \<bind> for_list body ks"

definition for_up :: "nat \<Rightarrow> nat \<Rightarrow> (nat \<Rightarrow> 's \<Rightarrow> 's option) \<Rightarrow> 's \<Rightarrow> 's option" where
  "for_up lo hi body = for_list body [lo..<hi]"

definition for_down :: "nat \<Rightarrow> (nat \<Rightarrow> 's \<Rightarrow> 's option) \<Rightarrow> 's \<Rightarrow> 's option" where
  "for_down hi body = for_list body (rev [0..<hi])"

lemma for_list_append:
  "for_list body (ks @ ls) s = for_list body ks s \<bind> for_list body ls"
  by (induction ks arbitrary: s) (auto split: bind_splits)

lemma for_list_fold:
  assumes "\<And>k s. k \<in> set ks \<Longrightarrow> P s \<Longrightarrow> body k s = Some (f k s) \<and> P (f k s)" and "P s"
  shows "for_list body ks s = Some (fold f ks s) \<and> P (fold f ks s)"
  using assms by (induction ks arbitrary: s) auto

lemma for_list_single [simp]: "for_list body [k] = body k"
proof
  show "for_list body [k] s = body k s" for s
    by (cases "body k s") simp_all
qed

lemma for_up_empty [simp]: "hi \<le> lo \<Longrightarrow> for_up lo hi body s = Some s"
  by (simp add: for_up_def)

lemma for_up_Suc:
  "lo \<le> hi \<Longrightarrow> for_up lo (Suc hi) body s = for_up lo hi body s \<bind> body hi"
  by (simp add: for_up_def for_list_append)

lemma for_up_rule:
  assumes start: "I lo s" and le: "lo \<le> hi"
    and step: "\<And>k s. lo \<le> k \<Longrightarrow> k < hi \<Longrightarrow> I k s \<Longrightarrow> \<exists>s'. body k s = Some s' \<and> I (Suc k) s'"
  shows "\<exists>s'. for_up lo hi body s = Some s' \<and> I hi s'"
  using le step
proof (induction hi rule: dec_induct)
  case base
  then show ?case using start by simp
next
  case (step n)
  then obtain s1 where "for_up lo n body s = Some s1" "I n s1"
    by (metis less_Suc_eq)
  with step.prems [of n s1] step.hyps show ?case
    by (auto simp: for_up_Suc)
qed

lemma for_down_rule:
  assumes start: "I hi s"
    and step: "\<And>k s. k < hi \<Longrightarrow> I (Suc k) s \<Longrightarrow> \<exists>s'. body k s = Some s' \<and> I k s'"
  shows "\<exists>s'. for_down hi body s = Some s' \<and> I 0 s'"
  using assms
proof (induction hi arbitrary: s)
  case 0
  then show ?case by (simp add: for_down_def)
next
  case (Suc n)
  from Suc.prems(1) Suc.prems(2) [of n s] obtain s1 where s1: "body n s = Some s1" "I n s1"
    by auto
  have "\<exists>s'. for_down n body s1 = Some s' \<and> I 0 s'"
    by (rule Suc.IH [OF s1(2)]) (use Suc.prems(2) in auto)
  with s1 show ?case by (simp add: for_down_def)
qed

text \<open>A loop whose steps commute gives the same result in every order of its indices.\<close>

lemma fold_swap_commute:
  assumes "\<And>x y s. x \<in> set xs \<Longrightarrow> y \<in> set xs \<Longrightarrow> x \<noteq> y \<Longrightarrow> f x (f y s) = f y (f x s)"
    and "x \<in> set xs" "distinct xs"
  shows "fold f xs s = fold f (remove1 x xs) (f x s)"
  using assms
proof (induction xs arbitrary: s)
  case Nil
  then show ?case by simp
next
  case (Cons y xs)
  show ?case
  proof (cases "x = y")
    case False
    then have "x \<in> set xs" "distinct xs" using Cons.prems by auto
    then have "fold f xs (f y s) = fold f (remove1 x xs) (f x (f y s))"
      by (intro Cons.IH) (use Cons.prems(1) in auto)
    also have "f x (f y s) = f y (f x s)"
      using Cons.prems False by auto
    finally show ?thesis using False by simp
  qed simp
qed

lemma fold_permute:
  assumes "\<And>x y s. x \<in> set xs \<Longrightarrow> y \<in> set xs \<Longrightarrow> x \<noteq> y \<Longrightarrow> f x (f y s) = f y (f x s)"
    and "distinct xs" "distinct ys" "set xs = set ys"
  shows "fold f xs s = fold f ys s"
  using assms
proof (induction ys arbitrary: xs s)
  case Nil
  then show ?case by simp
next
  case (Cons y ys)
  have "fold f xs s = fold f (remove1 y xs) (f y s)"
    by (rule fold_swap_commute) (use Cons.prems in auto)
  also have "\<dots> = fold f ys (f y s)"
    by (rule Cons.IH) (use Cons.prems in \<open>auto simp: set_remove1_eq\<close>)
  finally show ?case by simp
qed

text \<open>The loop that rewrites the elements \<open>lo..<hi\<close> of a slice in place, each from its own value.\<close>

definition remap :: "nat \<Rightarrow> nat \<Rightarrow> (nat \<Rightarrow> 'a \<Rightarrow> 'a) \<Rightarrow> 'a list \<Rightarrow> 'a list" where
  "remap lo hi g xs = map (\<lambda>i. if lo \<le> i \<and> i < hi then g i (xs ! i) else xs ! i) [0..<length xs]"

lemma length_remap [simp]: "length (remap lo hi g xs) = length xs"
  by (simp add: remap_def)

lemma nth_remap [simp]:
  "i < length xs \<Longrightarrow> remap lo hi g xs ! i = (if lo \<le> i \<and> i < hi then g i (xs ! i) else xs ! i)"
  by (simp add: remap_def)

lemma remap_empty: "hi \<le> lo \<Longrightarrow> remap lo hi g xs = xs"
  by (rule nth_eqI) auto

lemma remap_Suc: "lo \<le> hi \<Longrightarrow> hi < length xs \<Longrightarrow>
    (remap lo hi g xs)[hi := g hi (xs ! hi)] = remap lo (Suc hi) g xs"
  by (rule nth_eqI) (auto simp: nth_list_update)

lemma for_up_pointwise:
  assumes "hi \<le> length xs"
  shows "for_up lo hi (\<lambda>i s. do { a \<leftarrow> nth_opt s i; set_opt s i (g i a) }) xs = Some (remap lo hi g xs)"
proof (cases "lo \<le> hi")
  case True
  then show ?thesis using assms
  proof (induction hi rule: dec_induct)
    case (step n)
    then show ?case by (simp add: for_up_Suc nth_opt_def set_opt_def remap_Suc)
  qed (simp add: remap_empty)
qed (simp add: remap_empty)

lemma for_up_pointwise_panic:
  assumes "lo \<le> length xs" "length xs < hi"
  shows "for_up lo hi (\<lambda>i s. do { a \<leftarrow> nth_opt s i; set_opt s i (g i a) }) xs = None"
proof -
  obtain ks where "[lo..<hi] = [lo..<length xs] @ length xs # ks"
    using assms by (metis upt_conv_Cons upt_add_eq_append le_Suc_ex less_imp_le)
  then show ?thesis
    using for_up_pointwise [of "length xs" xs lo g]
    by (simp add: for_up_def for_list_append nth_opt_def)
qed

section \<open>Lists\<close>

lemma concat_take_drop_chunks:
  "concat (map (\<lambda>i. take w (drop (w * i) xs)) [0..<n]) = take (w * n) xs"
proof (induction n)
  case (Suc n)
  have "take (w * n) xs @ take w (drop (w * n) xs) = take (w * n + w) xs"
    by (simp add: take_add)
  with Suc show ?case by (simp add: add.commute)
qed simp

fun traverse_opt :: "('a \<Rightarrow> 'b option) \<Rightarrow> 'a list \<Rightarrow> 'b list option" where
  "traverse_opt f [] = Some []"
| "traverse_opt f (x # xs) = do { y \<leftarrow> f x; ys \<leftarrow> traverse_opt f xs; Some (y # ys) }"

lemma traverse_opt_map:
  "(\<And>x. x \<in> set xs \<Longrightarrow> f x = Some (g x)) \<Longrightarrow> traverse_opt f xs = Some (map g xs)"
  by (induction xs) auto

lemma length_concat_const: "(\<And>x. x \<in> set xs \<Longrightarrow> length x = k) \<Longrightarrow> length (concat xs) = k * length xs"
  by (induction xs) auto

lemma take_drop_concat_const:
  assumes "\<And>x. x \<in> set xs \<Longrightarrow> length x = k" and "i < length xs"
  shows "take k (drop (k * i) (concat xs)) = xs ! i"
  using assms
proof (induction xs arbitrary: i)
  case (Cons x xs)
  show ?case
  proof (cases i)
    case 0
    then show ?thesis using Cons.prems by simp
  next
    case (Suc j)
    then have "take k (drop (k * j) (concat xs)) = xs ! j"
      using Cons by auto
    then show ?thesis using Suc Cons.prems(1) [of x] by (simp add: drop_append)
  qed
qed simp

lemma upt_small: "[0..<2] = [0, 1]" "[0..<3] = [0, 1, 2]" "[0..<4] = [0, 1, 2, 3]"
  by (simp_all add: upt_rec)

end
