(* ===== verification/Galois_Field.thy ===== *)
theory Galois_Field
  imports RLNC_Prelude
begin

unbundle bit_operations_syntax

text \<open>
  The byte field of \<^verbatim>\<open>github.com/cloud9-tools/go-galoisfield\<close>, a package the sources
  import and do not contain: a parameter of the model.  The locale \<open>galois_field\<close> states
  what its documentation promises (a field of characteristic two on the 256 byte values,
  \<^verbatim>\<open>Div\<close> specified for non-zero divisors only).  The interpretation at the end shows the
  laws hold of the field with reduction polynomial \<^verbatim>\<open>x^8+x^4+x^3+x^2+1\<close> and generator 2, the
  parameters the package documents for \<^verbatim>\<open>DefaultGF256\<close>.
\<close>

record GF =
  gf_Add :: "byte \<Rightarrow> byte \<Rightarrow> byte"
  gf_Mul :: "byte \<Rightarrow> byte \<Rightarrow> byte"
  gf_Div :: "byte \<Rightarrow> byte \<Rightarrow> byte"

locale galois_field =
  fixes F :: GF
  assumes add_assoc: "gf_Add F (gf_Add F a b) c = gf_Add F a (gf_Add F b c)"
    and add_comm: "gf_Add F a b = gf_Add F b a"
    and add_0: "gf_Add F a 0 = a"
    and add_self: "gf_Add F a a = 0"
    and mul_assoc: "gf_Mul F (gf_Mul F a b) c = gf_Mul F a (gf_Mul F b c)"
    and mul_comm: "gf_Mul F a b = gf_Mul F b a"
    and mul_1: "gf_Mul F a 1 = a"
    and distrib: "gf_Mul F a (gf_Add F b c) = gf_Add F (gf_Mul F a b) (gf_Mul F a c)"
    and div_mul: "b \<noteq> 0 \<Longrightarrow> gf_Mul F (gf_Div F a b) b = a"
begin

lemma add_0_left: "gf_Add F 0 a = a"
  using add_0 add_comm by metis

lemma mul_1_left: "gf_Mul F 1 a = a"
  using mul_1 mul_comm by metis

lemma mul_0: "gf_Mul F a 0 = 0"
  by (metis add_self distrib)

lemma mul_0_left: "gf_Mul F 0 a = 0"
  using mul_0 mul_comm by metis

lemma distrib_right: "gf_Mul F (gf_Add F a b) c = gf_Add F (gf_Mul F a c) (gf_Mul F b c)"
  using distrib mul_comm by metis

lemma add_left_comm: "gf_Add F a (gf_Add F b c) = gf_Add F b (gf_Add F a c)"
  using add_assoc add_comm by metis

lemma mul_left_comm: "gf_Mul F a (gf_Mul F b c) = gf_Mul F b (gf_Mul F a c)"
  using mul_assoc mul_comm by metis

lemma add_cancel_left: "gf_Add F a (gf_Add F a b) = b"
  by (metis add_0_left add_assoc add_self)

lemma add_eq_0_iff: "gf_Add F a b = 0 \<longleftrightarrow> a = b"
  by (metis add_0 add_cancel_left add_self)

lemma mul_div: "b \<noteq> 0 \<Longrightarrow> gf_Mul F b (gf_Div F a b) = a"
  using div_mul mul_comm by metis

lemma mul_eq_0_iff: "gf_Mul F a b = 0 \<longleftrightarrow> a = 0 \<or> b = 0"
proof
  assume z: "gf_Mul F a b = 0"
  show "a = 0 \<or> b = 0"
  proof (rule disjCI)
    assume "b \<noteq> 0"
    then have "a = gf_Mul F (gf_Mul F a b) (gf_Div F 1 b)"
      by (simp add: mul_assoc mul_div mul_1)
    then show "a = 0" by (simp add: z mul_0_left)
  qed
qed (auto simp: mul_0 mul_0_left)

lemma div_self: "b \<noteq> 0 \<Longrightarrow> gf_Div F b b = 1"
  by (metis add_eq_0_iff distrib_right div_mul mul_1_left mul_eq_0_iff)

lemma div_eq_0_iff: "b \<noteq> 0 \<Longrightarrow> gf_Div F a b = 0 \<longleftrightarrow> a = 0"
  by (metis div_mul mul_eq_0_iff)

lemmas field_ac = add_assoc add_comm add_left_comm mul_assoc mul_comm mul_left_comm

end

section \<open>The field of the package's default parameters\<close>

text \<open>Multiplication by the generator: shift, and reduce when the high bit falls out.\<close>

definition xtime :: "byte \<Rightarrow> byte" where
  "xtime b = push_bit 1 b XOR (if bit b 7 then 29 else 0)"

text \<open>Shift-and-add multiplication; division by the 254th power, the inverse.\<close>

lemma funpow_numeral: "(f ^^ numeral k) x = f ((f ^^ pred_numeral k) x)"
  by (simp add: numeral_eq_Suc)

definition gf256_term :: "byte \<Rightarrow> byte \<Rightarrow> nat \<Rightarrow> byte" where
  "gf256_term a b i = (if bit a i then (xtime ^^ i) b else 0)"

definition gf256_mul :: "byte \<Rightarrow> byte \<Rightarrow> byte" where
  "gf256_mul a b = foldr (\<lambda>i acc. gf256_term a b i XOR acc) [0..<8] 0"

definition gf256_inv :: "byte \<Rightarrow> byte" where
  "gf256_inv b =
     (let sq = (\<lambda>x. gf256_mul x x); b2 = sq b; b4 = sq b2; b8 = sq b4; b16 = sq b8;
          b32 = sq b16; b64 = sq b32; b128 = sq b64
      in gf256_mul b2 (gf256_mul b4 (gf256_mul b8 (gf256_mul b16
           (gf256_mul b32 (gf256_mul b64 b128))))))"

definition gf256_div :: "byte \<Rightarrow> byte \<Rightarrow> byte" where
  "gf256_div a b = gf256_mul a (gf256_inv b)"

definition DefaultGF256 :: GF where
  "DefaultGF256 = \<lparr>gf_Add = (XOR), gf_Mul = gf256_mul, gf_Div = gf256_div\<rparr>"

lemma xtime_xor: "xtime (a XOR b) = xtime a XOR xtime b"
  by (cases "bit a 7"; cases "bit b 7") (simp_all add: xtime_def bit_simps ac_simps)

lemma xtime_0 [simp]: "xtime 0 = 0"
  by (simp add: xtime_def)

lemma xtime_pow_xor: "(xtime ^^ k) (a XOR b) = (xtime ^^ k) a XOR (xtime ^^ k) b"
  by (induction k) (simp_all add: xtime_xor)

lemma xtime_pow_0 [simp]: "(xtime ^^ k) 0 = 0"
  by (induction k) simp_all

lemma xtime_pow_add: "(xtime ^^ i) ((xtime ^^ j) b) = (xtime ^^ (i + j)) b"
  by (simp add: funpow_add)

text \<open>The generator has order 255, so its powers are all the non-zero bytes.\<close>

lemma xtime_eq_0: "xtime a = 0 \<Longrightarrow> a = 0"
proof -
  assume z: "xtime a = 0"
  have "bit (xtime a) 0 = bit a 7"
    by (simp add: xtime_def bit_xor_iff bit_push_bit_iff del: push_bit_Suc)
  with z have b7: "\<not> bit a 7" by simp
  with z have p: "push_bit 1 a = 0" by (simp add: xtime_def)
  show "a = 0"
  proof (rule bit_word_eqI)
    fix n assume n: "n < LENGTH(8)"
    show "bit a n = bit (0 :: byte) n"
    proof (cases "n = 7")
      case False
      with n have "bit (push_bit 1 a) (Suc n) = bit a n"
        by (simp only: bit_push_bit_iff possible_bit_word) simp
      with p show ?thesis by simp
    qed (use b7 in simp)
  qed
qed

lemma xtime_pow_eq_0: "(xtime ^^ k) a = 0 \<Longrightarrow> a = 0"
  by (induction k) (auto dest: xtime_eq_0)

lemma xtime_pow_inj: "(xtime ^^ k) a = (xtime ^^ k) b \<Longrightarrow> a = b"
proof -
  assume "(xtime ^^ k) a = (xtime ^^ k) b"
  then have "(xtime ^^ k) (a XOR b) = 0" by (simp add: xtime_pow_xor)
  then have "a XOR b = 0" by (rule xtime_pow_eq_0)
  then show "a = b" by (metis xor.assoc xor.right_neutral xor_self_eq)
qed

primrec first_return :: "nat \<Rightarrow> byte \<Rightarrow> bool" where
  "first_return 0 x = (xtime x = 1)"
| "first_return (Suc n) x = (xtime x \<noteq> 1 \<and> first_return n (xtime x))"

lemma first_return_numeral:
  "first_return (numeral k) x = (xtime x \<noteq> 1 \<and> first_return (pred_numeral k) (xtime x))"
  by (simp add: numeral_eq_Suc)

lemma first_return_254: "first_return 254 1"
  by (simp add: first_return_numeral xtime_def)

lemma first_return_avoids: "first_return n x \<Longrightarrow> k < n \<Longrightarrow> (xtime ^^ Suc k) x \<noteq> 1"
proof (induction n arbitrary: k x)
  case (Suc n)
  show ?case
  proof (cases k)
    case (Suc j)
    then have "(xtime ^^ Suc j) (xtime x) \<noteq> 1"
      using Suc.prems by (intro Suc.IH) auto
    then show ?thesis using \<open>k = Suc j\<close> by (simp add: funpow_swap1)
  qed (use Suc.prems in simp)
qed simp

lemma first_return_hits: "first_return n x \<Longrightarrow> (xtime ^^ Suc n) x = 1"
proof (induction n arbitrary: x)
  case (Suc n)
  then have "(xtime ^^ Suc n) (xtime x) = 1" by simp
  then show ?case by (simp add: funpow_swap1)
qed simp

lemma xtime_pow_255: "(xtime ^^ 255) 1 = 1"
  using first_return_hits [OF first_return_254] by (simp del: funpow.simps)

lemma xtime_order: "0 < k \<Longrightarrow> k < 255 \<Longrightarrow> (xtime ^^ k) 1 \<noteq> 1"
  using first_return_avoids [OF first_return_254, of "k - 1"] by (cases k) auto

lemma xtime_pow_mult: "(xtime ^^ d) 1 = 1 \<Longrightarrow> (xtime ^^ (d * q)) 1 = 1"
  by (induction q) (simp_all add: funpow_add)

lemma inj_xtime_pow: "inj_on (\<lambda>k. (xtime ^^ k) 1) {..<255}"
proof (rule linorder_inj_onI)
  fix i j :: nat
  assume ij: "i < j" "i \<in> {..<255}" "j \<in> {..<255}"
  show "(xtime ^^ i) 1 \<noteq> (xtime ^^ j) 1"
  proof
    assume eq: "(xtime ^^ i) 1 = (xtime ^^ j) 1"
    have "(xtime ^^ j) 1 = (xtime ^^ i) ((xtime ^^ (j - i)) 1)"
      using ij by (simp add: xtime_pow_add)
    with eq have "1 = (xtime ^^ (j - i)) 1"
      by (metis xtime_pow_inj)
    moreover have "0 < j - i" "j - i < 255" using ij by auto
    ultimately show False using xtime_order by metis
  qed
qed auto

lemma xtime_pow_surj:
  assumes "a \<noteq> 0"
  obtains k where "a = (xtime ^^ k) 1"
proof -
  let ?P = "(\<lambda>k. (xtime ^^ k) 1) ` {..<255}"
  have "card ?P = 255"
    using card_image [OF inj_xtime_pow] by simp
  moreover have "?P \<subseteq> UNIV - {0}"
    by (auto dest!: xtime_pow_eq_0)
  moreover have "card (UNIV - {0} :: byte set) = 255"
    by (simp add: card_word card_Diff_subset)
  ultimately have "?P = UNIV - {0}"
    by (intro card_subset_eq) auto
  with assms that show thesis by blast
qed

lemma gf256_mul_terms:
  "gf256_mul a b = gf256_term a b 0 XOR (gf256_term a b 1 XOR (gf256_term a b 2 XOR
     (gf256_term a b 3 XOR (gf256_term a b 4 XOR (gf256_term a b 5 XOR (gf256_term a b 6 XOR
      gf256_term a b 7))))))"
  by (simp add: gf256_mul_def numeral_eq_Suc)

lemma gf256_mul_xor_left: "gf256_mul (a XOR a') b = gf256_mul a b XOR gf256_mul a' b"
proof -
  have "gf256_term (a XOR a') b i = gf256_term a b i XOR gf256_term a' b i" for i
    by (auto simp: gf256_term_def bit_simps)
  then show ?thesis by (simp add: gf256_mul_terms ac_simps)
qed

lemma gf256_mul_xor_right: "gf256_mul a (b XOR b') = gf256_mul a b XOR gf256_mul a b'"
proof -
  have "gf256_term a (b XOR b') i = gf256_term a b i XOR gf256_term a b' i" for i
    by (auto simp: gf256_term_def xtime_pow_xor)
  then show ?thesis by (simp add: gf256_mul_terms ac_simps)
qed

lemma xtime_8: "(xtime ^^ 8) b = b XOR ((xtime ^^ 2) b XOR ((xtime ^^ 3) b XOR (xtime ^^ 4) b))"
proof (cases "b = 0")
  case False
  then obtain k where b: "b = (xtime ^^ k) 1" by (rule xtime_pow_surj)
  have "(xtime ^^ 8) 1 = 1 XOR ((xtime ^^ 2) 1 XOR ((xtime ^^ 3) 1 XOR (xtime ^^ 4) 1))"
    by (simp add: funpow_numeral xtime_def)
  then have "(xtime ^^ k) ((xtime ^^ 8) 1) =
      (xtime ^^ k) (1 XOR ((xtime ^^ 2) 1 XOR ((xtime ^^ 3) 1 XOR (xtime ^^ 4) 1)))"
    by simp
  then show ?thesis
    unfolding b by (simp only: xtime_pow_xor xtime_pow_add add.commute [of k])
qed simp

lemma gf256_term_shift:
  "0 < i \<Longrightarrow> i < 8 \<Longrightarrow> gf256_term (push_bit 1 a) b i = xtime (gf256_term a b (i - 1))"
  unfolding gf256_term_def bit_push_bit_iff possible_bit_word by (cases i) auto

lemma gf256_mul_shift:
  "gf256_mul (push_bit 1 a) b XOR (if bit a 7 then (xtime ^^ 8) b else 0) = xtime (gf256_mul a b)"
proof -
  define p where "p = push_bit 1 a"
  have sh: "0 < i \<Longrightarrow> i < 8 \<Longrightarrow> gf256_term p b i = xtime (gf256_term a b (i - 1))" for i
    unfolding p_def by (rule gf256_term_shift)
  have z: "gf256_term p b 0 = 0"
    unfolding p_def gf256_term_def bit_push_bit_iff by simp
  have t7: "(if bit a 7 then (xtime ^^ 8) b else 0) = xtime (gf256_term a b 7)"
    by (simp add: gf256_term_def numeral_eq_Suc)
  show ?thesis
    unfolding t7 p_def [symmetric] by (simp add: gf256_mul_terms sh z xtime_xor ac_simps)
qed

lemma gf256_mul_29: "gf256_mul 29 b = (xtime ^^ 8) b"
  unfolding xtime_8 by (simp add: gf256_mul_terms gf256_term_def)

lemma gf256_mul_xtime: "gf256_mul (xtime a) b = xtime (gf256_mul a b)"
proof -
  have "gf256_mul 0 b = 0" by (simp add: gf256_mul_terms gf256_term_def)
  then have "gf256_mul (xtime a) b =
      gf256_mul (push_bit 1 a) b XOR (if bit a 7 then (xtime ^^ 8) b else 0)"
    unfolding xtime_def [of a] gf256_mul_xor_left gf256_mul_29 [symmetric] by simp
  then show ?thesis by (simp only: gf256_mul_shift)
qed

lemma gf256_mul_pow: "gf256_mul ((xtime ^^ k) 1) b = (xtime ^^ k) b"
proof (induction k)
  case 0
  show ?case by (simp add: gf256_mul_terms gf256_term_def)
next
  case (Suc k)
  then show ?case by (simp add: gf256_mul_xtime)
qed

lemma gf256_mul_0: "gf256_mul 0 b = 0" "gf256_mul b 0 = 0"
  by (simp_all add: gf256_mul_terms gf256_term_def)

lemma gf256_mul_comm: "gf256_mul a b = gf256_mul b a"
proof (cases "a = 0 \<or> b = 0")
  case False
  then obtain i j where "a = (xtime ^^ i) 1" "b = (xtime ^^ j) 1"
    by (meson xtime_pow_surj)
  then show ?thesis by (metis gf256_mul_pow xtime_pow_add add.commute)
qed (auto simp: gf256_mul_0)

lemma gf256_mul_assoc: "gf256_mul (gf256_mul a b) c = gf256_mul a (gf256_mul b c)"
proof (cases "a = 0 \<or> b = 0")
  case False
  then obtain i j where "a = (xtime ^^ i) 1" "b = (xtime ^^ j) 1"
    by (meson xtime_pow_surj)
  then show ?thesis by (simp only: gf256_mul_pow xtime_pow_add)
qed (auto simp: gf256_mul_0)

lemma gf256_mul_pows:
  "gf256_mul ((xtime ^^ i) 1) ((xtime ^^ j) 1) = (xtime ^^ (i + j)) 1"
  by (simp only: gf256_mul_pow xtime_pow_add)

lemma gf256_sq: "gf256_mul ((xtime ^^ i) 1) ((xtime ^^ i) 1) = (xtime ^^ (2 * i)) 1"
  by (simp only: gf256_mul_pows mult_2)

lemma gf256_inv: "b \<noteq> 0 \<Longrightarrow> gf256_mul (gf256_inv b) b = 1"
proof -
  assume "b \<noteq> 0"
  then obtain k where b: "b = (xtime ^^ k) 1" by (rule xtime_pow_surj)
  have "gf256_mul (gf256_inv b) b = (xtime ^^ (255 * k)) 1"
    unfolding b gf256_inv_def Let_def gf256_sq gf256_mul_pows by (rule arg_cong [where f = "\<lambda>n. (xtime ^^ n) 1"]) simp
  then show ?thesis by (simp only: xtime_pow_mult [OF xtime_pow_255])
qed

lemma gf256_mul_1: "gf256_mul 1 a = a"
  using gf256_mul_pow [of 0 a] by simp

interpretation gf256: galois_field DefaultGF256
proof unfold_locales
  fix a b c :: byte
  show "gf_Mul DefaultGF256 a b = gf_Mul DefaultGF256 b a"
    unfolding DefaultGF256_def GF.simps by (rule gf256_mul_comm)
  show "gf_Mul DefaultGF256 (gf_Mul DefaultGF256 a b) c = gf_Mul DefaultGF256 a (gf_Mul DefaultGF256 b c)"
    unfolding DefaultGF256_def GF.simps by (rule gf256_mul_assoc)
  show "gf_Mul DefaultGF256 a 1 = a"
    unfolding DefaultGF256_def GF.simps by (simp only: gf256_mul_comm [of a] gf256_mul_1)
  show "gf_Mul DefaultGF256 a (gf_Add DefaultGF256 b c) =
      gf_Add DefaultGF256 (gf_Mul DefaultGF256 a b) (gf_Mul DefaultGF256 a c)"
    unfolding DefaultGF256_def GF.simps by (rule gf256_mul_xor_right)
  show "b \<noteq> 0 \<Longrightarrow> gf_Mul DefaultGF256 (gf_Div DefaultGF256 a b) b = a"
    unfolding DefaultGF256_def GF.simps gf256_div_def gf256_mul_assoc
    by (metis gf256_inv gf256_mul_comm gf256_mul_1)
qed (simp_all add: DefaultGF256_def ac_simps)

lemmas gf256_eval = DefaultGF256_def gf256_mul_terms gf256_term_def xtime_def funpow_numeral upt_small

end
