(* ===== verification/GF_Vectors.thy ===== *)
theory GF_Vectors
  imports Galois_Field
begin

text \<open>
  Vectors over the byte field: the specification language of the coding theorems.  Nothing
  here is code of the repository; the decoder, encoder and recoder lemmas are stated over it.
\<close>

definition gsum :: "GF \<Rightarrow> byte list \<Rightarrow> byte" where
  "gsum F xs = foldr (gf_Add F) xs 0"

definition dot :: "GF \<Rightarrow> byte list \<Rightarrow> byte list \<Rightarrow> byte" where
  "dot F v w = gsum F (map2 (gf_Mul F) v w)"

definition vadd :: "GF \<Rightarrow> byte list \<Rightarrow> byte list \<Rightarrow> byte list" where
  "vadd F v w = map2 (gf_Add F) v w"

definition smul :: "GF \<Rightarrow> byte \<Rightarrow> byte list \<Rightarrow> byte list" where
  "smul F c v = map (\<lambda>x. gf_Mul F x c) v"

definition unit_vec :: "nat \<Rightarrow> nat \<Rightarrow> byte list" where
  "unit_vec n i = (replicate n 0)[i := 1]"

text \<open>The \<open>k\<close>-th byte of every piece.\<close>

definition column :: "byte list list \<Rightarrow> nat \<Rightarrow> byte list" where
  "column ps k = map (\<lambda>p. p ! k) ps"

text \<open>The linear combination of the pieces \<open>ps\<close>, each of \<open>len\<close> bytes, with coefficients \<open>v\<close>.\<close>

definition lincomb :: "GF \<Rightarrow> nat \<Rightarrow> byte list \<Rightarrow> byte list list \<Rightarrow> byte list" where
  "lincomb F len v ps = map (\<lambda>k. dot F v (column ps k)) [0..<len]"

text \<open>
  The vectors determine every vector of length \<open>n\<close> they are applied to: their null space is
  trivial.
\<close>

definition full_rank :: "GF \<Rightarrow> nat \<Rightarrow> byte list list \<Rightarrow> bool" where
  "full_rank F n vs \<longleftrightarrow>
     (\<forall>w. length w = n \<longrightarrow> (\<forall>v \<in> set vs. dot F v w = 0) \<longrightarrow> w = replicate n 0)"

lemma length_vadd [simp]: "length (vadd F v w) = min (length v) (length w)"
  by (simp add: vadd_def)

lemma length_smul [simp]: "length (smul F c v) = length v"
  by (simp add: smul_def)

lemma length_unit_vec [simp]: "length (unit_vec n i) = n"
  by (simp add: unit_vec_def)

lemma length_column [simp]: "length (column ps k) = length ps"
  by (simp add: column_def)

lemma length_lincomb [simp]: "length (lincomb F len v ps) = len"
  by (simp add: lincomb_def)

lemma nth_vadd [simp]:
  "k < length v \<Longrightarrow> k < length w \<Longrightarrow> vadd F v w ! k = gf_Add F (v ! k) (w ! k)"
  by (simp add: vadd_def)

lemma nth_smul [simp]: "k < length v \<Longrightarrow> smul F c v ! k = gf_Mul F (v ! k) c"
  by (simp add: smul_def)

lemma nth_unit_vec: "k < n \<Longrightarrow> unit_vec n i ! k = (if k = i then 1 else 0)"
  by (cases "k = i") (simp_all add: unit_vec_def)

lemma nth_column [simp]: "r < length ps \<Longrightarrow> column ps k ! r = ps ! r ! k"
  by (simp add: column_def)

lemma nth_lincomb [simp]: "k < len \<Longrightarrow> lincomb F len v ps ! k = dot F v (column ps k)"
  by (simp add: lincomb_def)

lemma gsum_Nil [simp]: "gsum F [] = 0"
  and gsum_Cons [simp]: "gsum F (x # xs) = gf_Add F x (gsum F xs)"
  by (simp_all add: gsum_def)

lemma dot_Nil [simp]: "dot F [] w = 0" "dot F v [] = 0"
  by (simp_all add: dot_def)

lemma dot_Cons [simp]: "dot F (x # v) (y # w) = gf_Add F (gf_Mul F x y) (dot F v w)"
  by (simp add: dot_def)

context galois_field
begin

lemma gsum_zero: "(\<And>x. x \<in> set xs \<Longrightarrow> x = 0) \<Longrightarrow> gsum F xs = 0"
  by (induction xs) (auto simp: add_0)

lemma gsum_one:
  assumes "i < length xs" and "\<And>k. k < length xs \<Longrightarrow> k \<noteq> i \<Longrightarrow> xs ! k = 0"
  shows "gsum F xs = xs ! i"
  using assms
proof (induction xs arbitrary: i)
  case (Cons x xs)
  show ?case
  proof (cases i)
    case 0
    have "gsum F xs = 0"
      by (rule gsum_zero) (use Cons.prems(2) [of "Suc _"] 0 in \<open>force simp: in_set_conv_nth\<close>)
    then show ?thesis using 0 by (simp add: add_0)
  next
    case (Suc j)
    have "x = 0" using Cons.prems(2) [of 0] Suc by simp
    moreover have "gsum F xs = xs ! j"
    proof (rule Cons.IH)
      show "j < length xs" using Cons.prems(1) Suc by simp
      show "xs ! k = 0" if "k < length xs" "k \<noteq> j" for k
        using Cons.prems(2) [of "Suc k"] that Suc by simp
    qed
    ultimately show ?thesis using Suc by (simp add: add_0_left)
  qed
qed simp

lemma gsum_two:
  assumes "i < length xs" "j < length xs" "i \<noteq> j"
    and "\<And>k. k < length xs \<Longrightarrow> k \<noteq> i \<Longrightarrow> k \<noteq> j \<Longrightarrow> xs ! k = 0"
  shows "gsum F xs = gf_Add F (xs ! i) (xs ! j)"
  using assms
proof (induction xs arbitrary: i j)
  case (Cons x xs)
  have one: "gsum F xs = xs ! m" if "{i, j} = {0, Suc m}" for m
  proof (rule gsum_one)
    show "m < length xs" using that Cons.prems(1,2) by (auto simp: doubleton_eq_iff)
    show "xs ! k = 0" if "k < length xs" "k \<noteq> m" for k
      using Cons.prems(4) [of "Suc k"] that \<open>{i, j} = {0, Suc m}\<close> by (auto simp: doubleton_eq_iff)
  qed
  show ?case
  proof (cases i)
    case 0
    then obtain m where m: "j = Suc m" using Cons.prems(3) by (cases j) auto
    have "gsum F xs = xs ! m"
      by (rule one) (simp add: 0 m)
    then show ?thesis using 0 m by simp
  next
    case (Suc l)
    show ?thesis
    proof (cases j)
      case 0
      have "gsum F xs = xs ! l"
        by (rule one) (auto simp: 0 Suc)
      then show ?thesis using 0 Suc by (simp add: add_comm)
    next
      case j: (Suc m)
      have "x = 0" using Cons.prems(4) [of 0] Suc j by simp
      moreover have "gsum F xs = gf_Add F (xs ! l) (xs ! m)"
      proof (rule Cons.IH)
        show "l < length xs" "m < length xs" "l \<noteq> m" using Cons.prems Suc j by auto
        show "xs ! k = 0" if "k < length xs" "k \<noteq> l" "k \<noteq> m" for k
          using Cons.prems(4) [of "Suc k"] that Suc j by simp
      qed
      ultimately show ?thesis using Suc j by (simp add: add_0_left)
    qed
  qed
qed simp

lemma dot_zero_right: "dot F v (replicate n 0) = 0"
  unfolding dot_def by (rule gsum_zero) (auto simp: set_zip mul_0)

lemma dot_zero_left: "dot F (replicate n 0) v = 0"
  unfolding dot_def by (rule gsum_zero) (auto simp: set_zip mul_0_left)

lemma dot_comm: "dot F v w = dot F w v"
proof (induction v arbitrary: w)
  case (Cons x v)
  then show ?case by (cases w) (simp_all add: mul_comm)
qed simp

lemma dot_vadd:
  "length u = length v \<Longrightarrow> length v = length w \<Longrightarrow>
     dot F (vadd F u v) w = gf_Add F (dot F u w) (dot F v w)"
proof (induction u v w rule: list_induct3)
  case (Cons x u y v z w)
  then show ?case by (simp add: vadd_def distrib distrib_right field_ac)
qed (simp add: add_0)

lemma dot_smul: "length v = length w \<Longrightarrow> dot F (smul F c v) w = gf_Mul F (dot F v w) c"
proof (induction v w rule: list_induct2)
  case (Cons x v y w)
  then show ?case by (simp add: smul_def distrib distrib_right field_ac)
qed (simp add: mul_0_left)

lemma dot_unit_vec:
  assumes "i < n" "length w = n"
  shows "dot F (unit_vec n i) w = w ! i"
proof -
  let ?xs = "map2 (gf_Mul F) (unit_vec n i) w"
  have "gsum F ?xs = ?xs ! i"
    by (rule gsum_one) (use assms in \<open>auto simp: nth_unit_vec mul_0_left\<close>)
  then show ?thesis
    using assms by (simp add: dot_def nth_unit_vec mul_1_left)
qed

lemma lincomb_unit_vec:
  assumes "i < length ps" "length (ps ! i) = len"
  shows "lincomb F len (unit_vec (length ps) i) ps = ps ! i"
  using assms by (intro nth_eqI) (auto simp: dot_unit_vec)

lemma lincomb_vadd:
  "length u = length ps \<Longrightarrow> length v = length ps \<Longrightarrow>
     lincomb F len (vadd F u v) ps = vadd F (lincomb F len u ps) (lincomb F len v ps)"
  by (intro nth_eqI) (auto simp: dot_vadd)

lemma lincomb_smul:
  "length v = length ps \<Longrightarrow> lincomb F len (smul F c v) ps = smul F c (lincomb F len v ps)"
  by (intro nth_eqI) (auto simp: dot_smul)

lemma full_rank_mono: "full_rank F n vs \<Longrightarrow> set vs \<subseteq> set ws \<Longrightarrow> full_rank F n ws"
  unfolding full_rank_def by blast

lemma full_rank_units:
  assumes "\<And>i. i < n \<Longrightarrow> unit_vec n i \<in> set vs"
  shows "full_rank F n vs"
  unfolding full_rank_def
proof (intro allI impI)
  fix w assume w: "length w = n" and z: "\<forall>v \<in> set vs. dot F v w = 0"
  show "w = replicate n 0"
    by (rule nth_eqI) (use w z assms dot_unit_vec [of _ n w] in auto)
qed

end

lemma unit_vec_2: "unit_vec 2 0 = [1, 0]" "unit_vec 2 (Suc 0) = [0, 1]"
  by (simp_all add: unit_vec_def numeral_2_eq_2)

end
