(* ===== verification/Kodr_Data.thy ===== *)
theory Kodr_Data
  imports GF_Vectors "HOL-Library.Signed_Division"
begin

text \<open>
  Model of \<^verbatim>\<open>kodr/errors.go\<close> and \<^verbatim>\<open>kodr/data.go\<close>: pieces, coded pieces, splitting a data
  chunk into original pieces and a flattened byte stream into coded pieces.  Go's \<^verbatim>\<open>uint\<close>
  parameters are 64-bit words, \<^verbatim>\<open>int(x)\<close> of such a value is \<^const>\<open>sint\<close>; \<^verbatim>\<open>int\<close> arithmetic on
  slice lengths is exact.
\<close>

datatype kodr_error =
    ErrMatrixDimensionMismatch
  | ErrAllUsefulPiecesReceived
  | ErrMoreUsefulPiecesRequired
  | ErrCopyFailedDuringPieceConstruction
  | ErrPieceCountMoreThanTotalBytes
  | ErrZeroPieceSize
  | ErrBadPieceCount
  | ErrCodedDataLengthMismatch
  | ErrCodingVectorLengthMismatch
  | ErrPieceNotDecodedYet
  | ErrPieceOutOfBound

type_synonym u64 = "64 word"

text \<open>\<^verbatim>\<open>p.Multiply(piece, by, field)\<close> updates \<open>p\<close> in place; a shorter \<open>p\<close> is indexed out of range.\<close>

definition Multiply :: "GF \<Rightarrow> bytes \<Rightarrow> bytes \<Rightarrow> byte \<Rightarrow> bytes option" where
  "Multiply F p piece c =
     for_up 0 (length piece)
       (\<lambda>i p. do { a \<leftarrow> nth_opt p i; set_opt p i (gf_Add F a (gf_Mul F (piece ! i) c)) }) p"

record CodedPiece =
  Vector :: bytes
  Piece :: bytes

definition Len :: "CodedPiece \<Rightarrow> nat" where
  "Len c = length (Vector c) + length (Piece c)"

definition Flatten :: "CodedPiece \<Rightarrow> bytes" where
  "Flatten c =
     (let res = replicate (Len c) 0;
          res = Vector c @ drop (length (Vector c)) res
      in take (length (Vector c)) res @ Piece c @ drop (length (Vector c) + length (Piece c)) res)"

text \<open>The scan of \<^verbatim>\<open>IsSystematic\<close>: \<^const>\<open>None\<close> is the early \<^verbatim>\<open>return false\<close>.\<close>

fun systematic_pos :: "bytes \<Rightarrow> nat \<Rightarrow> int \<Rightarrow> int option" where
  "systematic_pos [] i pos = Some pos"
| "systematic_pos (x # xs) i pos =
     (if x = 0 then systematic_pos xs (Suc i) pos
      else if x = 1 then (if pos \<noteq> -1 then None else systematic_pos xs (Suc i) (int i))
      else None)"

definition IsSystematic :: "CodedPiece \<Rightarrow> bool" where
  "IsSystematic c =
     (case systematic_pos (Vector c) 0 (-1) of
        None \<Rightarrow> False
      | Some pos \<Rightarrow> 0 \<le> pos \<and> pos < int (length (Vector c)))"

text \<open>
  \<^verbatim>\<open>crypto/rand.Read\<close> fills the whole vector; the bytes it delivers are the parameter \<open>rnd\<close>.
\<close>

definition GenerateCodingVector :: "(nat \<Rightarrow> bytes) \<Rightarrow> nat \<Rightarrow> bytes" where
  "GenerateCodingVector rnd n = rnd n"

definition rand_fills :: "(nat \<Rightarrow> bytes) \<Rightarrow> bool" where
  "rand_fills rnd \<longleftrightarrow> (\<forall>n. length (rnd n) = n)"

text \<open>
  \<^verbatim>\<open>math.Ceil(float64(a) / float64(b))\<close>: exact ceiling division, because slice lengths stay
  below \<open>2^53\<close>, where \<^verbatim>\<open>float64\<close> holds integers and distinguishes quotients from integers.
\<close>

definition ceil_div :: "nat \<Rightarrow> nat \<Rightarrow> nat" where
  "ceil_div a b = (a + b - 1) div b"

text \<open>Slices \<^verbatim>\<open>d[w*i : w*(i+1)]\<close> for \<open>i < n\<close>.\<close>

definition split_pieces :: "bytes \<Rightarrow> nat \<Rightarrow> nat \<Rightarrow> bytes list option" where
  "split_pieces d w n = traverse_opt (\<lambda>i. slice_opt d (w * i) (w * (i + 1))) [0..<n]"

text \<open>
  \<^verbatim>\<open>make([]byte, n)\<close> panics for a length that is negative as an \<^verbatim>\<open>int\<close>; \<^verbatim>\<open>copy\<close> returns the
  smaller length.
\<close>

definition make_bytes :: "int \<Rightarrow> bytes option" where
  "make_bytes n = (if n < 0 then None else Some (replicate (nat n) 0))"

definition copy_into :: "bytes \<Rightarrow> bytes \<Rightarrow> bytes \<times> nat" where
  "copy_into dst src =
     (let n = min (length dst) (length src) in (take n src @ drop n dst, n))"

definition OriginalPiecesFromDataAndPieceSize ::
  "bytes \<Rightarrow> u64 \<Rightarrow> (kodr_error + bytes list \<times> u64) option" where
  "OriginalPiecesFromDataAndPieceSize data pieceSize =
     (if pieceSize = 0 then Some (Inl ErrZeroPieceSize)
      else if int (length data) \<le> sint pieceSize then Some (Inl ErrBadPieceCount)
      else
        let pieceCount = ceil_div (length data) (unat pieceSize);
            padding = word_of_int (int pieceCount * sint pieceSize - int (length data)) :: u64
        in if 0 < padding then
             do { buf \<leftarrow> make_bytes (int pieceCount * sint pieceSize);
                  let (data', n) = copy_into buf data;
                  if n \<noteq> length data then Some (Inl ErrCopyFailedDuringPieceConstruction)
                  else do { pieces \<leftarrow> split_pieces data' (unat pieceSize) pieceCount;
                            Some (Inr (pieces, padding)) } }
           else do { pieces \<leftarrow> split_pieces data (unat pieceSize) pieceCount;
                     Some (Inr (pieces, padding)) })"

definition OriginalPiecesFromDataAndPieceCount ::
  "bytes \<Rightarrow> u64 \<Rightarrow> (kodr_error + bytes list \<times> u64) option" where
  "OriginalPiecesFromDataAndPieceCount data pieceCount =
     (if pieceCount < 2 then Some (Inl ErrBadPieceCount)
      else if int (length data) < sint pieceCount then Some (Inl ErrPieceCountMoreThanTotalBytes)
      else
        let pieceSize = word_of_nat (ceil_div (length data) (unat pieceCount)) :: u64;
            padding = pieceCount * pieceSize - word_of_nat (length data)
        in if 0 < padding then
             do { buf \<leftarrow> make_bytes (sint (pieceSize * pieceCount));
                  let (data', n) = copy_into buf data;
                  if n \<noteq> length data then Some (Inl ErrCopyFailedDuringPieceConstruction)
                  else do { r \<leftarrow> OriginalPiecesFromDataAndPieceSize data' pieceSize;
                            Some (case r of Inl e \<Rightarrow> Inl e
                                          | Inr (splitted, _) \<Rightarrow> Inr (splitted, padding)) } }
           else do { r \<leftarrow> OriginalPiecesFromDataAndPieceSize data pieceSize;
                     Some (case r of Inl e \<Rightarrow> Inl e
                                   | Inr (splitted, _) \<Rightarrow> Inr (splitted, padding)) })"

text \<open>
  \<^verbatim>\<open>CodedPiecesForRecoding\<close>: division by a zero count panics, as does allocating a slice of
  more than \<open>2^63 - 1\<close> pointers.
\<close>

definition split_coded :: "bytes \<Rightarrow> nat \<Rightarrow> nat \<Rightarrow> nat \<Rightarrow> CodedPiece option" where
  "split_coded data len k i =
     do { c \<leftarrow> slice_opt data (len * i) (len * (i + 1));
          v \<leftarrow> slice_opt c 0 k;
          p \<leftarrow> slice_opt c k (length c);
          Some \<lparr>Vector = v, Piece = p\<rparr> }"

definition CodedPiecesForRecoding ::
  "bytes \<Rightarrow> u64 \<Rightarrow> u64 \<Rightarrow> (kodr_error + CodedPiece list) option" where
  "CodedPiecesForRecoding data pieceCount piecesCodedTogether =
     (if pieceCount = 0 then None
      else
        let codedPieceLength = int (length data) sdiv sint pieceCount
        in if codedPieceLength * sint pieceCount \<noteq> int (length data)
           then Some (Inl ErrCodedDataLengthMismatch)
           else if \<not> piecesCodedTogether < word_of_int codedPieceLength
           then Some (Inl ErrCodingVectorLengthMismatch)
           else if sint pieceCount < 0 then None
           else do { cs \<leftarrow> traverse_opt
                            (split_coded data (nat codedPieceLength) (unat piecesCodedTogether))
                            [0..<unat pieceCount];
                     Some (Inr cs) })"

section \<open>Lemmas\<close>

declare of_nat_unat [simp del]

lemma Multiply_eq:
  assumes "length p = length piece"
  shows "Multiply F p piece c = Some (vadd F p (smul F c piece))"
proof -
  have "remap 0 (length piece) (\<lambda>i a. gf_Add F a (gf_Mul F (piece ! i) c)) p = vadd F p (smul F c piece)"
    by (rule nth_eqI) (use assms in auto)
  then show ?thesis
    using assms for_up_pointwise [of "length piece" p 0 "\<lambda>i a. gf_Add F a (gf_Mul F (piece ! i) c)"]
    by (simp add: Multiply_def)
qed

lemma Multiply_panics: "length p < length piece \<Longrightarrow> Multiply F p piece c = None"
  using for_up_pointwise_panic [of 0 p "length piece" "\<lambda>i a. gf_Add F a (gf_Mul F (piece ! i) c)"]
  by (simp add: Multiply_def)

lemma Flatten_eq: "Flatten c = Vector c @ Piece c"
  by (simp add: Flatten_def Len_def)

lemma length_Flatten [simp]: "length (Flatten c) = Len c"
  by (simp add: Flatten_eq Len_def)

lemma systematic_pos_found:
  "pos \<noteq> -1 \<Longrightarrow> systematic_pos xs i pos = (if \<forall>x \<in> set xs. x = 0 then Some pos else None)"
  by (induction xs i pos rule: systematic_pos.induct) auto

lemma systematic_pos_start:
  "systematic_pos xs i (-1) = Some p \<longleftrightarrow>
     p = -1 \<and> (\<forall>x \<in> set xs. x = 0) \<or> (\<exists>k < length xs. p = int (i + k) \<and> xs = unit_vec (length xs) k)"
proof (induction xs arbitrary: i)
  case (Cons x xs)
  have zeros: "(\<forall>x \<in> set xs. x = 0) \<longleftrightarrow> xs = replicate (length xs) 0"
    by (metis in_set_replicate replicate_eqI)
  have ex: "(\<exists>k < length (x # xs). P k) \<longleftrightarrow> P 0 \<or> (\<exists>k < length xs. P (Suc k))" for P
    by (auto simp: less_Suc_eq_0_disj)
  show ?case
    unfolding ex using Cons.IH [of "Suc i"]
    by (auto simp: systematic_pos_found zeros unit_vec_def)
qed auto

lemma IsSystematic_iff:
  "IsSystematic c \<longleftrightarrow> (\<exists>k < length (Vector c). Vector c = unit_vec (length (Vector c)) k)"
proof
  show "\<exists>k < length (Vector c). Vector c = unit_vec (length (Vector c)) k" if "IsSystematic c"
    using that systematic_pos_start [of "Vector c" 0]
    by (force simp: IsSystematic_def split: option.splits)
  show "IsSystematic c" if ex: "\<exists>k < length (Vector c). Vector c = unit_vec (length (Vector c)) k"
  proof -
    obtain k where "k < length (Vector c)" "Vector c = unit_vec (length (Vector c)) k"
      using ex by blast
    then have "systematic_pos (Vector c) 0 (-1) = Some (int k)"
      by (simp only: systematic_pos_start) auto
    then show ?thesis using \<open>k < length (Vector c)\<close> by (simp add: IsSystematic_def)
  qed
qed

lemma ceil_div_bounds:
  assumes "0 < b"
  shows "a \<le> ceil_div a b * b" "ceil_div a b * b < a + b"
proof -
  have "ceil_div a b * b + (a + b - 1) mod b = a + b - 1"
    unfolding ceil_div_def by (rule div_mult_mod_eq)
  moreover have "(a + b - 1) mod b < b" using assms by simp
  ultimately show "a \<le> ceil_div a b * b" "ceil_div a b * b < a + b"
    using assms by linarith+
qed

lemma ceil_div_mult: "0 < b \<Longrightarrow> ceil_div (b * n) b = n"
  using ceil_div_bounds [of b "b * n"] by (metis add.commute add_less_cancel_right
    le_antisym less_Suc_eq_le mult.commute mult_Suc_right mult_le_cancel2 mult_less_cancel2)

lemma split_pieces_eq:
  assumes "length d = w * n"
  shows "split_pieces d w n = Some (map (\<lambda>i. take w (drop (w * i) d)) [0..<n])"
  unfolding split_pieces_def
proof (rule traverse_opt_map)
  fix i assume "i \<in> set [0..<n]"
  then have "w * (i + 1) \<le> length d" using assms mult_le_mono2 [of "i + 1" n w] by auto
  then show "slice_opt d (w * i) (w * (i + 1)) = Some (take w (drop (w * i) d))"
    by (simp add: slice_opt_def)
qed

lemma concat_split_pieces:
  assumes "length d = w * n" "split_pieces d w n = Some ps"
  shows "concat ps = d" "length ps = n" "\<forall>p \<in> set ps. length p = w"
proof -
  have ps: "ps = map (\<lambda>i. take w (drop (w * i) d)) [0..<n]"
    using assms split_pieces_eq by simp
  show "concat ps = d" using assms(1) by (simp add: ps concat_take_drop_chunks)
  show "length ps = n" by (simp add: ps)
  have "min (length d - w * i) w = w" if "i < n" for i
    using that assms(1) mult_le_mono2 [of "i + 1" n w] by simp
  then show "\<forall>p \<in> set ps. length p = w" by (auto simp: ps)
qed

lemma copy_into_longer:
  "length src \<le> length dst \<Longrightarrow> copy_into dst src = (src @ drop (length src) dst, length src)"
  by (simp add: copy_into_def Let_def)

lemma sint_eq_unat: "unat (w :: u64) < 2 ^ 63 \<Longrightarrow> sint w = int (unat w)"
proof -
  assume "unat w < 2 ^ 63"
  then have "int (unat w) < 2 ^ 63" by simp
  then have "signed_take_bit 63 (int (unat w)) = int (unat w)"
    by (intro signed_take_bit_int_eq_self) auto
  then show ?thesis by (simp add: sint_uint uint_nat)
qed

lemma unat_word_of_int: "0 \<le> i \<Longrightarrow> i < 2 ^ 64 \<Longrightarrow> unat (word_of_int i :: u64) = nat i"
  by (simp add: unat_eq_nat_uint uint_word_of_int take_bit_int_eq_self)

text \<open>The pieces of a split: equal sizes, and together the data and its zero padding.\<close>

definition pieces_of :: "bytes \<Rightarrow> nat \<Rightarrow> bytes list \<Rightarrow> u64 \<Rightarrow> bool" where
  "pieces_of data w ps pad \<longleftrightarrow>
     concat ps = data @ replicate (unat pad) 0 \<and> (\<forall>p \<in> set ps. length p = w)"

lemma OriginalPiecesFromDataAndPieceSize_ok:
  assumes w: "0 < unat w" "unat w < length data" and len: "length data < 2 ^ 53"
  obtains ps pad where
    "OriginalPiecesFromDataAndPieceSize data w = Some (Inr (ps, pad))"
    "length ps = ceil_div (length data) (unat w)" "unat pad < unat w"
    "pieces_of data (unat w) ps pad"
proof -
  let ?n = "ceil_div (length data) (unat w)"
  have sint: "sint w = int (unat w)" using w len by (intro sint_eq_unat) simp
  have nz: "w \<noteq> 0" using w by auto
  have bounds: "length data \<le> unat w * ?n" "unat w * ?n < length data + unat w"
    using ceil_div_bounds [OF w(1), of "length data"] by (simp_all add: mult.commute)
  define k where "k = unat w * ?n - length data"
  define pad :: u64 where "pad = word_of_int (int ?n * sint w - int (length data))"
  have kk: "int ?n * sint w - int (length data) = int k"
    using bounds by (simp add: k_def sint mult.commute)
  have "k < unat w" using bounds by (simp add: k_def)
  then have pad: "unat pad = k"
    unfolding pad_def kk using w len by (subst unat_word_of_int) auto
  define d where "d = data @ replicate k 0"
  have ld: "length d = unat w * ?n" using bounds by (simp add: d_def k_def)
  obtain ps where ps: "split_pieces d (unat w) ?n = Some ps"
    using split_pieces_eq [OF ld] by blast
  have r: "OriginalPiecesFromDataAndPieceSize data w = Some (Inr (ps, pad))"
  proof (cases "k = 0")
    case True
    then have "pad = 0" using pad by (simp add: unat_0_iff)
    moreover have "d = data" using True by (simp add: d_def)
    ultimately show ?thesis
      unfolding OriginalPiecesFromDataAndPieceSize_def Let_def pad_def [symmetric]
      using nz w ps sint by simp
  next
    case False
    then have "0 < pad" using pad by (simp add: word_less_nat_alt)
    moreover have "copy_into (replicate (unat w * ?n) 0) data = (d, length data)"
      using bounds by (simp add: copy_into_longer d_def k_def)
    moreover have "make_bytes (int ?n * sint w) = Some (replicate (unat w * ?n) 0)"
      using kk by (simp add: make_bytes_def sint nat_mult_distrib mult.commute)
    ultimately show ?thesis
      unfolding OriginalPiecesFromDataAndPieceSize_def Let_def pad_def [symmetric]
      using nz w ps sint by simp
  qed
  show thesis
  proof (rule that [OF r])
    show "length ps = ?n" "pieces_of data (unat w) ps pad"
      using concat_split_pieces [OF ld ps] by (simp_all add: pieces_of_def pad d_def)
    show "unat pad < unat w" using pad \<open>k < unat w\<close> by simp
  qed
qed

lemma OriginalPiecesFromDataAndPieceCount_ok:
  assumes pc: "2 \<le> unat pc" "unat pc \<le> length data" and len: "length data < 2 ^ 52"
  obtains ps pad where
    "OriginalPiecesFromDataAndPieceCount data pc = Some (Inr (ps, pad))"
    "length ps = unat pc" "unat pad < unat pc"
    "pieces_of data (ceil_div (length data) (unat pc)) ps pad"
proof -
  let ?w = "ceil_div (length data) (unat pc)"
  have pos: "0 < unat pc" using pc by simp
  have bounds: "length data \<le> ?w * unat pc" "?w * unat pc < length data + unat pc"
    using ceil_div_bounds [OF pos, of "length data"] by simp_all
  have sint: "sint pc = int (unat pc)" using pc len by (intro sint_eq_unat) simp
  have wpos: "0 < ?w" using bounds(1) pc by (cases ?w) auto
  have total: "?w * unat pc < 2 ^ 53" using bounds pc len by simp
  moreover have "?w * 1 \<le> ?w * unat pc" using pos by (intro mult_le_mono2) simp
  ultimately have wlt: "?w < 2 ^ 53" by linarith
  define w :: u64 where "w = word_of_nat ?w"
  have w: "unat w = ?w" using wlt by (simp add: w_def unat_of_nat)
  have prod: "unat (pc * w) = ?w * unat pc" "unat (w * pc) = ?w * unat pc"
    using total w by (simp_all add: unat_word_ariths mult.commute)
  define pad where "pad = pc * w - word_of_nat (length data)"
  have pad: "unat pad = ?w * unat pc - length data"
    unfolding pad_def using bounds prod len by (simp add: unat_sub_if_size unat_of_nat word_size)
  define d where "d = data @ replicate (unat pad) 0"
  have ld: "length d = ?w * unat pc" using bounds pad by (simp add: d_def)
  have "unat w < length d" "length d < 2 ^ 53" "0 < unat w"
    using ld total w wpos pc by auto
  then obtain ps pad0 where r: "OriginalPiecesFromDataAndPieceSize d w = Some (Inr (ps, pad0))"
    and lps: "length ps = ceil_div (length d) (unat w)" and lt: "unat pad0 < unat w"
    and ps: "pieces_of d (unat w) ps pad0"
    using OriginalPiecesFromDataAndPieceSize_ok by metis
  have n: "length ps = unat pc"
    using lps ld w wpos by (simp add: ceil_div_mult)
  have "length (concat ps) = unat w * length ps"
    using ps by (intro length_concat_const) (auto simp: pieces_of_def)
  then have z: "unat pad0 = 0" using ps n ld w by (simp add: pieces_of_def)
  have ok: "OriginalPiecesFromDataAndPieceCount data pc = Some (Inr (ps, pad))"
  proof (cases "0 < pad")
    case True
    have "copy_into (replicate (?w * unat pc) 0) data = (d, length data)"
      using bounds pad by (simp add: copy_into_longer d_def)
    moreover have "sint (w * pc) = int (?w * unat pc)"
      using prod total by (simp add: sint_eq_unat)
    then have "make_bytes (sint (w * pc)) = Some (replicate (?w * unat pc) 0)"
      by (simp add: make_bytes_def del: of_nat_mult)
    ultimately show ?thesis
      unfolding OriginalPiecesFromDataAndPieceCount_def Let_def w_def [symmetric]
        pad_def [symmetric]
      using True pc sint r by (simp add: word_less_nat_alt)
  next
    case False
    then have "pad = 0" by (simp add: word_less_nat_alt unat_0_iff)
    then have "d = data" by (simp add: d_def)
    then show ?thesis
      unfolding OriginalPiecesFromDataAndPieceCount_def Let_def w_def [symmetric]
        pad_def [symmetric]
      using False pc sint r by (simp add: word_less_nat_alt)
  qed
  show thesis
  proof (rule that [OF ok n])
    show "unat pad < unat pc" using pad bounds pc by simp
    show "pieces_of data ?w ps pad"
      using ps z w by (simp add: pieces_of_def d_def)
  qed
qed

lemma CodedPiecesForRecoding_ok:
  assumes cs: "cs \<noteq> []" "\<And>c. c \<in> set cs \<Longrightarrow> length (Vector c) = k \<and> length (Piece c) = w"
    and w: "0 < w" and small: "(k + w) * length cs < 2 ^ 63"
  shows "CodedPiecesForRecoding (concat (map Flatten cs)) (word_of_nat (length cs)) (word_of_nat k)
         = Some (Inr cs)"
proof -
  let ?n = "length cs" and ?l = "k + w" and ?data = "concat (map Flatten cs)"
  have ldata: "length ?data = ?l * ?n"
    using cs(2) length_concat_const [of "map Flatten cs" ?l] by (force simp: Len_def)
  have "1 * ?n \<le> ?l * ?n" using w by (intro mult_le_mono1) simp
  then have n: "?n < 2 ^ 63" using small by linarith
  have "?l \<le> ?l * ?n" using cs(1) by (cases cs) simp_all
  then have l: "?l < 2 ^ 63" using small by (rule le_less_trans)
  have un: "unat (word_of_nat ?n :: u64) = ?n" using n by (simp add: unat_of_nat)
  have uk: "unat (word_of_nat k :: u64) = k" using l by (simp add: unat_of_nat)
  have sn: "sint (word_of_nat ?n :: u64) = int ?n" using un n by (simp add: sint_eq_unat)
  have q: "int (?l * ?n) sdiv int ?n = int ?l"
    using cs(1) w by (simp add: signed_divide_int_def sgn_mult sgn_if)
  have "unat (word_of_int (int ?l) :: u64) = ?l" using l by (subst unat_word_of_int) auto
  then have lt: "(word_of_nat k :: u64) < word_of_int (int ?l)"
    using w uk by (simp add: word_less_nat_alt)
  have tr: "traverse_opt (split_coded ?data ?l k) [0..<?n] = Some (map (\<lambda>i. cs ! i) [0..<?n])"
  proof (rule traverse_opt_map)
    fix i assume "i \<in> set [0..<?n]"
    then have i: "i < ?n" by simp
    have "?l * (i + 1) \<le> length ?data" using i ldata mult_le_mono2 [of "i + 1" ?n ?l] by simp
    moreover have "take ?l (drop (?l * i) ?data) = Flatten (cs ! i)"
      using take_drop_concat_const [of "map Flatten cs" ?l i] cs(2) i by (force simp: Len_def)
    ultimately have "slice_opt ?data (?l * i) (?l * (i + 1)) = Some (Flatten (cs ! i))"
      by (simp add: slice_opt_def)
    moreover have "length (Vector (cs ! i)) = k" "length (Piece (cs ! i)) = w"
      using cs(2) i by auto
    ultimately show "split_coded ?data ?l k i = Some (cs ! i)"
      by (simp add: split_coded_def slice_opt_def Flatten_eq)
  qed
  have nz: "(word_of_nat ?n :: u64) \<noteq> 0" using un cs(1) by (metis length_0_conv unat_0)
  show ?thesis
    unfolding CodedPiecesForRecoding_def Let_def ldata sn q un uk
    using nz lt tr by (simp add: map_nth nat_add_distrib)
qed

section \<open>Properties\<close>

text \<open>
  C11: splitting a chunk by piece count.  Every call returns: too few pieces and more pieces
  than bytes are the errors the code names, and otherwise there are exactly as many pieces as
  asked for, all of the rounded up size, whose concatenation is the chunk and its padding.
\<close>

theorem split_by_count:
  assumes len: "length data < 2 ^ 52" and pc: "unat pc < 2 ^ 63"
  shows "case OriginalPiecesFromDataAndPieceCount data pc of
       Some (Inl e) \<Rightarrow> (unat pc < 2 \<and> e = ErrBadPieceCount) \<or>
                       (2 \<le> unat pc \<and> length data < unat pc \<and> e = ErrPieceCountMoreThanTotalBytes)
     | Some (Inr (ps, pad)) \<Rightarrow> 2 \<le> unat pc \<and> unat pc \<le> length data \<and> length ps = unat pc \<and>
         unat pad < unat pc \<and> pieces_of data (ceil_div (length data) (unat pc)) ps pad
     | None \<Rightarrow> False"
proof -
  have lt: "pc < 2 \<longleftrightarrow> unat pc < 2" by (simp add: word_less_nat_alt)
  have s: "sint pc = int (unat pc)" using pc by (rule sint_eq_unat)
  consider "unat pc < 2" | "2 \<le> unat pc" "length data < unat pc" | "2 \<le> unat pc" "unat pc \<le> length data"
    by linarith
  then show ?thesis
  proof cases
    case 3
    then obtain ps pad where "OriginalPiecesFromDataAndPieceCount data pc = Some (Inr (ps, pad))"
      "length ps = unat pc" "unat pad < unat pc"
      "pieces_of data (ceil_div (length data) (unat pc)) ps pad"
      using OriginalPiecesFromDataAndPieceCount_ok len by blast
    then show ?thesis using 3 by simp
  qed (auto simp: OriginalPiecesFromDataAndPieceCount_def lt s)
qed

theorem split_by_count_witness:
  "case OriginalPiecesFromDataAndPieceCount [1, 2, 3, 4, 5] 2 of
       Some (Inl e) \<Rightarrow> (unat (2 :: u64) < 2 \<and> e = ErrBadPieceCount) \<or>
                       (2 \<le> unat (2 :: u64) \<and> length [1, 2, 3, 4, 5 :: byte] < unat (2 :: u64) \<and>
                        e = ErrPieceCountMoreThanTotalBytes)
     | Some (Inr (ps, pad)) \<Rightarrow> 2 \<le> unat (2 :: u64) \<and> unat (2 :: u64) \<le> length [1, 2, 3, 4, 5 :: byte] \<and>
         length ps = unat (2 :: u64) \<and> unat pad < unat (2 :: u64) \<and>
         pieces_of [1, 2, 3, 4, 5] (ceil_div (length [1, 2, 3, 4, 5 :: byte]) (unat (2 :: u64))) ps pad
     | None \<Rightarrow> False"
  by (rule split_by_count) simp_all

text \<open>
  Splitting a chunk by piece size, with the same contract: a zero size and a size not
  smaller than the chunk are errors, anything else gives the rounded up number of pieces of
  that size.
\<close>

theorem split_by_size:
  assumes len: "length data < 2 ^ 53" and w: "unat w < 2 ^ 63"
  shows "case OriginalPiecesFromDataAndPieceSize data w of
       Some (Inl e) \<Rightarrow> (w = 0 \<and> e = ErrZeroPieceSize) \<or>
                       (w \<noteq> 0 \<and> length data \<le> unat w \<and> e = ErrBadPieceCount)
     | Some (Inr (ps, pad)) \<Rightarrow> 0 < unat w \<and> unat w < length data \<and>
         length ps = ceil_div (length data) (unat w) \<and> unat pad < unat w \<and>
         pieces_of data (unat w) ps pad
     | None \<Rightarrow> False"
proof -
  have s: "sint w = int (unat w)" using w by (rule sint_eq_unat)
  have z: "w = 0 \<longleftrightarrow> unat w = 0" by (simp add: unat_eq_zero)
  consider "w = 0" | "w \<noteq> 0" "length data \<le> unat w" | "w \<noteq> 0" "unat w < length data"
    by linarith
  then show ?thesis
  proof cases
    case 3
    then obtain ps pad where "OriginalPiecesFromDataAndPieceSize data w = Some (Inr (ps, pad))"
      "length ps = ceil_div (length data) (unat w)" "unat pad < unat w" "pieces_of data (unat w) ps pad"
      using OriginalPiecesFromDataAndPieceSize_ok [of w data] len z by auto
    then show ?thesis using 3 z by simp
  qed (auto simp: OriginalPiecesFromDataAndPieceSize_def s)
qed

theorem split_by_size_witness:
  "case OriginalPiecesFromDataAndPieceSize [1, 2, 3, 4, 5] 2 of
       Some (Inl e) \<Rightarrow> ((2 :: u64) = 0 \<and> e = ErrZeroPieceSize) \<or>
                       ((2 :: u64) \<noteq> 0 \<and> length [1, 2, 3, 4, 5 :: byte] \<le> unat (2 :: u64) \<and> e = ErrBadPieceCount)
     | Some (Inr (ps, pad)) \<Rightarrow> 0 < unat (2 :: u64) \<and> unat (2 :: u64) < length [1, 2, 3, 4, 5 :: byte] \<and>
         length ps = ceil_div (length [1, 2, 3, 4, 5 :: byte]) (unat (2 :: u64)) \<and> unat pad < unat (2 :: u64) \<and>
         pieces_of [1, 2, 3, 4, 5] (unat (2 :: u64)) ps pad
     | None \<Rightarrow> False"
  by (rule split_by_size) simp_all

text \<open>
  Flattened coded pieces come back.  Concatenating coded pieces of equal vector and
  payload length and splitting the bytes for recoding returns the same coded pieces.
\<close>

theorem flatten_recoding_round_trip:
  assumes "cs \<noteq> []" "\<forall>c \<in> set cs. length (Vector c) = k \<and> length (Piece c) = w"
    and "0 < w" "(k + w) * length cs < 2 ^ 63"
  shows "CodedPiecesForRecoding (concat (map Flatten cs)) (word_of_nat (length cs)) (word_of_nat k)
         = Some (Inr cs)"
  by (rule CodedPiecesForRecoding_ok) (use assms in auto)

theorem flatten_recoding_round_trip_witness:
  "CodedPiecesForRecoding
     (concat (map Flatten [\<lparr>Vector = [1, 2], Piece = [3]\<rparr>, \<lparr>Vector = [4, 5], Piece = [6]\<rparr>])) 2 2 =
   Some (Inr [\<lparr>Vector = [1, 2], Piece = [3]\<rparr>, \<lparr>Vector = [4, 5], Piece = [6]\<rparr>])"
  using flatten_recoding_round_trip
    [of "[\<lparr>Vector = [1, 2], Piece = [3]\<rparr>, \<lparr>Vector = [4, 5], Piece = [6]\<rparr>]" 2 1]
  by auto

text \<open>
  \<^verbatim>\<open>IsSystematic\<close> recognises exactly the pieces whose coding vector is a unit vector.
\<close>

theorem IsSystematic_unit_vector:
  "IsSystematic c \<longleftrightarrow> (\<exists>k < length (Vector c). Vector c = unit_vec (length (Vector c)) k)"
  by (rule IsSystematic_iff)

end
