(* ===== verification/Kodr_Matrix.thy ===== *)
theory Kodr_Matrix
  imports Kodr_Data
begin

text \<open>
  Model of \<^verbatim>\<open>kodr/matrix/matrix.go\<close>: comparison and multiplication of byte matrices.  A
  matrix is the list of its rows.  The worker goroutines of \<^verbatim>\<open>Multiply\<close> each take row indices
  from a channel and write only that row of the result; the order in which the rows are
  processed is a parameter of \<open>Multiply_rows\<close>.
\<close>

type_synonym matrix = "byte list list"

definition Rows :: "matrix \<Rightarrow> nat" where
  "Rows m = length m"

text \<open>\<^verbatim>\<open>len((*m)[0])\<close> panics on a matrix without rows.\<close>

definition Cols :: "matrix \<Rightarrow> nat option" where
  "Cols m = map_option length (nth_opt m 0)"

fun cmp_row :: "bytes \<Rightarrow> bytes \<Rightarrow> bool option" where
  "cmp_row [] ys = Some True"
| "cmp_row (x # xs) [] = None"
| "cmp_row (x # xs) (y # ys) = (if x \<noteq> y then Some False else cmp_row xs ys)"

fun cmp_rows :: "matrix \<Rightarrow> matrix \<Rightarrow> bool option" where
  "cmp_rows [] ys = Some True"
| "cmp_rows (r # rs) [] = None"
| "cmp_rows (r # rs) (s # ss) =
     do { b \<leftarrow> cmp_row r s; if b then cmp_rows rs ss else Some False }"

definition Cmp :: "matrix \<Rightarrow> matrix \<Rightarrow> bool option" where
  "Cmp m m' =
     (if Rows m \<noteq> Rows m' then Some False
      else do { c \<leftarrow> Cols m; c' \<leftarrow> Cols m';
                if c \<noteq> c' then Some False else cmp_rows m m' })"

text \<open>One task of a worker: row \<open>i\<close> of the product, cell by cell.\<close>

definition Multiply_row :: "GF \<Rightarrow> matrix \<Rightarrow> matrix \<Rightarrow> nat \<Rightarrow> matrix \<Rightarrow> matrix option" where
  "Multiply_row F m with i mult =
     do { wc \<leftarrow> Cols with; mc \<leftarrow> Cols m;
          for_up 0 wc (\<lambda>j mult.
            for_up 0 mc (\<lambda>k mult.
              do { acc \<leftarrow> mget mult i j; a \<leftarrow> mget m i k; b \<leftarrow> mget with k j;
                   mset mult i j (gf_Add F acc (gf_Mul F a b)) }) mult) mult }"

definition Multiply_rows ::
  "GF \<Rightarrow> nat list \<Rightarrow> matrix \<Rightarrow> matrix \<Rightarrow> (kodr_error + matrix) option" where
  "Multiply_rows F tasks m with =
     do { c \<leftarrow> Cols m;
          if c \<noteq> Rows with then Some (Inl ErrMatrixDimensionMismatch)
          else do { wc \<leftarrow> Cols with;
                    mult \<leftarrow> for_list (Multiply_row F m with) tasks
                               (replicate (Rows m) (replicate wc 0));
                    Some (Inr mult) } }"

definition Matrix_Multiply :: "GF \<Rightarrow> matrix \<Rightarrow> matrix \<Rightarrow> (kodr_error + matrix) option" where
  "Matrix_Multiply F m with = Multiply_rows F [0..<Rows m] m with"

text \<open>A matrix with \<open>r\<close> rows of \<open>c\<close> bytes each.\<close>

definition rect :: "nat \<Rightarrow> nat \<Rightarrow> matrix \<Rightarrow> bool" where
  "rect r c m \<longleftrightarrow> length m = r \<and> (\<forall>x \<in> set m. length x = c)"

section \<open>Lemmas\<close>

lemma rect_nth: "rect r c m \<Longrightarrow> i < r \<Longrightarrow> length (m ! i) = c"
  by (auto simp: rect_def)

lemma rect_length: "rect r c m \<Longrightarrow> length m = r"
  by (simp add: rect_def)

lemma rectI: "length m = r \<Longrightarrow> (\<And>i. i < r \<Longrightarrow> length (m ! i) = c) \<Longrightarrow> rect r c m"
  by (auto simp: rect_def in_set_conv_nth)

lemma rect_update: "rect r c m \<Longrightarrow> length x = c \<Longrightarrow> rect r c (m[i := x])"
  by (auto simp: rect_def dest: set_update_subset_insert [THEN subsetD])

lemma Cols_rect: "rect r c m \<Longrightarrow> 0 < r \<Longrightarrow> Cols m = Some c"
  by (auto simp: Cols_def nth_opt_def rect_def)

lemma matrix_eqI:
  assumes "rect r c m" "rect r c m'" "\<And>i j. i < r \<Longrightarrow> j < c \<Longrightarrow> m ! i ! j = m' ! i ! j"
  shows "m = m'"
  using assms by (intro nth_eqI) (auto simp: rect_nth rect_length intro!: nth_eqI)

lemma cmp_row_eq: "length xs = length ys \<Longrightarrow> cmp_row xs ys = Some (xs = ys)"
  by (induction xs ys rule: list_induct2) auto

lemma cmp_rows_eq:
  "rect r c m \<Longrightarrow> rect r c m' \<Longrightarrow> cmp_rows m m' = Some (m = m')"
proof (induction m arbitrary: m' r)
  case Nil
  then show ?case by (simp add: rect_def)
next
  case (Cons x m)
  then obtain y m'' where m': "m' = y # m''" by (cases m') (auto simp: rect_def)
  have "cmp_rows m m'' = Some (m = m'')"
    by (rule Cons.IH [of "r - 1"]) (use Cons.prems m' in \<open>auto simp: rect_def\<close>)
  moreover have "cmp_row x y = Some (x = y)"
    by (rule cmp_row_eq) (use Cons.prems m' in \<open>auto simp: rect_def\<close>)
  ultimately show ?case using m' by simp
qed


text \<open>Accumulating one cell over \<open>k\<close> adds the dot product of row and column to it.\<close>

definition cell_upd :: "matrix \<Rightarrow> nat \<Rightarrow> nat \<Rightarrow> byte \<Rightarrow> matrix" where
  "cell_upd m i j v = m[i := (m ! i)[j := v]]"

lemma rect_cell_upd [wf_intros]: "rect r c m \<Longrightarrow> i < r \<Longrightarrow> rect r c (cell_upd m i j v)"
  unfolding cell_upd_def by (rule rect_update) (auto simp: rect_nth)

definition row_product :: "GF \<Rightarrow> matrix \<Rightarrow> matrix \<Rightarrow> nat \<Rightarrow> nat \<Rightarrow> bytes" where
  "row_product F m with c i = map (\<lambda>j. dot F (m ! i) (column with j)) [0..<c]"

context galois_field
begin

lemma gsum_append: "gsum F (xs @ ys) = gf_Add F (gsum F xs) (gsum F ys)"
  by (induction xs) (simp_all add: add_0_left add_assoc)

lemma dot_take_Suc:
  assumes "k < length v" "k < length w"
  shows "dot F (take (Suc k) v) (take (Suc k) w) =
         gf_Add F (dot F (take k v) (take k w)) (gf_Mul F (v ! k) (w ! k))"
  using assms by (simp add: dot_def take_Suc_conv_app_nth zip_append gsum_append add_0)

lemma Multiply_cell:
  assumes m: "rect r n m" and wth: "rect n c with" and mult: "rect r c mult"
    and i: "i < r" and j: "j < c" and z: "mult ! i ! j = 0"
  shows "for_up 0 n (\<lambda>k mult.
           do { acc \<leftarrow> mget mult i j; a \<leftarrow> mget m i k; b \<leftarrow> mget with k j;
                mset mult i j (gf_Add F acc (gf_Mul F a b)) }) mult =
         Some (cell_upd mult i j (dot F (m ! i) (column with j)))"
    (is "for_up 0 n ?body mult = _")
proof -
  let ?u = "\<lambda>k. dot F (take k (m ! i)) (take k (column with j))"
  have "\<exists>s'. for_up 0 n ?body mult = Some s' \<and> s' = cell_upd mult i j (?u n)"
  proof (rule for_up_rule [where I = "\<lambda>k s. s = cell_upd mult i j (?u k)"])
    show "mult = cell_upd mult i j (?u 0)"
      unfolding cell_upd_def by (simp add: z [symmetric])
    fix k s assume k: "k < n" and s: "s = cell_upd mult i j (?u k)"
    have rs: "rect r c s" using s mult i by (auto intro: wf_intros)
    have sij: "s ! i ! j = ?u k"
      using s mult i j by (simp add: cell_upd_def rect_nth rect_length)
    have "gf_Add F (?u k) (gf_Mul F (m ! i ! k) (with ! k ! j)) = ?u (Suc k)"
      using k m wth i by (subst dot_take_Suc) (auto simp: rect_nth rect_length)
    moreover have "?body k s = Some (cell_upd s i j (gf_Add F (s ! i ! j) (gf_Mul F (m ! i ! k) (with ! k ! j))))"
      using rs m wth i j k by (simp add: go_simps rect_nth rect_length cell_upd_def)
    ultimately show "\<exists>s'. ?body k s = Some s' \<and> s' = cell_upd mult i j (?u (Suc k))"
      using sij s mult i by (simp add: cell_upd_def rect_length)
  qed simp
  then show ?thesis using m wth i by (simp add: rect_nth rect_length)
qed

lemma Multiply_row_eq:
  assumes m: "rect r n m" and wth: "rect n c with" and mult: "rect r c mult"
    and i: "i < r" and n: "0 < n" and z: "mult ! i = replicate c 0"
  shows "Multiply_row F m with i mult = Some (mult[i := row_product F m with c i])"
proof -
  let ?inner = "\<lambda>j. for_up 0 n (\<lambda>k mult.
              do { acc \<leftarrow> mget mult i j; a \<leftarrow> mget m i k; b \<leftarrow> mget with k j;
                   mset mult i j (gf_Add F acc (gf_Mul F a b)) })"
  let ?row = "\<lambda>j. take j (row_product F m with c i) @ replicate (c - j) 0"
  have len: "length (row_product F m with c i) = c" by (simp add: row_product_def)
  have "\<exists>s'. for_up 0 c ?inner mult = Some s' \<and> s' = mult[i := ?row c]"
  proof (rule for_up_rule [where I = "\<lambda>j s. s = mult[i := ?row j]"])
    show "mult = mult[i := ?row 0]" using z by (simp flip: z)
    fix j s assume j: "j < c" and s: "s = mult[i := ?row j]"
    have rs: "rect r c s" unfolding s using mult j len by (auto intro: rect_update)
    have si: "s ! i = ?row j" using s i mult by (simp add: rect_length)
    have "s ! i ! j = 0" using si j len by (simp add: nth_append)
    then have "?inner j s = Some (cell_upd s i j (dot F (m ! i) (column with j)))"
      using Multiply_cell [OF m wth rs i j] by blast
    moreover have "(?row j)[j := dot F (m ! i) (column with j)] = ?row (Suc j)"
      by (rule nth_eqI) (use j len in \<open>auto simp: nth_append nth_list_update row_product_def\<close>)
    ultimately show "\<exists>s'. ?inner j s = Some s' \<and> s' = mult[i := ?row (Suc j)]"
      using s si by (simp add: cell_upd_def)
  qed simp
  moreover have "?row c = row_product F m with c i" using len by simp
  ultimately show ?thesis
    using Cols_rect [OF m] Cols_rect [OF wth] i n by (simp add: Multiply_row_def)
qed

text \<open>Whatever the order in which the workers take the rows, the result is the product.\<close>

lemma Multiply_rows_eq:
  assumes m: "rect r n m" "0 < r" and wth: "rect n c with" "0 < n"
    and tasks: "distinct tasks" "set tasks = {..<r}"
  shows "Multiply_rows F tasks m with = Some (Inr (map (row_product F m with c) [0..<r]))"
proof -
  let ?done = "\<lambda>ds i. if i \<in> ds then row_product F m with c i else replicate c 0"
  have step: "for_list (Multiply_row F m with) ts (map (?done ds) [0..<r]) =
      Some (map (?done (ds \<union> set ts)) [0..<r])"
    if "distinct ts" "set ts \<subseteq> {..<r}" "ds \<inter> set ts = {}" for ts ds
    using that
  proof (induction ts arbitrary: ds)
    case (Cons t ts)
    let ?s = "map (?done ds) [0..<r]"
    have "rect r c ?s" by (auto simp: rect_def row_product_def)
    then have "Multiply_row F m with t ?s = Some (?s[t := row_product F m with c t])"
      using Cons.prems by (intro Multiply_row_eq [OF m(1) wth(1) _ _ wth(2)]) auto
    also have "?s[t := row_product F m with c t] = map (?done (insert t ds)) [0..<r]"
      by (rule nth_eqI) (use Cons.prems in \<open>auto simp: nth_list_update\<close>)
    finally show ?case
      using Cons.prems Cons.IH [of "insert t ds"] by simp
  qed simp
  have "replicate r (replicate c 0) = map (?done {}) [0..<r]"
    by (rule nth_eqI) auto
  then have "for_list (Multiply_row F m with) tasks (replicate r (replicate c 0)) =
      Some (map (?done {..<r}) [0..<r])"
    using step [OF tasks(1), of "{}"] tasks(2) by simp
  also have "map (?done {..<r}) [0..<r] = map (row_product F m with c) [0..<r]"
    by (rule map_cong) auto
  finally show ?thesis
    using Cols_rect [OF m] Cols_rect [OF wth] rect_length [OF m(1)] rect_length [OF wth(1)]
    by (simp add: Multiply_rows_def Rows_def)
qed

end

section \<open>Properties\<close>

text \<open>
  C10: the parallel matrix product.  Whatever order the workers take the rows in, the result is
  the product of the matrices over the field; a dimension mismatch is reported as an error.
\<close>

theorem Matrix_Multiply_correct:
  assumes F: "galois_field F" and m: "rect r n m" "0 < r" and wth: "rect n' c wth" "0 < n'"
    and tasks: "distinct tasks" "set tasks = {..<r}"
  shows "Multiply_rows F tasks m wth =
     Some (if n = n' then Inr (map (row_product F m wth c) [0..<r])
           else Inl ErrMatrixDimensionMismatch)"
proof (cases "n = n'")
  case True
  then show ?thesis using galois_field.Multiply_rows_eq [OF F m, of c wth tasks] wth tasks by simp
next
  case False
  then show ?thesis
    using Cols_rect [OF m] rect_length [OF wth(1)] by (simp add: Multiply_rows_def Rows_def)
qed

theorem Matrix_Multiply_correct_witness:
  "Multiply_rows DefaultGF256 [1, 0] [[102, 82], [157, 233]] [[1], [1]] =
   Some (Inr [[52], [116]])"
  using Matrix_Multiply_correct [OF gf256.galois_field_axioms, of 2 2 "[[102, 82], [157, 233]]" 2 1 "[[1], [1]]" "[1, 0]"]
  by (simp add: rect_def row_product_def column_def gf256_eval lessThan_Suc numeral_2_eq_2 insert_commute)

end
