(* ===== verification/Decoder_State.thy ===== *)
theory Decoder_State
  imports Kodr_Matrix
begin

text \<open>
  Model of \<^verbatim>\<open>kodr/matrix/decoder_state.go\<close>: the coefficient matrix and the coded piece
  matrix of a decoder, and the in-place reduction that keeps them ready for decoding.  Rows
  are values.  The code stores the slices of the coded piece it is given and reduces them in place,
  so the model is that of a caller that gives each piece to one decoder and does not use it
  afterwards, as the client of \<^verbatim>\<open>xnc\<close> does.  The goroutines started for one pivot each rewrite one row \<open>j\<close> and
  only read the pivot row \<open>i\<close>; the order in which they run is the list of rows given to
  \<open>elim_tasks\<close>.
\<close>

record DecoderState =
  pieceCount :: nat
  coeffs :: matrix
  coded :: matrix

text \<open>\<^verbatim>\<open>for k := lo; k < hi; k++ { m[j][k] = field.Add(m[j][k], field.Mul(m[i][k], q)) }\<close>\<close>

definition axpy_row :: "GF \<Rightarrow> nat \<Rightarrow> nat \<Rightarrow> nat \<Rightarrow> nat \<Rightarrow> byte \<Rightarrow> matrix \<Rightarrow> matrix option" where
  "axpy_row F lo hi i j q =
     for_up lo hi (\<lambda>k m. do { a \<leftarrow> mget m j k; b \<leftarrow> mget m i k;
                              mset m j k (gf_Add F a (gf_Mul F b q)) })"

text \<open>The body of the goroutine for row \<open>j\<close>, the same in both passes.\<close>

definition elim_row :: "GF \<Rightarrow> nat \<Rightarrow> nat \<Rightarrow> nat \<Rightarrow> DecoderState \<Rightarrow> DecoderState option" where
  "elim_row F cols i j d =
     do { a \<leftarrow> mget (coeffs d) j i; p \<leftarrow> mget (coeffs d) i i;
          let quotient = gf_Div F a p;
          cs \<leftarrow> axpy_row F i cols i j quotient (coeffs d);
          w \<leftarrow> Cols (coded d);
          bs \<leftarrow> axpy_row F 0 w i j quotient (coded d);
          Some (d\<lparr>coeffs := cs, coded := bs\<rparr>) }"

definition elim_tasks :: "GF \<Rightarrow> nat \<Rightarrow> nat \<Rightarrow> nat list \<Rightarrow> DecoderState \<Rightarrow> DecoderState option" where
  "elim_tasks F cols i js =
     for_list (\<lambda>j d. do { x \<leftarrow> mget (coeffs d) j i;
                          if x = 0 then Some d else elim_row F cols i j d }) js"

text \<open>The search for a row with a non-zero entry in column \<open>i\<close>, from row \<open>pivot\<close> on.\<close>

fun find_pivot :: "matrix \<Rightarrow> nat \<Rightarrow> nat list \<Rightarrow> nat option option" where
  "find_pivot m i [] = Some None"
| "find_pivot m i (pivot # ps) =
     do { x \<leftarrow> mget m pivot i; if x \<noteq> 0 then Some (Some pivot) else find_pivot m i ps }"

definition swap_rows :: "nat \<Rightarrow> nat \<Rightarrow> matrix \<Rightarrow> matrix option" where
  "swap_rows i p m =
     do { x \<leftarrow> nth_opt m i; y \<leftarrow> nth_opt m p; m' \<leftarrow> set_opt m i y; set_opt m' p x }"

definition forward_step :: "GF \<Rightarrow> nat \<Rightarrow> nat \<Rightarrow> nat \<Rightarrow> DecoderState \<Rightarrow> DecoderState option" where
  "forward_step F rows cols i d =
     do { x \<leftarrow> mget (coeffs d) i i;
          if x = 0 then
            do { found \<leftarrow> find_pivot (coeffs d) i [i + 1..<rows];
                 case found of
                   None \<Rightarrow> Some d
                 | Some pivot \<Rightarrow>
                     do { cs \<leftarrow> swap_rows i pivot (coeffs d);
                          bs \<leftarrow> swap_rows i pivot (coded d);
                          elim_tasks F cols i [i + 1..<rows] (d\<lparr>coeffs := cs, coded := bs\<rparr>) } }
          else elim_tasks F cols i [i + 1..<rows] d }"

definition clean_forward :: "GF \<Rightarrow> DecoderState \<Rightarrow> DecoderState option" where
  "clean_forward F d =
     (let rows = Rows (coeffs d)
      in do { cols \<leftarrow> Cols (coeffs d);
              for_up 0 (min rows cols) (forward_step F rows cols) d })"

text \<open>Scaling the pivot row: cells right of the pivot and the coded piece times \<open>invp\<close>.\<close>

definition scale_cells :: "GF \<Rightarrow> nat \<Rightarrow> nat \<Rightarrow> bool \<Rightarrow> nat \<Rightarrow> byte \<Rightarrow> matrix \<Rightarrow> matrix option" where
  "scale_cells F lo hi skip_zero i invp =
     for_up lo hi (\<lambda>j m. do { x \<leftarrow> mget m i j;
                              if skip_zero \<and> x = 0 then Some m
                              else mset m i j (gf_Mul F x invp) })"

definition backward_step :: "GF \<Rightarrow> nat \<Rightarrow> nat \<Rightarrow> DecoderState \<Rightarrow> DecoderState option" where
  "backward_step F cols i d =
     do { x \<leftarrow> mget (coeffs d) i i;
          if x = 0 then Some d
          else do { d1 \<leftarrow> elim_tasks F cols i [0..<i] d;
                    p \<leftarrow> mget (coeffs d1) i i;
                    if p = 1 then Some d1
                    else do { let invp = gf_Div F 1 p;
                              c1 \<leftarrow> mset (coeffs d1) i i 1;
                              c2 \<leftarrow> scale_cells F (i + 1) cols True i invp c1;
                              w \<leftarrow> Cols (coded d1);
                              b2 \<leftarrow> scale_cells F 0 w False i invp (coded d1);
                              Some (d1\<lparr>coeffs := c2, coded := b2\<rparr>) } } }"

definition clean_backward :: "GF \<Rightarrow> DecoderState \<Rightarrow> DecoderState option" where
  "clean_backward F d =
     (let rows = Rows (coeffs d)
      in do { cols \<leftarrow> Cols (coeffs d);
              for_down (min rows cols) (backward_step F cols) d })"

text \<open>The scan of one row for a non-zero cell, left to right over \<open>cols\<close> columns.\<close>

fun row_is_zero :: "bytes \<Rightarrow> nat list \<Rightarrow> bool option" where
  "row_is_zero r [] = Some True"
| "row_is_zero r (j # js) = do { x \<leftarrow> nth_opt r j; if x \<noteq> 0 then Some False else row_is_zero r js }"

definition delete_row :: "nat \<Rightarrow> matrix \<Rightarrow> matrix option" where
  "delete_row i m = (if i < length m then Some (take i m @ drop (i + 1) m) else None)"

function remove_zero_loop :: "nat \<Rightarrow> nat \<Rightarrow> DecoderState \<Rightarrow> DecoderState option" where
  "remove_zero_loop cols i d =
     (if i < length (coeffs d) then
        (case row_is_zero (coeffs d ! i) [0..<cols] of
           None \<Rightarrow> None
         | Some yes \<Rightarrow>
             if \<not> yes then remove_zero_loop cols (Suc i) d
             else (case delete_row i (coded d) of
                     None \<Rightarrow> None
                   | Some bs \<Rightarrow>
                       remove_zero_loop cols i
                         (d\<lparr>coeffs := take i (coeffs d) @ drop (i + 1) (coeffs d), coded := bs\<rparr>)))
      else Some d)"
  by pat_completeness auto
termination
  by (relation "measure (\<lambda>(cols, i, d). length (coeffs d) - i)") auto

declare remove_zero_loop.simps [simp del]

definition remove_zero_rows :: "DecoderState \<Rightarrow> DecoderState option" where
  "remove_zero_rows d = do { cols \<leftarrow> Cols (coeffs d); remove_zero_loop cols 0 d }"

definition Rref :: "GF \<Rightarrow> DecoderState \<Rightarrow> DecoderState option" where
  "Rref F d = do { d \<leftarrow> clean_forward F d; d \<leftarrow> clean_backward F d; remove_zero_rows d }"

definition Rank :: "DecoderState \<Rightarrow> nat" where
  "Rank d = Rows (coeffs d)"

definition CoefficientMatrix :: "DecoderState \<Rightarrow> matrix" where
  "CoefficientMatrix d = coeffs d"

definition CodedPieceMatrix :: "DecoderState \<Rightarrow> matrix" where
  "CodedPieceMatrix d = coded d"

definition AddPiece :: "DecoderState \<Rightarrow> CodedPiece \<Rightarrow> DecoderState" where
  "AddPiece d c = d\<lparr>coeffs := coeffs d @ [Vector c], coded := coded d @ [Piece c]\<rparr>"

text \<open>The test loop of \<^verbatim>\<open>GetPiece\<close>, cell by cell, with the conditions as the code has them.\<close>

fun piece_decoded :: "bytes \<Rightarrow> nat \<Rightarrow> nat list \<Rightarrow> bool option" where
  "piece_decoded row idx [] = Some True"
| "piece_decoded row idx (i # is) =
     do { x \<leftarrow> nth_opt row i;
          if i = idx then (if x \<noteq> 1 then Some False else piece_decoded row idx is)
          else (if x = 0 then Some False else piece_decoded row idx is) }"

definition GetPiece :: "DecoderState \<Rightarrow> nat \<Rightarrow> (kodr_error + bytes) option" where
  "GetPiece d idx =
     (if pieceCount d \<le> idx then Some (Inl ErrPieceOutOfBound)
      else if Rows (coeffs d) \<le> idx then Some (Inl ErrPieceNotDecodedYet)
      else if pieceCount d \<le> Rank d then do { p \<leftarrow> nth_opt (coded d) idx; Some (Inr p) }
      else do { cols \<leftarrow> Cols (coeffs d);
                row \<leftarrow> nth_opt (coeffs d) idx;
                decoded \<leftarrow> piece_decoded row idx [0..<cols];
                if \<not> decoded then Some (Inl ErrPieceNotDecodedYet)
                else do { w \<leftarrow> Cols (coded d);
                          p \<leftarrow> nth_opt (coded d) idx;
                          Some (Inr (fst (copy_into (replicate w 0) p))) } })"

definition NewDecoderStateWithPieceCount :: "nat \<Rightarrow> DecoderState" where
  "NewDecoderStateWithPieceCount n = \<lparr>pieceCount = n, coeffs = [], coded = []\<rparr>"

definition NewDecoderState :: "matrix \<Rightarrow> matrix \<Rightarrow> DecoderState" where
  "NewDecoderState cs bs = \<lparr>pieceCount = length cs, coeffs = cs, coded = bs\<rparr>"

section \<open>Well-formed states and linear systems\<close>

definition wf_state :: "nat \<Rightarrow> nat \<Rightarrow> nat \<Rightarrow> DecoderState \<Rightarrow> bool" where
  "wf_state R n len d \<longleftrightarrow> rect R n (coeffs d) \<and> rect R len (coded d)"

text \<open>Every row of the coded matrix is the combination of the pieces its coefficients name.\<close>

definition consistent :: "GF \<Rightarrow> nat \<Rightarrow> bytes list \<Rightarrow> DecoderState \<Rightarrow> bool" where
  "consistent F len ps d \<longleftrightarrow>
     (\<forall>r < length (coeffs d). coded d ! r = lincomb F len (coeffs d ! r) ps)"

definition null_vec :: "GF \<Rightarrow> matrix \<Rightarrow> bytes \<Rightarrow> bool" where
  "null_vec F m w \<longleftrightarrow> (\<forall>v \<in> set m. dot F v w = 0)"

text \<open>Two states describe the same linear system: same solutions, same null space.\<close>

definition same_system :: "GF \<Rightarrow> nat \<Rightarrow> nat \<Rightarrow> DecoderState \<Rightarrow> DecoderState \<Rightarrow> bool" where
  "same_system F n len d d' \<longleftrightarrow>
     pieceCount d' = pieceCount d \<and>
     (\<forall>w. length w = n \<longrightarrow> null_vec F (coeffs d') w = null_vec F (coeffs d) w) \<and>
     (\<forall>ps. length ps = n \<longrightarrow> consistent F len ps d \<longrightarrow> consistent F len ps d')"

lemma same_system_refl: "same_system F n len d d"
  by (simp add: same_system_def)

lemma same_system_trans:
  "same_system F n len d d' \<Longrightarrow> same_system F n len d' d'' \<Longrightarrow> same_system F n len d d''"
  by (simp add: same_system_def)

lemma null_vec_nth: "null_vec F m w \<longleftrightarrow> (\<forall>r < length m. dot F (m ! r) w = 0)"
  by (simp add: null_vec_def all_set_conv_all_nth)

lemma full_rank_null_vec:
  "full_rank F n vs \<longleftrightarrow> (\<forall>w. length w = n \<longrightarrow> null_vec F vs w \<longrightarrow> w = replicate n 0)"
  by (simp add: full_rank_def null_vec_def)

lemma wf_state_coeffs: "wf_state R n len d \<Longrightarrow> rect R n (coeffs d)"
  and wf_state_coded: "wf_state R n len d \<Longrightarrow> rect R len (coded d)"
  by (simp_all add: wf_state_def)

lemmas wf_simps = wf_state_coeffs [THEN rect_length] wf_state_coded [THEN rect_length]
  wf_state_coeffs [THEN rect_nth] wf_state_coded [THEN rect_nth]

section \<open>The loops as row operations\<close>

lemma state_upd_id: "d\<lparr>coeffs := coeffs d, coded := coded d\<rparr> = d"
  by simp

lemma axpy_row_eq:
  assumes m: "rect R c m" and ij: "i < R" "j < R" "i \<noteq> j" and hi: "lo \<le> hi" "hi \<le> c"
  shows "axpy_row F lo hi i j q m =
         Some (m[j := remap lo hi (\<lambda>k a. gf_Add F a (gf_Mul F (m ! i ! k) q)) (m ! j)])"
proof -
  let ?g = "\<lambda>k a. gf_Add F a (gf_Mul F (m ! i ! k) q)"
  let ?body = "\<lambda>k m. do { a \<leftarrow> mget m j k; b \<leftarrow> mget m i k;
                          mset m j k (gf_Add F a (gf_Mul F b q)) }"
  have "\<exists>s. for_up lo hi ?body m = Some s \<and> s = m[j := remap lo hi ?g (m ! j)]"
  proof (rule for_up_rule [where I = "\<lambda>k s. s = m[j := remap lo k ?g (m ! j)]"])
    show "m = m[j := remap lo lo ?g (m ! j)]" by (simp add: remap_empty)
    fix k s assume k: "lo \<le> k" "k < hi" and s: "s = m[j := remap lo k ?g (m ! j)]"
    have kc: "k < length (m ! j)" "k < length (m ! i)"
      using m ij k hi by (auto simp: rect_nth)
    have "s ! j = remap lo k ?g (m ! j)" "s ! i = m ! i" "length s = R"
      using s ij m by (auto simp: rect_length)
    then have "?body k s = Some (s[j := (remap lo k ?g (m ! j))[k := ?g k (m ! j ! k)]])"
      using kc k ij by (simp add: go_simps)
    also have "(remap lo k ?g (m ! j))[k := ?g k (m ! j ! k)] = remap lo (Suc k) ?g (m ! j)"
      using kc k by (intro remap_Suc) auto
    finally show "\<exists>s'. ?body k s = Some s' \<and> s' = m[j := remap lo (Suc k) ?g (m ! j)]"
      using s by simp
  qed (use hi in auto)
  then show ?thesis by (simp add: axpy_row_def)
qed

lemma scale_cells_eq:
  assumes m: "rect R c m" and i: "i < R" and hi: "lo \<le> hi" "hi \<le> c"
    and skip: "skip \<Longrightarrow> gf_Mul F 0 q = 0"
  shows "scale_cells F lo hi skip i q m =
         Some (m[i := remap lo hi (\<lambda>_ a. gf_Mul F a q) (m ! i)])"
proof -
  let ?g = "\<lambda>_ a. gf_Mul F a q"
  let ?body = "\<lambda>j m. do { x \<leftarrow> mget m i j;
                          if skip \<and> x = 0 then Some m else mset m i j (gf_Mul F x q) }"
  have "\<exists>s. for_up lo hi ?body m = Some s \<and> s = m[i := remap lo hi ?g (m ! i)]"
  proof (rule for_up_rule [where I = "\<lambda>k s. s = m[i := remap lo k ?g (m ! i)]"])
    show "m = m[i := remap lo lo ?g (m ! i)]" by (simp add: remap_empty)
    fix k s assume k: "lo \<le> k" "k < hi" and s: "s = m[i := remap lo k ?g (m ! i)]"
    have kc: "k < length (m ! i)" using m i k hi by (simp add: rect_nth)
    have si: "s ! i = remap lo k ?g (m ! i)" "length s = R" using s i m by (auto simp: rect_length)
    have upd: "(s ! i)[k := gf_Mul F (m ! i ! k) q] = remap lo (Suc k) ?g (m ! i)"
      unfolding si using kc k by (intro remap_Suc) auto
    have "s ! i ! k = m ! i ! k" using si kc by simp
    moreover have "s = s[i := (s ! i)[k := gf_Mul F (m ! i ! k) q]]" if "skip \<and> m ! i ! k = 0"
      using that skip si(1) kc by (metis list_update_id nth_remap order_less_irrefl)
    ultimately have "?body k s = Some (s[i := (s ! i)[k := gf_Mul F (m ! i ! k) q]])"
      using si kc i by (auto simp: go_simps)
    then show "\<exists>s'. ?body k s = Some s' \<and> s' = m[i := remap lo (Suc k) ?g (m ! i)]"
      unfolding upd using s by simp
  qed (use hi in auto)
  then show ?thesis by (simp add: scale_cells_def)
qed

lemma find_pivot_eq:
  assumes "rect R n m" "i < n" "set ps \<subseteq> {..<R}"
  shows "find_pivot m i ps = Some (find (\<lambda>p. m ! p ! i \<noteq> 0) ps)"
  using assms(3)
proof (induction ps)
  case (Cons p ps)
  then have "mget m p i = Some (m ! p ! i)"
    using assms(1,2) by (simp add: go_simps rect_nth rect_length)
  with Cons show ?case by simp
qed simp

definition exch :: "nat \<Rightarrow> nat \<Rightarrow> matrix \<Rightarrow> matrix" where
  "exch i p m = m[i := m ! p, p := m ! i]"

lemma swap_rows_eq: "i < length m \<Longrightarrow> p < length m \<Longrightarrow> swap_rows i p m = Some (exch i p m)"
  by (simp add: swap_rows_def exch_def go_simps)

lemma set_exch: "i < length m \<Longrightarrow> p < length m \<Longrightarrow> set (exch i p m) = set m"
  unfolding exch_def by (rule set_swap)

lemma rect_exch: "rect R c m \<Longrightarrow> i < R \<Longrightarrow> p < R \<Longrightarrow> rect R c (exch i p m)"
  by (simp add: rect_def set_exch) (simp add: exch_def)

lemma nth_exch:
  "i < length m \<Longrightarrow> p < length m \<Longrightarrow> r < length m \<Longrightarrow>
     exch i p m ! r = m ! (if r = p then i else if r = i then p else r)"
  by (auto simp: exch_def nth_list_update)

lemma length_exch [simp]: "length (exch i p m) = length m"
  by (simp add: exch_def)

lemma same_system_exch:
  assumes "wf_state R n len d" "i < R" "p < R"
  shows "same_system F n len d (d\<lparr>coeffs := exch i p (coeffs d), coded := exch i p (coded d)\<rparr>)"
    and "wf_state R n len (d\<lparr>coeffs := exch i p (coeffs d), coded := exch i p (coded d)\<rparr>)"
proof -
  have "rect R n (coeffs d)" "rect R len (coded d)" using assms by (auto simp: wf_state_def)
  with assms(2,3) show "wf_state R n len (d\<lparr>coeffs := exch i p (coeffs d), coded := exch i p (coded d)\<rparr>)"
    by (simp add: wf_state_def rect_exch)
  show "same_system F n len d (d\<lparr>coeffs := exch i p (coeffs d), coded := exch i p (coded d)\<rparr>)"
    using assms by (auto simp: same_system_def null_vec_def set_exch consistent_def nth_exch wf_simps)
qed

section \<open>Elimination with one pivot row\<close>

text \<open>
  The effect of the goroutines for pivot \<open>i\<close> on the rows of \<open>S\<close>: each gets the multiple of the
  pivot row that clears its entry in column \<open>i\<close>.
\<close>

definition elim_quot :: "GF \<Rightarrow> nat \<Rightarrow> matrix \<Rightarrow> nat \<Rightarrow> byte" where
  "elim_quot F i A r = gf_Div F (A ! r ! i) (A ! i ! i)"

definition elim_mat :: "GF \<Rightarrow> nat \<Rightarrow> nat set \<Rightarrow> matrix \<Rightarrow> matrix \<Rightarrow> matrix" where
  "elim_mat F i S A m =
     map (\<lambda>r. if r \<in> S then vadd F (m ! r) (smul F (elim_quot F i A r) (m ! i)) else m ! r)
       [0..<length m]"

definition elim_all :: "GF \<Rightarrow> nat \<Rightarrow> nat set \<Rightarrow> DecoderState \<Rightarrow> DecoderState" where
  "elim_all F i S d =
     d\<lparr>coeffs := elim_mat F i S (coeffs d) (coeffs d), coded := elim_mat F i S (coeffs d) (coded d)\<rparr>"

definition pivot_row :: "nat \<Rightarrow> matrix \<Rightarrow> bool" where
  "pivot_row i A \<longleftrightarrow> A ! i ! i \<noteq> 0 \<and> (\<forall>k < i. A ! i ! k = 0)"

lemma length_elim_mat [simp]: "length (elim_mat F i S A m) = length m"
  by (simp add: elim_mat_def)

lemma nth_elim_mat:
  "r < length m \<Longrightarrow> elim_mat F i S A m ! r =
     (if r \<in> S then vadd F (m ! r) (smul F (elim_quot F i A r) (m ! i)) else m ! r)"
  by (simp add: elim_mat_def)

lemma elim_mat_empty: "elim_mat F i {} A m = m"
  by (rule nth_eqI) (auto simp: nth_elim_mat)

lemma rect_elim_mat: "rect R c m \<Longrightarrow> i < R \<Longrightarrow> rect R c (elim_mat F i S A m)"
  by (rule rectI) (auto simp: nth_elim_mat rect_nth rect_length)

lemma elim_mat_insert:
  assumes "rect R c m" "i < R" "j < R" "i \<noteq> j" "i \<notin> S" "j \<notin> S"
  shows "(elim_mat F i S A m)[j := vadd F (m ! j) (smul F (elim_quot F i A j) (m ! i))] =
         elim_mat F i (insert j S) A m"
  by (rule nth_eqI) (use assms in \<open>auto simp: nth_elim_mat nth_list_update rect_length\<close>)

lemma wf_elim_all: "wf_state R n len d \<Longrightarrow> i < R \<Longrightarrow> wf_state R n len (elim_all F i S d)"
  by (simp add: wf_state_def elim_all_def rect_elim_mat)

context galois_field
begin

lemma remap_axpy_full:
  assumes "length x = c" "length y = c" "\<forall>k < lo. x ! k = 0"
  shows "remap lo c (\<lambda>k a. gf_Add F a (gf_Mul F (x ! k) q)) y = vadd F y (smul F q x)"
  by (rule nth_eqI) (use assms in \<open>auto simp: mul_0_left add_0\<close>)

lemma smul_0: "smul F 0 v = replicate (length v) 0"
  by (rule nth_eqI) (auto simp: mul_0)

lemma vadd_0: "length v = n \<Longrightarrow> vadd F v (replicate n 0) = v"
  by (rule nth_eqI) (auto simp: add_0)

lemma elim_row_step:
  assumes wf: "wf_state R n len d" and ij: "i < R" "j < R" "i \<noteq> j" "i < n"
    and S: "i \<notin> S" "j \<notin> S" and piv: "pivot_row i (coeffs d)"
  shows "(do { x \<leftarrow> mget (coeffs (elim_all F i S d)) j i;
              if x = 0 then Some (elim_all F i S d) else elim_row F n i j (elim_all F i S d) })
         = Some (elim_all F i (insert j S) d)"
proof -
  let ?e = "elim_all F i S d" and ?q = "elim_quot F i (coeffs d) j"
  have rA: "rect R n (coeffs d)" and rB: "rect R len (coded d)" using wf by (auto simp: wf_state_def)
  have we: "wf_state R n len ?e" using wf ij by (simp add: wf_elim_all)
  then have reA: "rect R n (coeffs ?e)" and reB: "rect R len (coded ?e)" by (auto simp: wf_state_def)
  have rows: "coeffs ?e ! i = coeffs d ! i" "coeffs ?e ! j = coeffs d ! j"
    "coded ?e ! i = coded d ! i" "coded ?e ! j = coded d ! j"
    using S ij rA rB by (auto simp: elim_all_def nth_elim_mat rect_length)
  have len: "length (coeffs d ! i) = n" "length (coeffs d ! j) = n"
    "length (coded d ! i) = len" "length (coded d ! j) = len"
    using rA rB ij by (auto simp: rect_nth)
  have x: "mget (coeffs ?e) j i = Some (coeffs d ! j ! i)"
    "mget (coeffs ?e) i i = Some (coeffs d ! i ! i)"
    using ij rows len by (simp_all add: mget_in rect_length [OF reA])
  have ins: "elim_all F i (insert j S) d =
      ?e\<lparr>coeffs := (coeffs ?e)[j := vadd F (coeffs d ! j) (smul F ?q (coeffs d ! i))],
         coded := (coded ?e)[j := vadd F (coded d ! j) (smul F ?q (coded d ! i))]\<rparr>"
    using elim_mat_insert [OF rA ij(1-3) S] elim_mat_insert [OF rB ij(1-3) S]
    by (simp add: elim_all_def)
  show ?thesis
  proof (cases "coeffs d ! j ! i = 0")
    case True
    then have "?q = 0" using piv by (simp add: elim_quot_def pivot_row_def div_eq_0_iff)
    then have "vadd F (coeffs d ! j) (smul F ?q (coeffs d ! i)) = coeffs ?e ! j"
      "vadd F (coded d ! j) (smul F ?q (coded d ! i)) = coded ?e ! j"
      using len rows by (simp_all add: smul_0 vadd_0)
    then have "elim_all F i (insert j S) d = ?e"
      unfolding ins by (simp only: list_update_id state_upd_id)
    then show ?thesis using True x by simp
  next
    case False
    have "axpy_row F i n i j ?q (coeffs ?e) =
        Some ((coeffs ?e)[j := vadd F (coeffs d ! j) (smul F ?q (coeffs d ! i))])"
      using axpy_row_eq [OF reA ij(1-3), of i n F ?q] ij(4) len piv rows
      by (simp add: remap_axpy_full pivot_row_def)
    moreover have "axpy_row F 0 len i j ?q (coded ?e) =
        Some ((coded ?e)[j := vadd F (coded d ! j) (smul F ?q (coded d ! i))])"
      using axpy_row_eq [OF reB ij(1-3), of 0 len F ?q] len rows
      by (simp add: remap_axpy_full)
    moreover have "Cols (coded ?e) = Some len" using Cols_rect [OF reB] ij by simp
    ultimately have "elim_row F n i j ?e = Some (elim_all F i (insert j S) d)"
      unfolding ins elim_row_def x by (simp add: elim_quot_def Let_def)
    then show ?thesis using False x by simp
  qed
qed

lemma elim_tasks_eq:
  assumes wf: "wf_state R n len d" and i: "i < R" "i < n" and piv: "pivot_row i (coeffs d)"
    and js: "distinct js" "set js \<subseteq> {..<R} - {i}"
  shows "elim_tasks F n i js d = Some (elim_all F i (set js) d)"
proof -
  have "elim_tasks F n i js (elim_all F i S d) = Some (elim_all F i (S \<union> set js) d)"
    if "i \<notin> S" "S \<inter> set js = {}" for S
    using js that
  proof (induction js arbitrary: S)
    case (Cons j js)
    then have "i < R" "j < R" "i \<noteq> j" "i < n" "i \<notin> S" "j \<notin> S" using i by auto
    then have "elim_tasks F n i (j # js) (elim_all F i S d) =
        elim_tasks F n i js (elim_all F i (insert j S) d)"
      using elim_row_step [OF wf _ _ _ _ _ _ piv] by (simp add: elim_tasks_def)
    also have "\<dots> = Some (elim_all F i (insert j S \<union> set js) d)"
      by (rule Cons.IH) (use Cons.prems in auto)
    finally show ?case by simp
  qed (simp add: elim_tasks_def)
  from this [of "{}"] show ?thesis by (simp add: elim_all_def elim_mat_empty)
qed

lemma same_system_elim:
  assumes wf: "wf_state R n len d" and i: "i < R" "i \<notin> S"
  shows "same_system F n len d (elim_all F i S d)"
proof -
  let ?A = "coeffs d" and ?q = "elim_quot F i (coeffs d)"
  have rA: "rect R n ?A" and rB: "rect R len (coded d)" using wf by (auto simp: wf_state_def)
  have dots: "dot F (elim_mat F i S ?A ?A ! r) w =
      (if r \<in> S then gf_Add F (dot F (?A ! r) w) (gf_Mul F (dot F (?A ! i) w) (?q r))
       else dot F (?A ! r) w)" if "r < R" "length w = n" for r w
    using that rA i by (simp add: nth_elim_mat rect_length rect_nth dot_vadd dot_smul)
  have "null_vec F (elim_mat F i S ?A ?A) w = null_vec F ?A w" if w: "length w = n" for w
  proof
    assume null: "null_vec F (elim_mat F i S ?A ?A) w"
    then have new: "dot F (elim_mat F i S ?A ?A ! r) w = 0" if "r < R" for r
      using that rA by (simp add: null_vec_nth rect_length)
    have "dot F (?A ! i) w = 0" using new [of i] dots [OF _ w, of i] i by simp
    then have "dot F (?A ! r) w = 0" if "r < R" for r
      using new [OF that] dots [OF that w] by (simp add: mul_0_left add_0 split: if_splits)
    then show "null_vec F ?A w" using rA by (simp add: null_vec_nth rect_length)
  next
    assume "null_vec F ?A w"
    then have "dot F (?A ! r) w = 0" if "r < R" for r
      using that rA by (simp add: null_vec_nth rect_length)
    then show "null_vec F (elim_mat F i S ?A ?A) w"
      using dots [OF _ w] i rA by (simp add: null_vec_nth rect_length mul_0_left add_0)
  qed
  moreover have "consistent F len ps (elim_all F i S d)"
    if "length ps = n" "consistent F len ps d" for ps
    using that i rA rB
    by (auto simp: consistent_def elim_all_def nth_elim_mat rect_length rect_nth
        lincomb_vadd lincomb_smul)
  ultimately show ?thesis by (simp add: same_system_def elim_all_def)
qed

text \<open>Entries after the elimination.\<close>

lemma elim_entry:
  assumes "rect R n A" "r < R" "c < n" "i < R"
  shows "elim_mat F i S A A ! r ! c =
     (if r \<in> S then gf_Add F (A ! r ! c) (gf_Mul F (A ! i ! c) (elim_quot F i A r)) else A ! r ! c)"
  using assms by (simp add: nth_elim_mat rect_length rect_nth)

lemma elim_entry_zero:
  assumes "rect R n A" "r < R" "c < n" "i < R" "A ! i ! c = 0"
  shows "elim_mat F i S A A ! r ! c = A ! r ! c"
  using assms by (simp add: elim_entry mul_0_left add_0)

lemma elim_entry_pivot:
  assumes "rect R n A" "r < R" "i < n" "i < R" "r \<in> S" "A ! i ! i \<noteq> 0"
  shows "elim_mat F i S A A ! r ! i = 0"
  using assms by (simp add: elim_entry elim_quot_def mul_div add_self)

end

section \<open>Forward pass: upper triangular\<close>

text \<open>The first \<open>k\<close> columns are zero below the diagonal.\<close>

definition upper :: "nat \<Rightarrow> matrix \<Rightarrow> bool" where
  "upper k A \<longleftrightarrow> (\<forall>c < k. \<forall>r < length A. c < r \<longrightarrow> A ! r ! c = 0)"

lemma upper_exch:
  assumes "upper i A" "i \<le> p" "p < length A"
  shows "upper i (exch i p A)"
  using assms by (auto simp: upper_def nth_exch)

context galois_field
begin

lemma upper_elim:
  assumes A: "rect R n A" "upper i A" "A ! i ! i \<noteq> 0" and i: "i < R" "i < n"
  shows "upper (Suc i) (elim_mat F i {i + 1..<R} A A)"
  unfolding upper_def
proof (intro allI impI)
  fix c r assume c: "c < Suc i" and r: "r < length (elim_mat F i {i + 1..<R} A A)" "c < r"
  then have rR: "r < R" using A by (simp add: rect_length)
  show "elim_mat F i {i + 1..<R} A A ! r ! c = 0"
  proof (cases "c = i")
    case True
    then show ?thesis using A i rR r by (simp add: elim_entry_pivot)
  next
    case False
    then have "A ! i ! c = 0" "A ! r ! c = 0"
      using A c r i rR by (auto simp: upper_def rect_length)
    then show ?thesis using A(1) i rR c by (simp add: elim_entry_zero)
  qed
qed

lemma forward_elim:
  assumes wf: "wf_state R n len d" and i: "i < R" "i < n"
    and up: "upper i (coeffs d)" and nz: "coeffs d ! i ! i \<noteq> 0"
  shows "\<exists>d'. elim_tasks F n i [i + 1..<R] d = Some d' \<and> wf_state R n len d' \<and>
     same_system F n len d d' \<and> upper (Suc i) (coeffs d')"
proof -
  have rA: "rect R n (coeffs d)" using wf by (rule wf_state_coeffs)
  have "pivot_row i (coeffs d)"
    using up nz i rA by (auto simp: pivot_row_def upper_def rect_length)
  then have "elim_tasks F n i [i + 1..<R] d = Some (elim_all F i {i + 1..<R} d)"
    using elim_tasks_eq [OF wf i(1,2), of "[i + 1..<R]"] by (simp add: subset_iff)
  moreover have "upper (Suc i) (coeffs (elim_all F i {i + 1..<R} d))"
    using upper_elim [OF rA up nz i] by (simp add: elim_all_def)
  moreover have "same_system F n len d (elim_all F i {i + 1..<R} d)"
    by (rule same_system_elim [OF wf i(1)]) simp
  ultimately show ?thesis using wf_elim_all [OF wf i(1)] by blast
qed

lemma forward_step_ok:
  assumes wf: "wf_state R n len d" and i: "i < R" "i < n" and up: "upper i (coeffs d)"
  shows "\<exists>d'. forward_step F R n i d = Some d' \<and> wf_state R n len d' \<and>
     same_system F n len d d' \<and> upper (Suc i) (coeffs d')"
proof -
  have rA: "rect R n (coeffs d)" using wf by (rule wf_state_coeffs)
  have x: "mget (coeffs d) i i = Some (coeffs d ! i ! i)"
    using rA i by (simp add: go_simps rect_nth rect_length)
  have fp: "find_pivot (coeffs d) i [i + 1..<R] = Some (find (\<lambda>p. coeffs d ! p ! i \<noteq> 0) [i + 1..<R])"
    using find_pivot_eq [OF rA i(2), of "[i + 1..<R]"] by (simp add: subset_iff)
  show ?thesis
  proof (cases "coeffs d ! i ! i = 0")
    case nz: False
    then show ?thesis using forward_elim [OF wf i up] x by (simp add: forward_step_def)
  next
    case z: True
    show ?thesis
    proof (cases "find (\<lambda>p. coeffs d ! p ! i \<noteq> 0) [i + 1..<R]")
      case None
      then have col: "coeffs d ! r ! i = 0" if "i < r" "r < R" for r
        using that by (auto simp: find_None_iff)
      have "upper (Suc i) (coeffs d)"
        using up col rA by (auto simp: upper_def less_Suc_eq rect_length)
      then show ?thesis
        using z x fp None wf by (auto simp: forward_step_def same_system_refl)
    next
      case (Some p)
      then have p: "i < p" "p < R" "coeffs d ! p ! i \<noteq> 0"
        by (auto simp: find_Some_iff)
      let ?d = "d\<lparr>coeffs := exch i p (coeffs d), coded := exch i p (coded d)\<rparr>"
      have sw: "swap_rows i p (coeffs d) = Some (exch i p (coeffs d))"
        "swap_rows i p (coded d) = Some (exch i p (coded d))"
        using wf i p by (simp_all add: swap_rows_eq wf_simps)
      have ss: "same_system F n len d ?d" and wf': "wf_state R n len ?d"
        using same_system_exch [OF wf i(1) p(2)] by auto
      have "upper i (coeffs ?d)" "coeffs ?d ! i ! i \<noteq> 0"
        using up p i rA by (auto simp: upper_exch nth_exch rect_length)
      from forward_elim [OF wf' i this] obtain d' where
        "elim_tasks F n i [i + 1..<R] ?d = Some d'" "wf_state R n len d'"
        "same_system F n len ?d d'" "upper (Suc i) (coeffs d')" by blast
      then show ?thesis
        using z x fp Some sw same_system_trans [OF ss] by (auto simp: forward_step_def)
    qed
  qed
qed

lemma clean_forward_ok:
  assumes wf: "wf_state R n len d" and R: "0 < R"
  shows "\<exists>d'. clean_forward F d = Some d' \<and> wf_state R n len d' \<and>
     same_system F n len d d' \<and> upper (min R n) (coeffs d')"
proof -
  let ?I = "\<lambda>k s. wf_state R n len s \<and> same_system F n len d s \<and> upper k (coeffs s)"
  have "\<exists>s. for_up 0 (min R n) (forward_step F R n) d = Some s \<and> ?I (min R n) s"
  proof (rule for_up_rule [where I = ?I])
    show "?I 0 d" using wf by (simp add: same_system_refl upper_def)
    fix k s assume k: "k < min R n" and I: "?I k s"
    then show "\<exists>s'. forward_step F R n k s = Some s' \<and> ?I (Suc k) s'"
      using forward_step_ok [of R n len s k] same_system_trans by fastforce
  qed simp
  then show ?thesis
    using Cols_rect [OF wf_state_coeffs [OF wf] R] wf
    by (simp add: clean_forward_def Rows_def wf_simps)
qed

end

section \<open>Backward pass: reduced\<close>

text \<open>
  Column \<open>c\<close> is reduced: its diagonal entry is zero, or it is one and nothing stands above it.
\<close>

definition reduced_col :: "nat \<Rightarrow> matrix \<Rightarrow> bool" where
  "reduced_col c A \<longleftrightarrow> A ! c ! c = 0 \<or> A ! c ! c = 1 \<and> (\<forall>r < c. A ! r ! c = 0)"

definition scale_state :: "GF \<Rightarrow> nat \<Rightarrow> byte \<Rightarrow> DecoderState \<Rightarrow> DecoderState" where
  "scale_state F i q d =
     d\<lparr>coeffs := (coeffs d)[i := smul F q (coeffs d ! i)],
       coded := (coded d)[i := smul F q (coded d ! i)]\<rparr>"

lemma wf_scale_state: "wf_state R n len d \<Longrightarrow> i < R \<Longrightarrow> wf_state R n len (scale_state F i q d)"
  by (auto simp: wf_state_def scale_state_def intro!: rect_update simp: rect_nth)

context galois_field
begin

lemma same_system_scale:
  assumes wf: "wf_state R n len d" and i: "i < R" and q: "q \<noteq> 0"
  shows "same_system F n len d (scale_state F i q d)"
proof -
  let ?A = "coeffs d" and ?A' = "(coeffs d)[i := smul F q (coeffs d ! i)]"
  have rA: "rect R n ?A" and rB: "rect R len (coded d)" using wf by (auto simp: wf_state_def)
  have d: "dot F (?A' ! r) w = 0 \<longleftrightarrow> dot F (?A ! r) w = 0" if "r < R" "length w = n" for r w
    using that rA i q by (simp add: nth_list_update rect_length rect_nth dot_smul mul_eq_0_iff)
  then have "null_vec F ?A' w = null_vec F ?A w" if "length w = n" for w
    using that rA by (simp add: null_vec_nth rect_length)
  moreover have "consistent F len ps (scale_state F i q d)"
    if "length ps = n" "consistent F len ps d" for ps
    using that i rA rB
    by (auto simp: consistent_def scale_state_def nth_list_update rect_length rect_nth lincomb_smul)
  ultimately show ?thesis by (simp add: same_system_def scale_state_def)
qed

lemma backward_scale:
  assumes wf: "wf_state R n len d" and i: "i < R" "i < n" and piv: "pivot_row i (coeffs d)"
  shows "(do { c1 \<leftarrow> mset (coeffs d) i i 1;
              c2 \<leftarrow> scale_cells F (i + 1) n True i (gf_Div F 1 (coeffs d ! i ! i)) c1;
              w \<leftarrow> Cols (coded d);
              b2 \<leftarrow> scale_cells F 0 w False i (gf_Div F 1 (coeffs d ! i ! i)) (coded d);
              Some (d\<lparr>coeffs := c2, coded := b2\<rparr>) }) =
         Some (scale_state F i (gf_Div F 1 (coeffs d ! i ! i)) d)"
proof -
  let ?A = "coeffs d" and ?q = "gf_Div F 1 (coeffs d ! i ! i)"
  have rA: "rect R n ?A" and rB: "rect R len (coded d)" using wf by (auto simp: wf_state_def)
  let ?c1 = "?A[i := (?A ! i)[i := 1]]"
  have r1: "rect R n ?c1" using rA i by (intro rect_update) (auto simp: rect_nth)
  have "remap (i + 1) n (\<lambda>_ a. gf_Mul F a ?q) ((?A ! i)[i := 1]) = smul F ?q (?A ! i)"
    by (rule nth_eqI)
      (use rA i piv in \<open>auto simp: rect_nth nth_list_update pivot_row_def mul_div mul_0_left\<close>)
  then have "scale_cells F (i + 1) n True i ?q ?c1 = Some (?A[i := smul F ?q (?A ! i)])"
    using scale_cells_eq [OF r1 i(1), of "i + 1" n True F ?q] rA i by (simp add: mul_0_left rect_length)
  moreover have "remap 0 len (\<lambda>_ a. gf_Mul F a ?q) (coded d ! i) = smul F ?q (coded d ! i)"
    by (rule nth_eqI) (use rB i in \<open>auto simp: rect_nth\<close>)
  then have "scale_cells F 0 len False i ?q (coded d) = Some ((coded d)[i := smul F ?q (coded d ! i)])"
    using scale_cells_eq [OF rB i(1), of 0 len False F ?q] by simp
  moreover have "mset ?A i i 1 = Some ?c1" using rA i by (simp add: go_simps rect_nth rect_length)
  moreover have "Cols (coded d) = Some len" using Cols_rect [OF rB] i by simp
  ultimately show ?thesis by (simp add: scale_state_def)
qed

end

context galois_field
begin

text \<open>Clearing column \<open>i\<close> above the pivot keeps what the columns to the right already have.\<close>

lemma backward_elim_shape:
  assumes A: "rect R n A" "upper m A" "A ! i ! i \<noteq> 0" and i: "i < m" "m \<le> R" "m \<le> n"
    and red: "\<And>c. i < c \<Longrightarrow> c < m \<Longrightarrow> reduced_col c A"
  defines "A' \<equiv> elim_mat F i {..<i} A A"
  shows "upper m A'" "\<And>c. i < c \<Longrightarrow> c < m \<Longrightarrow> reduced_col c A'"
    "\<forall>r < i. A' ! r ! i = 0" "A' ! i = A ! i"
proof -
  have iR: "i < R" "i < n" using i by auto
  have lA: "length A = R" using A by (simp add: rect_length)
  have left: "A ! i ! c = 0" if "c < i" for c
    using A(2) that i lA by (auto simp: upper_def)
  show "A' ! i = A ! i" using iR lA by (simp add: A'_def nth_elim_mat)
  show "\<forall>r < i. A' ! r ! i = 0"
    using A iR by (simp add: A'_def elim_entry_pivot)
  have low: "A' ! r = A ! r" if "i \<le> r" "r < R" for r
    using that lA by (simp add: A'_def nth_elim_mat)
  show "upper m A'"
    unfolding upper_def
  proof (intro allI impI)
    fix c r assume c: "c < m" and r: "r < length A'" "c < r"
    then have rR: "r < R" using lA by (simp add: A'_def)
    have z: "A ! r ! c = 0" using A(2) c r rR lA by (simp add: upper_def)
    show "A' ! r ! c = 0"
    proof (cases "i \<le> r")
      case False
      then have "A ! i ! c = 0" using left r by simp
      then show ?thesis using A(1) rR iR c i z by (simp add: A'_def elim_entry_zero)
    qed (use z low rR in simp)
  qed
  fix c assume c: "i < c" "c < m"
  then have cR: "c < R" "c < n" using i by auto
  show "reduced_col c A'"
  proof (cases "A ! c ! c = 0")
    case True
    then show ?thesis using low c cR by (simp add: reduced_col_def)
  next
    case False
    then have one: "A ! c ! c = 1" and above: "\<forall>r < c. A ! r ! c = 0"
      using red [OF c] by (auto simp: reduced_col_def)
    then have "A ! i ! c = 0" using c by simp
    then have "A' ! r ! c = A ! r ! c" if "r < R" for r
      using A(1) that iR cR by (simp add: A'_def elim_entry_zero)
    then show ?thesis using one above cR by (simp add: reduced_col_def)
  qed
qed

lemma scale_shape:
  assumes A: "rect R n A" "upper m A" "pivot_row i A" and i: "i < m" "m \<le> R" "m \<le> n"
    and red: "\<And>c. i < c \<Longrightarrow> c < m \<Longrightarrow> reduced_col c A" and col: "\<forall>r < i. A ! r ! i = 0"
  defines "A' \<equiv> A[i := smul F (gf_Div F 1 (A ! i ! i)) (A ! i)]"
  shows "upper m A'" "\<And>c. i \<le> c \<Longrightarrow> c < m \<Longrightarrow> reduced_col c A'"
proof -
  let ?q = "gf_Div F 1 (A ! i ! i)"
  have lA: "length A = R" "length A' = R" using A by (simp_all add: rect_length A'_def)
  have entry: "A' ! r ! c = (if r = i then gf_Mul F (A ! i ! c) ?q else A ! r ! c)"
    if "r < R" "c < n" for r c
    using that A(1) i by (auto simp: A'_def nth_list_update rect_length rect_nth)
  show "upper m A'"
    using A(2) i lA by (auto simp: upper_def entry mul_0_left)
  fix c assume c: "i \<le> c" "c < m"
  show "reduced_col c A'"
  proof (cases "c = i")
    case True
    then show ?thesis
      using A(3) i col by (auto simp: reduced_col_def entry pivot_row_def mul_div)
  next
    case False
    then have "reduced_col c A" using red c by simp
    then show ?thesis using False c i by (auto simp: reduced_col_def entry mul_0_left)
  qed
qed

lemma backward_step_ok:
  assumes wf: "wf_state R n len d" and i: "i < m" "m \<le> R" "m \<le> n"
    and up: "upper m (coeffs d)" and red: "\<forall>c. i < c \<and> c < m \<longrightarrow> reduced_col c (coeffs d)"
  shows "\<exists>d'. backward_step F n i d = Some d' \<and> wf_state R n len d' \<and> same_system F n len d d' \<and>
     upper m (coeffs d') \<and> (\<forall>c. i \<le> c \<and> c < m \<longrightarrow> reduced_col c (coeffs d'))"
proof -
  have iR: "i < R" "i < n" using i by auto
  have rA: "rect R n (coeffs d)" using wf by (rule wf_state_coeffs)
  have x: "mget (coeffs d) i i = Some (coeffs d ! i ! i)"
    using rA iR by (simp add: go_simps rect_nth rect_length)
  show ?thesis
  proof (cases "coeffs d ! i ! i = 0")
    case True
    then have "reduced_col i (coeffs d)" by (simp add: reduced_col_def)
    then have "\<forall>c. i \<le> c \<and> c < m \<longrightarrow> reduced_col c (coeffs d)"
      using red by (auto simp: le_less)
    then show ?thesis using True x wf up by (auto simp: backward_step_def same_system_refl)
  next
    case nz: False
    have piv: "pivot_row i (coeffs d)"
      using nz up i rA by (auto simp: pivot_row_def upper_def rect_length)
    define d1 where "d1 = elim_all F i {..<i} d"
    have t1: "elim_tasks F n i [0..<i] d = Some d1"
      using elim_tasks_eq [OF wf iR piv, of "[0..<i]"] iR
      by (simp add: d1_def atLeast0LessThan subset_iff)
    have wf1: "wf_state R n len d1" and ss1: "same_system F n len d d1"
      using wf_elim_all [OF wf iR(1)] same_system_elim [OF wf iR(1)] by (simp_all add: d1_def)
    have shape: "upper m (coeffs d1)" "\<And>c. i < c \<Longrightarrow> c < m \<Longrightarrow> reduced_col c (coeffs d1)"
      "\<forall>r < i. coeffs d1 ! r ! i = 0" "coeffs d1 ! i = coeffs d ! i"
      using backward_elim_shape [OF rA up nz i] red by (simp_all add: d1_def elim_all_def)
    have piv1: "pivot_row i (coeffs d1)" using piv shape(4) by (simp add: pivot_row_def)
    have x1: "mget (coeffs d1) i i = Some (coeffs d1 ! i ! i)"
      using wf1 iR by (simp add: go_simps wf_simps)
    show ?thesis
    proof (cases "coeffs d1 ! i ! i = 1")
      case True
      then have "reduced_col i (coeffs d1)" using shape(3) by (simp add: reduced_col_def)
      then have "\<forall>c. i \<le> c \<and> c < m \<longrightarrow> reduced_col c (coeffs d1)"
        using shape(2) by (auto simp: le_less)
      then show ?thesis
        using nz x t1 x1 True wf1 ss1 shape(1) by (auto simp: backward_step_def)
    next
      case False
      let ?q = "gf_Div F 1 (coeffs d1 ! i ! i)"
      let ?d2 = "scale_state F i ?q d1"
      have "backward_step F n i d = Some ?d2"
        using nz x t1 x1 False backward_scale [OF wf1 iR piv1]
        by (simp add: backward_step_def Let_def)
      moreover have "?q \<noteq> 0" using piv1 by (simp add: pivot_row_def div_eq_0_iff)
      then have "same_system F n len d ?d2"
        using same_system_trans [OF ss1] same_system_scale [OF wf1 iR(1)] by blast
      moreover have "upper m (coeffs ?d2)" "\<And>c. i \<le> c \<Longrightarrow> c < m \<Longrightarrow> reduced_col c (coeffs ?d2)"
        using scale_shape [OF wf_state_coeffs [OF wf1] shape(1) piv1 i shape(2,3)]
        by (simp_all add: scale_state_def)
      ultimately show ?thesis using wf_scale_state [OF wf1 iR(1)] by blast
    qed
  qed
qed

text \<open>A reduced matrix: triangular with every column up to the boundary reduced.\<close>

lemma clean_backward_ok:
  assumes wf: "wf_state R n len d" and R: "0 < R" and up: "upper (min R n) (coeffs d)"
  shows "\<exists>d'. clean_backward F d = Some d' \<and> wf_state R n len d' \<and> same_system F n len d d' \<and>
     upper (min R n) (coeffs d') \<and> (\<forall>c < min R n. reduced_col c (coeffs d'))"
proof -
  let ?m = "min R n"
  let ?I = "\<lambda>k s. wf_state R n len s \<and> same_system F n len d s \<and> upper ?m (coeffs s) \<and>
    (\<forall>c. k \<le> c \<and> c < ?m \<longrightarrow> reduced_col c (coeffs s))"
  have "\<exists>s. for_down ?m (backward_step F n) d = Some s \<and> ?I 0 s"
  proof (rule for_down_rule [where I = ?I])
    show "?I ?m d" using wf up by (auto simp: same_system_refl)
    fix k s assume k: "k < ?m" and I: "?I (Suc k) s"
    then have "\<exists>s'. backward_step F n k s = Some s' \<and> wf_state R n len s' \<and> same_system F n len s s' \<and>
        upper ?m (coeffs s') \<and> (\<forall>c. k \<le> c \<and> c < ?m \<longrightarrow> reduced_col c (coeffs s'))"
      by (intro backward_step_ok) auto
    then show "\<exists>s'. backward_step F n k s = Some s' \<and> ?I k s'"
      using I same_system_trans by blast
  qed
  then show ?thesis
    using Cols_rect [OF wf_state_coeffs [OF wf] R] wf
    by (auto simp: clean_backward_def Rows_def wf_simps)
qed

end

section \<open>Removing zero rows\<close>

definition zero_row :: "bytes \<Rightarrow> bool" where
  "zero_row r \<longleftrightarrow> (\<forall>x \<in> set r. x = 0)"

definition keep_rows :: "matrix \<Rightarrow> matrix \<Rightarrow> (bytes \<times> bytes) list" where
  "keep_rows A B = filter (\<lambda>(a, b). \<not> zero_row a) (zip A B)"

lemma row_is_zero_eq:
  "set js \<subseteq> {..<length r} \<Longrightarrow> row_is_zero r js = Some (\<forall>j \<in> set js. r ! j = 0)"
  by (induction js) (auto simp: go_simps)

lemma row_is_zero_full: "length r = n \<Longrightarrow> row_is_zero r [0..<n] = Some (zero_row r)"
  using row_is_zero_eq [of "[0..<n]" r] all_set_conv_all_nth [of r "\<lambda>x. x = 0"]
  by (auto simp: zero_row_def atLeast0LessThan)

lemma remove_zero_loop_eq:
  assumes "rect R n (coeffs d)" "rect R len (coded d)" "i \<le> R"
  shows "remove_zero_loop n i d =
     Some (d\<lparr>coeffs := take i (coeffs d) @ map fst (keep_rows (drop i (coeffs d)) (drop i (coded d))),
             coded := take i (coded d) @ map snd (keep_rows (drop i (coeffs d)) (drop i (coded d)))\<rparr>)"
  using assms
proof (induction n i d arbitrary: R rule: remove_zero_loop.induct)
  case (1 n i d)
  let ?A = "coeffs d" and ?B = "coded d"
  have l: "length ?A = R" "length ?B = R" using "1.prems" by (auto simp: rect_length)
  show ?case
  proof (cases "i < R")
    case False
    then show ?thesis
      using l "1.prems" by (subst remove_zero_loop.simps) (simp add: keep_rows_def)
  next
    case True
    have drops: "drop i ?A = ?A ! i # drop (Suc i) ?A" "drop i ?B = ?B ! i # drop (Suc i) ?B"
      using True l by (simp_all add: Cons_nth_drop_Suc)
    have z: "row_is_zero (?A ! i) [0..<n] = Some (zero_row (?A ! i))"
      using "1.prems" True by (intro row_is_zero_full) (simp add: rect_nth)
    show ?thesis
    proof (cases "zero_row (?A ! i)")
      case False
      have "remove_zero_loop n i d = remove_zero_loop n (Suc i) d"
        using True False z l by (subst remove_zero_loop.simps) simp
      also have "\<dots> = Some (d\<lparr>coeffs := take (Suc i) ?A @ map fst (keep_rows (drop (Suc i) ?A) (drop (Suc i) ?B)),
             coded := take (Suc i) ?B @ map snd (keep_rows (drop (Suc i) ?A) (drop (Suc i) ?B))\<rparr>)"
        using True False z l "1.prems" by (intro "1.IH"(1)) auto
      finally show ?thesis
        using False True l by (simp add: keep_rows_def drops take_Suc_conv_app_nth)
    next
      case zr: True
      let ?d = "d\<lparr>coeffs := take i ?A @ drop (i + 1) ?A, coded := take i ?B @ drop (i + 1) ?B\<rparr>"
      have "remove_zero_loop n i d = remove_zero_loop n i ?d"
        using True zr z l by (subst remove_zero_loop.simps) (simp add: delete_row_def)
      also have "\<dots> = Some (?d\<lparr>coeffs := take i (coeffs ?d) @
               map fst (keep_rows (drop i (coeffs ?d)) (drop i (coded ?d))),
             coded := take i (coded ?d) @
               map snd (keep_rows (drop i (coeffs ?d)) (drop i (coded ?d)))\<rparr>)"
      proof (rule "1.IH"(2) [of "zero_row (?A ! i)" "take i ?B @ drop (i + 1) ?B" "R - 1"])
        show "rect (R - 1) n (coeffs ?d)" "rect (R - 1) len (coded ?d)"
          using "1.prems" True l by (auto simp: rect_def dest: in_set_takeD in_set_dropD)
      qed (use True zr z l in \<open>simp_all add: delete_row_def\<close>)
      finally show ?thesis
        using zr True l by (simp add: keep_rows_def drops)
    qed
  qed
qed

text \<open>Dropping the zero rows of both matrices.\<close>

definition drop_zero_rows :: "DecoderState \<Rightarrow> DecoderState" where
  "drop_zero_rows d =
     d\<lparr>coeffs := map fst (keep_rows (coeffs d) (coded d)),
       coded := map snd (keep_rows (coeffs d) (coded d))\<rparr>"

lemma remove_zero_rows_eq:
  "wf_state R n len d \<Longrightarrow> 0 < R \<Longrightarrow> remove_zero_rows d = Some (drop_zero_rows d)"
  using remove_zero_loop_eq [of R n d len 0] Cols_rect [of R n "coeffs d"]
  by (simp add: wf_state_def remove_zero_rows_def drop_zero_rows_def)

lemma keep_rows_coeffs: "length A = length B \<Longrightarrow> map fst (keep_rows A B) = filter (\<lambda>a. \<not> zero_row a) A"
  unfolding keep_rows_def by (induction A B rule: list_induct2) auto

lemma keep_rows_nth:
  assumes "k < length (keep_rows A B)"
  obtains r where "r < length A" "r < length B" "fst (keep_rows A B ! k) = A ! r"
    "snd (keep_rows A B ! k) = B ! r"
proof -
  have "keep_rows A B ! k \<in> set (zip A B)"
    using nth_mem [OF assms] by (auto simp: keep_rows_def)
  then show thesis using that by (auto simp: in_set_zip)
qed

lemma wf_drop_zero_rows:
  assumes "wf_state R n len d"
  shows "wf_state (length (coeffs (drop_zero_rows d))) n len (drop_zero_rows d)"
  using assms
  by (auto simp: wf_state_def rect_def drop_zero_rows_def keep_rows_def dest: set_zip_leftD set_zip_rightD)

context galois_field
begin

lemma zero_row_dot: "zero_row v \<Longrightarrow> dot F v w = 0"
  unfolding dot_def zero_row_def
  by (rule gsum_zero) (auto simp: set_zip mul_0_left all_set_conv_all_nth)

lemma same_system_drop:
  assumes wf: "wf_state R n len d"
  shows "same_system F n len d (drop_zero_rows d)"
proof -
  have "null_vec F (coeffs (drop_zero_rows d)) w = null_vec F (coeffs d) w" for w
    using wf by (auto simp: drop_zero_rows_def keep_rows_coeffs wf_simps null_vec_def zero_row_dot)
  moreover have "consistent F len ps (drop_zero_rows d)" if c: "consistent F len ps d" for ps
    unfolding consistent_def
  proof (intro allI impI)
    fix k assume "k < length (coeffs (drop_zero_rows d))"
    then have k: "k < length (keep_rows (coeffs d) (coded d))" by (simp add: drop_zero_rows_def)
    from keep_rows_nth [OF k] obtain r where "r < length (coeffs d)"
      "fst (keep_rows (coeffs d) (coded d) ! k) = coeffs d ! r"
      "snd (keep_rows (coeffs d) (coded d) ! k) = coded d ! r" by metis
    then show "coded (drop_zero_rows d) ! k = lincomb F len (coeffs (drop_zero_rows d) ! k) ps"
      using c k by (simp add: drop_zero_rows_def consistent_def)
  qed
  ultimately show ?thesis by (simp add: same_system_def drop_zero_rows_def)
qed

section \<open>What a reduced matrix reveals\<close>

text \<open>
  Without a full set of pivots the first missing one gives a non-zero vector of the null
  space.
\<close>

lemma reduced_null_vec:
  assumes A: "rect R n A" "upper (min R n) A" "\<And>c. c < min R n \<Longrightarrow> reduced_col c A"
    and m: "m < n" "R \<le> m \<or> A ! m ! m = 0" "\<And>c. c < m \<Longrightarrow> c < R \<and> A ! c ! c \<noteq> 0"
  shows "\<exists>w. length w = n \<and> w \<noteq> replicate n 0 \<and> null_vec F A w"
proof -
  define w where "w = map (\<lambda>k. if k < m then A ! k ! m else if k = m then 1 else 0) [0..<n]"
  have lw: "length w = n" by (simp add: w_def)
  have wm: "w ! m = 1" using m(1) by (simp add: w_def)
  have nz: "w \<noteq> replicate n 0"
    using wm m(1) by (metis nth_replicate zero_neq_one)
  have low: "A ! r ! c = 0" if "c < r" "r < R" "c < n" for r c
    using A(1,2) that by (auto simp: upper_def rect_length)
  have "dot F (A ! r) w = 0" if r: "r < R" for r
  proof (cases "r < m")
    case False
    have "A ! r ! c = 0 \<or> w ! c = 0" if "c < n" for c
      using that False r m(1,2) low by (cases "c = r") (auto simp: w_def not_less le_less)
    then have "x = 0" if "x \<in> set (map2 (gf_Mul F) (A ! r) w)" for x
      using that A(1) r lw by (auto simp: set_zip rect_nth mul_eq_0_iff)
    then show ?thesis unfolding dot_def by (rule gsum_zero)
  next
    case True
    let ?xs = "map2 (gf_Mul F) (A ! r) w"
    have lx: "length ?xs = n" using A(1) r lw by (simp add: rect_nth)
    have rc: "A ! r ! r = 1" "\<And>c. c < m \<Longrightarrow> c \<noteq> r \<Longrightarrow> A ! r ! c = 0"
    proof -
      show "A ! r ! r = 1"
        using A(3) [of r] m(3) [OF True] m(1) True r by (auto simp: reduced_col_def)
      fix c assume c: "c < m" "c \<noteq> r"
      then show "A ! r ! c = 0"
        using A(3) [of c] m(3) [of c] m(1) low [of c r] r by (cases "c < r") (auto simp: reduced_col_def)
    qed
    have "gsum F ?xs = gf_Add F (?xs ! r) (?xs ! m)"
    proof (rule gsum_two)
      show "?xs ! k = 0" if "k < length ?xs" "k \<noteq> r" "k \<noteq> m" for k
        using that lx lw rc A(1) r by (cases "k < m") (auto simp: w_def rect_nth mul_0 mul_0_left)
    qed (use True m(1) lx in auto)
    also have "?xs ! r = A ! r ! m"
      using rc(1) True m(1) lw A(1) r by (simp add: w_def rect_nth mul_1_left)
    also have "?xs ! m = A ! r ! m"
      using wm m(1) lw A(1) r by (simp add: rect_nth mul_1)
    finally show ?thesis by (simp add: dot_def add_self)
  qed
  then have "null_vec F A w" using A(1) by (simp add: null_vec_nth rect_length)
  with lw nz show ?thesis by blast
qed

lemma reduced_zero_row:
  assumes A: "rect n n A" "upper n A" "\<And>c. c < n \<Longrightarrow> reduced_col c A"
    and c: "c < n" "A ! c ! c = 0"
  shows "\<exists>r < n. zero_row (A ! r)"
proof -
  define m where "m = Max {c. c < n \<and> A ! c ! c = 0}"
  have fin: "finite {c. c < n \<and> A ! c ! c = 0}" by simp
  have "m \<in> {c. c < n \<and> A ! c ! c = 0}"
    unfolding m_def using fin c by (intro Max_in) auto
  then have m: "m < n" "A ! m ! m = 0" by auto
  have above: "A ! k ! k \<noteq> 0" if "m < k" "k < n" for k
  proof
    assume "A ! k ! k = 0"
    then have "k \<le> m" unfolding m_def using fin that by (intro Max_ge) auto
    then show False using that by simp
  qed
  have "A ! m ! k = 0" if "k < n" for k
  proof (cases "m < k")
    case True
    then show ?thesis using above [OF True that] A(3) [OF that] by (auto simp: reduced_col_def)
  next
    case False
    then show ?thesis using m A(1,2) that by (cases "k = m") (auto simp: upper_def rect_length)
  qed
  then have "zero_row (A ! m)"
    using A(1) m by (auto simp: zero_row_def in_set_conv_nth rect_nth)
  with m show ?thesis by blast
qed

lemma reduced_identity:
  assumes A: "rect n n A" "upper n A" "\<And>c. c < n \<Longrightarrow> reduced_col c A"
    and diag: "\<And>c. c < n \<Longrightarrow> A ! c ! c \<noteq> 0"
  shows "A = map (unit_vec n) [0..<n]"
proof (rule matrix_eqI [OF A(1)])
  show "rect n n (map (unit_vec n) [0..<n])" by (auto simp: rect_def)
  fix i j assume ij: "i < n" "j < n"
  have "A ! i ! j = (if j = i then 1 else 0)"
    using A(3) [of j] diag [of j] ij A(1,2)
    by (cases "j < i") (auto simp: reduced_col_def upper_def rect_length not_less le_less)
  then show "A ! i ! j = map (unit_vec n) [0..<n] ! i ! j"
    using ij by (simp add: nth_unit_vec)
qed

end

context galois_field
begin

text \<open>
  The reduction of a system with at most \<open>n\<close> rows: it describes the same system, and \<open>n\<close> rows
  are left exactly when the coefficients determine the pieces; then they are the identity.
\<close>

lemma Rref_ok:
  assumes wf: "wf_state R n len d" and R: "0 < R" "R \<le> n"
  shows "\<exists>d'. Rref F d = Some d' \<and> wf_state (Rank d') n len d' \<and> same_system F n len d d' \<and>
     Rank d' \<le> R \<and> (Rank d' = n \<longleftrightarrow> full_rank F n (coeffs d)) \<and>
     (Rank d' = n \<longrightarrow> coeffs d' = map (unit_vec n) [0..<n])"
proof -
  obtain d1 where d1: "clean_forward F d = Some d1" "wf_state R n len d1" "same_system F n len d d1"
    "upper (min R n) (coeffs d1)"
    using clean_forward_ok [OF wf R(1)] by blast
  obtain d2 where d2: "clean_backward F d1 = Some d2" "wf_state R n len d2" "same_system F n len d1 d2"
    "upper (min R n) (coeffs d2)" "\<And>c. c < min R n \<Longrightarrow> reduced_col c (coeffs d2)"
    using clean_backward_ok [OF d1(2) R(1) d1(4)] by blast
  let ?A = "coeffs d2" and ?d = "drop_zero_rows d2"
  have run: "Rref F d = Some ?d"
    using d1(1) d2(1) remove_zero_rows_eq [OF d2(2) R(1)] by (simp add: Rref_def)
  have wf': "wf_state (Rank ?d) n len ?d"
    using wf_drop_zero_rows [OF d2(2)] by (simp add: Rank_def Rows_def)
  have ss2: "same_system F n len d d2" using d1(3) d2(3) by (rule same_system_trans)
  have ss: "same_system F n len d ?d"
    using ss2 same_system_drop [OF d2(2)] by (rule same_system_trans)
  have rA: "rect R n ?A" using d2(2) by (rule wf_state_coeffs)
  have rank: "Rank ?d = length (filter (\<lambda>a. \<not> zero_row a) ?A)"
    using d2(2) by (simp add: Rank_def Rows_def drop_zero_rows_def keep_rows_coeffs wf_simps
        flip: length_map [of fst])
  have le: "Rank ?d \<le> R" using rank rA by (metis length_filter_le rect_length)
  have fr: "full_rank F n (coeffs d) \<longleftrightarrow> full_rank F n ?A"
    using ss2 by (auto simp: full_rank_null_vec same_system_def)
  have cases: "(Rank ?d = n \<longleftrightarrow> full_rank F n ?A) \<and>
      (Rank ?d = n \<longrightarrow> coeffs ?d = map (unit_vec n) [0..<n])"
  proof (cases "R = n \<and> (\<forall>c < n. ?A ! c ! c \<noteq> 0)")
    case True
    then have id: "?A = map (unit_vec n) [0..<n]"
      using reduced_identity [of n ?A] rA d2(4,5) by auto
    have "\<not> zero_row (unit_vec n i)" if "i < n" for i
      using that nth_unit_vec [of i n i] nth_mem [of i "unit_vec n i"] by (auto simp: zero_row_def intro!: bexI [of _ 1])
    then have keep: "filter (\<lambda>a. \<not> zero_row a) ?A = ?A"
      unfolding id by (auto simp: filter_id_conv)
    then have "coeffs ?d = ?A"
      using d2(2) by (simp add: drop_zero_rows_def keep_rows_coeffs wf_simps)
    moreover have "full_rank F n ?A" unfolding id by (rule full_rank_units) auto
    ultimately show ?thesis using rank [unfolded keep] id by simp
  next
    case False
    define m where "m = (LEAST m. m < n \<and> (R \<le> m \<or> ?A ! m ! m = 0))"
    have ex: "\<exists>m. m < n \<and> (R \<le> m \<or> ?A ! m ! m = 0)"
      using False R(2) by (metis le_neq_implies_less le_refl)
    have m: "m < n \<and> (R \<le> m \<or> ?A ! m ! m = 0)"
      unfolding m_def using ex by (rule LeastI_ex)
    have small: "c < R \<and> ?A ! c ! c \<noteq> 0" if "c < m" for c
      using not_less_Least [of c "\<lambda>m. m < n \<and> (R \<le> m \<or> ?A ! m ! m = 0)"] that m
      by (auto simp: m_def)
    have "\<not> full_rank F n ?A"
      using reduced_null_vec [OF rA d2(4,5) conjunct1 [OF m] conjunct2 [OF m] small]
      by (auto simp: full_rank_null_vec)
    moreover have "Rank ?d < n"
    proof (cases "R = n")
      case True
      then obtain r where "r < n" "zero_row (?A ! r)"
        using False reduced_zero_row [of n ?A] rA d2(4,5) by auto
      then show ?thesis
        using rank True rA length_filter_less [of "?A ! r" ?A "\<lambda>a. \<not> zero_row a"]
        by (auto simp: rect_length)
    qed (use le R(2) in simp)
    ultimately show ?thesis by simp
  qed
  with run wf' ss le fr show ?thesis by blast
qed

lemma Rref_no_zero_row:
  assumes wf: "wf_state R n len d" and R: "0 < R" and r: "Rref F d = Some d'"
  shows "\<forall>v \<in> set (coeffs d'). \<not> zero_row v"
proof -
  obtain d1 where d1: "clean_forward F d = Some d1" "wf_state R n len d1" "upper (min R n) (coeffs d1)"
    using clean_forward_ok [OF wf R] by blast
  obtain d2 where d2: "clean_backward F d1 = Some d2" "wf_state R n len d2"
    using clean_backward_ok [OF d1(2) R d1(3)] by blast
  have "d' = drop_zero_rows d2"
    using r d1(1) d2(1) remove_zero_rows_eq [OF d2(2) R] by (simp add: Rref_def)
  then show ?thesis using d2(2) by (simp add: drop_zero_rows_def keep_rows_coeffs wf_simps)
qed

text \<open>Fewer rows than columns never have full rank.\<close>

lemma few_rows_not_full_rank:
  assumes "\<forall>v \<in> set vs. length v = n" "vs \<noteq> []" "length vs < n"
  shows "\<not> full_rank F n vs"
proof -
  let ?d = "\<lparr>pieceCount = n, coeffs = vs, coded = vs\<rparr>"
  have "wf_state (length vs) n n ?d" using assms(1) by (simp add: wf_state_def rect_def)
  from Rref_ok [OF this] assms(2,3) show ?thesis by auto
qed

end

lemma piece_decoded_eq:
  assumes "set is \<subseteq> {..<length row}"
  shows "piece_decoded row idx is =
         Some (\<forall>i \<in> set is. if i = idx then row ! i = 1 else row ! i \<noteq> 0)"
  using assms by (induction "is") (auto simp: go_simps)

section \<open>Properties\<close>

text \<open>
  C3: the reduction of the decoder state.  For a state with at most as many rows as pieces it
  never panics, keeps the matrices rectangular, describes the same linear system, and leaves
  as many rows as pieces exactly when the coefficient rows have full rank; the coefficient
  matrix is then the identity.
\<close>

theorem Rref_correct:
  assumes "galois_field F" "wf_state R n len d" "0 < R" "R \<le> n"
  shows "\<exists>d'. Rref F d = Some d' \<and> wf_state (Rank d') n len d' \<and> same_system F n len d d' \<and>
     Rank d' \<le> R \<and> (Rank d' = n \<longleftrightarrow> full_rank F n (coeffs d)) \<and>
     (Rank d' = n \<longrightarrow> coeffs d' = map (unit_vec n) [0..<n])"
  by (rule galois_field.Rref_ok [OF assms])

theorem Rref_correct_witness:
  "\<exists>d'. Rref DefaultGF256 \<lparr>pieceCount = 2, coeffs = [[0, 1], [1, 0]], coded = [[5], [6]]\<rparr> = Some d' \<and>
     Rank d' = 2 \<and> coeffs d' = [[1, 0], [0, 1]]"
proof -
  have "full_rank DefaultGF256 2 [[0, 1], [1, 0]]"
    by (rule gf256.full_rank_units) (auto simp: less_2_cases_iff unit_vec_2)
  then show ?thesis
    using Rref_correct [OF gf256.galois_field_axioms, of 2 2 1
      "\<lparr>pieceCount = 2, coeffs = [[0, 1], [1, 0]], coded = [[5], [6]]\<rparr>"]
    by (auto simp: wf_state_def rect_def upt_small unit_vec_2)
qed

text \<open>
  C9: the goroutines of one elimination step may run in any order.  Any two schedules of the
  same rows leave the same matrices, and no schedule panics.
\<close>

theorem elim_tasks_any_order:
  assumes F: "galois_field F" and st: "wf_state R n len d" "i < R" "i < n" "pivot_row i (coeffs d)"
    and js: "distinct js" "set js \<subseteq> {..<R} - {i}" and ks: "distinct ks" "set ks = set js"
  shows "elim_tasks F n i ks d = elim_tasks F n i js d \<and>
     elim_tasks F n i js d = Some (elim_all F i (set js) d)"
  using galois_field.elim_tasks_eq [OF F st js] galois_field.elim_tasks_eq [OF F st ks(1)] js ks
  by simp

theorem elim_tasks_any_order_witness:
  "elim_tasks DefaultGF256 3 0 [2, 1] \<lparr>pieceCount = 3, coeffs = [[1, 2, 3], [4, 5, 6], [7, 8, 9]], coded = [[1], [2], [3]]\<rparr> =
   elim_tasks DefaultGF256 3 0 [1, 2] \<lparr>pieceCount = 3, coeffs = [[1, 2, 3], [4, 5, 6], [7, 8, 9]], coded = [[1], [2], [3]]\<rparr>"
  by (rule conjunct1, rule elim_tasks_any_order [OF gf256.galois_field_axioms, where R = 3 and len = 1])
    (auto simp: wf_state_def rect_def pivot_row_def)

text \<open>
  C14: the partial branch of \<^verbatim>\<open>GetPiece\<close>.  While rows are missing, the row at the index is
  returned exactly when it has a one at the index and a non-zero cell everywhere else; the
  test of the other cells is inverted, so a row that does hold one original piece is refused.
\<close>

theorem GetPiece_partial:
  assumes wf: "wf_state R n len d" and "pieceCount d = n" "R < n" and idx: "idx < R"
  shows "GetPiece d idx = Some
     (if \<forall>i < n. if i = idx then coeffs d ! idx ! i = 1 else coeffs d ! idx ! i \<noteq> 0
      then Inr (coded d ! idx) else Inl ErrPieceNotDecodedYet)"
proof -
  have "Cols (coeffs d) = Some n" "Cols (coded d) = Some len"
    using wf idx by (auto simp: wf_state_def intro: Cols_rect)
  moreover have "piece_decoded (coeffs d ! idx) idx [0..<n] =
      Some (\<forall>i < n. if i = idx then coeffs d ! idx ! i = 1 else coeffs d ! idx ! i \<noteq> 0)"
    using wf idx by (subst piece_decoded_eq) (auto simp: wf_simps)
  ultimately show ?thesis
    using assms by (simp add: GetPiece_def Rank_def Rows_def wf_simps go_simps copy_into_longer)
qed


theorem GetPiece_partial_witness:
  "GetPiece \<lparr>pieceCount = 3, coeffs = [[1, 0, 0]], coded = [[9]]\<rparr> 0 =
     Some (Inl ErrPieceNotDecodedYet)"
proof -
  let ?d = "\<lparr>pieceCount = 3, coeffs = [[1, 0, 0]], coded = [[9]]\<rparr>"
  have "wf_state 1 3 1 ?d" by (simp add: wf_state_def rect_def)
  moreover have "\<not> (\<forall>i < 3. if i = 0 then coeffs ?d ! 0 ! i = 1 else coeffs ?d ! 0 ! i \<noteq> 0)"
    by (intro notI) (drule spec [of _ 1], simp)
  ultimately show ?thesis using GetPiece_partial [of 1 3 1 ?d 0] by simp
qed

end
