(* ===== verification/Full_RLNC.thy ===== *)
theory Full_RLNC
  imports Decoder_State
begin

text \<open>
  Model of \<^verbatim>\<open>kodr/full\<close>: the encoder, recoder and decoder of full random linear network
  coding.  The random coding vectors are delivered by the parameter \<open>rnd\<close>, the field by the
  parameter \<open>F\<close>.  The locale \<open>piece_decoder\<close> is the contract both decoders of the library
  keep towards their clients.
\<close>

section \<open>Encoder\<close>

record FullRLNCEncoder =
  pieces :: "bytes list"
  extra :: u64

definition FullRLNCEncoder_PieceCount :: "FullRLNCEncoder \<Rightarrow> nat" where
  "FullRLNCEncoder_PieceCount f = length (pieces f)"

definition FullRLNCEncoder_PieceSize :: "FullRLNCEncoder \<Rightarrow> nat option" where
  "FullRLNCEncoder_PieceSize f = map_option length (nth_opt (pieces f) 0)"

definition FullRLNCEncoder_CodedPieceLen :: "FullRLNCEncoder \<Rightarrow> nat option" where
  "FullRLNCEncoder_CodedPieceLen f =
     do { s \<leftarrow> FullRLNCEncoder_PieceSize f; Some (FullRLNCEncoder_PieceCount f + s) }"

definition FullRLNCEncoder_DecodableLen :: "FullRLNCEncoder \<Rightarrow> nat option" where
  "FullRLNCEncoder_DecodableLen f =
     do { l \<leftarrow> FullRLNCEncoder_CodedPieceLen f; Some (FullRLNCEncoder_PieceCount f * l) }"

definition FullRLNCEncoder_Padding :: "FullRLNCEncoder \<Rightarrow> u64" where
  "FullRLNCEncoder_Padding f = extra f"

text \<open>
  The loop \<^verbatim>\<open>for i := range f.pieces { piece.Multiply(f.pieces[i], vector[i], f.field) }\<close>.
\<close>

definition combine_pieces :: "GF \<Rightarrow> bytes list \<Rightarrow> bytes \<Rightarrow> bytes \<Rightarrow> bytes option" where
  "combine_pieces F ps vector =
     for_up 0 (length ps) (\<lambda>i piece. do { p \<leftarrow> nth_opt ps i; c \<leftarrow> nth_opt vector i;
                                         Multiply F piece p c })"

definition FullRLNCEncoder_CodedPiece ::
  "GF \<Rightarrow> (nat \<Rightarrow> bytes) \<Rightarrow> FullRLNCEncoder \<Rightarrow> CodedPiece option" where
  "FullRLNCEncoder_CodedPiece F rnd f =
     (let vector = GenerateCodingVector rnd (FullRLNCEncoder_PieceCount f)
      in do { s \<leftarrow> FullRLNCEncoder_PieceSize f;
              piece \<leftarrow> combine_pieces F (pieces f) vector (replicate s 0);
              Some \<lparr>Vector = vector, Piece = piece\<rparr> })"

definition NewFullRLNCEncoder :: "bytes list \<Rightarrow> FullRLNCEncoder" where
  "NewFullRLNCEncoder ps = \<lparr>pieces = ps, extra = 0\<rparr>"

definition NewFullRLNCEncoderWithPieceCount ::
  "bytes \<Rightarrow> u64 \<Rightarrow> (kodr_error + FullRLNCEncoder) option" where
  "NewFullRLNCEncoderWithPieceCount data count =
     do { r \<leftarrow> OriginalPiecesFromDataAndPieceCount data count;
          Some (case r of Inl e \<Rightarrow> Inl e
                | Inr (ps, padding) \<Rightarrow> Inr ((NewFullRLNCEncoder ps)\<lparr>extra := padding\<rparr>)) }"

definition NewFullRLNCEncoderWithPieceSize ::
  "bytes \<Rightarrow> u64 \<Rightarrow> (kodr_error + FullRLNCEncoder) option" where
  "NewFullRLNCEncoderWithPieceSize data pieceSize =
     do { r \<leftarrow> OriginalPiecesFromDataAndPieceSize data pieceSize;
          Some (case r of Inl e \<Rightarrow> Inl e
                | Inr (ps, padding) \<Rightarrow> Inr ((NewFullRLNCEncoder ps)\<lparr>extra := padding\<rparr>)) }"

section \<open>Recoder\<close>

record FullRLNCRecoder =
  rpieces :: "CodedPiece list"
  codingMatrix :: matrix

definition FullRLNCRecoder_fill :: "FullRLNCRecoder \<Rightarrow> FullRLNCRecoder" where
  "FullRLNCRecoder_fill r =
     r\<lparr>codingMatrix :=
        map (\<lambda>p. fst (copy_into (replicate (length (Vector p)) 0) (Vector p))) (rpieces r)\<rparr>"

definition FullRLNCRecoder_CodedPiece ::
  "GF \<Rightarrow> (nat \<Rightarrow> bytes) \<Rightarrow> FullRLNCRecoder \<Rightarrow> (kodr_error + CodedPiece) option" where
  "FullRLNCRecoder_CodedPiece F rnd r =
     (let vector = GenerateCodingVector rnd (length (rpieces r))
      in do { p0 \<leftarrow> nth_opt (rpieces r) 0;
              piece \<leftarrow> combine_pieces F (map Piece (rpieces r)) vector
                          (replicate (length (Piece p0)) 0);
              m \<leftarrow> Matrix_Multiply F [vector] (codingMatrix r);
              case m of
                Inl e \<Rightarrow> Some (Inl e)
              | Inr mult \<Rightarrow> do { v \<leftarrow> nth_opt mult 0;
                                Some (Inr \<lparr>Vector = v, Piece = piece\<rparr>) } })"

definition NewFullRLNCRecoder :: "CodedPiece list \<Rightarrow> FullRLNCRecoder" where
  "NewFullRLNCRecoder ps = FullRLNCRecoder_fill \<lparr>rpieces = ps, codingMatrix = []\<rparr>"

definition NewFullRLNCRecoderWithFlattenData ::
  "bytes \<Rightarrow> u64 \<Rightarrow> u64 \<Rightarrow> (kodr_error + FullRLNCRecoder) option" where
  "NewFullRLNCRecoderWithFlattenData data count together =
     do { r \<leftarrow> CodedPiecesForRecoding data count together;
          Some (case r of Inl e \<Rightarrow> Inl e | Inr cs \<Rightarrow> Inr (NewFullRLNCRecoder cs)) }"

section \<open>Decoder\<close>

text \<open>
  The counters are natural numbers; \<^verbatim>\<open>Required\<close> is the wrapping \<^verbatim>\<open>uint\<close> difference.
\<close>

record FullRLNCDecoder =
  expected :: nat
  useful :: nat
  received :: nat
  state :: DecoderState

definition FullRLNCDecoder_GetRecv :: "FullRLNCDecoder \<Rightarrow> nat" where
  "FullRLNCDecoder_GetRecv d = received d"

definition FullRLNCDecoder_GetExpt :: "FullRLNCDecoder \<Rightarrow> nat" where
  "FullRLNCDecoder_GetExpt d = expected d"

definition FullRLNCDecoder_PieceLength :: "FullRLNCDecoder \<Rightarrow> nat option" where
  "FullRLNCDecoder_PieceLength d =
     (if received d > 0 then Cols (CodedPieceMatrix (state d)) else Some 0)"

definition FullRLNCDecoder_IsDecoded :: "FullRLNCDecoder \<Rightarrow> bool" where
  "FullRLNCDecoder_IsDecoded d \<longleftrightarrow> useful d \<ge> expected d"

definition FullRLNCDecoder_Required :: "FullRLNCDecoder \<Rightarrow> nat" where
  "FullRLNCDecoder_Required d = nat ((int (expected d) - int (useful d)) mod 2 ^ 64)"

definition FullRLNCDecoder_AddPiece ::
  "GF \<Rightarrow> FullRLNCDecoder \<Rightarrow> CodedPiece \<Rightarrow> (kodr_error + FullRLNCDecoder) option" where
  "FullRLNCDecoder_AddPiece F d piece =
     (if FullRLNCDecoder_IsDecoded d then Some (Inl ErrAllUsefulPiecesReceived)
      else let d1 = d\<lparr>state := AddPiece (state d) piece, received := received d + 1\<rparr>
           in if \<not> received d1 > 1 then Some (Inr (d1\<lparr>useful := useful d1 + 1\<rparr>))
              else do { st \<leftarrow> Rref F (state d1);
                        Some (Inr (d1\<lparr>state := st, useful := Rank st\<rparr>)) })"

definition FullRLNCDecoder_GetPiece ::
  "FullRLNCDecoder \<Rightarrow> nat \<Rightarrow> (kodr_error + bytes) option" where
  "FullRLNCDecoder_GetPiece d i = GetPiece (state d) i"

text \<open>The loop over the decoded pieces stops at the first error.\<close>

fun collect_pieces :: "(nat \<Rightarrow> (kodr_error + bytes) option) \<Rightarrow> nat list \<Rightarrow>
    (kodr_error + bytes list) option" where
  "collect_pieces get [] = Some (Inr [])"
| "collect_pieces get (i # is) =
     do { r \<leftarrow> get i;
          case r of Inl e \<Rightarrow> Some (Inl e)
          | Inr p \<Rightarrow> do { rs \<leftarrow> collect_pieces get is;
                         Some (case rs of Inl e \<Rightarrow> Inl e | Inr ps \<Rightarrow> Inr (p # ps)) } }"

definition FullRLNCDecoder_GetPieces ::
  "FullRLNCDecoder \<Rightarrow> (kodr_error + bytes list) option" where
  "FullRLNCDecoder_GetPieces d =
     (if \<not> FullRLNCDecoder_IsDecoded d then Some (Inl ErrMoreUsefulPiecesRequired)
      else collect_pieces (FullRLNCDecoder_GetPiece d) [0..<useful d])"

definition NewFullRLNCDecoder :: "nat \<Rightarrow> FullRLNCDecoder" where
  "NewFullRLNCDecoder n =
     \<lparr>expected = n, useful = 0, received = 0, state = NewDecoderStateWithPieceCount n\<rparr>"

section \<open>Coded pieces and the decoder contract\<close>

text \<open>At least two original pieces, all of \<open>len\<close> bytes.\<close>

definition valid_pieces :: "nat \<Rightarrow> bytes list \<Rightarrow> bool" where
  "valid_pieces len ps \<longleftrightarrow> 2 \<le> length ps \<and> (\<forall>p \<in> set ps. length p = len)"

text \<open>\<open>c\<close> is a coded piece of \<open>ps\<close>: its payload is the combination its vector names.\<close>

definition coded_from :: "GF \<Rightarrow> nat \<Rightarrow> bytes list \<Rightarrow> CodedPiece \<Rightarrow> bool" where
  "coded_from F len ps c \<longleftrightarrow>
     length (Vector c) = length ps \<and> Piece c = lincomb F len (Vector c) ps"

text \<open>A client that hands every piece it receives to a decoder and ignores its refusals.\<close>

fun feed :: "('d \<Rightarrow> CodedPiece \<Rightarrow> (kodr_error + 'd) option) \<Rightarrow> 'd \<Rightarrow> CodedPiece list \<Rightarrow> 'd option" where
  "feed add d [] = Some d"
| "feed add d (c # cs) =
     do { r \<leftarrow> add d c; case r of Inl e \<Rightarrow> feed add d cs | Inr d' \<Rightarrow> feed add d' cs }"

locale piece_decoder =
  fixes F :: GF
    and new :: "nat \<Rightarrow> 'd"
    and add :: "'d \<Rightarrow> CodedPiece \<Rightarrow> (kodr_error + 'd) option"
    and is_decoded :: "'d \<Rightarrow> bool"
    and get_pieces :: "'d \<Rightarrow> (kodr_error + bytes list) option"
    and inv :: "nat \<Rightarrow> bytes list \<Rightarrow> CodedPiece list \<Rightarrow> 'd \<Rightarrow> bool"
  assumes inv_new: "valid_pieces len ps \<Longrightarrow> inv len ps [] (new (length ps))"
    and add_inv: "inv len ps cs d \<Longrightarrow> \<not> is_decoded d \<Longrightarrow> coded_from F len ps c \<Longrightarrow>
          \<exists>d'. add d c = Some (Inr d') \<and> inv len ps (cs @ [c]) d'"
    and add_decoded: "is_decoded d \<Longrightarrow> add d c = Some (Inl ErrAllUsefulPiecesReceived)"
    and decoded_iff: "inv len ps cs d \<Longrightarrow> is_decoded d \<longleftrightarrow> full_rank F (length ps) (map Vector cs)"
    and pieces_decoded: "inv len ps cs d \<Longrightarrow> is_decoded d \<Longrightarrow> get_pieces d = Some (Inr ps)"
    and pieces_undecoded: "\<not> is_decoded d \<Longrightarrow> get_pieces d = Some (Inl ErrMoreUsefulPiecesRequired)"
begin

lemma full_rank_superset:
  "full_rank F n vs \<Longrightarrow> set vs \<subseteq> set ws \<Longrightarrow> full_rank F n ws"
  unfolding full_rank_def by blast

text \<open>
  After any sequence of coded pieces the decoder has accepted a prefix-closed part of them,
  without panicking, and has decoded exactly when the vectors received have full rank.
\<close>

lemma feed_inv:
  assumes "inv len ps as d" "\<forall>c \<in> set cs. coded_from F len ps c"
  shows "\<exists>d' bs. feed add d cs = Some d' \<and> inv len ps bs d' \<and> set as \<subseteq> set bs \<and>
     set bs \<subseteq> set as \<union> set cs \<and> (is_decoded d' \<or> bs = as @ cs)"
  using assms
proof (induction cs arbitrary: d as)
  case (Cons c cs)
  show ?case
  proof (cases "is_decoded d")
    case True
    then have "feed add d (c # cs) = feed add d cs" by (simp add: add_decoded)
    moreover obtain d' bs where "feed add d cs = Some d'" "inv len ps bs d'" "set as \<subseteq> set bs"
      "set bs \<subseteq> set as \<union> set cs"
      using Cons.IH [OF Cons.prems(1)] Cons.prems(2) by auto
    moreover have "is_decoded d'"
      using True calculation Cons.prems(1) decoded_iff full_rank_superset
      by (metis image_mono list.set_map)
    ultimately show ?thesis by fastforce
  next
    case False
    then obtain d1 where d1: "add d c = Some (Inr d1)" "inv len ps (as @ [c]) d1"
      using add_inv Cons.prems by (metis list.set_intros(1))
    then obtain d' bs where "feed add d1 cs = Some d'" "inv len ps bs d'" "set (as @ [c]) \<subseteq> set bs"
      "set bs \<subseteq> set (as @ [c]) \<union> set cs" "is_decoded d' \<or> bs = (as @ [c]) @ cs"
      using Cons.IH [OF d1(2)] Cons.prems(2) by auto
    then show ?thesis using d1 by auto
  qed
qed auto

lemma feed_new:
  assumes "valid_pieces len ps" "\<forall>c \<in> set cs. coded_from F len ps c"
  shows "\<exists>d. feed add (new (length ps)) cs = Some d \<and>
     (is_decoded d \<longleftrightarrow> full_rank F (length ps) (map Vector cs)) \<and>
     get_pieces d = Some (if full_rank F (length ps) (map Vector cs) then Inr ps
                          else Inl ErrMoreUsefulPiecesRequired)"
proof -
  obtain d bs where d: "feed add (new (length ps)) cs = Some d" "inv len ps bs d"
    "set bs \<subseteq> set cs" "is_decoded d \<or> bs = cs"
    using feed_inv [OF inv_new [OF assms(1)] assms(2)] by auto
  have "is_decoded d \<longleftrightarrow> full_rank F (length ps) (map Vector cs)"
    using decoded_iff [OF d(2)] d(3,4) full_rank_superset by (metis image_mono list.set_map)
  then show ?thesis
    using d(1) pieces_decoded [OF d(2)] pieces_undecoded by auto
qed

end

section \<open>The full decoder keeps the contract\<close>

definition dec_inv :: "GF \<Rightarrow> nat \<Rightarrow> bytes list \<Rightarrow> CodedPiece list \<Rightarrow> DecoderState \<Rightarrow> bool" where
  "dec_inv F len ps cs st \<longleftrightarrow>
     valid_pieces len ps \<and> pieceCount st = length ps \<and> Rank st \<le> length ps \<and>
     (cs = [] \<longrightarrow> Rank st = 0) \<and>
     wf_state (Rank st) (length ps) len st \<and> consistent F len ps st \<and>
     (\<forall>w. length w = length ps \<longrightarrow> null_vec F (coeffs st) w = null_vec F (map Vector cs) w) \<and>
     (Rank st = length ps \<longleftrightarrow> full_rank F (length ps) (map Vector cs)) \<and>
     (Rank st = length ps \<longrightarrow> coeffs st = map (unit_vec (length ps)) [0..<length ps])"

definition FullRLNCDecoder_inv ::
  "GF \<Rightarrow> nat \<Rightarrow> bytes list \<Rightarrow> CodedPiece list \<Rightarrow> FullRLNCDecoder \<Rightarrow> bool" where
  "FullRLNCDecoder_inv F len ps cs d \<longleftrightarrow>
     dec_inv F len ps cs (state d) \<and> expected d = length ps \<and> useful d = Rank (state d) \<and>
     received d = length cs \<and> (length cs = 1 \<longrightarrow> Rank (state d) = 1) \<and> (1 < length cs \<longrightarrow> (\<forall>v \<in> set (coeffs (state d)). \<not> zero_row v))"

lemma full_rank_Nil: "0 < n \<Longrightarrow> \<not> full_rank F n []"
proof
  assume "0 < n" "full_rank F n []"
  then have "replicate n 1 = replicate n (0 :: byte)"
    unfolding full_rank_def by (metis length_replicate list.set(1) empty_iff)
  then show False using \<open>0 < n\<close> by (simp add: replicate_eq_replicate)
qed

lemma dec_inv_new:
  "valid_pieces len ps \<Longrightarrow> dec_inv F len ps [] (NewDecoderStateWithPieceCount (length ps))"
  using full_rank_Nil [of "length ps" F]
  by (auto simp: dec_inv_def valid_pieces_def NewDecoderStateWithPieceCount_def Rank_def Rows_def
      wf_state_def rect_def consistent_def null_vec_def)

lemma AddPiece_system:
  assumes inv: "dec_inv F len ps cs st" and c: "coded_from F len ps c"
  shows "wf_state (Suc (Rank st)) (length ps) len (AddPiece st c)"
    and "consistent F len ps (AddPiece st c)"
    and "length w = length ps \<Longrightarrow>
      null_vec F (coeffs (AddPiece st c)) w = null_vec F (map Vector (cs @ [c])) w"
    and "pieceCount (AddPiece st c) = pieceCount st"
proof -
  have wf: "wf_state (Rank st) (length ps) len st" using inv by (simp add: dec_inv_def)
  then show "wf_state (Suc (Rank st)) (length ps) len (AddPiece st c)"
    using c by (auto simp: wf_state_def rect_def AddPiece_def coded_from_def)
  have "length (coeffs st) = length (coded st)" using wf by (simp add: wf_simps)
  then show "consistent F len ps (AddPiece st c)"
    using inv c by (auto simp: dec_inv_def consistent_def AddPiece_def coded_from_def nth_append less_Suc_eq)
  show "length w = length ps \<Longrightarrow>
      null_vec F (coeffs (AddPiece st c)) w = null_vec F (map Vector (cs @ [c])) w"
    using inv by (auto simp: dec_inv_def null_vec_def AddPiece_def)
qed (simp add: AddPiece_def)

context galois_field
begin

lemma dec_inv_Rref:
  assumes inv: "dec_inv F len ps cs st" and lt: "Rank st < length ps" and c: "coded_from F len ps c"
  shows "\<exists>st'. Rref F (AddPiece st c) = Some st' \<and> dec_inv F len ps (cs @ [c]) st'"
proof -
  let ?n = "length ps" and ?a = "AddPiece st c"
  note sys = AddPiece_system [OF inv c]
  obtain st' where st': "Rref F ?a = Some st'" "wf_state (Rank st') ?n len st'"
    "same_system F ?n len ?a st'" "Rank st' \<le> Suc (Rank st)"
    "Rank st' = ?n \<longleftrightarrow> full_rank F ?n (coeffs ?a)"
    "Rank st' = ?n \<longrightarrow> coeffs st' = map (unit_vec ?n) [0..<?n]"
    using Rref_ok [OF sys(1)] lt by auto
  have "full_rank F ?n (coeffs ?a) \<longleftrightarrow> full_rank F ?n (map Vector (cs @ [c]))"
    using sys(3) by (simp add: full_rank_null_vec)
  then have "dec_inv F len ps (cs @ [c]) st'"
    using st' sys inv lt by (auto simp: dec_inv_def same_system_def)
  with st'(1) show ?thesis by blast
qed

text \<open>The first piece is only stored; one row never determines two pieces or more.\<close>

lemma dec_inv_first:
  assumes inv: "dec_inv F len ps [] st" and c: "coded_from F len ps c"
  shows "dec_inv F len ps [c] (AddPiece st c)" "Rank (AddPiece st c) = 1"
proof -
  let ?n = "length ps" and ?a = "AddPiece st c"
  note sys = AddPiece_system [OF inv c]
  have n: "2 \<le> ?n" using inv by (simp add: dec_inv_def valid_pieces_def)
  have r: "Rank st = 0" using inv by (simp add: dec_inv_def)
  then show rank: "Rank ?a = 1" by (simp add: Rank_def Rows_def AddPiece_def)
  have "\<not> full_rank F ?n (coeffs ?a)"
    using Rref_ok [OF sys(1)] r n by auto
  then have "\<not> full_rank F ?n (map Vector [c])"
    using sys(3) by (simp add: full_rank_null_vec)
  then show "dec_inv F len ps [c] ?a"
    using sys inv rank n r by (auto simp: dec_inv_def)
qed

lemma consistent_identity:
  assumes "consistent F len ps st" "coeffs st = map (unit_vec (length ps)) [0..<length ps]"
    "valid_pieces len ps" "i < length ps"
  shows "coded st ! i = ps ! i"
  using assms by (simp add: consistent_def lincomb_unit_vec valid_pieces_def)

lemma GetPiece_decoded:
  assumes inv: "dec_inv F len ps cs st" and full: "Rank st = length ps" and i: "i < length ps"
  shows "GetPiece st i = Some (Inr (ps ! i))"
proof -
  have "coded st ! i = ps ! i"
    using consistent_identity [of len ps st i] inv full i by (simp add: dec_inv_def)
  moreover have "length (coded st) = length ps"
    using inv full unfolding dec_inv_def by (metis wf_state_coded rect_length)
  ultimately show ?thesis
    using inv full i by (simp add: GetPiece_def dec_inv_def Rank_def nth_opt_def)
qed

end

lemma collect_pieces_all:
  "(\<And>i. i \<in> set is \<Longrightarrow> get i = Some (Inr (f i))) \<Longrightarrow> collect_pieces get is = Some (Inr (map f is))"
  by (induction "is") auto

sublocale galois_field \<subseteq> full: piece_decoder F NewFullRLNCDecoder "FullRLNCDecoder_AddPiece F"
  FullRLNCDecoder_IsDecoded FullRLNCDecoder_GetPieces "FullRLNCDecoder_inv F"
proof unfold_locales
  fix len ps cs and d :: FullRLNCDecoder and c
  show "FullRLNCDecoder_inv F len ps [] (NewFullRLNCDecoder (length ps))" if "valid_pieces len ps"
    using that dec_inv_new [OF that, of F]
    by (simp add: FullRLNCDecoder_inv_def NewFullRLNCDecoder_def NewDecoderStateWithPieceCount_def
        Rank_def Rows_def)
  show "\<exists>d'. FullRLNCDecoder_AddPiece F d c = Some (Inr d') \<and> FullRLNCDecoder_inv F len ps (cs @ [c]) d'"
    if inv: "FullRLNCDecoder_inv F len ps cs d" and nd: "\<not> FullRLNCDecoder_IsDecoded d"
      and c: "coded_from F len ps c"
  proof (cases "cs = []")
    case True
    then have "dec_inv F len ps [] (state d)" "Rank (state d) = 0"
      using inv by (auto simp: FullRLNCDecoder_inv_def dec_inv_def)
    then show ?thesis
      using dec_inv_first [of len ps "state d" c] c True inv nd
      by (auto simp: FullRLNCDecoder_inv_def FullRLNCDecoder_AddPiece_def)
  next
    case False
    have dec: "dec_inv F len ps cs (state d)" "Rank (state d) < length ps"
      using inv nd by (auto simp: FullRLNCDecoder_inv_def FullRLNCDecoder_IsDecoded_def)
    then obtain st' where st': "Rref F (AddPiece (state d) c) = Some st'" "dec_inv F len ps (cs @ [c]) st'"
      using dec_inv_Rref c by blast
    moreover have "\<forall>v \<in> set (coeffs st'). \<not> zero_row v"
      using Rref_no_zero_row [OF AddPiece_system(1) [OF dec(1) c] _ st'(1)] by simp
    ultimately show ?thesis
      using False inv nd by (auto simp: FullRLNCDecoder_inv_def FullRLNCDecoder_AddPiece_def)
  qed
  show "FullRLNCDecoder_AddPiece F d c = Some (Inl ErrAllUsefulPiecesReceived)"
    if "FullRLNCDecoder_IsDecoded d"
    using that by (simp add: FullRLNCDecoder_AddPiece_def)
  show "FullRLNCDecoder_IsDecoded d \<longleftrightarrow> full_rank F (length ps) (map Vector cs)"
    if "FullRLNCDecoder_inv F len ps cs d"
    using that by (auto simp: FullRLNCDecoder_inv_def FullRLNCDecoder_IsDecoded_def dec_inv_def)
  show "FullRLNCDecoder_GetPieces d = Some (Inr ps)"
    if inv: "FullRLNCDecoder_inv F len ps cs d" and dec: "FullRLNCDecoder_IsDecoded d"
  proof -
    have "dec_inv F len ps cs (state d)" "Rank (state d) = length ps"
      using inv dec by (auto simp: FullRLNCDecoder_inv_def FullRLNCDecoder_IsDecoded_def dec_inv_def)
    then show ?thesis
      using inv dec GetPiece_decoded
        collect_pieces_all [of "[0..<length ps]" "FullRLNCDecoder_GetPiece d" "\<lambda>i. ps ! i"]
      by (simp add: FullRLNCDecoder_inv_def FullRLNCDecoder_GetPieces_def FullRLNCDecoder_GetPiece_def map_nth)
  qed
  show "FullRLNCDecoder_GetPieces d = Some (Inl ErrMoreUsefulPiecesRequired)"
    if "\<not> FullRLNCDecoder_IsDecoded d"
    using that by (simp add: FullRLNCDecoder_GetPieces_def)
qed

section \<open>Encoder and recoder produce coded pieces\<close>

context galois_field
begin

lemma combine_pieces_eq:
  assumes ps: "\<forall>p \<in> set ps. length p = len" and v: "length v = length ps"
  shows "combine_pieces F ps v (replicate len 0) = Some (lincomb F len v ps)"
proof -
  let ?acc = "\<lambda>i. map (\<lambda>k. dot F (take i v) (take i (column ps k))) [0..<len]"
  let ?body = "\<lambda>i piece. do { p \<leftarrow> nth_opt ps i; c \<leftarrow> nth_opt v i; Multiply F piece p c }"
  have "\<exists>s. for_up 0 (length ps) ?body (replicate len 0) = Some s \<and> s = ?acc (length ps)"
  proof (rule for_up_rule [where I = "\<lambda>i s. s = ?acc i"])
    show "replicate len 0 = ?acc 0" by (rule nth_eqI) auto
    fix i s assume i: "i < length ps" and s: "s = ?acc i"
    then have "length s = length (ps ! i)" using ps by simp
    then have "?body i s = Some (vadd F s (smul F (v ! i) (ps ! i)))"
      using i v by (simp add: go_simps Multiply_eq)
    moreover have "vadd F s (smul F (v ! i) (ps ! i)) = ?acc (Suc i)"
      by (rule nth_eqI) (use s i v ps in \<open>auto simp: dot_take_Suc mul_comm\<close>)
    ultimately show "\<exists>s'. ?body i s = Some s' \<and> s' = ?acc (Suc i)" by simp
  qed simp
  moreover have "?acc (length ps) = lincomb F len v ps"
    using v by (simp add: lincomb_def)
  ultimately show ?thesis by (simp add: combine_pieces_def)
qed

lemma encoder_coded_from:
  assumes ps: "valid_pieces len (pieces f)" and rnd: "rand_fills rnd"
  shows "\<exists>c. FullRLNCEncoder_CodedPiece F rnd f = Some c \<and> coded_from F len (pieces f) c \<and>
     Vector c = rnd (length (pieces f))"
proof -
  have "pieces f ! 0 \<in> set (pieces f)"
    using ps by (intro nth_mem) (auto simp: valid_pieces_def)
  then have "nth_opt (pieces f) 0 = Some (pieces f ! 0)" "length (pieces f ! 0) = len"
    using ps by (auto simp: valid_pieces_def nth_opt_def)
  moreover have "combine_pieces F (pieces f) (rnd (length (pieces f))) (replicate len 0) =
      Some (lincomb F len (rnd (length (pieces f))) (pieces f))"
    using ps rnd by (intro combine_pieces_eq) (auto simp: valid_pieces_def rand_fills_def)
  ultimately show ?thesis
    using rnd by (simp add: FullRLNCEncoder_CodedPiece_def FullRLNCEncoder_PieceSize_def
        FullRLNCEncoder_PieceCount_def GenerateCodingVector_def coded_from_def rand_fills_def Let_def)
qed

text \<open>Applying coefficients to coefficient rows, then to pieces, in either order.\<close>

lemma dot_row_product:
  assumes "length v = length M" "\<forall>r \<in> set M. length r = n" "length x = n"
  shows "dot F (map (\<lambda>j. dot F v (column M j)) [0..<n]) x = dot F v (map (\<lambda>r. dot F r x) M)"
  using assms(1,2)
proof (induction v M rule: list_induct2)
  case Nil
  have "map (\<lambda>j. dot F [] (column [] j)) [0..<n] = replicate n 0"
    by (rule nth_eqI) auto
  then show ?case by (simp add: dot_zero_left)
next
  case (Cons a v r M)
  let ?v = "map (\<lambda>j. dot F v (column M j)) [0..<n]"
  have "map (\<lambda>j. dot F (a # v) (column (r # M) j)) [0..<n] = vadd F (smul F a r) ?v"
    by (rule nth_eqI) (use Cons.prems in \<open>auto simp: column_def mul_comm\<close>)
  then show ?case
    using Cons assms(3) by (simp add: dot_vadd dot_smul mul_comm)
qed

lemma lincomb_row_product:
  assumes "length v = length cs" "\<forall>c \<in> set cs. coded_from F len ps c"
  shows "lincomb F len v (map Piece cs) =
         lincomb F len (map (\<lambda>j. dot F v (column (map Vector cs) j)) [0..<length ps]) ps"
proof (rule nth_eqI)
  fix k assume k: "k < length (lincomb F len (map (\<lambda>j. dot F v (column (map Vector cs) j)) [0..<length ps]) ps)"
  have "map (\<lambda>r. dot F r (column ps k)) (map Vector cs) = column (map Piece cs) k"
    using assms(2) k by (auto simp: column_def coded_from_def)
  then show "lincomb F len v (map Piece cs) ! k =
      lincomb F len (map (\<lambda>j. dot F v (column (map Vector cs) j)) [0..<length ps]) ps ! k"
    using k assms dot_row_product [of v "map Vector cs" "length ps" "column ps k"]
    by (auto simp: coded_from_def)
qed simp

lemma recoder_coded_from:
  assumes ps: "valid_pieces len ps" and cs: "cs \<noteq> []" "\<forall>c \<in> set cs. coded_from F len ps c"
    and rnd: "rand_fills rnd"
  shows "\<exists>c. FullRLNCRecoder_CodedPiece F rnd (NewFullRLNCRecoder cs) = Some (Inr c) \<and>
     coded_from F len ps c"
proof -
  let ?v = "rnd (length cs)" and ?n = "length ps"
  let ?w = "map (\<lambda>j. dot F ?v (column (map Vector cs) j)) [0..<?n]"
  have lv: "length ?v = length cs" using rnd by (simp add: rand_fills_def)
  have cm: "codingMatrix (NewFullRLNCRecoder cs) = map Vector cs"
    by (simp add: NewFullRLNCRecoder_def FullRLNCRecoder_fill_def copy_into_longer)
  have rp: "rpieces (NewFullRLNCRecoder cs) = cs"
    by (simp add: NewFullRLNCRecoder_def FullRLNCRecoder_fill_def)
  have "rect (length cs) ?n (map Vector cs)" using cs(2) by (auto simp: rect_def coded_from_def)
  then have "Multiply_rows F [0..<1] [?v] (map Vector cs) =
      Some (Inr (map (row_product F [?v] (map Vector cs) ?n) [0..<1]))"
    using cs(1) lv by (intro Multiply_rows_eq) (auto simp: rect_def)
  then have mm: "Matrix_Multiply F [?v] (map Vector cs) = Some (Inr [?w])"
    by (simp add: Matrix_Multiply_def Rows_def row_product_def)
  have p0: "nth_opt cs 0 = Some (cs ! 0)" "length (Piece (cs ! 0)) = len"
    using cs by (auto simp: nth_opt_def coded_from_def)
  have "combine_pieces F (map Piece cs) ?v (replicate len 0) = Some (lincomb F len ?v (map Piece cs))"
    using cs(2) lv by (intro combine_pieces_eq) (auto simp: coded_from_def)
  then have "FullRLNCRecoder_CodedPiece F rnd (NewFullRLNCRecoder cs) =
      Some (Inr \<lparr>Vector = ?w, Piece = lincomb F len ?v (map Piece cs)\<rparr>)"
    using mm p0 by (simp add: FullRLNCRecoder_CodedPiece_def cm rp GenerateCodingVector_def
        Let_def nth_opt_def)
  then show ?thesis
    using lincomb_row_product [OF lv cs(2)] by (auto simp: coded_from_def)
qed

end

text \<open>Two pieces of two bytes and three coded pieces of them, for the examples below.\<close>

definition demo_ps :: "bytes list" where
  "demo_ps = [[1, 2], [3, 4]]"

definition demo_cs :: "CodedPiece list" where
  "demo_cs = [\<lparr>Vector = [1, 2], Piece = [7, 10]\<rparr>, \<lparr>Vector = [0, 1], Piece = [3, 4]\<rparr>,
              \<lparr>Vector = [1, 0], Piece = [1, 2]\<rparr>]"

lemmas coded_eval = valid_pieces_def coded_from_def lincomb_def column_def gf256_eval

lemma demo_valid: "valid_pieces 2 demo_ps" and length_demo_ps: "length demo_ps = 2"
  by (simp_all add: demo_ps_def valid_pieces_def)

lemma demo_coded: "\<forall>c \<in> set demo_cs. coded_from DefaultGF256 2 demo_ps c"
  by (simp add: demo_ps_def demo_cs_def coded_eval)

lemma demo_rank: "full_rank DefaultGF256 2 (map Vector demo_cs)"
  by (rule gf256.full_rank_units) (auto simp: less_2_cases_iff unit_vec_2 demo_cs_def)

context galois_field
begin

lemmas full_feed_new = full.feed_new
lemmas full_feed_inv = full.feed_inv [OF full.inv_new]

end

lemma NewFullRLNCEncoderWithPieceCount_ok:
  assumes "2 \<le> unat n" "unat n \<le> length data" "length data < 2 ^ 52"
  obtains f where "NewFullRLNCEncoderWithPieceCount data n = Some (Inr f)"
    "length (pieces f) = unat n" "valid_pieces (ceil_div (length data) (unat n)) (pieces f)"
    "concat (pieces f) = data @ replicate (unat (FullRLNCEncoder_Padding f)) 0"
    "unat (FullRLNCEncoder_Padding f) < unat n"
proof -
  obtain ps pad where ps: "OriginalPiecesFromDataAndPieceCount data n = Some (Inr (ps, pad))"
    "length ps = unat n" "unat pad < unat n"
    "pieces_of data (ceil_div (length data) (unat n)) ps pad"
    using OriginalPiecesFromDataAndPieceCount_ok [OF assms] by blast
  show thesis
    by (rule that [of "\<lparr>pieces = ps, extra = pad\<rparr>"])
      (use ps assms(1) in \<open>auto simp: NewFullRLNCEncoderWithPieceCount_def NewFullRLNCEncoder_def
        valid_pieces_def pieces_of_def FullRLNCEncoder_Padding_def\<close>)
qed

lemma encoder_traverse:
  assumes F: "galois_field F" and f: "valid_pieces len (pieces f)"
    and rnds: "\<forall>rnd \<in> set rnds. rand_fills rnd"
  shows "\<exists>cs. traverse_opt (\<lambda>rnd. FullRLNCEncoder_CodedPiece F rnd f) rnds = Some cs \<and>
     (\<forall>c \<in> set cs. coded_from F len (pieces f) c) \<and>
     map Vector cs = map (\<lambda>rnd. rnd (length (pieces f))) rnds"
  using rnds
proof (induction rnds)
  case (Cons rnd rnds)
  then show ?case
    using galois_field.encoder_coded_from [OF F f, of rnd] by force
qed simp

lemmas run_decoder = NewFullRLNCDecoder_def FullRLNCDecoder_AddPiece_def FullRLNCDecoder_IsDecoded_def
  NewDecoderStateWithPieceCount_def AddPiece_def Rref_def clean_forward_def clean_backward_def
  remove_zero_rows_def Cols_def Let_def Rank_def Rows_def go_simps forward_step_def backward_step_def
  for_up_def for_down_def remove_zero_loop.simps upt_rec delete_row_def

text \<open>
  Two copies of a row that begins with two zeros: there is no pivot on the diagonal, so neither pass
  changes anything, and no row is zero.
\<close>

lemma repeated_row_kept:
  assumes v: "length v = n" "3 \<le> n" "v ! 0 = 0" "v ! 1 = 0" "\<not> zero_row v"
  shows "Rref F \<lparr>pieceCount = k, coeffs = [v, v], coded = [p, p]\<rparr> = Some \<lparr>pieceCount = k, coeffs = [v, v], coded = [p, p]\<rparr>"
proof -
  let ?d = "\<lparr>pieceCount = k, coeffs = [v, v], coded = [p, p]\<rparr>"
  have z: "row_is_zero v [0..<n] = Some False" using row_is_zero_full [OF v(1)] v(5) by simp
  have "min 2 n = 2" using v(2) by simp
  moreover have "forward_step F (Suc (Suc 0)) n 0 ?d = Some ?d" "forward_step F (Suc (Suc 0)) n (Suc 0) ?d = Some ?d"
    "backward_step F n 0 ?d = Some ?d" "backward_step F n (Suc 0) ?d = Some ?d"
    using v(1-3) v(4) [unfolded One_nat_def] by (simp_all add: forward_step_def backward_step_def go_simps)
  ultimately have "clean_forward F ?d = Some ?d" "clean_backward F ?d = Some ?d"
    using v by (simp_all add: clean_forward_def clean_backward_def Cols_def Rows_def go_simps for_up_def for_down_def
        upt_rec numeral_2_eq_2)
  moreover have "remove_zero_rows ?d = Some ?d"
    using v(1) z by (simp add: remove_zero_rows_def Cols_def go_simps remove_zero_loop.simps)
  ultimately show ?thesis by (simp add: Rref_def)
qed

lemma repeated_piece_run:
  assumes "length v = n" "3 \<le> n" "v ! 0 = 0" "v ! 1 = 0" "\<not> zero_row v"
  shows "feed (FullRLNCDecoder_AddPiece F) (NewFullRLNCDecoder n) [\<lparr>Vector = v, Piece = p\<rparr>, \<lparr>Vector = v, Piece = p\<rparr>] =
     Some \<lparr>expected = n, useful = 2, received = 2, state = \<lparr>pieceCount = n, coeffs = [v, v], coded = [p, p]\<rparr>\<rparr>"
  using assms(2) repeated_row_kept [OF assms, of F n p]
  by (simp add: NewFullRLNCDecoder_def FullRLNCDecoder_AddPiece_def FullRLNCDecoder_IsDecoded_def
      NewDecoderStateWithPieceCount_def AddPiece_def Rank_def Rows_def)

lemma feed_append: "feed add d (xs @ ys) = Option.bind (feed add d xs) (\<lambda>d. feed add d ys)"
proof (induction xs arbitrary: d)
  case (Cons x xs)
  then show ?case by (cases "add d x") (auto split: sum.split)
qed simp

text \<open>When the rows of a decoder are gone.\<close>

lemma no_rows_left:
  assumes F: "galois_field F" and inv: "FullRLNCDecoder_inv F len ps cs d" and cs: "\<forall>c \<in> set cs. coded_from F len ps c"
    and two: "1 < length cs"
  shows "coded (state d) = [] \<longleftrightarrow> (\<forall>c \<in> set cs. zero_row (Vector c))"
proof -
  let ?A = "coeffs (state d)"
  have i: "wf_state (Rank (state d)) (length ps) len (state d)" "\<forall>v \<in> set ?A. \<not> zero_row v"
    and nv: "\<And>w. length w = length ps \<Longrightarrow> null_vec F ?A w = null_vec F (map Vector cs) w"
    using inv two by (auto simp: FullRLNCDecoder_inv_def dec_inv_def)
  have z: "zero_row v \<longleftrightarrow> (\<forall>w. length w = length ps \<longrightarrow> dot F v w = 0)" if "length v = length ps" for v
  proof
    assume "\<forall>w. length w = length ps \<longrightarrow> dot F v w = 0"
    then have "v ! j = 0" if "j < length ps" for j
      using galois_field.dot_unit_vec [OF F that \<open>length v = length ps\<close>] galois_field.dot_comm [OF F] by (metis length_unit_vec)
    then show "zero_row v" using that by (auto simp: zero_row_def in_set_conv_nth)
  qed (use galois_field.zero_row_dot [OF F] in blast)
  have "(\<forall>v \<in> set ?A. zero_row v) \<longleftrightarrow> (\<forall>w. length w = length ps \<longrightarrow> null_vec F ?A w)"
    using z i(1) by (auto simp: null_vec_def wf_state_def rect_def)
  also have "\<dots> \<longleftrightarrow> (\<forall>w. length w = length ps \<longrightarrow> null_vec F (map Vector cs) w)"
    using nv by blast
  also have "\<dots> \<longleftrightarrow> (\<forall>c \<in> set cs. zero_row (Vector c))"
    using z cs by (auto simp: null_vec_def coded_from_def)
  finally have "?A = [] \<longleftrightarrow> (\<forall>c \<in> set cs. zero_row (Vector c))"
    using i(2) by (metis equals0D list.set(1) list.set_intros(1) neq_Nil_conv)
  moreover have "length ?A = length (coded (state d))" using i(1) by (simp add: wf_simps)
  ultimately show ?thesis by auto
qed

section \<open>Properties\<close>

text \<open>
  C1: the full RLNC decoder is sound and complete.  Fed with any sequence of coded pieces of
  two or more original pieces, it never panics, reports decoding exactly when the coding
  vectors received have full rank, then returns the original pieces in order, and otherwise
  the error asking for more pieces.
\<close>

theorem full_decoder_correct:
  assumes "galois_field F" "valid_pieces len ps" "\<forall>c \<in> set cs. coded_from F len ps c"
  shows "\<exists>d. feed (FullRLNCDecoder_AddPiece F) (NewFullRLNCDecoder (length ps)) cs = Some d \<and>
     (FullRLNCDecoder_IsDecoded d \<longleftrightarrow> full_rank F (length ps) (map Vector cs)) \<and>
     FullRLNCDecoder_GetPieces d =
       Some (if full_rank F (length ps) (map Vector cs) then Inr ps
             else Inl ErrMoreUsefulPiecesRequired)"
  by (rule galois_field.full_feed_new [OF assms])

theorem full_decoder_correct_witness:
  "\<exists>d. feed (FullRLNCDecoder_AddPiece DefaultGF256) (NewFullRLNCDecoder 2) demo_cs = Some d \<and>
     FullRLNCDecoder_GetPieces d = Some (Inr demo_ps)"
  using full_decoder_correct [OF gf256.galois_field_axioms demo_valid demo_coded] demo_rank
  by (auto simp: length_demo_ps)

text \<open>
  C2: encoding and decoding is the identity on data.  A chunk split into \<open>n\<close> pieces, encoded
  with random vectors of full rank and fed to a decoder for \<open>n\<close> pieces comes back as the
  chunk followed by the zero bytes of padding the encoder reports.
\<close>

theorem full_round_trip:
  assumes F: "galois_field F" and rnds: "\<forall>rnd \<in> set rnds. rand_fills rnd"
    and n: "2 \<le> unat n" "unat n \<le> length data" "length data < 2 ^ 52"
    and rank: "full_rank F (unat n) (map (\<lambda>rnd. rnd (unat n)) rnds)"
  shows "\<exists>f cs d ps. NewFullRLNCEncoderWithPieceCount data n = Some (Inr f) \<and>
     traverse_opt (\<lambda>rnd. FullRLNCEncoder_CodedPiece F rnd f) rnds = Some cs \<and>
     feed (FullRLNCDecoder_AddPiece F) (NewFullRLNCDecoder (unat n)) cs = Some d \<and>
     FullRLNCDecoder_GetPieces d = Some (Inr ps) \<and>
     concat ps = data @ replicate (unat (FullRLNCEncoder_Padding f)) 0"
proof -
  obtain f where f: "NewFullRLNCEncoderWithPieceCount data n = Some (Inr f)"
    "length (pieces f) = unat n" "valid_pieces (ceil_div (length data) (unat n)) (pieces f)"
    "concat (pieces f) = data @ replicate (unat (FullRLNCEncoder_Padding f)) 0"
    using NewFullRLNCEncoderWithPieceCount_ok [OF n] by blast
  obtain cs where cs: "traverse_opt (\<lambda>rnd. FullRLNCEncoder_CodedPiece F rnd f) rnds = Some cs"
    "\<forall>c \<in> set cs. coded_from F (ceil_div (length data) (unat n)) (pieces f) c"
    "map Vector cs = map (\<lambda>rnd. rnd (unat n)) rnds"
    using encoder_traverse [OF F f(3) rnds] f(2) by auto
  then show ?thesis
    using galois_field.full_feed_new [OF F f(3) cs(2)] rank f by auto
qed

theorem full_round_trip_witness:
  "\<exists>f cs d ps. NewFullRLNCEncoderWithPieceCount [7, 8, 9] 2 = Some (Inr f) \<and>
     traverse_opt (\<lambda>rnd. FullRLNCEncoder_CodedPiece DefaultGF256 rnd f)
       [\<lambda>n. unit_vec n 1, \<lambda>n. replicate n 3, \<lambda>n. unit_vec n 0] = Some cs \<and>
     feed (FullRLNCDecoder_AddPiece DefaultGF256) (NewFullRLNCDecoder (unat (2 :: u64))) cs = Some d \<and>
     FullRLNCDecoder_GetPieces d = Some (Inr ps) \<and>
     concat ps = [7, 8, 9] @ replicate (unat (FullRLNCEncoder_Padding f)) 0"
proof (rule full_round_trip [OF gf256.galois_field_axioms])
  show "full_rank DefaultGF256 (unat (2 :: u64))
      (map (\<lambda>rnd. rnd (unat (2 :: u64))) [\<lambda>n. unit_vec n 1, \<lambda>n. replicate n 3, \<lambda>n. unit_vec n 0])"
    by (rule gf256.full_rank_units) (auto simp: less_2_cases_iff unit_vec_2)
qed (simp_all add: rand_fills_def)

text \<open>
  C8: recoding is transparent.  Whatever coded pieces of the same originals a recoder was
  given, and whatever random coefficients it draws, the piece it emits is again a coded piece
  of those originals, so decoders need not know about recoders.
\<close>

theorem recoder_transparent:
  assumes "galois_field F" "valid_pieces len ps" "cs \<noteq> []" "\<forall>c \<in> set cs. coded_from F len ps c"
    "rand_fills rnd"
  shows "\<exists>c. FullRLNCRecoder_CodedPiece F rnd (NewFullRLNCRecoder cs) = Some (Inr c) \<and>
     coded_from F len ps c"
  by (rule galois_field.recoder_coded_from [OF assms])

theorem recoder_transparent_witness:
  "\<exists>c. FullRLNCRecoder_CodedPiece DefaultGF256 (\<lambda>n. replicate n 5) (NewFullRLNCRecoder demo_cs) =
       Some (Inr c) \<and> coded_from DefaultGF256 2 demo_ps c"
  by (rule recoder_transparent [OF gf256.galois_field_axioms demo_valid _ demo_coded])
    (simp_all add: demo_cs_def rand_fills_def)

text \<open>
  The invariant of the decoder.  After every piece, while decoding is incomplete,
  \<^verbatim>\<open>useful\<close> is the number of rows kept, at most \<^verbatim>\<open>expected\<close>, and \<^verbatim>\<open>Required\<close> is the
  difference of the two without wrapping around.
\<close>

theorem full_decoder_counters:
  assumes F: "galois_field F" and ps: "valid_pieces len ps" and small: "length ps < 2 ^ 64"
    and cs: "\<forall>c \<in> set cs. coded_from F len ps c"
  shows "\<exists>d. feed (FullRLNCDecoder_AddPiece F) (NewFullRLNCDecoder (length ps)) cs = Some d \<and>
     useful d = Rank (state d) \<and> useful d \<le> length ps \<and> expected d = length ps \<and>
     FullRLNCDecoder_Required d = length ps - useful d \<and>
     (FullRLNCDecoder_Required d = 0 \<longleftrightarrow> full_rank F (length ps) (map Vector cs))"
proof -
  obtain d bs where d: "feed (FullRLNCDecoder_AddPiece F) (NewFullRLNCDecoder (length ps)) cs = Some d"
    "FullRLNCDecoder_inv F len ps bs d"
    using galois_field.full_feed_inv [OF F ps cs] by auto
  then have c: "useful d = Rank (state d)" "useful d \<le> length ps" "expected d = length ps"
    by (auto simp: FullRLNCDecoder_inv_def dec_inv_def)
  have "int (length ps) - int (useful d) = int (length ps - useful d)" using c by simp
  then have "FullRLNCDecoder_Required d = length ps - useful d"
    using small c by (simp add: FullRLNCDecoder_Required_def mod_pos_pos_trivial)
  moreover have "FullRLNCDecoder_IsDecoded d \<longleftrightarrow> full_rank F (length ps) (map Vector cs)"
    using galois_field.full_feed_new [OF F ps cs] d(1) by simp
  ultimately show ?thesis using d(1) c by (auto simp: FullRLNCDecoder_IsDecoded_def)
qed


theorem full_decoder_counters_witness:
  "\<exists>d. feed (FullRLNCDecoder_AddPiece DefaultGF256) (NewFullRLNCDecoder 2) demo_cs = Some d \<and>
     useful d = Rank (state d) \<and> useful d \<le> 2 \<and> FullRLNCDecoder_Required d = 0"
  using full_decoder_counters [OF gf256.galois_field_axioms demo_valid _ demo_coded] demo_rank
  by (auto simp: length_demo_ps)

text \<open>
  C15: \<^verbatim>\<open>Required\<close> can promise too little.  Pivots are only looked for on the diagonal, so a coded
  piece whose vector begins with two zeros is kept twice when it arrives twice, and counted as useful
  twice: for \<open>n\<close> pieces the decoder then asks for \<open>n - 2\<close> more, yet whatever \<open>n - 2\<close> coded pieces
  follow, it has not decoded.
\<close>

theorem Required_counts_dependent_rows:
  assumes F: "galois_field F" and ps: "valid_pieces len ps" "3 \<le> length ps" "length ps < 2 ^ 64"
    and c: "coded_from F len ps c" "Vector c ! 0 = 0" "Vector c ! 1 = 0" "\<not> zero_row (Vector c)"
    and cs: "\<forall>c' \<in> set cs. coded_from F len ps c'" "length cs = length ps - 2"
  shows "\<exists>d d'. feed (FullRLNCDecoder_AddPiece F) (NewFullRLNCDecoder (length ps)) [c, c] = Some d \<and>
     FullRLNCDecoder_Required d = length ps - 2 \<and>
     feed (FullRLNCDecoder_AddPiece F) d cs = Some d' \<and> \<not> FullRLNCDecoder_IsDecoded d'"
proof -
  let ?add = "FullRLNCDecoder_AddPiece F" and ?n = "length ps"
  obtain v p where vp: "c = \<lparr>Vector = v, Piece = p\<rparr>" by (cases c) auto
  have "length v = ?n" using c(1) by (simp add: coded_from_def vp)
  then have run: "feed ?add (NewFullRLNCDecoder ?n) [c, c] =
      Some \<lparr>expected = ?n, useful = 2, received = 2, state = \<lparr>pieceCount = ?n, coeffs = [v, v], coded = [p, p]\<rparr>\<rparr>"
    unfolding vp using ps(2) c by (intro repeated_piece_run) (simp_all add: vp)
  obtain d' where d': "feed ?add (NewFullRLNCDecoder ?n) ([c, c] @ cs) = Some d'"
    "FullRLNCDecoder_IsDecoded d' \<longleftrightarrow> full_rank F ?n (map Vector ([c, c] @ cs))"
    using galois_field.full_feed_new [OF F ps(1), of "[c, c] @ cs"] c(1) cs(1) by auto
  have "\<not> full_rank F ?n (map Vector (c # cs))"
    using ps(2) cs c(1) by (intro galois_field.few_rows_not_full_rank [OF F]) (auto simp: coded_from_def)
  then have "\<not> full_rank F ?n (map Vector ([c, c] @ cs))" by (simp add: full_rank_def)
  moreover have "nat ((int ?n - 2) mod 2 ^ 64) = ?n - 2" using ps(2,3) by (simp add: nat_diff_distrib)
  ultimately show ?thesis
    using run d' unfolding feed_append by (simp add: FullRLNCDecoder_Required_def)
qed

text \<open>Three pieces of one byte and a repeated piece that names the third one only.\<close>

theorem Required_counts_dependent_rows_witness:
  "\<exists>d d'. feed (FullRLNCDecoder_AddPiece DefaultGF256) (NewFullRLNCDecoder 3)
       [\<lparr>Vector = [0, 0, 1], Piece = [9]\<rparr>, \<lparr>Vector = [0, 0, 1], Piece = [9]\<rparr>] = Some d \<and>
     FullRLNCDecoder_Required d = 1 \<and>
     feed (FullRLNCDecoder_AddPiece DefaultGF256) d [\<lparr>Vector = [1, 0, 0], Piece = [7]\<rparr>] = Some d' \<and>
     \<not> FullRLNCDecoder_IsDecoded d'"
proof -
  let ?ps = "[[7], [8], [9 :: byte]]"
  have "valid_pieces 1 ?ps" "coded_from DefaultGF256 1 ?ps \<lparr>Vector = [0, 0, 1], Piece = [9]\<rparr>"
    "coded_from DefaultGF256 1 ?ps \<lparr>Vector = [1, 0, 0], Piece = [7]\<rparr>"
    by (simp_all add: coded_eval)
  then show ?thesis
    using Required_counts_dependent_rows [OF gf256.galois_field_axioms, of 1 ?ps
        "\<lparr>Vector = [0, 0, 1], Piece = [9]\<rparr>" "[\<lparr>Vector = [1, 0, 0], Piece = [7]\<rparr>]"]
    by (simp add: zero_row_def flip: numeral_3_eq_3)
qed

text \<open>
  C16: a decoder for a single piece never decodes.  It takes the first coded piece as decoded
  without dividing by its coefficient and returns the coded payload, whatever the field.
\<close>

theorem single_piece_not_decoded:
  "\<exists>d. feed (FullRLNCDecoder_AddPiece F) (NewFullRLNCDecoder 1) [\<lparr>Vector = [c], Piece = p\<rparr>] = Some d \<and>
     FullRLNCDecoder_IsDecoded d \<and> FullRLNCDecoder_GetPieces d = Some (Inr [p])"
  by (simp add: run_decoder FullRLNCDecoder_GetPieces_def FullRLNCDecoder_GetPiece_def GetPiece_def)

text \<open>
  C17: when asking for the piece length panics.  \<^verbatim>\<open>PieceLength\<close> only looks at the number of pieces
  received before it indexes the first row of the matrix.  After any sequence of coded pieces it is
  0 if there was none, and otherwise the length of the pieces, except that it panics after two
  pieces or more that all had zero vectors: the reduction removed every row.
\<close>

theorem PieceLength_panics:
  assumes F: "galois_field F" and ps: "valid_pieces len ps" and cs: "\<forall>c \<in> set cs. coded_from F len ps c"
  shows "\<exists>d. feed (FullRLNCDecoder_AddPiece F) (NewFullRLNCDecoder (length ps)) cs = Some d \<and>
     FullRLNCDecoder_PieceLength d =
       (if cs = [] then Some 0
        else if 2 \<le> length cs \<and> (\<forall>c \<in> set cs. zero_row (Vector c)) then None else Some len)"
proof -
  obtain d bs where d: "feed (FullRLNCDecoder_AddPiece F) (NewFullRLNCDecoder (length ps)) cs = Some d"
    "FullRLNCDecoder_inv F len ps bs d" "set bs \<subseteq> set cs" "FullRLNCDecoder_IsDecoded d \<or> bs = cs"
    using galois_field.full_feed_inv [OF F ps cs] by auto
  have i: "wf_state (Rank (state d)) (length ps) len (state d)" "received d = length bs" "useful d = Rank (state d)"
    "expected d = length ps" "bs = [] \<longrightarrow> Rank (state d) = 0" "2 \<le> length ps"
    using d(2) ps by (auto simp: FullRLNCDecoder_inv_def dec_inv_def valid_pieces_def)
  have cols: "Cols (coded (state d)) = (if coded (state d) = [] then None else Some len)"
    using i(1) by (cases "coded (state d)") (auto simp: Cols_def wf_state_def rect_def go_simps nth_opt_def)
  have rows: "length (coded (state d)) = Rank (state d)" using i(1) by (simp add: wf_simps)
  have len: "FullRLNCDecoder_PieceLength d = (if bs = [] then Some 0 else if coded (state d) = [] then None else Some len)"
    using i(2) cols by (simp add: FullRLNCDecoder_PieceLength_def CodedPieceMatrix_def)
  show ?thesis
  proof (cases "FullRLNCDecoder_IsDecoded d")
    case True
    then have r: "Rank (state d) \<ge> length ps" using i(3,4) by (simp add: FullRLNCDecoder_IsDecoded_def)
    then have "full_rank F (length ps) (map Vector bs)" using d(2) by (auto simp: FullRLNCDecoder_inv_def dec_inv_def)
    moreover have "\<not> full_rank F (length ps) (map Vector bs)" if "\<forall>c \<in> set bs. zero_row (Vector c)"
    proof -
      have "ps \<noteq> []" using i(6) by auto
      then show ?thesis
        using that galois_field.zero_row_dot [OF F] full_rank_Nil [of "length ps" F] by (auto simp: full_rank_def)
    qed
    ultimately have "\<not> (\<forall>c \<in> set cs. zero_row (Vector c))" using d(3) by blast
    moreover have "bs \<noteq> []" "coded (state d) \<noteq> []" using r rows i(5,6) by auto
    ultimately show ?thesis using d(1,3) len by auto
  next
    case False
    then have bs: "bs = cs" using d(4) by blast
    show ?thesis
    proof (cases "1 < length cs")
      case True
      then show ?thesis using no_rows_left [OF F d(2) [unfolded bs] cs] d(1) len bs by auto
    next
      case False
      have "coded (state d) \<noteq> []" if "cs \<noteq> []"
          using that False rows d(2) bs by (cases cs) (auto simp: FullRLNCDecoder_inv_def)
      then show ?thesis using d(1) len bs False by auto
    qed
  qed
qed

theorem PieceLength_panics_witness:
  "\<exists>d. feed (FullRLNCDecoder_AddPiece DefaultGF256) (NewFullRLNCDecoder 2)
       [\<lparr>Vector = [0, 0], Piece = [0, 0]\<rparr>, \<lparr>Vector = [0, 0], Piece = [0, 0]\<rparr>] = Some d \<and>
     FullRLNCDecoder_PieceLength d = None"
proof -
  have "coded_from DefaultGF256 2 demo_ps \<lparr>Vector = [0, 0], Piece = [0, 0]\<rparr>"
    by (simp add: coded_eval demo_ps_def)
  then show ?thesis
    using PieceLength_panics [OF gf256.galois_field_axioms demo_valid,
        of "[\<lparr>Vector = [0, 0], Piece = [0, 0]\<rparr>, \<lparr>Vector = [0, 0], Piece = [0, 0]\<rparr>]"]
    by (simp add: length_demo_ps zero_row_def)
qed

end
