(* ===== verification/Systematic_RLNC.thy ===== *)
theory Systematic_RLNC
  imports Full_RLNC
begin

text \<open>
  Model of \<^verbatim>\<open>kodr/systematic\<close>: the encoder that first sends the original pieces unchanged and
  random combinations afterwards, and its decoder.  The decoder is shown to refine the full
  one, as the comment on \<^verbatim>\<open>NewSystematicRLNCDecoder\<close> says it could.
\<close>

section \<open>Encoder\<close>

record SystematicRLNCEncoder =
  currentPieceId :: nat
  spieces :: "bytes list"
  sextra :: u64

definition SystematicRLNCEncoder_PieceCount :: "SystematicRLNCEncoder \<Rightarrow> nat" where
  "SystematicRLNCEncoder_PieceCount s = length (spieces s)"

definition SystematicRLNCEncoder_PieceSize :: "SystematicRLNCEncoder \<Rightarrow> nat option" where
  "SystematicRLNCEncoder_PieceSize s = map_option length (nth_opt (spieces s) 0)"

definition SystematicRLNCEncoder_CodedPieceLen :: "SystematicRLNCEncoder \<Rightarrow> nat option" where
  "SystematicRLNCEncoder_CodedPieceLen s =
     do { l \<leftarrow> SystematicRLNCEncoder_PieceSize s; Some (SystematicRLNCEncoder_PieceCount s + l) }"

definition SystematicRLNCEncoder_DecodableLen :: "SystematicRLNCEncoder \<Rightarrow> nat option" where
  "SystematicRLNCEncoder_DecodableLen s =
     do { l \<leftarrow> SystematicRLNCEncoder_CodedPieceLen s; Some (SystematicRLNCEncoder_PieceCount s * l) }"

definition SystematicRLNCEncoder_Padding :: "SystematicRLNCEncoder \<Rightarrow> u64" where
  "SystematicRLNCEncoder_Padding s = sextra s"

text \<open>The \<^verbatim>\<open>nil\<close> vector for an index out of range is the empty list.\<close>

definition systematicCodingVector :: "SystematicRLNCEncoder \<Rightarrow> nat \<Rightarrow> bytes option" where
  "systematicCodingVector s idx =
     (if \<not> idx < SystematicRLNCEncoder_PieceCount s then Some []
      else set_opt (replicate (SystematicRLNCEncoder_PieceCount s) 0) idx 1)"

definition SystematicRLNCEncoder_CodedPiece ::
  "GF \<Rightarrow> (nat \<Rightarrow> bytes) \<Rightarrow> SystematicRLNCEncoder \<Rightarrow> (CodedPiece \<times> SystematicRLNCEncoder) option" where
  "SystematicRLNCEncoder_CodedPiece F rnd s =
     (if currentPieceId s < SystematicRLNCEncoder_PieceCount s then
        do { vector \<leftarrow> systematicCodingVector s (currentPieceId s);
             l \<leftarrow> SystematicRLNCEncoder_PieceSize s;
             p \<leftarrow> nth_opt (spieces s) (currentPieceId s);
             let piece = fst (copy_into (replicate l 0) p);
             Some (\<lparr>Vector = vector, Piece = piece\<rparr>, s\<lparr>currentPieceId := currentPieceId s + 1\<rparr>) }
      else
        let vector = GenerateCodingVector rnd (SystematicRLNCEncoder_PieceCount s)
        in do { l \<leftarrow> SystematicRLNCEncoder_PieceSize s;
                piece \<leftarrow> combine_pieces F (spieces s) vector (replicate l 0);
                Some (\<lparr>Vector = vector, Piece = piece\<rparr>, s) })"

definition NewSystematicRLNCEncoder :: "bytes list \<Rightarrow> SystematicRLNCEncoder" where
  "NewSystematicRLNCEncoder ps = \<lparr>currentPieceId = 0, spieces = ps, sextra = 0\<rparr>"

definition NewSystematicRLNCEncoderWithPieceCount ::
  "bytes \<Rightarrow> u64 \<Rightarrow> (kodr_error + SystematicRLNCEncoder) option" where
  "NewSystematicRLNCEncoderWithPieceCount data count =
     do { r \<leftarrow> OriginalPiecesFromDataAndPieceCount data count;
          Some (case r of Inl e \<Rightarrow> Inl e
                | Inr (ps, padding) \<Rightarrow> Inr ((NewSystematicRLNCEncoder ps)\<lparr>sextra := padding\<rparr>)) }"

definition NewSystematicRLNCEncoderWithPieceSize ::
  "bytes \<Rightarrow> u64 \<Rightarrow> (kodr_error + SystematicRLNCEncoder) option" where
  "NewSystematicRLNCEncoderWithPieceSize data pieceSize =
     do { r \<leftarrow> OriginalPiecesFromDataAndPieceSize data pieceSize;
          Some (case r of Inl e \<Rightarrow> Inl e
                | Inr (ps, padding) \<Rightarrow> Inr ((NewSystematicRLNCEncoder ps)\<lparr>sextra := padding\<rparr>)) }"

text \<open>Successive calls of \<^verbatim>\<open>CodedPiece\<close>, one for each random source.\<close>

fun systematic_emit ::
  "GF \<Rightarrow> (nat \<Rightarrow> bytes) list \<Rightarrow> SystematicRLNCEncoder \<Rightarrow> CodedPiece list option" where
  "systematic_emit F [] s = Some []"
| "systematic_emit F (rnd # rnds) s =
     do { (c, s') \<leftarrow> SystematicRLNCEncoder_CodedPiece F rnd s;
          cs \<leftarrow> systematic_emit F rnds s';
          Some (c # cs) }"

section \<open>Decoder\<close>

record SystematicRLNCDecoder =
  sexpected :: nat
  suseful :: nat
  sreceived :: nat
  sstate :: DecoderState

definition SystematicRLNCDecoder_PieceLength :: "SystematicRLNCDecoder \<Rightarrow> nat option" where
  "SystematicRLNCDecoder_PieceLength s =
     (if sreceived s > 0 then Cols (CodedPieceMatrix (sstate s)) else Some 0)"

definition SystematicRLNCDecoder_IsDecoded :: "SystematicRLNCDecoder \<Rightarrow> bool" where
  "SystematicRLNCDecoder_IsDecoded s \<longleftrightarrow> suseful s \<ge> sexpected s"

definition SystematicRLNCDecoder_Required :: "SystematicRLNCDecoder \<Rightarrow> nat" where
  "SystematicRLNCDecoder_Required s = nat ((int (sexpected s) - int (suseful s)) mod 2 ^ 64)"

definition SystematicRLNCDecoder_AddPiece ::
  "GF \<Rightarrow> SystematicRLNCDecoder \<Rightarrow> CodedPiece \<Rightarrow> (kodr_error + SystematicRLNCDecoder) option" where
  "SystematicRLNCDecoder_AddPiece F s piece =
     (if SystematicRLNCDecoder_IsDecoded s then Some (Inl ErrAllUsefulPiecesReceived)
      else let s1 = s\<lparr>sstate := AddPiece (sstate s) piece, sreceived := sreceived s + 1\<rparr>
           in if \<not> sreceived s1 > 1 then Some (Inr (s1\<lparr>suseful := suseful s1 + 1\<rparr>))
              else do { st \<leftarrow> Rref F (sstate s1);
                        Some (Inr (s1\<lparr>sstate := st, suseful := Rank st\<rparr>)) })"

definition SystematicRLNCDecoder_GetPiece ::
  "SystematicRLNCDecoder \<Rightarrow> nat \<Rightarrow> (kodr_error + bytes) option" where
  "SystematicRLNCDecoder_GetPiece s i = GetPiece (sstate s) i"

definition SystematicRLNCDecoder_GetPieces ::
  "SystematicRLNCDecoder \<Rightarrow> (kodr_error + bytes list) option" where
  "SystematicRLNCDecoder_GetPieces s =
     (if \<not> SystematicRLNCDecoder_IsDecoded s then Some (Inl ErrMoreUsefulPiecesRequired)
      else collect_pieces (SystematicRLNCDecoder_GetPiece s) [0..<suseful s])"

definition NewSystematicRLNCDecoder :: "nat \<Rightarrow> SystematicRLNCDecoder" where
  "NewSystematicRLNCDecoder n =
     \<lparr>sexpected = n, suseful = 0, sreceived = 0, sstate = NewDecoderStateWithPieceCount n\<rparr>"

section \<open>The systematic decoder refines the full one\<close>

definition as_full :: "SystematicRLNCDecoder \<Rightarrow> FullRLNCDecoder" where
  "as_full s = \<lparr>expected = sexpected s, useful = suseful s, received = sreceived s, state = sstate s\<rparr>"

lemma as_full_simps [simp]:
  "expected (as_full s) = sexpected s" "useful (as_full s) = suseful s"
  "received (as_full s) = sreceived s" "state (as_full s) = sstate s"
  by (simp_all add: as_full_def)

lemma as_full_new: "as_full (NewSystematicRLNCDecoder n) = NewFullRLNCDecoder n"
  by (simp add: as_full_def NewSystematicRLNCDecoder_def NewFullRLNCDecoder_def)

lemma as_full_IsDecoded: "SystematicRLNCDecoder_IsDecoded s = FullRLNCDecoder_IsDecoded (as_full s)"
  by (simp add: SystematicRLNCDecoder_IsDecoded_def FullRLNCDecoder_IsDecoded_def)

lemma as_full_GetPieces: "SystematicRLNCDecoder_GetPieces s = FullRLNCDecoder_GetPieces (as_full s)"
  by (simp add: SystematicRLNCDecoder_GetPieces_def FullRLNCDecoder_GetPieces_def as_full_IsDecoded
      SystematicRLNCDecoder_GetPiece_def [abs_def] FullRLNCDecoder_GetPiece_def [abs_def])

lemma as_full_AddPiece:
  "map_option (map_sum id as_full) (SystematicRLNCDecoder_AddPiece F s c) =
   FullRLNCDecoder_AddPiece F (as_full s) c"
  by (simp add: SystematicRLNCDecoder_AddPiece_def FullRLNCDecoder_AddPiece_def as_full_IsDecoded
      as_full_def Let_def split: option.splits bind_splits)

sublocale galois_field \<subseteq> systematic: piece_decoder F NewSystematicRLNCDecoder
  "SystematicRLNCDecoder_AddPiece F" SystematicRLNCDecoder_IsDecoded SystematicRLNCDecoder_GetPieces
  "\<lambda>len ps cs s. FullRLNCDecoder_inv F len ps cs (as_full s)"
proof unfold_locales
  fix len ps cs s c
  show "FullRLNCDecoder_inv F len ps [] (as_full (NewSystematicRLNCDecoder (length ps)))"
    if "valid_pieces len ps"
    using full.inv_new [OF that] by (simp add: as_full_new)
  show "\<exists>d'. SystematicRLNCDecoder_AddPiece F s c = Some (Inr d') \<and>
      FullRLNCDecoder_inv F len ps (cs @ [c]) (as_full d')"
    if inv: "FullRLNCDecoder_inv F len ps cs (as_full s)" "\<not> SystematicRLNCDecoder_IsDecoded s"
      "coded_from F len ps c"
  proof -
    obtain d where d: "FullRLNCDecoder_AddPiece F (as_full s) c = Some (Inr d)"
      "FullRLNCDecoder_inv F len ps (cs @ [c]) d"
      using full.add_inv [OF inv(1) _ inv(3)] inv(2) by (auto simp: as_full_IsDecoded)
    then obtain s' where "SystematicRLNCDecoder_AddPiece F s c = Some (Inr s')" "as_full s' = d"
      using as_full_AddPiece [of F s c]
      by (cases "SystematicRLNCDecoder_AddPiece F s c") (auto simp: map_sum_def split: sum.splits)
    with d show ?thesis by blast
  qed
  show "SystematicRLNCDecoder_AddPiece F s c = Some (Inl ErrAllUsefulPiecesReceived)"
    if "SystematicRLNCDecoder_IsDecoded s"
    using that by (simp add: SystematicRLNCDecoder_AddPiece_def)
qed (simp_all add: as_full_IsDecoded as_full_GetPieces full.decoded_iff full.pieces_decoded
       full.pieces_undecoded)

section \<open>What the encoder emits\<close>

context galois_field
begin

lemmas systematic_feed_new = systematic.feed_new

lemma systematic_CodedPiece_first:
  assumes ps: "valid_pieces len (spieces s)" and i: "currentPieceId s < length (spieces s)"
  shows "SystematicRLNCEncoder_CodedPiece F rnd s =
     Some (\<lparr>Vector = unit_vec (length (spieces s)) (currentPieceId s),
            Piece = spieces s ! currentPieceId s\<rparr>, s\<lparr>currentPieceId := currentPieceId s + 1\<rparr>)"
proof -
  have l: "length p = len" if "p \<in> set (spieces s)" for p using ps that by (simp add: valid_pieces_def)
  have "length (spieces s ! 0) = len" "length (spieces s ! currentPieceId s) = len"
    "nth_opt (spieces s) 0 = Some (spieces s ! 0)"
    using i by (auto intro!: l nth_mem simp: nth_opt_def)
  then show ?thesis
    using i by (auto simp: SystematicRLNCEncoder_CodedPiece_def SystematicRLNCEncoder_PieceCount_def
        SystematicRLNCEncoder_PieceSize_def systematicCodingVector_def go_simps copy_into_longer
        unit_vec_def Let_def)
qed

lemma systematic_CodedPiece_later:
  assumes ps: "valid_pieces len (spieces s)" and i: "\<not> currentPieceId s < length (spieces s)"
    and rnd: "rand_fills rnd"
  shows "\<exists>c. SystematicRLNCEncoder_CodedPiece F rnd s = Some (c, s) \<and> coded_from F len (spieces s) c"
proof -
  have "spieces s ! 0 \<in> set (spieces s)" using ps by (intro nth_mem) (auto simp: valid_pieces_def)
  then have "nth_opt (spieces s) 0 = Some (spieces s ! 0)" "length (spieces s ! 0) = len"
    using ps by (auto simp: valid_pieces_def nth_opt_def)
  moreover have "combine_pieces F (spieces s) (rnd (length (spieces s))) (replicate len 0) =
      Some (lincomb F len (rnd (length (spieces s))) (spieces s))"
    using ps rnd by (intro combine_pieces_eq) (auto simp: valid_pieces_def rand_fills_def)
  ultimately show ?thesis
    using i rnd by (simp add: SystematicRLNCEncoder_CodedPiece_def SystematicRLNCEncoder_PieceCount_def
        SystematicRLNCEncoder_PieceSize_def GenerateCodingVector_def coded_from_def rand_fills_def Let_def)
qed

lemma unit_coded_from:
  "valid_pieces len ps \<Longrightarrow> i < length ps \<Longrightarrow>
     coded_from F len ps \<lparr>Vector = unit_vec (length ps) i, Piece = ps ! i\<rparr>"
  by (simp add: coded_from_def lincomb_unit_vec valid_pieces_def)

lemma systematic_emit_ok:
  assumes "valid_pieces len (spieces s)" "\<forall>rnd \<in> set rnds. rand_fills rnd"
  shows "\<exists>cs. systematic_emit F rnds s = Some cs \<and> length cs = length rnds \<and>
     (\<forall>c \<in> set cs. coded_from F len (spieces s) c) \<and>
     (\<forall>k < length rnds. currentPieceId s + k < length (spieces s) \<longrightarrow>
        cs ! k = \<lparr>Vector = unit_vec (length (spieces s)) (currentPieceId s + k),
                  Piece = spieces s ! (currentPieceId s + k)\<rparr>)"
  using assms
proof (induction rnds arbitrary: s)
  case (Cons rnd rnds)
  show ?case
  proof (cases "currentPieceId s < length (spieces s)")
    case True
    let ?s = "s\<lparr>currentPieceId := currentPieceId s + 1\<rparr>"
    obtain cs where "systematic_emit F rnds ?s = Some cs" "length cs = length rnds"
      "\<forall>c \<in> set cs. coded_from F len (spieces s) c"
      "\<forall>k < length rnds. currentPieceId s + 1 + k < length (spieces s) \<longrightarrow>
        cs ! k = \<lparr>Vector = unit_vec (length (spieces s)) (currentPieceId s + 1 + k),
                  Piece = spieces s ! (currentPieceId s + 1 + k)\<rparr>"
      using Cons.IH [of ?s] Cons.prems by auto
    then show ?thesis
      using systematic_CodedPiece_first [OF Cons.prems(1) True, of rnd]
        unit_coded_from [OF Cons.prems(1) True]
      by (auto simp: nth_Cons split: nat.splits)
  next
    case False
    then obtain c where "SystematicRLNCEncoder_CodedPiece F rnd s = Some (c, s)"
      "coded_from F len (spieces s) c"
      using systematic_CodedPiece_later [OF Cons.prems(1)] Cons.prems(2) by fastforce
    moreover obtain cs where "systematic_emit F rnds s = Some cs" "length cs = length rnds"
      "\<forall>c \<in> set cs. coded_from F len (spieces s) c"
      using Cons.IH [of s] Cons.prems by auto
    ultimately show ?thesis using False by auto
  qed
qed simp

end

section \<open>Properties\<close>

text \<open>
  C12: what the systematic encoder sends.  The first pieces are the original pieces in order
  with their unit vectors, whatever the random source, and every later piece is a coded piece
  of the originals; no call panics.
\<close>

theorem systematic_encoder_emits:
  assumes F: "galois_field F" and ps: "valid_pieces len ps"
    and rnds: "\<forall>rnd \<in> set rnds. rand_fills rnd"
  shows "\<exists>cs. systematic_emit F rnds (NewSystematicRLNCEncoder ps) = Some cs \<and>
     length cs = length rnds \<and> (\<forall>c \<in> set cs. coded_from F len ps c) \<and>
     (\<forall>k < length rnds. k < length ps \<longrightarrow>
        cs ! k = \<lparr>Vector = unit_vec (length ps) k, Piece = ps ! k\<rparr> \<and> IsSystematic (cs ! k))"
  using galois_field.systematic_emit_ok [OF F, of len "NewSystematicRLNCEncoder ps" rnds] ps rnds
  by (auto simp: NewSystematicRLNCEncoder_def IsSystematic_iff)

theorem systematic_encoder_emits_witness:
  "\<exists>cs. systematic_emit DefaultGF256 [\<lambda>n. replicate n 7, \<lambda>n. replicate n 7, \<lambda>n. replicate n 7]
         (NewSystematicRLNCEncoder demo_ps) = Some cs \<and>
     cs ! 1 = \<lparr>Vector = [0, 1], Piece = [3, 4]\<rparr>"
  using systematic_encoder_emits [OF gf256.galois_field_axioms demo_valid,
    of "[\<lambda>n. replicate n 7, \<lambda>n. replicate n 7, \<lambda>n. replicate n 7]"]
  by (auto simp: rand_fills_def demo_ps_def unit_vec_def dest: spec [of _ 1])

text \<open>
  C7: losses do not matter as long as the originals arrive.  Any selection, in any order and
  with repetitions, of the pieces a systematic encoder sent that contains the first \<open>N\<close> of
  them is decoded to the original pieces.
\<close>

theorem systematic_round_trip:
  assumes F: "galois_field F" and ps: "valid_pieces len ps"
    and rnds: "\<forall>rnd \<in> set rnds. rand_fills rnd" "length ps \<le> length rnds"
    and emit: "systematic_emit F rnds (NewSystematicRLNCEncoder ps) = Some cs"
    and sel: "set (take (length ps) cs) \<subseteq> set ds" "set ds \<subseteq> set cs"
  shows "\<exists>s. feed (SystematicRLNCDecoder_AddPiece F) (NewSystematicRLNCDecoder (length ps)) ds = Some s \<and>
     SystematicRLNCDecoder_IsDecoded s \<and> SystematicRLNCDecoder_GetPieces s = Some (Inr ps)"
proof -
  have cs: "length cs = length rnds" "\<forall>c \<in> set cs. coded_from F len ps c"
    "\<And>k. k < length rnds \<Longrightarrow> k < length ps \<Longrightarrow> Vector (cs ! k) = unit_vec (length ps) k"
    using galois_field.systematic_emit_ok [OF F, of len "NewSystematicRLNCEncoder ps" rnds] ps rnds emit
    by (auto simp: NewSystematicRLNCEncoder_def)
  have "unit_vec (length ps) i \<in> set (map Vector ds)" if "i < length ps" for i
  proof -
    have "take (length ps) cs ! i \<in> set (take (length ps) cs)"
      using that cs(1) rnds(2) by (intro nth_mem) simp
    then have "cs ! i \<in> set ds" using sel(1) that by auto
    then show ?thesis using cs(3) [of i] that rnds(2) by force
  qed
  then have "full_rank F (length ps) (map Vector ds)"
    by (rule galois_field.full_rank_units [OF F])
  moreover have "\<forall>c \<in> set ds. coded_from F len ps c" using cs(2) sel(2) by blast
  ultimately show ?thesis using galois_field.systematic_feed_new [OF F ps, of ds] by auto
qed

theorem systematic_round_trip_witness:
  "\<exists>s. feed (SystematicRLNCDecoder_AddPiece DefaultGF256) (NewSystematicRLNCDecoder (length demo_ps))
      [\<lparr>Vector = [0, 1], Piece = [3, 4]\<rparr>, \<lparr>Vector = [1, 0], Piece = [1, 2]\<rparr>] = Some s \<and>
     SystematicRLNCDecoder_IsDecoded s \<and> SystematicRLNCDecoder_GetPieces s = Some (Inr demo_ps)"
  by (rule systematic_round_trip [OF gf256.galois_field_axioms demo_valid,
        where rnds = "[\<lambda>n. replicate n 7, \<lambda>n. replicate n 7]"
          and cs = "[\<lparr>Vector = [1, 0], Piece = [1, 2]\<rparr>, \<lparr>Vector = [0, 1], Piece = [3, 4]\<rparr>]"])
    (simp_all add: rand_fills_def demo_ps_def NewSystematicRLNCEncoder_def
      SystematicRLNCEncoder_CodedPiece_def SystematicRLNCEncoder_PieceCount_def
      SystematicRLNCEncoder_PieceSize_def systematicCodingVector_def go_simps copy_into_def)

text \<open>
  C13: the systematic decoder refines the full decoder: every operation commutes with the
  abstraction that forgets which of the two it is.
\<close>

theorem systematic_refines_full:
  "as_full (NewSystematicRLNCDecoder n) = NewFullRLNCDecoder n \<and>
   map_option (map_sum id as_full) (SystematicRLNCDecoder_AddPiece F s c) =
     FullRLNCDecoder_AddPiece F (as_full s) c \<and>
   SystematicRLNCDecoder_IsDecoded s = FullRLNCDecoder_IsDecoded (as_full s) \<and>
   SystematicRLNCDecoder_Required s = FullRLNCDecoder_Required (as_full s) \<and>
   SystematicRLNCDecoder_PieceLength s = FullRLNCDecoder_PieceLength (as_full s) \<and>
   SystematicRLNCDecoder_GetPiece s i = FullRLNCDecoder_GetPiece (as_full s) i \<and>
   SystematicRLNCDecoder_GetPieces s = FullRLNCDecoder_GetPieces (as_full s)"
  by (simp add: as_full_new as_full_AddPiece as_full_IsDecoded as_full_GetPieces
      SystematicRLNCDecoder_Required_def FullRLNCDecoder_Required_def
      SystematicRLNCDecoder_PieceLength_def FullRLNCDecoder_PieceLength_def
      SystematicRLNCDecoder_GetPiece_def FullRLNCDecoder_GetPiece_def)

end
