(* ===== verification/XNC_Packet.thy ===== *)
theory XNC_Packet
  imports Kodr_Data
begin

text \<open>
  Model of \<^verbatim>\<open>xnc/config.go\<close>, \<^verbatim>\<open>xnc/utils.go\<close> and the packet formats of \<^verbatim>\<open>xnc/xnc.go\<close>.  Go's
  \<^verbatim>\<open>int\<close> fields are integers; \<^verbatim>\<open>uint32(x)\<close> is the 32-bit word of \<open>x\<close>.  A packet buffer is made
  with exactly its length as capacity, so a slice beyond the length panics.
\<close>

section \<open>Constants\<close>

definition CHUNKSIZE :: nat where "CHUNKSIZE = 2 ^ 14"

definition TYPE_INIT_ENC :: byte where "TYPE_INIT_ENC = 3"
definition TYPE_INIT :: byte where "TYPE_INIT = 4"
definition TYPE_XNC_ENC :: byte where "TYPE_XNC_ENC = 5"
definition TYPE_XNC :: byte where "TYPE_XNC = 6"
definition TYPE_END :: byte where "TYPE_END = 7"

definition TYPESIZE :: nat where "TYPESIZE = 1"
definition IDSIZE :: nat where "IDSIZE = 4"
definition NUMSIZE :: nat where "NUMSIZE = 4"
definition FILESIZESIZE :: nat where "FILESIZESIZE = 4"

definition VECTORSIZE :: nat where "VECTORSIZE = CHUNKSIZE div 1024"
definition PIECESIZE :: nat where "PIECESIZE = CHUNKSIZE div VECTORSIZE"

definition FRAMESIZE_ENC :: nat where
  "FRAMESIZE_ENC = TYPESIZE + IDSIZE + NUMSIZE + FILESIZESIZE + VECTORSIZE + PIECESIZE"

definition FRAMESIZE :: nat where
  "FRAMESIZE = TYPESIZE + IDSIZE + NUMSIZE + FILESIZESIZE + PIECESIZE"

definition INITSIZE :: nat where "INITSIZE = 128"
definition PIECECNT :: u64 where "PIECECNT = of_nat VECTORSIZE"
definition CODEDPIECECNT :: u64 where "CODEDPIECECNT = PIECECNT + 1"

lemmas type_defs = TYPE_INIT_ENC_def TYPE_INIT_def TYPE_XNC_ENC_def TYPE_XNC_def TYPE_END_def

lemma sizes:
  "CHUNKSIZE = 16384" "VECTORSIZE = 16" "PIECESIZE = 1024" "FRAMESIZE_ENC = 1053" "FRAMESIZE = 1037"
  "INITSIZE = 128" "PIECECNT = 16" "CODEDPIECECNT = 17"
  by (simp_all add: CHUNKSIZE_def VECTORSIZE_def PIECESIZE_def FRAMESIZE_ENC_def FRAMESIZE_def
      TYPESIZE_def IDSIZE_def NUMSIZE_def FILESIZESIZE_def INITSIZE_def PIECECNT_def CODEDPIECECNT_def)

section \<open>Splitting a file\<close>

definition Min_int :: "int \<Rightarrow> int \<Rightarrow> int" where
  "Min_int a b = (if a < b then a else b)"

text \<open>With chunk size zero the loop never ends; not returning is \<^const>\<open>None\<close>.\<close>

definition padded_chunk :: "bytes \<Rightarrow> nat \<Rightarrow> nat \<Rightarrow> bytes option" where
  "padded_chunk filebytes chunkSize i =
     do { let e = nat (Min_int (int (i + chunkSize)) (int (i + length (drop i filebytes))));
          chunkBytes \<leftarrow> slice_opt filebytes i e;
          Some (if length chunkBytes < chunkSize
                then chunkBytes @ replicate (chunkSize - length chunkBytes) 0
                else chunkBytes) }"

partial_function (option) SpiltFile_loop :: "bytes \<Rightarrow> nat \<Rightarrow> nat \<Rightarrow> bytes list option" where
  "SpiltFile_loop filebytes chunkSize i =
     (if i < length filebytes then
        do { chunk \<leftarrow> padded_chunk filebytes chunkSize i;
             chunks \<leftarrow> SpiltFile_loop filebytes chunkSize (i + chunkSize);
             Some (chunk # chunks) }
      else Some [])"

definition SpiltFile :: "bytes \<Rightarrow> nat \<Rightarrow> bytes list option" where
  "SpiltFile filebytes chunkSize = SpiltFile_loop filebytes chunkSize 0"

section \<open>Packets\<close>

datatype xnc_error =
    ErrPktType | ErrEncAckLen | ErrAckLen | ErrVectorPieceSize | ErrPktByteSize | ErrPktSize
  | ErrUnknownType

record XNC =
  xType :: byte
  ChunkId :: int
  ChunkNum :: int
  ChunkSize :: int
  xVector :: bytes
  xPiece :: bytes
  xEnd :: bool

record XNC_INIT =
  iType :: byte
  iLen :: int
  Filename :: bytes

record XNC_INFO =
  fType :: byte
  fChunkNum :: int
  FileSize :: int

text \<open>\<^verbatim>\<open>binary.BigEndian.PutUint32\<close> and \<^verbatim>\<open>Uint32\<close> of the standard library.\<close>

definition PutUint32 :: "32 word \<Rightarrow> bytes" where
  "PutUint32 v = [ucast (drop_bit 24 v), ucast (drop_bit 16 v), ucast (drop_bit 8 v), ucast v]"

definition Uint32 :: "bytes \<Rightarrow> 32 word option" where
  "Uint32 b =
     (case b of a0 # a1 # a2 # a3 # _ \<Rightarrow>
        Some (or (ucast a3) (or (push_bit 8 (ucast a2)) (or (push_bit 16 (ucast a1)) (push_bit 24 (ucast a0)))))
      | _ \<Rightarrow> None)"

definition put32 :: "int \<Rightarrow> bytes" where
  "put32 x = PutUint32 (word_of_int x)"

definition get32 :: "bytes \<Rightarrow> nat \<Rightarrow> int option" where
  "get32 b i = do { s \<leftarrow> slice_opt b i (i + 4); w \<leftarrow> Uint32 s; Some (int (unat w)) }"

definition EncodeInfo :: "XNC_INFO \<Rightarrow> bytes" where
  "EncodeInfo d = [fType d] @ put32 (fChunkNum d) @ put32 (FileSize d)"

definition EncodeInit :: "XNC_INIT \<Rightarrow> bytes option" where
  "EncodeInit d =
     (let pkt = [iType d] @ put32 (iLen d) @ replicate 123 0
      in for_up 0 (nat (iLen d))
           (\<lambda>i pkt. do { x \<leftarrow> nth_opt (Filename d) i; set_opt pkt (5 + i) x }) pkt)"

definition DecodeInit :: "bytes \<Rightarrow> (xnc_error + XNC_INIT) option" where
  "DecodeInit data =
     do { t \<leftarrow> nth_opt data 0;
          if t \<noteq> TYPE_INIT_ENC \<and> t \<noteq> TYPE_INIT then Some (Inl ErrPktType)
          else do { l \<leftarrow> get32 data 1;
                    name \<leftarrow> slice_opt data 5 (5 + nat l);
                    Some (Inr \<lparr>iType = t, iLen = l, Filename = name\<rparr>) } }"

definition EncodeEND :: "int \<Rightarrow> bool \<Rightarrow> bytes" where
  "EncodeEND i encode =
     (let pkt = replicate (if encode then FRAMESIZE_ENC else FRAMESIZE) 0
      in [TYPE_END] @ put32 i @ drop 5 pkt)"

definition DecodeEND :: "bytes \<Rightarrow> bool \<Rightarrow> (xnc_error + int) option" where
  "DecodeEND pkt encode =
     (if encode \<and> length pkt \<noteq> FRAMESIZE_ENC then Some (Inl ErrEncAckLen)
      else if \<not> encode \<and> length pkt \<noteq> FRAMESIZE then Some (Inl ErrAckLen)
      else do { t \<leftarrow> nth_opt pkt 0;
                if t \<noteq> TYPE_END then Some (Inl ErrPktType)
                else do { i \<leftarrow> get32 pkt 1; Some (Inr i) } })"

definition EncodeXNCPkt :: "XNC \<Rightarrow> (xnc_error + bytes) option" where
  "EncodeXNCPkt d =
     (if xType d = TYPE_XNC_ENC \<and> (length (xVector d) \<noteq> VECTORSIZE \<or> length (xPiece d) \<noteq> PIECESIZE)
      then Some (Inl ErrVectorPieceSize)
      else if xType d = TYPE_XNC \<and> length (xPiece d) \<noteq> PIECESIZE then Some (Inl ErrPktByteSize)
      else
        let pkt = [xType d] @ put32 (ChunkId d) @ put32 (ChunkSize d) @ put32 (ChunkNum d)
        in if xType d = TYPE_XNC_ENC then
             do { v \<leftarrow> slice_opt (xVector d) 0 VECTORSIZE; p \<leftarrow> slice_opt (xPiece d) 0 PIECESIZE;
                  Some (Inr (pkt @ v @ p)) }
           else if xType d = TYPE_XNC then
             do { p \<leftarrow> slice_opt (xPiece d) 0 PIECESIZE; Some (Inr (pkt @ p)) }
           else Some (Inr pkt))"

definition XNC_zero :: XNC where
  "XNC_zero = \<lparr>xType = 0, ChunkId = 0, ChunkNum = 0, ChunkSize = 0, xVector = [], xPiece = [], xEnd = False\<rparr>"

definition DecodeXNCPkt :: "bytes \<Rightarrow> (xnc_error + XNC) option" where
  "DecodeXNCPkt data =
     (if length data \<noteq> FRAMESIZE_ENC \<and> length data \<noteq> FRAMESIZE then Some (Inl ErrPktSize)
      else
        do { t \<leftarrow> nth_opt data 0;
             let xnc = XNC_zero\<lparr>xType := t\<rparr>;
             if t = TYPE_END then Some (Inr xnc)
             else
               do { i \<leftarrow> get32 data 1; s \<leftarrow> get32 data 5; n \<leftarrow> get32 data 9;
                    let xnc = xnc\<lparr>ChunkId := i, ChunkSize := s, ChunkNum := n\<rparr>;
                    if t = TYPE_XNC_ENC then
                      do { v \<leftarrow> slice_opt data 13 (13 + VECTORSIZE);
                           p \<leftarrow> slice_opt data (13 + VECTORSIZE) (13 + VECTORSIZE + PIECESIZE);
                           Some (Inr (xnc\<lparr>xVector := v, xPiece := p\<rparr>)) }
                    else if t = TYPE_XNC then
                      do { p \<leftarrow> slice_opt data 13 (length data); Some (Inr (xnc\<lparr>xPiece := p\<rparr>)) }
                    else Some (Inl ErrUnknownType) } })"

definition GetXNCPkt :: "int \<Rightarrow> int \<Rightarrow> int \<Rightarrow> bytes \<Rightarrow> (xnc_error + bytes) option" where
  "GetXNCPkt s i chunknum codepiece =
     EncodeXNCPkt (XNC_zero\<lparr>xType := TYPE_XNC, ChunkId := i, ChunkSize := s, ChunkNum := chunknum,
                            xPiece := codepiece\<rparr>)"

definition GetXNCEncPkt :: "int \<Rightarrow> int \<Rightarrow> int \<Rightarrow> CodedPiece \<Rightarrow> (xnc_error + bytes) option" where
  "GetXNCEncPkt s i chunknum codepiece =
     EncodeXNCPkt (XNC_zero\<lparr>xType := TYPE_XNC_ENC, ChunkId := i, ChunkSize := s, ChunkNum := chunknum,
                            xVector := [] @ Vector codepiece, xPiece := [] @ Piece codepiece\<rparr>)"

section \<open>Lemmas\<close>

lemma Uint32_PutUint32: "Uint32 (PutUint32 v) = Some v"
proof -
  have "or (ucast (ucast v :: byte)) (or (push_bit 8 (ucast (ucast (drop_bit 8 v) :: byte)))
      (or (push_bit 16 (ucast (ucast (drop_bit 16 v) :: byte)))
        (push_bit 24 (ucast (ucast (drop_bit 24 v) :: byte))))) = v" (is "?l = v")
  proof (rule bit_word_eqI)
    fix n assume "n < LENGTH(32)"
    then consider "n < 8" | "8 \<le> n" "n < 16" | "16 \<le> n" "n < 24" | "24 \<le> n" "n < 32"
      by fastforce
    then show "bit ?l n = bit v n" by cases (auto simp: bit_simps)
  qed
  then show ?thesis by (simp add: Uint32_def PutUint32_def)
qed

lemma length_put32 [simp]: "length (put32 x) = 4"
  by (simp add: put32_def PutUint32_def)

lemma unat_word_of_int32: "0 \<le> x \<Longrightarrow> x < 2 ^ 32 \<Longrightarrow> unat (word_of_int x :: 32 word) = nat x"
  by (simp add: unat_eq_nat_uint uint_word_of_int_eq take_bit_eq_mod)

lemma get32_put32:
  assumes "0 \<le> x" "x < 2 ^ 32" "length a = i"
  shows "get32 (a @ put32 x @ b) i = Some x"
proof -
  have "slice_opt (a @ put32 x @ b) i (i + 4) = Some (put32 x)"
    using assms(3) by (simp add: slice_opt_def)
  moreover have "unat (word_of_int x :: 32 word) = nat x"
    using assms by (intro unat_word_of_int32)
  ultimately show ?thesis
    using assms(1) by (simp add: get32_def put32_def Uint32_PutUint32)
qed

text \<open>The chunk with index \<open>j\<close>: \<open>c\<close> bytes from offset \<open>c * j\<close>, padded with zero bytes.\<close>

definition chunk_at :: "bytes \<Rightarrow> nat \<Rightarrow> nat \<Rightarrow> bytes" where
  "chunk_at fs c j = take c (drop (c * j) fs) @ replicate (c - length (drop (c * j) fs)) 0"

lemma padded_chunk_eq:
  assumes "c * k < length fs"
  shows "padded_chunk fs c (c * k) = Some (chunk_at fs c k)"
proof -
  have "nat (Min_int (int (c * k + c)) (int (c * k + length (drop (c * k) fs)))) =
      min (c * k + c) (length fs)"
    using assms unfolding Min_int_def by (simp del: of_nat_add of_nat_mult)
  moreover have "take (min (c * k + c) (length fs) - c * k) (drop (c * k) fs) = take c (drop (c * k) fs)"
    by (simp add: min_def)
  ultimately show ?thesis
    using assms unfolding padded_chunk_def chunk_at_def by (auto simp: slice_opt_def Let_def min_def)
qed

lemma ceil_div_gt: "0 < c \<Longrightarrow> k < ceil_div n c \<longleftrightarrow> c * k < n"
proof -
  assume c: "0 < c"
  have "k < ceil_div n c \<longleftrightarrow> Suc k * c \<le> n + c - 1"
    using c by (simp add: ceil_div_def less_eq_div_iff_mult_less_eq flip: Suc_le_eq)
  also have "\<dots> \<longleftrightarrow> c * k < n" using c by (auto simp: mult.commute)
  finally show ?thesis .
qed

lemma SpiltFile_loop_eq:
  assumes c: "0 < c"
  shows "SpiltFile_loop fs c (c * k) = Some (map (chunk_at fs c) [k..<ceil_div (length fs) c])"
proof (induction "length fs - c * k" arbitrary: k rule: less_induct)
  case less
  show ?case
  proof (cases "c * k < length fs")
    case True
    then have "SpiltFile_loop fs c (c * Suc k) = Some (map (chunk_at fs c) [Suc k..<ceil_div (length fs) c])"
      using c by (intro less.hyps) simp
    moreover have "[k..<ceil_div (length fs) c] = k # [Suc k..<ceil_div (length fs) c]"
      using True c by (simp add: upt_conv_Cons ceil_div_gt)
    ultimately show ?thesis
      using True by (subst SpiltFile_loop.simps) (simp add: padded_chunk_eq add.commute)
  next
    case False
    then show ?thesis using c by (subst SpiltFile_loop.simps) (simp add: ceil_div_gt flip: not_less)
  qed
qed

lemma SpiltFile_eq:
  "0 < c \<Longrightarrow> SpiltFile fs c = Some (map (chunk_at fs c) [0..<ceil_div (length fs) c])"
  using SpiltFile_loop_eq [of c fs 0] by (simp add: SpiltFile_def)

lemma length_chunk_at [simp]: "length (chunk_at fs c j) = c"
  by (simp add: chunk_at_def)

text \<open>The header of a data packet reads back, whatever follows it.\<close>

lemma header_fields:
  assumes "0 \<le> i" "i < 2 ^ 32" "0 \<le> s" "s < 2 ^ 32" "0 \<le> n" "n < 2 ^ 32"
  shows "get32 ([t] @ put32 i @ put32 s @ put32 n @ b) 1 = Some i"
    and "get32 ([t] @ put32 i @ put32 s @ put32 n @ b) 5 = Some s"
    and "get32 ([t] @ put32 i @ put32 s @ put32 n @ b) 9 = Some n"
  using get32_put32 [OF assms(1,2), of "[t]" 1 "put32 s @ put32 n @ b"]
    get32_put32 [OF assms(3,4), of "[t] @ put32 i" 5 "put32 n @ b"]
    get32_put32 [OF assms(5,6), of "[t] @ put32 i @ put32 s" 9 b]
  by simp_all

definition field32 :: "int \<Rightarrow> bool" where
  "field32 x \<longleftrightarrow> 0 \<le> x \<and> x < 2 ^ 32"

lemma DecodeXNCPkt_Enc:
  assumes "field32 i" "field32 s" "field32 n" "length v = VECTORSIZE" "length p = PIECESIZE"
  shows "DecodeXNCPkt ([TYPE_XNC_ENC] @ put32 i @ put32 s @ put32 n @ v @ p) =
     Some (Inr (XNC_zero\<lparr>xType := TYPE_XNC_ENC, ChunkId := i, ChunkSize := s, ChunkNum := n,
                         xVector := v, xPiece := p\<rparr>))"
proof -
  let ?pkt = "[TYPE_XNC_ENC] @ put32 i @ put32 s @ put32 n @ v @ p"
  have len: "length ?pkt = FRAMESIZE_ENC" using assms by (simp add: sizes)
  have v: "slice_opt ?pkt 13 (13 + VECTORSIZE) = Some v"
    using assms by (simp add: slice_opt_def)
  have p: "slice_opt ?pkt (13 + VECTORSIZE) (13 + VECTORSIZE + PIECESIZE) = Some p"
    using assms by (simp add: slice_opt_def sizes)
  have h: "get32 ?pkt 1 = Some i" "get32 ?pkt 5 = Some s" "get32 ?pkt 9 = Some n"
    by (rule header_fields; use assms in \<open>simp add: field32_def\<close>)+
  have t: "nth_opt ?pkt 0 = Some TYPE_XNC_ENC" by (simp add: nth_opt_def)
  show ?thesis
    unfolding DecodeXNCPkt_def len t h v p by (simp add: type_defs)
qed

lemma DecodeXNCPkt_Plain:
  assumes "field32 i" "field32 s" "field32 n" "length p = PIECESIZE"
  shows "DecodeXNCPkt ([TYPE_XNC] @ put32 i @ put32 s @ put32 n @ p) =
     Some (Inr (XNC_zero\<lparr>xType := TYPE_XNC, ChunkId := i, ChunkSize := s, ChunkNum := n, xPiece := p\<rparr>))"
proof -
  let ?pkt = "[TYPE_XNC] @ put32 i @ put32 s @ put32 n @ p"
  have len: "length ?pkt = FRAMESIZE" using assms by (simp add: sizes)
  have p: "slice_opt ?pkt 13 FRAMESIZE = Some p"
    using assms by (simp add: slice_opt_def sizes)
  have h: "get32 ?pkt 1 = Some i" "get32 ?pkt 5 = Some s" "get32 ?pkt 9 = Some n"
    by (rule header_fields; use assms in \<open>simp add: field32_def\<close>)+
  have t: "nth_opt ?pkt 0 = Some TYPE_XNC" by (simp add: nth_opt_def)
  show ?thesis
    unfolding DecodeXNCPkt_def len t h p by (simp add: type_defs)
qed

lemma GetXNCEncPkt_eq:
  assumes "length (Vector c) = VECTORSIZE" "length (Piece c) = PIECESIZE"
  shows "GetXNCEncPkt s i n c =
     Some (Inr ([TYPE_XNC_ENC] @ put32 i @ put32 s @ put32 n @ Vector c @ Piece c))"
  using assms by (simp add: GetXNCEncPkt_def EncodeXNCPkt_def type_defs slice_opt_def)

lemma GetXNCPkt_eq:
  assumes "length p = PIECESIZE"
  shows "GetXNCPkt s i n p = Some (Inr ([TYPE_XNC] @ put32 i @ put32 s @ put32 n @ p))"
  using assms by (simp add: GetXNCPkt_def EncodeXNCPkt_def type_defs slice_opt_def)

lemma DecodeXNCPkt_END: "DecodeXNCPkt (EncodeEND i encode) = Some (Inr (XNC_zero\<lparr>xType := TYPE_END\<rparr>))"
  by (simp add: DecodeXNCPkt_def EncodeEND_def nth_opt_def sizes)

lemma EncodeInit_eq:
  assumes "iLen d = int (length (Filename d))" "length (Filename d) \<le> 123"
  shows "EncodeInit d = Some ([iType d] @ put32 (iLen d) @ Filename d @ replicate (123 - length (Filename d)) 0)"
proof -
  let ?f = "Filename d" and ?h = "[iType d] @ put32 (iLen d)"
  let ?body = "\<lambda>i pkt. do { x \<leftarrow> nth_opt ?f i; set_opt pkt (5 + i) x }"
  let ?at = "\<lambda>i. ?h @ take i ?f @ replicate (123 - i) (0 :: byte)"
  have "\<exists>s. for_up 0 (length ?f) ?body (?at 0) = Some s \<and> s = ?at (length ?f)"
  proof (rule for_up_rule [where I = "\<lambda>i s. s = ?at i"])
    fix i s assume i: "i < length ?f" and s: "s = ?at i"
    have "replicate (123 - i) (0 :: byte) = 0 # replicate (123 - Suc i) 0"
      using i assms(2) by (simp add: Suc_diff_Suc flip: replicate_Suc)
    then have "(?at i)[5 + i := ?f ! i] = ?at (Suc i)"
      using i list_update_length [of "?h @ take i ?f" 0 "replicate (123 - Suc i) 0" "?f ! i"]
      by (simp add: take_Suc_conv_app_nth)
    then show "\<exists>s'. ?body i s = Some s' \<and> s' = ?at (Suc i)"
      using i s assms by (simp add: go_simps)
  qed simp_all
  then show ?thesis
    using assms(1) by (simp add: EncodeInit_def)
qed

lemma EncodeInit_prefix:
  assumes "k \<le> 123" "k \<le> length (Filename d)"
  shows "\<exists>pkt. for_up 0 k (\<lambda>i pkt. do { x \<leftarrow> nth_opt (Filename d) i; set_opt pkt (5 + i) x })
           ([iType d] @ put32 (iLen d) @ replicate 123 0) = Some pkt \<and> length pkt = 128"
  by (rule for_up_rule) (use assms in \<open>auto simp: go_simps\<close>)

lemma EncodeInit_panics:
  assumes "iLen d = int (length (Filename d))" "123 < length (Filename d)"
  shows "EncodeInit d = None"
proof -
  have "[0..<length (Filename d)] = [0..<123] @ 123 # [Suc 123..<length (Filename d)]"
    using assms(2) upt_add_eq_append [of 0 123 "length (Filename d) - 123"] by (simp add: upt_conv_Cons)
  then show ?thesis
    using EncodeInit_prefix [of 123 d] assms
    by (auto simp: EncodeInit_def for_up_def for_list_append set_opt_def)
qed

lemma init_packet:
  assumes t: "t = TYPE_INIT \<or> t = TYPE_INIT_ENC" and len: "length name \<le> 123"
  shows "\<exists>pkt. EncodeInit \<lparr>iType = t, iLen = int (length name), Filename = name\<rparr> = Some pkt \<and>
     length pkt = INITSIZE \<and>
     DecodeInit pkt = Some (Inr \<lparr>iType = t, iLen = int (length name), Filename = name\<rparr>)"
proof -
  let ?d = "\<lparr>iType = t, iLen = int (length name), Filename = name\<rparr>"
  let ?pkt = "[t] @ put32 (int (length name)) @ name @ replicate (123 - length name) 0"
  have "get32 ?pkt 1 = Some (int (length name))" using len by (intro get32_put32) auto
  moreover have "slice_opt ?pkt 5 (5 + length name) = Some name" by (simp add: slice_opt_def)
  moreover have "nth_opt ?pkt 0 = Some t" by (simp add: nth_opt_def)
  ultimately have "DecodeInit ?pkt = Some (Inr ?d)"
    using t unfolding DecodeInit_def by auto
  moreover have "EncodeInit ?d = Some ?pkt" using EncodeInit_eq [of ?d] len by simp
  ultimately show ?thesis using len by (simp add: sizes)
qed

section \<open>Properties\<close>

text \<open>
  C19: coded packets survive the wire.  Encoding a coded piece with its chunk id, size and chunk
  count, all below \<open>2^32\<close>, gives a frame of the fixed size that decodes to the same fields.
\<close>

theorem XNC_enc_round_trip:
  assumes "field32 i" "field32 s" "field32 n" "length (Vector c) = VECTORSIZE" "length (Piece c) = PIECESIZE"
  shows "\<exists>pkt. GetXNCEncPkt s i n c = Some (Inr pkt) \<and> length pkt = FRAMESIZE_ENC \<and>
     DecodeXNCPkt pkt = Some (Inr (XNC_zero\<lparr>xType := TYPE_XNC_ENC, ChunkId := i, ChunkSize := s,
                                            ChunkNum := n, xVector := Vector c, xPiece := Piece c\<rparr>))"
  using GetXNCEncPkt_eq [OF assms(4,5)] DecodeXNCPkt_Enc [OF assms] assms(4,5)
  by (simp add: sizes)

theorem XNC_enc_round_trip_witness:
  "\<exists>pkt. GetXNCEncPkt 500 3 4 \<lparr>Vector = replicate 16 7, Piece = replicate 1024 9\<rparr> = Some (Inr pkt) \<and>
     length pkt = FRAMESIZE_ENC \<and>
     DecodeXNCPkt pkt = Some (Inr (XNC_zero\<lparr>xType := TYPE_XNC_ENC, ChunkId := 3, ChunkSize := 500,
       ChunkNum := 4, xVector := replicate 16 7, xPiece := replicate 1024 9\<rparr>))"
  using XNC_enc_round_trip [of 3 500 4 "\<lparr>Vector = replicate 16 7, Piece = replicate 1024 9\<rparr>"]
  by (simp add: field32_def sizes)

text \<open>
  C20: the init packet.  A request for a file name of at most 123 bytes comes back as the same
  request; a longer name makes the encoder panic, because the packet has a fixed size.
\<close>

theorem init_round_trip:
  assumes "t = TYPE_INIT \<or> t = TYPE_INIT_ENC"
  shows "if length name \<le> 123 then
       \<exists>pkt. EncodeInit \<lparr>iType = t, iLen = int (length name), Filename = name\<rparr> = Some pkt \<and>
         length pkt = INITSIZE \<and>
         DecodeInit pkt = Some (Inr \<lparr>iType = t, iLen = int (length name), Filename = name\<rparr>)
     else EncodeInit \<lparr>iType = t, iLen = int (length name), Filename = name\<rparr> = None"
  using init_packet [OF assms] by (simp add: EncodeInit_panics)

theorem init_round_trip_witness:
  "\<exists>pkt. EncodeInit \<lparr>iType = 3, iLen = 4, Filename = [116, 101, 115, 116]\<rparr> = Some pkt \<and>
     length pkt = INITSIZE \<and>
     DecodeInit pkt = Some (Inr \<lparr>iType = 3, iLen = 4, Filename = [116, 101, 115, 116]\<rparr>)"
  using init_round_trip [of 3 "[116, 101, 115, 116]"] by (simp add: type_defs)

end
