(* ===== verification/XNC_Transfer.thy ===== *)
theory XNC_Transfer
  imports Full_RLNC XNC_Packet
begin

text \<open>
  Model of \<^verbatim>\<open>xnc/server.go\<close> and \<^verbatim>\<open>xnc/client.go\<close>: a client requests a file, the server splits
  it into chunks and sends every chunk as coded or as plain pieces, the client reassembles.
  The QUIC stream is reliable and ordered: what the server writes is the byte stream the
  client reads, \<open>rd\<close> says how many bytes each \<^verbatim>\<open>Read\<close> call returns.  The files of the server
  are the parameter \<open>files\<close>, the random vector of piece \<open>j\<close> of chunk \<open>i\<close> is \<open>rnd i j\<close>.
\<close>

section \<open>Server\<close>

text \<open>
  The loop over the pieces of a chunk, with the packets written and whether the function went
  on (\<^const>\<open>True\<close>) or returned early after an encoding error.
\<close>

fun send_pkts :: "(nat \<Rightarrow> (xnc_error + bytes) option) \<Rightarrow> nat list \<Rightarrow> (bytes list \<times> bool) option" where
  "send_pkts mk [] = Some ([], True)"
| "send_pkts mk (s # ss) =
     do { r \<leftarrow> mk s;
          case r of
            Inl e \<Rightarrow> Some ([], False)
          | Inr pktE \<Rightarrow> do { (out, ok) \<leftarrow> send_pkts mk ss; Some (pktE # out, ok) } }"

definition send_size :: "bytes \<Rightarrow> nat \<Rightarrow> nat \<Rightarrow> int" where
  "send_size filebytes n i =
     (if i = n - 1 then int (length filebytes) - int CHUNKSIZE * (int n - 1) else int CHUNKSIZE)"

definition send_chunk ::
  "GF \<Rightarrow> (nat \<Rightarrow> nat \<Rightarrow> nat \<Rightarrow> bytes) \<Rightarrow> bytes \<Rightarrow> bytes list \<Rightarrow> bool \<Rightarrow> nat \<Rightarrow> (bytes list \<times> bool) option" where
  "send_chunk F rnd filebytes chunks encode i =
     (let n = length chunks; sz = send_size filebytes n i
      in do { chunk \<leftarrow> nth_opt chunks i;
              if encode then
                do { r \<leftarrow> NewFullRLNCEncoderWithPieceCount chunk PIECECNT;
                     case r of
                       Inl e \<Rightarrow> Some ([], False)
                     | Inr enc \<Rightarrow>
                         do { codedPieces \<leftarrow> traverse_opt (\<lambda>j. FullRLNCEncoder_CodedPiece F (rnd i j) enc)
                                                [0..<unat CODEDPIECECNT];
                              send_pkts (\<lambda>s. do { c \<leftarrow> nth_opt codedPieces s;
                                                  GetXNCEncPkt sz (int i) (int n) c })
                                [0..<unat CODEDPIECECNT] } }
              else
                send_pkts (\<lambda>s. do { p \<leftarrow> slice_opt chunk (s * PIECESIZE) ((s + 1) * PIECESIZE);
                                    GetXNCPkt sz (int i) (int n) p })
                  [0..<unat PIECECNT] })"

fun send_chunks ::
  "GF \<Rightarrow> (nat \<Rightarrow> nat \<Rightarrow> nat \<Rightarrow> bytes) \<Rightarrow> bytes \<Rightarrow> bytes list \<Rightarrow> bool \<Rightarrow> nat list \<Rightarrow> (bytes list \<times> bool) option" where
  "send_chunks F rnd filebytes chunks encode [] = Some ([], True)"
| "send_chunks F rnd filebytes chunks encode (i # is) =
     do { (out, ok) \<leftarrow> send_chunk F rnd filebytes chunks encode i;
          if \<not> ok then Some (out, False)
          else do { (out', ok') \<leftarrow> send_chunks F rnd filebytes chunks encode is;
                    Some (out @ out', ok') } }"

definition sendFile ::
  "GF \<Rightarrow> (nat \<Rightarrow> nat \<Rightarrow> nat \<Rightarrow> bytes) \<Rightarrow> bytes \<Rightarrow> bool \<Rightarrow> bytes list option" where
  "sendFile F rnd filebytes encode =
     do { chunks \<leftarrow> SpiltFile filebytes CHUNKSIZE;
          (out, ok) \<leftarrow> send_chunks F rnd filebytes chunks encode [0..<length chunks];
          Some (if ok then out @ replicate 5 (EncodeEND (int (length chunks) - 1) encode) else out) }"

text \<open>The goroutine of one stream of \<^verbatim>\<open>handleSession\<close>, from the init packet on.\<close>

definition handleStream ::
  "GF \<Rightarrow> (nat \<Rightarrow> nat \<Rightarrow> nat \<Rightarrow> bytes) \<Rightarrow> (bytes \<Rightarrow> bytes option) \<Rightarrow> bytes \<Rightarrow> bytes list option" where
  "handleStream F rnd files buffer =
     do { r \<leftarrow> DecodeInit buffer;
          case r of
            Inl e \<Rightarrow> Some []
          | Inr ini \<Rightarrow> (case files (Filename ini) of
                          None \<Rightarrow> Some []
                        | Some filebytes \<Rightarrow> sendFile F rnd filebytes (iType ini = TYPE_INIT_ENC)) }"

section \<open>Client\<close>

text \<open>The read loop of one frame; an empty stream is \<^verbatim>\<open>io.EOF\<close>.\<close>

partial_function (option) read_loop ::
  "(nat \<Rightarrow> bytes \<Rightarrow> nat) \<Rightarrow> nat \<Rightarrow> bytes \<Rightarrow> bytes \<Rightarrow> (bytes \<times> bytes) option" where
  "read_loop rd need acc stream =
     (if length acc < need then
        if stream = [] then Some (acc, [])
        else read_loop rd need (acc @ take (rd (need - length acc) stream) stream)
               (drop (rd (need - length acc) stream) stream)
      else Some (acc, stream))"

definition read_frame :: "(nat \<Rightarrow> bytes \<Rightarrow> nat) \<Rightarrow> nat \<Rightarrow> bytes \<Rightarrow> (bytes \<times> bytes) option" where
  "read_frame rd frameSize stream =
     do { (acc, rest) \<leftarrow> read_loop rd frameSize [] stream;
          Some (acc @ replicate (frameSize - length acc) 0, rest) }"

record xnc_client =
  rFile :: bytes
  decoders :: "FullRLNCDecoder list option"
  chunkbuf :: bytes

datatype client_result = Continue xnc_client | Break bytes | ReturnNil

definition GetFile :: "FullRLNCDecoder \<Rightarrow> (kodr_error + bytes) option" where
  "GetFile decoder =
     do { r \<leftarrow> FullRLNCDecoder_GetPieces decoder;
          Some (case r of Inl e \<Rightarrow> Inl e | Inr dec_p \<Rightarrow> Inr (concat dec_p)) }"

definition client_decoders :: "XNC \<Rightarrow> xnc_client \<Rightarrow> FullRLNCDecoder list" where
  "client_decoders x st =
     (case decoders st of
        None \<Rightarrow> replicate (nat (ChunkNum x)) (NewFullRLNCDecoder (unat PIECECNT))
      | Some ds \<Rightarrow> ds)"

definition client_enc_step :: "GF \<Rightarrow> XNC \<Rightarrow> xnc_client \<Rightarrow> client_result option" where
  "client_enc_step F x st =
     (let ds = client_decoders x st; k = nat (ChunkId x); st = st\<lparr>decoders := Some ds\<rparr>
      in do { d \<leftarrow> nth_opt ds k;
              r \<leftarrow> FullRLNCDecoder_AddPiece F d \<lparr>Vector = xVector x, Piece = xPiece x\<rparr>;
              case r of
                Inl e \<Rightarrow> Some (if e = ErrAllUsefulPiecesReceived then Continue st else ReturnNil)
              | Inr d' \<Rightarrow>
                  let st = st\<lparr>decoders := Some (ds[k := d'])\<rparr>
                  in if FullRLNCDecoder_IsDecoded d' then
                       do { g \<leftarrow> GetFile d';
                            case g of
                              Inl e \<Rightarrow> Some ReturnNil
                            | Inr recvfile \<Rightarrow>
                                do { b \<leftarrow> slice_opt recvfile 0 (nat (ChunkSize x));
                                     let f = rFile st @ b;
                                     Some (if ChunkId x = ChunkNum x - 1 then Break f
                                           else Continue (st\<lparr>rFile := f\<rparr>)) } }
                     else Some (Continue st) })"

definition client_plain_step :: "XNC \<Rightarrow> xnc_client \<Rightarrow> client_result option" where
  "client_plain_step x st =
     (let c = chunkbuf st @ xPiece x
      in if length c = CHUNKSIZE then
           do { b \<leftarrow> slice_opt c 0 (nat (ChunkSize x));
                let f = rFile st @ b;
                Some (if ChunkId x = ChunkNum x - 1 then Break f
                      else Continue (st\<lparr>rFile := f, chunkbuf := []\<rparr>)) }
         else Some (Continue (st\<lparr>chunkbuf := c\<rparr>)))"

definition client_step :: "GF \<Rightarrow> bool \<Rightarrow> bytes \<Rightarrow> xnc_client \<Rightarrow> client_result option" where
  "client_step F encode pktE st =
     do { r \<leftarrow> DecodeXNCPkt pktE;
          case r of
            Inl e \<Rightarrow> Some ReturnNil
          | Inr x \<Rightarrow>
              if xType x = TYPE_END then Some (Break (rFile st))
              else if encode then client_enc_step F x st
              else client_plain_step x st }"

definition client_frameSize :: "bool \<Rightarrow> nat" where
  "client_frameSize encode = (if encode then FRAMESIZE_ENC else FRAMESIZE)"

text \<open>The receive loop: \<^term>\<open>Some None\<close> is the early \<^verbatim>\<open>return nil\<close>.\<close>

partial_function (option) client_loop ::
  "GF \<Rightarrow> (nat \<Rightarrow> bytes \<Rightarrow> nat) \<Rightarrow> bool \<Rightarrow> xnc_client \<Rightarrow> bytes \<Rightarrow> bytes option option" where
  "client_loop F rd encode st stream =
     do { (pktE, rest) \<leftarrow> read_frame rd (client_frameSize encode) stream;
          r \<leftarrow> client_step F encode pktE st;
          case r of
            Continue st' \<Rightarrow> client_loop F rd encode st' rest
          | Break f \<Rightarrow> Some (Some f)
          | ReturnNil \<Rightarrow> Some None }"

text \<open>\<open>serve\<close> is what the peer writes on the stream in answer to the init packet.\<close>

definition Client ::
  "GF \<Rightarrow> (nat \<Rightarrow> bytes \<Rightarrow> nat) \<Rightarrow> (bytes \<Rightarrow> bytes list option) \<Rightarrow> bytes \<Rightarrow> bool \<Rightarrow> bytes option option" where
  "Client F rd serve filename encode =
     do { initpkt \<leftarrow> EncodeInit \<lparr>iType = (if encode then TYPE_INIT_ENC else TYPE_INIT),
                                 iLen = int (length filename), Filename = filename\<rparr>;
          out \<leftarrow> serve initpkt;
          client_loop F rd encode \<lparr>rFile = [], decoders = None, chunkbuf = []\<rparr> (concat out) }"

section \<open>Reading frames\<close>

text \<open>A \<^verbatim>\<open>Read\<close> call on a stream with bytes left returns at least one and at most the buffer.\<close>

definition reads_ok :: "(nat \<Rightarrow> bytes \<Rightarrow> nat) \<Rightarrow> bool" where
  "reads_ok rd \<longleftrightarrow> (\<forall>c s. 0 < c \<longrightarrow> s \<noteq> [] \<longrightarrow> 0 < rd c s \<and> rd c s \<le> c \<and> rd c s \<le> length s)"

lemma read_loop_eq:
  assumes rd: "reads_ok rd" and "length acc \<le> need"
  shows "read_loop rd need acc stream =
     Some (acc @ take (need - length acc) stream, drop (need - length acc) stream)"
  using assms(2)
proof (induction "need - length acc" arbitrary: acc stream rule: less_induct)
  case less
  show ?case
  proof (cases "length acc < need \<and> stream \<noteq> []")
    case True
    let ?n = "rd (need - length acc) stream"
    have n: "0 < ?n" "?n \<le> need - length acc" "?n \<le> length stream"
      using rd True by (auto simp: reads_ok_def)
    then have l: "length (acc @ take ?n stream) = length acc + ?n" by simp
    have "read_loop rd need (acc @ take ?n stream) (drop ?n stream) =
        Some ((acc @ take ?n stream) @ take (need - length acc - ?n) (drop ?n stream),
              drop (need - length acc - ?n) (drop ?n stream))"
      using less.hyps [of "acc @ take ?n stream" "drop ?n stream"] n l less.prems True
      by (simp add: diff_diff_left)
    also have "(acc @ take ?n stream) @ take (need - length acc - ?n) (drop ?n stream) =
        acc @ take (need - length acc) stream"
      using n take_add [of ?n "need - length acc - ?n" stream] by simp
    also have "drop (need - length acc - ?n) (drop ?n stream) = drop (need - length acc) stream"
      using n by simp
    finally show ?thesis using True by (subst read_loop.simps) simp
  next
    case False
    then show ?thesis using less.prems by (subst read_loop.simps) auto
  qed
qed

lemma read_frame_eq:
  "reads_ok rd \<Longrightarrow> length f = n \<Longrightarrow> read_frame rd n (f @ rest) = Some (f, rest)"
  by (simp add: read_frame_def read_loop_eq)

lemma client_loop_frame:
  assumes "reads_ok rd" "length f = client_frameSize encode"
  shows "client_loop F rd encode st (f @ rest) =
     do { r \<leftarrow> client_step F encode f st;
          case r of
            Continue st' \<Rightarrow> client_loop F rd encode st' rest
          | Break f \<Rightarrow> Some (Some f)
          | ReturnNil \<Rightarrow> Some None }"
  by (subst client_loop.simps) (simp add: read_frame_eq [OF assms])

section \<open>What the server writes\<close>

definition enc_pkt :: "int \<Rightarrow> nat \<Rightarrow> nat \<Rightarrow> CodedPiece \<Rightarrow> bytes" where
  "enc_pkt sz i n c = [TYPE_XNC_ENC] @ put32 (int i) @ put32 sz @ put32 (int n) @ Vector c @ Piece c"

definition plain_pkt :: "int \<Rightarrow> nat \<Rightarrow> nat \<Rightarrow> bytes \<Rightarrow> bytes" where
  "plain_pkt sz i n p = [TYPE_XNC] @ put32 (int i) @ put32 sz @ put32 (int n) @ p"

lemma send_pkts_all:
  "(\<And>s. s \<in> set ss \<Longrightarrow> mk s = Some (Inr (f s))) \<Longrightarrow> send_pkts mk ss = Some (map f ss, True)"
  by (induction ss) auto

lemma send_chunks_all:
  "(\<And>i. i \<in> set is \<Longrightarrow> send_chunk F rnd fs chunks encode i = Some (f i, True)) \<Longrightarrow>
     send_chunks F rnd fs chunks encode is = Some (concat (map f is), True)"
  by (induction "is") auto

lemma traverse_opt_compose: "traverse_opt (\<lambda>j. g (h j)) js = traverse_opt g (map h js)"
  by (induction js) auto

lemma send_chunk_enc:
  assumes F: "galois_field F" and rnd: "\<And>j. rand_fills (rnd i j)"
    and i: "i < length chunks" "length (chunks ! i) = CHUNKSIZE"
  shows "\<exists>ps cs. send_chunk F rnd fs chunks True i =
       Some (map (enc_pkt (send_size fs (length chunks) i) i (length chunks)) cs, True) \<and>
     valid_pieces PIECESIZE ps \<and> length ps = VECTORSIZE \<and> concat ps = chunks ! i \<and>
     (\<forall>c \<in> set cs. coded_from F PIECESIZE ps c) \<and>
     map Vector cs = map (\<lambda>j. rnd i j VECTORSIZE) [0..<unat CODEDPIECECNT]"
proof -
  let ?js = "[0..<unat CODEDPIECECNT]" and ?pk = "enc_pkt (send_size fs (length chunks) i) i (length chunks)"
  obtain f where f: "NewFullRLNCEncoderWithPieceCount (chunks ! i) PIECECNT = Some (Inr f)"
    "length (pieces f) = VECTORSIZE" "valid_pieces PIECESIZE (pieces f)"
    "concat (pieces f) = chunks ! i @ replicate (unat (FullRLNCEncoder_Padding f)) 0"
    using NewFullRLNCEncoderWithPieceCount_ok [of PIECECNT "chunks ! i"] i(2)
    by (auto simp: sizes ceil_div_def)
  have "length (concat (pieces f)) = PIECESIZE * VECTORSIZE"
    using f(2,3) length_concat_const [of "pieces f" PIECESIZE] by (simp add: valid_pieces_def)
  then have z: "concat (pieces f) = chunks ! i" using f(4) i(2) by (simp add: sizes)
  obtain cs where cs: "traverse_opt (\<lambda>r. FullRLNCEncoder_CodedPiece F r f) (map (rnd i) ?js) = Some cs"
    "\<forall>c \<in> set cs. coded_from F PIECESIZE (pieces f) c"
    "map Vector cs = map (\<lambda>r. r VECTORSIZE) (map (rnd i) ?js)"
    using encoder_traverse [OF F f(3), of "map (rnd i) ?js"] rnd f(2) by auto
  have len: "length cs = unat CODEDPIECECNT" using arg_cong [OF cs(3), of length] by simp
  have "(do { c \<leftarrow> nth_opt cs s; GetXNCEncPkt sz (int i) (int n) c }) = Some (Inr (enc_pkt sz i n (cs ! s)))"
    if "s < unat CODEDPIECECNT" for s sz n
  proof -
    have "coded_from F PIECESIZE (pieces f) (cs ! s)" using cs(2) that len by simp
    then have "length (Vector (cs ! s)) = VECTORSIZE" "length (Piece (cs ! s)) = PIECESIZE"
      using f(2) by (auto simp: coded_from_def)
    then show ?thesis using that len by (simp add: go_simps GetXNCEncPkt_eq enc_pkt_def)
  qed
  then have "send_pkts (\<lambda>s. do { c \<leftarrow> nth_opt cs s;
        GetXNCEncPkt (send_size fs (length chunks) i) (int i) (int (length chunks)) c }) ?js =
      Some (map (\<lambda>s. ?pk (cs ! s)) ?js, True)"
    by (intro send_pkts_all) auto
  also have "map (\<lambda>s. ?pk (cs ! s)) ?js = map ?pk cs"
    by (rule nth_eqI) (auto simp: len)
  finally have "send_chunk F rnd fs chunks True i = Some (map ?pk cs, True)"
    using f(1) cs(1) i(1) by (simp add: send_chunk_def Let_def go_simps
      traverse_opt_compose [of "\<lambda>r. FullRLNCEncoder_CodedPiece F r f" "rnd i"])
  then show ?thesis using f(2,3) z cs(2,3) by (intro exI [of _ "pieces f"] exI [of _ cs]) (simp add: comp_def)
qed

lemma send_chunk_plain:
  assumes i: "i < length chunks" "length (chunks ! i) = CHUNKSIZE"
  shows "send_chunk F rnd fs chunks False i =
     Some (map (\<lambda>s. plain_pkt (send_size fs (length chunks) i) i (length chunks)
                      (take PIECESIZE (drop (s * PIECESIZE) (chunks ! i)))) [0..<VECTORSIZE], True)"
proof -
  let ?mk = "\<lambda>s. do { p \<leftarrow> slice_opt (chunks ! i) (s * PIECESIZE) ((s + 1) * PIECESIZE);
    GetXNCPkt (send_size fs (length chunks) i) (int i) (int (length chunks)) p }"
  have "?mk s = Some (Inr (plain_pkt (send_size fs (length chunks) i) i (length chunks)
      (take PIECESIZE (drop (s * PIECESIZE) (chunks ! i)))))" if "s < VECTORSIZE" for s
  proof -
    have "(s + 1) * PIECESIZE \<le> length (chunks ! i)" using that i(2) by (simp add: sizes)
    then have "slice_opt (chunks ! i) (s * PIECESIZE) ((s + 1) * PIECESIZE) =
        Some (take PIECESIZE (drop (s * PIECESIZE) (chunks ! i)))"
      "length (take PIECESIZE (drop (s * PIECESIZE) (chunks ! i))) = PIECESIZE"
      by (simp_all add: slice_opt_def)
    then show ?thesis by (simp add: GetXNCPkt_eq plain_pkt_def)
  qed
  then have "send_pkts ?mk [0..<VECTORSIZE] = Some (map (\<lambda>s. plain_pkt (send_size fs (length chunks) i) i
      (length chunks) (take PIECESIZE (drop (s * PIECESIZE) (chunks ! i)))) [0..<VECTORSIZE], True)"
    by (intro send_pkts_all) auto
  then show ?thesis using i by (simp add: send_chunk_def Let_def go_simps sizes)
qed

section \<open>What the client makes of it\<close>

definition decs :: "nat \<Rightarrow> xnc_client \<Rightarrow> FullRLNCDecoder list" where
  "decs n st = (case decoders st of
     None \<Rightarrow> replicate n (NewFullRLNCDecoder (unat PIECECNT)) | Some ds \<Rightarrow> ds)"

lemma decs_upd [simp]: "decs n (st\<lparr>decoders := Some ds\<rparr>) = ds"
  "decs n (st\<lparr>decoders := Some ds, rFile := f\<rparr>) = ds" "decs n (st\<lparr>rFile := f\<rparr>) = decs n st"
  by (simp_all add: decs_def)

abbreviation enc_xnc :: "int \<Rightarrow> nat \<Rightarrow> nat \<Rightarrow> CodedPiece \<Rightarrow> XNC" where
  "enc_xnc sz i n c \<equiv> XNC_zero\<lparr>xType := TYPE_XNC_ENC, ChunkId := int i, ChunkSize := sz,
     ChunkNum := int n, xVector := Vector c, xPiece := Piece c\<rparr>"

lemma client_step_enc:
  assumes "field32 sz" "i < n" "n < 2 ^ 32" "length (Vector c) = VECTORSIZE" "length (Piece c) = PIECESIZE"
  shows "client_step F True (enc_pkt sz i n c) st = client_enc_step F (enc_xnc sz i n c) st"
proof -
  have "field32 (int i)" "field32 (int n)" using assms by (auto simp: field32_def)
  then show ?thesis
    using DecodeXNCPkt_Enc [of "int i" sz "int n" "Vector c" "Piece c"] assms
    by (simp add: client_step_def enc_pkt_def type_defs)
qed

lemma length_enc_pkt:
  "length (Vector c) = VECTORSIZE \<Longrightarrow> length (Piece c) = PIECESIZE \<Longrightarrow>
     length (enc_pkt sz i n c) = client_frameSize True"
  by (simp add: enc_pkt_def client_frameSize_def sizes)

lemma length_EncodeEND: "length (EncodeEND m encode) = client_frameSize encode"
  by (simp add: EncodeEND_def client_frameSize_def sizes)

lemma client_END:
  "reads_ok rd \<Longrightarrow> client_loop F rd encode st (EncodeEND m encode @ rest) = Some (Some (rFile st))"
  by (subst client_loop_frame) (simp_all add: length_EncodeEND client_step_def DecodeXNCPkt_END)

context galois_field
begin

lemma client_enc_step_decoded:
  assumes "i < length (decs n st)" "FullRLNCDecoder_IsDecoded (decs n st ! i)"
  shows "client_enc_step F (enc_xnc sz i n c) st = Some (Continue (st\<lparr>decoders := Some (decs n st)\<rparr>))"
proof -
  have "client_decoders (enc_xnc sz i n c) st = decs n st"
    by (simp add: client_decoders_def decs_def split: option.split)
  then show ?thesis
    using assms full.add_decoded [OF assms(2)] by (simp add: client_enc_step_def go_simps Let_def)
qed

lemma client_enc_step_add:
  assumes i: "i < length (decs n st)" and nd: "\<not> FullRLNCDecoder_IsDecoded (decs n st ! i)"
    and inv: "FullRLNCDecoder_inv F PIECESIZE ps as (decs n st ! i)"
    and c: "coded_from F PIECESIZE ps c" and sz: "0 \<le> sz" "nat sz \<le> length (concat ps)"
  shows "\<exists>d. FullRLNCDecoder_inv F PIECESIZE ps (as @ [c]) d \<and>
     client_enc_step F (enc_xnc sz i n c) st = Some
       (if full_rank F (length ps) (map Vector (as @ [c])) then
          if i + 1 = n then Break (rFile st @ take (nat sz) (concat ps))
          else Continue (st\<lparr>decoders := Some ((decs n st)[i := d]), rFile := rFile st @ take (nat sz) (concat ps)\<rparr>)
        else Continue (st\<lparr>decoders := Some ((decs n st)[i := d])\<rparr>))"
proof -
  have cd: "client_decoders (enc_xnc sz i n c) st = decs n st"
    by (simp add: client_decoders_def decs_def split: option.split)
  obtain d where d: "FullRLNCDecoder_AddPiece F (decs n st ! i) c = Some (Inr d)"
    "FullRLNCDecoder_inv F PIECESIZE ps (as @ [c]) d"
    using full.add_inv [OF inv nd c] by blast
  have fr: "FullRLNCDecoder_IsDecoded d \<longleftrightarrow> full_rank F (length ps) (map Vector (as @ [c]))"
    by (rule full.decoded_iff [OF d(2)])
  have gf: "GetFile d = Some (Inr (concat ps))" if "FullRLNCDecoder_IsDecoded d"
    using full.pieces_decoded [OF d(2) that] by (simp add: GetFile_def)
  have id: "int i = int n - 1 \<longleftrightarrow> i + 1 = n" by linarith
  have c_eq: "\<lparr>Vector = Vector c, Piece = Piece c\<rparr> = c" by simp
  show ?thesis
    using d i fr gf sz id
    by (intro exI [of _ d], cases "FullRLNCDecoder_IsDecoded d")
      (simp_all add: client_enc_step_def Let_def cd go_simps c_eq)
qed

text \<open>All packets of one chunk: its data is appended once, when its vectors reach full rank.\<close>

lemma client_chunk:
  assumes rd: "reads_ok rd" and sz: "field32 sz" "nat sz \<le> length (concat ps)"
    and n: "i < n" "n < 2 ^ 32" and ps: "length ps = VECTORSIZE"
    and "length (decs n st) = n" "FullRLNCDecoder_inv F PIECESIZE ps as (decs n st ! i)"
    and "\<forall>c \<in> set cs. coded_from F PIECESIZE ps c"
  shows "let was = full_rank F (length ps) (map Vector as);
             fin = full_rank F (length ps) (map Vector (as @ cs))
     in if i + 1 = n \<and> fin \<and> \<not> was then
          client_loop F rd True st (concat (map (enc_pkt sz i n) cs) @ rest) =
            Some (Some (rFile st @ take (nat sz) (concat ps)))
        else \<exists>st' d. client_loop F rd True st (concat (map (enc_pkt sz i n) cs) @ rest) =
               client_loop F rd True st' rest \<and>
             rFile st' = rFile st @ (if fin \<and> \<not> was then take (nat sz) (concat ps) else []) \<and>
             decs n st' = (decs n st)[i := d]"
  using assms(7-)
proof (induction cs arbitrary: st as)
  case Nil
  then show ?case by (auto simp: Let_def intro!: exI [of _ st] exI [of _ "decs n st ! i"])
next
  case (Cons c cs)
  have c: "coded_from F PIECESIZE ps c" using Cons.prems(3) by simp
  have len: "length (Vector c) = VECTORSIZE" "length (Piece c) = PIECESIZE"
    using c ps by (auto simp: coded_from_def)
  have step: "client_loop F rd True st (concat (map (enc_pkt sz i n) (c # cs)) @ rest) =
      do { r \<leftarrow> client_enc_step F (enc_xnc sz i n c) st;
           case r of Continue st' \<Rightarrow> client_loop F rd True st' (concat (map (enc_pkt sz i n) cs) @ rest)
           | Break f \<Rightarrow> Some (Some f) | ReturnNil \<Rightarrow> Some None }"
    using client_loop_frame [OF rd length_enc_pkt [OF len]] client_step_enc [OF sz(1) n len] by simp
  have mono: "full_rank F (length ps) (map Vector (as @ c # cs))"
    if "full_rank F (length ps) (map Vector as)" for cs
    using that by (rule full_rank_mono) auto
  show ?case
  proof (cases "FullRLNCDecoder_IsDecoded (decs n st ! i)")
    case True
    let ?st = "st\<lparr>decoders := Some (decs n st)\<rparr>"
    have was: "full_rank F (length ps) (map Vector as)"
      using full.decoded_iff [OF Cons.prems(2)] True by simp
    have "client_enc_step F (enc_xnc sz i n c) st = Some (Continue ?st)"
      using True Cons.prems(1) n by (intro client_enc_step_decoded) auto
    with step Cons.IH [of ?st as] Cons.prems was mono show ?thesis by (auto simp: Let_def)
  next
    case False
    have nw: "\<not> full_rank F (length ps) (map Vector as)"
      using full.decoded_iff [OF Cons.prems(2)] False by simp
    obtain d where d: "FullRLNCDecoder_inv F PIECESIZE ps (as @ [c]) d"
      "client_enc_step F (enc_xnc sz i n c) st = Some
       (if full_rank F (length ps) (map Vector (as @ [c])) then
          if i + 1 = n then Break (rFile st @ take (nat sz) (concat ps))
          else Continue (st\<lparr>decoders := Some ((decs n st)[i := d]), rFile := rFile st @ take (nat sz) (concat ps)\<rparr>)
        else Continue (st\<lparr>decoders := Some ((decs n st)[i := d])\<rparr>))"
      using client_enc_step_add [OF _ False Cons.prems(2) c, of sz] Cons.prems(1) n sz
      by (auto simp: field32_def)
    let ?st = "if full_rank F (length ps) (map Vector (as @ [c]))
      then st\<lparr>decoders := Some ((decs n st)[i := d]), rFile := rFile st @ take (nat sz) (concat ps)\<rparr>
      else st\<lparr>decoders := Some ((decs n st)[i := d])\<rparr>"
    have more: "full_rank F (length ps) (map Vector (as @ c # cs))"
      if "full_rank F (length ps) (map Vector (as @ [c]))"
      using that by (rule full_rank_mono) auto
    have "decs n ?st = (decs n st)[i := d]" by simp
    then have "length (decs n ?st) = n" "FullRLNCDecoder_inv F PIECESIZE ps (as @ [c]) (decs n ?st ! i)"
      using Cons.prems(1) n d(1) by auto
    with Cons.IH [of ?st "as @ [c]"] Cons.prems(3) step d(2) nw more show ?thesis
      by (auto simp: Let_def)
  qed
qed

text \<open>The chunks from \<open>k\<close> on, with a fresh decoder for each, and the end packet.\<close>

lemma client_chunks:
  assumes rd: "reads_ok rd" and n: "n < 2 ^ 32"
    and sz: "\<And>i. i < n \<Longrightarrow> field32 (sz i) \<and> nat (sz i) \<le> length (concat (ps i))"
    and ps: "\<And>i. i < n \<Longrightarrow> valid_pieces PIECESIZE (ps i) \<and> length (ps i) = VECTORSIZE"
    and cs: "\<And>i. i < n \<Longrightarrow> \<forall>c \<in> set (cs i). coded_from F PIECESIZE (ps i) c"
    and k: "k \<le> n"
    and st: "length (decs n st) = n"
      "\<And>j. k \<le> j \<Longrightarrow> j < n \<Longrightarrow> decs n st ! j = NewFullRLNCDecoder VECTORSIZE"
  shows "client_loop F rd True st
       (concat (concat (map (\<lambda>i. map (enc_pkt (sz i) i n) (cs i)) [k..<n])) @ EncodeEND m True @ rest) =
     Some (Some (rFile st @ concat (map (\<lambda>i. take (nat (sz i)) (concat (ps i)))
       (filter (\<lambda>i. full_rank F VECTORSIZE (map Vector (cs i))) [k..<n]))))"
  using k st
proof (induction "n - k" arbitrary: k st)
  case 0
  then show ?case using client_END [OF rd] by simp
next
  case (Suc m')
  let ?tail = "concat (concat (map (\<lambda>i. map (enc_pkt (sz i) i n) (cs i)) [Suc k..<n])) @ EncodeEND m True @ rest"
  have kn: "k < n" using Suc by simp
  have up: "[k..<n] = k # [Suc k..<n]" using kn by (rule upt_conv_Cons)
  have inv: "FullRLNCDecoder_inv F PIECESIZE (ps k) [] (decs n st ! k)"
    using full.inv_new [of PIECESIZE "ps k"] ps [OF kn] Suc.prems(3) [of k] kn by simp
  have nf: "\<not> full_rank F (length (ps k)) (map Vector [])"
    using ps [OF kn] full_rank_Nil [of VECTORSIZE F] by (simp add: sizes)
  note chunk = client_chunk [OF rd _ _ kn n _ Suc.prems(2) inv cs [OF kn], of "sz k" ?tail]
  show ?case
  proof (cases "Suc k = n \<and> full_rank F VECTORSIZE (map Vector (cs k))")
    case True
    then show ?thesis
      using chunk sz [OF kn] ps [OF kn] nf by (simp add: up Let_def)
  next
    case False
    then obtain st' d where st': "client_loop F rd True st (concat (map (enc_pkt (sz k) k n) (cs k)) @ ?tail) =
        client_loop F rd True st' ?tail"
      "rFile st' = rFile st @ (if full_rank F VECTORSIZE (map Vector (cs k)) then take (nat (sz k)) (concat (ps k)) else [])"
      "decs n st' = (decs n st)[k := d]"
      using chunk sz [OF kn] ps [OF kn] nf by (auto simp: Let_def)
    have "client_loop F rd True st' ?tail = Some (Some (rFile st' @ concat (map (\<lambda>i. take (nat (sz i)) (concat (ps i)))
       (filter (\<lambda>i. full_rank F VECTORSIZE (map Vector (cs i))) [Suc k..<n]))))"
      using Suc st'(3) by (intro Suc.hyps) auto
    then show ?thesis using st' by (simp add: up)
  qed
qed

end

lemma client_step_plain:
  assumes "field32 sz" "i < n" "n < 2 ^ 32" "length p = PIECESIZE"
  shows "client_step F False (plain_pkt sz i n p) st =
     client_plain_step (XNC_zero\<lparr>xType := TYPE_XNC, ChunkId := int i, ChunkSize := sz,
       ChunkNum := int n, xPiece := p\<rparr>) st"
proof -
  have "field32 (int i)" "field32 (int n)" using assms by (auto simp: field32_def)
  then show ?thesis
    using DecodeXNCPkt_Plain [of "int i" sz "int n" p] assms
    by (simp add: client_step_def plain_pkt_def type_defs)
qed

lemma client_plain_chunk:
  assumes rd: "reads_ok rd" and sz: "field32 sz" "nat sz \<le> CHUNKSIZE"
    and n: "i < n" "n < 2 ^ 32" and ch: "length ch = CHUNKSIZE"
    and "s < VECTORSIZE" "chunkbuf st = take (s * PIECESIZE) ch"
  shows "client_loop F rd False st
       (concat (map (\<lambda>s. plain_pkt sz i n (take PIECESIZE (drop (s * PIECESIZE) ch))) [s..<VECTORSIZE]) @ rest) =
     (if i + 1 = n then Some (Some (rFile st @ take (nat sz) ch))
      else client_loop F rd False (st\<lparr>rFile := rFile st @ take (nat sz) ch, chunkbuf := []\<rparr>) rest)"
  using assms(7-)
proof (induction "VECTORSIZE - s" arbitrary: s st rule: less_induct)
  case less
  let ?p = "take PIECESIZE (drop (s * PIECESIZE) ch)" and ?pk = "\<lambda>s. plain_pkt sz i n (take PIECESIZE (drop (s * PIECESIZE) ch))"
  have lp: "length ?p = PIECESIZE" using less.prems(1) ch by (simp add: sizes)
  then have lf: "length (?pk s) = client_frameSize False"
    by (simp add: plain_pkt_def client_frameSize_def sizes)
  have buf: "chunkbuf st @ ?p = take (Suc s * PIECESIZE) ch"
    using less.prems(2) take_add [of "s * PIECESIZE" PIECESIZE ch] by (simp add: add.commute)
  have id: "int i = int n - 1 \<longleftrightarrow> i + 1 = n" by linarith
  have up: "[s..<VECTORSIZE] = s # [Suc s..<VECTORSIZE]" using less.prems(1) by (rule upt_conv_Cons)
  have step: "client_loop F rd False st (concat (map ?pk [s..<VECTORSIZE]) @ rest) =
      do { r \<leftarrow> client_plain_step (XNC_zero\<lparr>xType := TYPE_XNC, ChunkId := int i, ChunkSize := sz,
             ChunkNum := int n, xPiece := ?p\<rparr>) st;
           case r of Continue st' \<Rightarrow> client_loop F rd False st' (concat (map ?pk [Suc s..<VECTORSIZE]) @ rest)
           | Break f \<Rightarrow> Some (Some f) | ReturnNil \<Rightarrow> Some None }"
    using client_loop_frame [OF rd lf] client_step_plain [OF sz(1) n lp] by (simp add: up)
  show ?case
  proof (cases "Suc s = VECTORSIZE")
    case True
    then have "take (Suc s * PIECESIZE) ch = ch" using ch by (simp add: sizes)
    then show ?thesis
      using step buf ch sz(2) id True by (simp add: client_plain_step_def Let_def slice_opt_def)
  next
    case False
    then have "length (take (Suc s * PIECESIZE) ch) \<noteq> CHUNKSIZE"
      using less.prems(1) ch by (auto simp: sizes)
    then have "client_plain_step (XNC_zero\<lparr>xType := TYPE_XNC, ChunkId := int i, ChunkSize := sz,
             ChunkNum := int n, xPiece := ?p\<rparr>) st = Some (Continue (st\<lparr>chunkbuf := take (Suc s * PIECESIZE) ch\<rparr>))"
      using buf by (simp add: client_plain_step_def Let_def)
    with step less.hyps [of "Suc s" "st\<lparr>chunkbuf := take (Suc s * PIECESIZE) ch\<rparr>"] less.prems(1) False
    show ?thesis by simp
  qed
qed

lemma client_plain_chunks:
  assumes rd: "reads_ok rd" and n: "n < 2 ^ 32"
    and sz: "\<And>i. i < n \<Longrightarrow> field32 (sz i) \<and> nat (sz i) \<le> CHUNKSIZE"
    and ch: "\<And>i. i < n \<Longrightarrow> length (ch i) = CHUNKSIZE" and k: "k \<le> n" and st: "chunkbuf st = []"
  shows "client_loop F rd False st
       (concat (concat (map (\<lambda>i. map (\<lambda>s. plain_pkt (sz i) i n (take PIECESIZE (drop (s * PIECESIZE) (ch i))))
          [0..<VECTORSIZE]) [k..<n])) @ EncodeEND m False @ rest) =
     Some (Some (rFile st @ concat (map (\<lambda>i. take (nat (sz i)) (ch i)) [k..<n])))"
  using k st
proof (induction "n - k" arbitrary: k st)
  case 0
  then show ?case
    using client_END [OF rd] by simp
next
  case (Suc m')
  have kn: "k < n" using Suc by simp
  have up: "[k..<n] = k # [Suc k..<n]" using kn by (rule upt_conv_Cons)
  show ?case
    using client_plain_chunk [OF rd _ _ kn n ch [OF kn], of "sz k" 0 st] sz [OF kn] Suc.prems Suc.hyps(1) [of "Suc k"]
      Suc.hyps(2) kn
    by (simp add: up sizes)
qed

section \<open>End to end\<close>

definition chunk_data :: "bytes \<Rightarrow> nat \<Rightarrow> bytes" where
  "chunk_data fs i = take CHUNKSIZE (drop (CHUNKSIZE * i) fs)"

definition chunk_count :: "bytes \<Rightarrow> nat" where
  "chunk_count fs = ceil_div (length fs) CHUNKSIZE"

lemma chunk_last: "i < chunk_count fs \<Longrightarrow> CHUNKSIZE * i < length fs"
  by (simp add: chunk_count_def ceil_div_gt sizes)

lemma chunk_full: "Suc i < chunk_count fs \<Longrightarrow> CHUNKSIZE \<le> length fs - CHUNKSIZE * i"
  using chunk_last [of "Suc i" fs] by simp

lemma chunk_over: "length fs \<le> CHUNKSIZE * chunk_count fs"
  using ceil_div_gt [of CHUNKSIZE "chunk_count fs" "length fs"] by (simp add: chunk_count_def sizes)

lemma send_size_field:
  assumes "i < chunk_count fs"
  shows "field32 (send_size fs (chunk_count fs) i) \<and> nat (send_size fs (chunk_count fs) i) \<le> CHUNKSIZE"
    and "take (nat (send_size fs (chunk_count fs) i)) (chunk_at fs CHUNKSIZE i) = chunk_data fs i"
proof -
  obtain m where m: "chunk_count fs = Suc m" using assms by (cases "chunk_count fs") auto
  have lt: "CHUNKSIZE * m < length fs" using chunk_last [of m fs] m by simp
  have le: "length fs \<le> CHUNKSIZE * m + CHUNKSIZE" using chunk_over [of fs] m by simp
  have last: "nat (int (length fs) - int CHUNKSIZE * int m) = length fs - CHUNKSIZE * m"
    using lt by (simp flip: of_nat_mult of_nat_diff)
  show "field32 (send_size fs (chunk_count fs) i) \<and> nat (send_size fs (chunk_count fs) i) \<le> CHUNKSIZE"
    using lt le last by (auto simp: send_size_def m field32_def sizes)
  show "take (nat (send_size fs (chunk_count fs) i)) (chunk_at fs CHUNKSIZE i) = chunk_data fs i"
  proof (cases "i = m")
    case True
    then show ?thesis
      using lt le last by (auto simp: send_size_def m chunk_at_def chunk_data_def)
  next
    case False
    then have "CHUNKSIZE \<le> length fs - CHUNKSIZE * i" using chunk_full assms m by simp
    then show ?thesis using False by (simp add: send_size_def m chunk_at_def chunk_data_def)
  qed
qed

lemma chunks_cover: "concat (map (chunk_data fs) [0..<chunk_count fs]) = fs"
  using chunk_over [of fs] by (simp add: chunk_data_def [abs_def] concat_take_drop_chunks)

lemma Client_served:
  assumes "length name \<le> 123" "files name = Some fs"
    "sendFile F rnd fs encode = Some out"
  shows "Client F rd (handleStream F rnd files) name encode =
     client_loop F rd encode \<lparr>rFile = [], decoders = None, chunkbuf = []\<rparr> (concat out)"
proof -
  let ?d = "\<lparr>iType = (if encode then TYPE_INIT_ENC else TYPE_INIT), iLen = int (length name), Filename = name\<rparr>"
  obtain pkt where pkt: "EncodeInit ?d = Some pkt" "DecodeInit pkt = Some (Inr ?d)"
    using init_packet [of "iType ?d" name] assms(1) by (cases encode) auto
  have "encode = (iType ?d = TYPE_INIT_ENC)" by (simp add: type_defs)
  then have "handleStream F rnd files pkt = Some out"
    using pkt(2) assms(2,3) by (simp add: handleStream_def)
  then show ?thesis using pkt(1) by (simp add: Client_def)
qed

lemma coded_transfer:
  assumes F: "galois_field F" and rnd: "\<And>i j. rand_fills (rnd i j)" and rd: "reads_ok rd"
    and name: "length name \<le> 123" "files name = Some fs" and n: "chunk_count fs < 2 ^ 32"
  shows "Client F rd (handleStream F rnd files) name True =
     Some (Some (concat (map (chunk_data fs)
       (filter (\<lambda>i. full_rank F VECTORSIZE (map (\<lambda>j. rnd i j VECTORSIZE) [0..<unat CODEDPIECECNT]))
         [0..<chunk_count fs]))))"
proof -
  let ?n = "chunk_count fs" and ?chunks = "map (chunk_at fs CHUNKSIZE) [0..<chunk_count fs]"
  have sp: "SpiltFile fs CHUNKSIZE = Some ?chunks"
    using SpiltFile_eq [of CHUNKSIZE fs] by (simp add: chunk_count_def sizes)
  define Q where "Q i ps cs \<longleftrightarrow>
     send_chunk F rnd fs ?chunks True i = Some (map (enc_pkt (send_size fs ?n i) i ?n) cs, True) \<and>
     valid_pieces PIECESIZE ps \<and> length ps = VECTORSIZE \<and> concat ps = chunk_at fs CHUNKSIZE i \<and>
     (\<forall>c \<in> set cs. coded_from F PIECESIZE ps c) \<and>
     map Vector cs = map (\<lambda>j. rnd i j VECTORSIZE) [0..<unat CODEDPIECECNT]" for i ps cs
  have "\<forall>i. \<exists>pc. i < ?n \<longrightarrow> Q i (fst pc) (snd pc)"
    using send_chunk_enc [where rnd = rnd and chunks = ?chunks and fs = fs, OF F] rnd
    by (simp add: Q_def)
  then have "\<exists>pc. \<forall>i. i < ?n \<longrightarrow> Q i (fst (pc i)) (snd (pc i))"
    by (rule choice)
  then obtain pc where pc: "\<And>i. i < ?n \<Longrightarrow> Q i (fst (pc i)) (snd (pc i))"
    by blast
  define ps cs where "ps i = fst (pc i)" and "cs i = snd (pc i)" for i
  have Q: "Q i (ps i) (cs i)" if "i < ?n" for i
    using pc [OF that] by (simp add: ps_def cs_def)
  have sent: "send_chunk F rnd fs ?chunks True i = Some (map (enc_pkt (send_size fs ?n i) i ?n) (cs i), True)"
    and ps: "valid_pieces PIECESIZE (ps i) \<and> length (ps i) = VECTORSIZE"
    and cat: "concat (ps i) = chunk_at fs CHUNKSIZE i"
    and cs: "\<forall>c \<in> set (cs i). coded_from F PIECESIZE (ps i) c"
    and vec: "map Vector (cs i) = map (\<lambda>j. rnd i j VECTORSIZE) [0..<unat CODEDPIECECNT]" if "i < ?n" for i
    using Q [OF that] by (simp_all add: Q_def)
  let ?out = "concat (map (\<lambda>i. map (enc_pkt (send_size fs ?n i) i ?n) (cs i)) [0..<?n])"
  let ?fin = "EncodeEND (int ?n - 1) True"
  have "send_chunks F rnd fs ?chunks True [0..<?n] = Some (?out, True)"
    using sent by (intro send_chunks_all) auto
  then have "sendFile F rnd fs True = Some (?out @ replicate 5 ?fin)"
    using sp by (simp add: sendFile_def)
  moreover have "concat (?out @ replicate 5 ?fin) = concat ?out @ ?fin @ concat (replicate 4 ?fin)"
    by (simp add: numeral_eq_Suc)
  ultimately have "Client F rd (handleStream F rnd files) name True =
      client_loop F rd True \<lparr>rFile = [], decoders = None, chunkbuf = []\<rparr>
        (concat ?out @ ?fin @ concat (replicate 4 ?fin))"
    using Client_served [of name files fs F rnd True] name by simp
  also have "\<dots> = Some (Some ([] @ concat (map (\<lambda>i. take (nat (send_size fs ?n i)) (concat (ps i)))
       (filter (\<lambda>i. full_rank F VECTORSIZE (map Vector (cs i))) [0..<?n]))))"
    using galois_field.client_chunks [OF F rd n, where sz = "send_size fs ?n" and ps = ps and cs = cs
        and k = 0 and st = "\<lparr>rFile = [], decoders = None, chunkbuf = []\<rparr>"] send_size_field(1) ps cs cat
    by (simp add: decs_def sizes)
  also have "map (\<lambda>i. take (nat (send_size fs ?n i)) (concat (ps i)))
       (filter (\<lambda>i. full_rank F VECTORSIZE (map Vector (cs i))) [0..<?n]) =
     map (chunk_data fs) (filter (\<lambda>i. full_rank F VECTORSIZE (map (\<lambda>j. rnd i j VECTORSIZE) [0..<unat CODEDPIECECNT])) [0..<?n])"
    using cat vec send_size_field(2) by (intro map_cong filter_cong) auto
  finally show ?thesis by simp
qed

lemma plain_transfer:
  assumes rd: "reads_ok rd" and name: "length name \<le> 123" "files name = Some fs"
    and n: "chunk_count fs < 2 ^ 32"
  shows "Client F rd (handleStream F rnd files) name False = Some (Some fs)"
proof -
  let ?n = "chunk_count fs" and ?chunks = "map (chunk_at fs CHUNKSIZE) [0..<chunk_count fs]"
  let ?pk = "\<lambda>i s. plain_pkt (send_size fs ?n i) i ?n (take PIECESIZE (drop (s * PIECESIZE) (chunk_at fs CHUNKSIZE i)))"
  let ?out = "concat (map (\<lambda>i. map (?pk i) [0..<VECTORSIZE]) [0..<?n])"
  let ?fin = "EncodeEND (int ?n - 1) False"
  have sp: "SpiltFile fs CHUNKSIZE = Some ?chunks"
    using SpiltFile_eq [of CHUNKSIZE fs] by (simp add: chunk_count_def sizes)
  have "send_chunks F rnd fs ?chunks False [0..<?n] = Some (?out, True)"
    using send_chunk_plain [of _ ?chunks F rnd fs] by (intro send_chunks_all) auto
  then have "sendFile F rnd fs False = Some (?out @ replicate 5 ?fin)"
    using sp by (simp add: sendFile_def)
  moreover have "concat (?out @ replicate 5 ?fin) = concat ?out @ ?fin @ concat (replicate 4 ?fin)"
    by (simp add: numeral_eq_Suc)
  ultimately have "Client F rd (handleStream F rnd files) name False =
      client_loop F rd False \<lparr>rFile = [], decoders = None, chunkbuf = []\<rparr>
        (concat ?out @ ?fin @ concat (replicate 4 ?fin))"
    using Client_served [of name files fs F rnd False] name by simp
  also have "\<dots> = Some (Some ([] @ concat (map (\<lambda>i. take (nat (send_size fs ?n i)) (chunk_at fs CHUNKSIZE i)) [0..<?n])))"
    using client_plain_chunks [OF rd n, where sz = "send_size fs ?n" and ch = "chunk_at fs CHUNKSIZE"
        and k = 0 and st = "\<lparr>rFile = [], decoders = None, chunkbuf = []\<rparr>"] send_size_field(1)
    by simp
  also have "map (\<lambda>i. take (nat (send_size fs ?n i)) (chunk_at fs CHUNKSIZE i)) [0..<?n] = map (chunk_data fs) [0..<?n]"
    using send_size_field(2) by (intro map_cong) auto
  finally show ?thesis using chunks_cover [of fs] by simp
qed

section \<open>Properties\<close>

text \<open>
  C4: a coded transfer delivers the file.  For every way the stream cuts its reads, if the
  random vectors of each chunk have full rank, the client returns exactly the bytes of the
  file the server has under the requested name; nothing panics on either side.
\<close>

theorem coded_transfer_delivers:
  assumes F: "galois_field F" and rnd: "\<And>i j. rand_fills (rnd i j)" and rd: "reads_ok rd"
    and name: "length name \<le> 123" "files name = Some fs" and n: "chunk_count fs < 2 ^ 32"
    and rank: "\<And>i. i < chunk_count fs \<Longrightarrow>
      full_rank F VECTORSIZE (map (\<lambda>j. rnd i j VECTORSIZE) [0..<unat CODEDPIECECNT])"
  shows "Client F rd (handleStream F rnd files) name True = Some (Some fs)"
proof -
  have "filter (\<lambda>i. full_rank F VECTORSIZE (map (\<lambda>j. rnd i j VECTORSIZE) [0..<unat CODEDPIECECNT]))
      [0..<chunk_count fs] = [0..<chunk_count fs]"
    using rank by (simp add: filter_id_conv)
  moreover have "Client F rd (handleStream F rnd files) name True =
     Some (Some (concat (map (chunk_data fs)
       (filter (\<lambda>i. full_rank F VECTORSIZE (map (\<lambda>j. rnd i j VECTORSIZE) [0..<unat CODEDPIECECNT]))
         [0..<chunk_count fs]))))"
    by (rule coded_transfer) (use assms in auto)
  ultimately show ?thesis using chunks_cover [of fs] by simp
qed

lemma demo_rnd: "rand_fills ((\<lambda>i j n. unit_vec n j) i j)"
  by (simp add: rand_fills_def)

lemma demo_rd: "reads_ok (\<lambda>c s. min (min c 1400) (length s))"
  by (auto simp: reads_ok_def)

theorem coded_transfer_delivers_witness:
  "Client DefaultGF256 (\<lambda>c s. min (min c 1400) (length s))
     (handleStream DefaultGF256 (\<lambda>i j n. unit_vec n j) [[102 :: byte] \<mapsto> [1, 2, 3]]) [102] True =
   Some (Some [1, 2, 3])"
proof (rule coded_transfer_delivers [OF gf256.galois_field_axioms demo_rnd demo_rd])
  show "full_rank DefaultGF256 VECTORSIZE (map (\<lambda>j. unit_vec VECTORSIZE j) [0..<unat CODEDPIECECNT])"
    by (rule gf256.full_rank_units) (auto simp: sizes)
qed (simp_all add: chunk_count_def ceil_div_def sizes)

text \<open>
  C5: a plain transfer delivers the file, whatever the file and the cuts of the stream.
\<close>

theorem plain_transfer_delivers:
  assumes "reads_ok rd" "length name \<le> 123" "files name = Some fs" "chunk_count fs < 2 ^ 32"
  shows "Client F rd (handleStream F rnd files) name False = Some (Some fs)"
  by (rule plain_transfer) (use assms in auto)

theorem plain_transfer_delivers_witness:
  "Client DefaultGF256 (\<lambda>c s. min (min c 1400) (length s))
     (handleStream DefaultGF256 (\<lambda>i j n. unit_vec n j) [[102 :: byte] \<mapsto> [1, 2, 3]]) [102] False =
   Some (Some [1, 2, 3])"
  by (rule plain_transfer_delivers [OF demo_rd]) (simp_all add: chunk_count_def ceil_div_def sizes)

text \<open>
  C18: chunks without full rank vanish silently.  The client returns the concatenation of
  exactly the chunks whose seventeen vectors have full rank, without reporting the others.
\<close>

theorem coded_transfer_drops_chunks:
  assumes "galois_field F" "\<And>i j. rand_fills (rnd i j)" "reads_ok rd" "length name \<le> 123"
    "files name = Some fs" "chunk_count fs < 2 ^ 32"
  shows "Client F rd (handleStream F rnd files) name True =
     Some (Some (concat (map (chunk_data fs)
       (filter (\<lambda>i. full_rank F VECTORSIZE (map (\<lambda>j. rnd i j VECTORSIZE) [0..<unat CODEDPIECECNT]))
         [0..<chunk_count fs]))))"
  by (rule coded_transfer) (use assms in auto)

lemma zero_vectors_rank: "0 < n \<Longrightarrow> galois_field F \<Longrightarrow> \<not> full_rank F n (map (\<lambda>j. replicate n 0) js)"
proof
  assume n: "0 < n" and F: "galois_field F" and fr: "full_rank F n (map (\<lambda>j. replicate n 0) js)"
  have "replicate n 1 = replicate n (0 :: byte)"
    by (rule fr [unfolded full_rank_def, rule_format]) (auto simp: galois_field.dot_zero_left [OF F])
  with n show False by (simp add: replicate_eq_replicate)
qed

theorem coded_transfer_drops_chunks_witness:
  "Client DefaultGF256 (\<lambda>c s. min (min c 1400) (length s))
     (handleStream DefaultGF256 (\<lambda>i j n. replicate n 0) [[102 :: byte] \<mapsto> [1, 2, 3]]) [102] True =
   Some (Some [])"
proof -
  have "Client DefaultGF256 (\<lambda>c s. min (min c 1400) (length s))
     (handleStream DefaultGF256 (\<lambda>i j n. replicate n 0) [[102 :: byte] \<mapsto> [1, 2, 3]]) [102] True =
     Some (Some (concat (map (chunk_data [1, 2, 3])
       (filter (\<lambda>i. full_rank DefaultGF256 VECTORSIZE (map (\<lambda>j. replicate VECTORSIZE 0) [0..<unat CODEDPIECECNT]))
         [0..<chunk_count [1, 2, 3]]))))"
    by (rule coded_transfer_drops_chunks [OF gf256.galois_field_axioms _ demo_rd])
      (simp_all add: rand_fills_def chunk_count_def ceil_div_def sizes)
  then show ?thesis
    using zero_vectors_rank [OF _ gf256.galois_field_axioms, of VECTORSIZE "[0..<unat CODEDPIECECNT]"]
    by (simp add: sizes)
qed

end
