(* ===== verification/Byte_Order.thy ===== *)
theory Byte_Order
  imports RLNC_Prelude "HOL-Library.Word"
begin

text \<open>
  Model of the byte orders of \<^verbatim>\<open>mp-quic/internal/utils\<close> (\<^verbatim>\<open>byteorder.go\<close>,
  \<^verbatim>\<open>byteorder_little_endian.go\<close>, \<^verbatim>\<open>byteorder_big_endian.go\<close>) and of the 16-bit float format of
  \<^verbatim>\<open>float16.go\<close>.  A reader consumes a prefix of the bytes that are left; a writer returns the
  bytes it appends to the buffer, and \<^const>\<open>None\<close> where the code panics.
\<close>

unbundle bit_operations_syntax

section \<open>Readers\<close>

datatype io_error = IoEOF

type_synonym 'a reader = "bytes \<Rightarrow> io_error + 'a \<times> bytes"

definition rret :: "'a \<Rightarrow> 'a reader" where
  "rret x b = Inr (x, b)"

definition rbind :: "'a reader \<Rightarrow> ('a \<Rightarrow> 'b reader) \<Rightarrow> 'b reader" where
  "rbind m f b = (case m b of Inl e \<Rightarrow> Inl e | Inr (x, b') \<Rightarrow> f x b')"

fun ReadByte :: "byte reader" where
  "ReadByte [] = Inl IoEOF"
| "ReadByte (x # xs) = Inr (x, xs)"

lemma rbind_ReadByte [simp]: "rbind ReadByte f (x # xs) = f x xs" "rbind ReadByte f [] = Inl IoEOF"
  by (simp_all add: rbind_def)

lemma rret_apply [simp]: "rret x b = Inr (x, b)"
  by (simp add: rret_def)

section \<open>Little endian\<close>

text \<open>The shift counts are \<^verbatim>\<open>uint8\<close> values.\<close>

primrec littleEndian_loop :: "nat \<Rightarrow> nat \<Rightarrow> 64 word \<Rightarrow> 64 word reader" where
  "littleEndian_loop 0 i res = rret res"
| "littleEndian_loop (Suc n) i res =
     rbind ReadByte (\<lambda>bt. littleEndian_loop n (i + 1) (res XOR push_bit ((i * 8) mod 256) (ucast bt)))"

definition littleEndian_ReadUintN :: "nat \<Rightarrow> 64 word reader" where
  "littleEndian_ReadUintN n = littleEndian_loop n 0 0"

definition littleEndian_ReadUint64 :: "64 word reader" where
  "littleEndian_ReadUint64 =
     rbind ReadByte (\<lambda>b1. rbind ReadByte (\<lambda>b2. rbind ReadByte (\<lambda>b3. rbind ReadByte (\<lambda>b4.
     rbind ReadByte (\<lambda>b5. rbind ReadByte (\<lambda>b6. rbind ReadByte (\<lambda>b7. rbind ReadByte (\<lambda>b8.
       rret (ucast b1 + push_bit 8 (ucast b2) + push_bit 16 (ucast b3) + push_bit 24 (ucast b4)
             + push_bit 32 (ucast b5) + push_bit 40 (ucast b6) + push_bit 48 (ucast b7)
             + push_bit 56 (ucast b8))))))))))"

definition littleEndian_ReadUint32 :: "32 word reader" where
  "littleEndian_ReadUint32 =
     rbind ReadByte (\<lambda>b1. rbind ReadByte (\<lambda>b2. rbind ReadByte (\<lambda>b3. rbind ReadByte (\<lambda>b4.
       rret (ucast b1 + push_bit 8 (ucast b2) + push_bit 16 (ucast b3) + push_bit 24 (ucast b4))))))"

definition littleEndian_ReadUint16 :: "16 word reader" where
  "littleEndian_ReadUint16 =
     rbind ReadByte (\<lambda>b1. rbind ReadByte (\<lambda>b2. rret (ucast b1 + push_bit 8 (ucast b2))))"

definition littleEndian_WriteUint64 :: "64 word \<Rightarrow> bytes" where
  "littleEndian_WriteUint64 i =
     [ucast i, ucast (drop_bit 8 i), ucast (drop_bit 16 i), ucast (drop_bit 24 i),
      ucast (drop_bit 32 i), ucast (drop_bit 40 i), ucast (drop_bit 48 i), ucast (drop_bit 56 i)]"

definition littleEndian_WriteUint56 :: "64 word \<Rightarrow> bytes option" where
  "littleEndian_WriteUint56 i =
     (if 2 ^ 56 \<le> unat i then None
      else Some [ucast i, ucast (drop_bit 8 i), ucast (drop_bit 16 i), ucast (drop_bit 24 i),
                 ucast (drop_bit 32 i), ucast (drop_bit 40 i), ucast (drop_bit 48 i)])"

definition littleEndian_WriteUint48 :: "64 word \<Rightarrow> bytes option" where
  "littleEndian_WriteUint48 i =
     (if 2 ^ 48 \<le> unat i then None
      else Some [ucast i, ucast (drop_bit 8 i), ucast (drop_bit 16 i), ucast (drop_bit 24 i),
                 ucast (drop_bit 32 i), ucast (drop_bit 40 i)])"

definition littleEndian_WriteUint40 :: "64 word \<Rightarrow> bytes option" where
  "littleEndian_WriteUint40 i =
     (if 2 ^ 40 \<le> unat i then None
      else Some [ucast i, ucast (drop_bit 8 i), ucast (drop_bit 16 i), ucast (drop_bit 24 i),
                 ucast (drop_bit 32 i)])"

definition littleEndian_WriteUint32 :: "32 word \<Rightarrow> bytes" where
  "littleEndian_WriteUint32 i =
     [ucast i, ucast (drop_bit 8 i), ucast (drop_bit 16 i), ucast (drop_bit 24 i)]"

definition littleEndian_WriteUint24 :: "32 word \<Rightarrow> bytes option" where
  "littleEndian_WriteUint24 i =
     (if 2 ^ 24 \<le> unat i then None
      else Some [ucast i, ucast (drop_bit 8 i), ucast (drop_bit 16 i)])"

definition littleEndian_WriteUint16 :: "16 word \<Rightarrow> bytes" where
  "littleEndian_WriteUint16 i = [ucast i, ucast (drop_bit 8 i)]"

section \<open>Big endian\<close>

primrec bigEndian_loop :: "nat \<Rightarrow> nat \<Rightarrow> nat \<Rightarrow> 64 word \<Rightarrow> 64 word reader" where
  "bigEndian_loop 0 len i res = rret res"
| "bigEndian_loop (Suc n) len i res =
     rbind ReadByte (\<lambda>bt. bigEndian_loop n len (i + 1)
       (res XOR push_bit (((len - 1 - i) * 8) mod 256) (ucast bt)))"

definition bigEndian_ReadUintN :: "nat \<Rightarrow> 64 word reader" where
  "bigEndian_ReadUintN n = bigEndian_loop n n 0 0"

definition bigEndian_ReadUint64 :: "64 word reader" where
  "bigEndian_ReadUint64 =
     rbind ReadByte (\<lambda>b8. rbind ReadByte (\<lambda>b7. rbind ReadByte (\<lambda>b6. rbind ReadByte (\<lambda>b5.
     rbind ReadByte (\<lambda>b4. rbind ReadByte (\<lambda>b3. rbind ReadByte (\<lambda>b2. rbind ReadByte (\<lambda>b1.
       rret (ucast b1 + push_bit 8 (ucast b2) + push_bit 16 (ucast b3) + push_bit 24 (ucast b4)
             + push_bit 32 (ucast b5) + push_bit 40 (ucast b6) + push_bit 48 (ucast b7)
             + push_bit 56 (ucast b8))))))))))"

definition bigEndian_ReadUint32 :: "32 word reader" where
  "bigEndian_ReadUint32 =
     rbind ReadByte (\<lambda>b4. rbind ReadByte (\<lambda>b3. rbind ReadByte (\<lambda>b2. rbind ReadByte (\<lambda>b1.
       rret (ucast b1 + push_bit 8 (ucast b2) + push_bit 16 (ucast b3) + push_bit 24 (ucast b4))))))"

definition bigEndian_ReadUint16 :: "16 word reader" where
  "bigEndian_ReadUint16 =
     rbind ReadByte (\<lambda>b2. rbind ReadByte (\<lambda>b1. rret (ucast b1 + push_bit 8 (ucast b2))))"

definition bigEndian_WriteUint64 :: "64 word \<Rightarrow> bytes" where
  "bigEndian_WriteUint64 i =
     [ucast (drop_bit 56 i), ucast (drop_bit 48 i), ucast (drop_bit 40 i), ucast (drop_bit 32 i),
      ucast (drop_bit 24 i), ucast (drop_bit 16 i), ucast (drop_bit 8 i), ucast i]"

definition bigEndian_WriteUint56 :: "64 word \<Rightarrow> bytes option" where
  "bigEndian_WriteUint56 i =
     (if 2 ^ 56 \<le> unat i then None
      else Some [ucast (drop_bit 48 i), ucast (drop_bit 40 i), ucast (drop_bit 32 i),
                 ucast (drop_bit 24 i), ucast (drop_bit 16 i), ucast (drop_bit 8 i), ucast i])"

definition bigEndian_WriteUint48 :: "64 word \<Rightarrow> bytes option" where
  "bigEndian_WriteUint48 i =
     (if 2 ^ 48 \<le> unat i then None
      else Some [ucast (drop_bit 40 i), ucast (drop_bit 32 i),
                 ucast (drop_bit 24 i), ucast (drop_bit 16 i), ucast (drop_bit 8 i), ucast i])"

definition bigEndian_WriteUint40 :: "64 word \<Rightarrow> bytes option" where
  "bigEndian_WriteUint40 i =
     (if 2 ^ 40 \<le> unat i then None
      else Some [ucast (drop_bit 32 i),
                 ucast (drop_bit 24 i), ucast (drop_bit 16 i), ucast (drop_bit 8 i), ucast i])"

definition bigEndian_WriteUint32 :: "32 word \<Rightarrow> bytes" where
  "bigEndian_WriteUint32 i =
     [ucast (drop_bit 24 i), ucast (drop_bit 16 i), ucast (drop_bit 8 i), ucast i]"

definition bigEndian_WriteUint24 :: "32 word \<Rightarrow> bytes option" where
  "bigEndian_WriteUint24 i =
     (if 2 ^ 24 \<le> unat i then None
      else Some [ucast (drop_bit 16 i), ucast (drop_bit 8 i), ucast i])"

definition bigEndian_WriteUint16 :: "16 word \<Rightarrow> bytes" where
  "bigEndian_WriteUint16 i = [ucast (drop_bit 8 i), ucast i]"

section \<open>The interface\<close>

datatype ByteOrder = LittleEndian | BigEndian

type_synonym VersionNumber = int

definition GetByteOrder :: "VersionNumber \<Rightarrow> ByteOrder" where
  "GetByteOrder v = (if v < 39 then LittleEndian else BigEndian)"

primrec ReadUintN :: "ByteOrder \<Rightarrow> nat \<Rightarrow> 64 word reader" where
  "ReadUintN LittleEndian = littleEndian_ReadUintN"
| "ReadUintN BigEndian = bigEndian_ReadUintN"

primrec ReadUint64 :: "ByteOrder \<Rightarrow> 64 word reader" where
  "ReadUint64 LittleEndian = littleEndian_ReadUint64"
| "ReadUint64 BigEndian = bigEndian_ReadUint64"

primrec ReadUint32 :: "ByteOrder \<Rightarrow> 32 word reader" where
  "ReadUint32 LittleEndian = littleEndian_ReadUint32"
| "ReadUint32 BigEndian = bigEndian_ReadUint32"

primrec ReadUint16 :: "ByteOrder \<Rightarrow> 16 word reader" where
  "ReadUint16 LittleEndian = littleEndian_ReadUint16"
| "ReadUint16 BigEndian = bigEndian_ReadUint16"

primrec WriteUint64 :: "ByteOrder \<Rightarrow> 64 word \<Rightarrow> bytes" where
  "WriteUint64 LittleEndian = littleEndian_WriteUint64"
| "WriteUint64 BigEndian = bigEndian_WriteUint64"

primrec WriteUint56 :: "ByteOrder \<Rightarrow> 64 word \<Rightarrow> bytes option" where
  "WriteUint56 LittleEndian = littleEndian_WriteUint56"
| "WriteUint56 BigEndian = bigEndian_WriteUint56"

primrec WriteUint48 :: "ByteOrder \<Rightarrow> 64 word \<Rightarrow> bytes option" where
  "WriteUint48 LittleEndian = littleEndian_WriteUint48"
| "WriteUint48 BigEndian = bigEndian_WriteUint48"

primrec WriteUint40 :: "ByteOrder \<Rightarrow> 64 word \<Rightarrow> bytes option" where
  "WriteUint40 LittleEndian = littleEndian_WriteUint40"
| "WriteUint40 BigEndian = bigEndian_WriteUint40"

primrec WriteUint32 :: "ByteOrder \<Rightarrow> 32 word \<Rightarrow> bytes" where
  "WriteUint32 LittleEndian = littleEndian_WriteUint32"
| "WriteUint32 BigEndian = bigEndian_WriteUint32"

primrec WriteUint24 :: "ByteOrder \<Rightarrow> 32 word \<Rightarrow> bytes option" where
  "WriteUint24 LittleEndian = littleEndian_WriteUint24"
| "WriteUint24 BigEndian = bigEndian_WriteUint24"

primrec WriteUint16 :: "ByteOrder \<Rightarrow> 16 word \<Rightarrow> bytes" where
  "WriteUint16 LittleEndian = littleEndian_WriteUint16"
| "WriteUint16 BigEndian = bigEndian_WriteUint16"

section \<open>Round trips\<close>

text \<open>The low \<open>k\<close> bytes of a word, least significant first.\<close>

definition le_bytes :: "nat \<Rightarrow> 'a::len word \<Rightarrow> bytes" where
  "le_bytes k v = map (\<lambda>j. ucast (drop_bit (8 * j) v)) [0..<k]"

lemma littleEndian_loop_bytes:
  "i + n \<le> 8 \<Longrightarrow>
   littleEndian_loop n i res (map (\<lambda>j. ucast (drop_bit (8 * j) v)) [i..<i + n] @ rest) =
     Inr (res XOR push_bit (8 * i) (take_bit (8 * n) (drop_bit (8 * i) v)), rest)"
proof (induction n arbitrary: i res)
  case (Suc n)
  let ?byte = "ucast (drop_bit (8 * i) v) :: byte"
  have up: "[i..<i + Suc n] = i # [Suc i..<Suc i + n]" by (simp add: upt_conv_Cons)
  have "push_bit (8 * i) (ucast ?byte) XOR
      push_bit (8 * Suc i) (take_bit (8 * n) (drop_bit (8 * Suc i) v)) =
    push_bit (8 * i) (take_bit (8 * Suc n) (drop_bit (8 * i) v))" (is "?l = ?r")
  proof (rule bit_word_eqI)
    fix m assume "m < LENGTH(64)"
    consider "m < 8 * i" | "8 * i \<le> m" "m < 8 * i + 8" | "8 * i + 8 \<le> m" by linarith
    then show "bit ?l m = bit ?r m" using \<open>m < LENGTH(64)\<close> by cases (auto simp: bit_simps)
  qed
  with Suc.IH [of "Suc i"] Suc.prems show ?case
    unfolding up by (simp add: xor.assoc mult.commute del: upt_Suc)
qed simp

lemma littleEndian_ReadUintN_bytes:
  "n \<le> 8 \<Longrightarrow> littleEndian_ReadUintN n (le_bytes n v @ rest) = Inr (take_bit (8 * n) v, rest)"
  using littleEndian_loop_bytes [of 0 n 0 v rest] by (simp add: littleEndian_ReadUintN_def le_bytes_def)

lemma bigEndian_loop_bytes:
  "i + n = len \<Longrightarrow> len \<le> 8 \<Longrightarrow>
   bigEndian_loop n len i res (map (\<lambda>j. ucast (drop_bit (8 * j) v)) (rev [0..<n]) @ rest) =
     Inr (res XOR take_bit (8 * n) v, rest)"
proof (induction n arbitrary: i res)
  case (Suc n)
  let ?byte = "ucast (drop_bit (8 * n) v) :: byte"
  have "push_bit (8 * n) (ucast ?byte) XOR take_bit (8 * n) v = take_bit (8 * Suc n) v" (is "?l = ?r")
  proof (rule bit_word_eqI)
    fix m assume "m < LENGTH(64)"
    consider "m < 8 * n" | "8 * n \<le> m" "m < 8 * n + 8" | "8 * n + 8 \<le> m" by linarith
    then show "bit ?l m = bit ?r m" using \<open>m < LENGTH(64)\<close> by cases (auto simp: bit_simps)
  qed
  moreover have "len - 1 - i = n" using Suc.prems by simp
  ultimately show ?case
    using Suc.IH [of "Suc i"] Suc.prems by (simp add: xor.assoc mult.commute)
qed simp

lemma bigEndian_ReadUintN_bytes:
  "n \<le> 8 \<Longrightarrow> bigEndian_ReadUintN n (rev (le_bytes n v) @ rest) = Inr (take_bit (8 * n) v, rest)"
  using bigEndian_loop_bytes [of 0 n n 0 v rest] by (simp add: bigEndian_ReadUintN_def le_bytes_def rev_map)

lemma upt_bytes: "[0..<8] = [0, 1, 2, 3, 4, 5, 6, 7]" "[0..<7] = [0, 1, 2, 3, 4, 5, 6]"
  "[0..<6] = [0, 1, 2, 3, 4, 5]" "[0..<5] = [0, 1, 2, 3, 4]"
  by (simp_all add: upt_rec)

lemma write_bytes:
  "WriteUint64 LittleEndian v = le_bytes 8 v" "WriteUint64 BigEndian v = rev (le_bytes 8 v)"
  "WriteUint32 LittleEndian w = le_bytes 4 w" "WriteUint32 BigEndian w = rev (le_bytes 4 w)"
  "WriteUint16 LittleEndian x = le_bytes 2 x" "WriteUint16 BigEndian x = rev (le_bytes 2 x)"
  by (simp_all add: le_bytes_def upt_bytes upt_small littleEndian_WriteUint64_def bigEndian_WriteUint64_def
      littleEndian_WriteUint32_def bigEndian_WriteUint32_def littleEndian_WriteUint16_def
      bigEndian_WriteUint16_def)

lemma write_bytes_checked:
  "WriteUint56 LittleEndian v = (if 2 ^ 56 \<le> unat v then None else Some (le_bytes 7 v))"
  "WriteUint56 BigEndian v = (if 2 ^ 56 \<le> unat v then None else Some (rev (le_bytes 7 v)))"
  "WriteUint48 LittleEndian v = (if 2 ^ 48 \<le> unat v then None else Some (le_bytes 6 v))"
  "WriteUint48 BigEndian v = (if 2 ^ 48 \<le> unat v then None else Some (rev (le_bytes 6 v)))"
  "WriteUint40 LittleEndian v = (if 2 ^ 40 \<le> unat v then None else Some (le_bytes 5 v))"
  "WriteUint40 BigEndian v = (if 2 ^ 40 \<le> unat v then None else Some (rev (le_bytes 5 v)))"
  "WriteUint24 LittleEndian w = (if 2 ^ 24 \<le> unat w then None else Some (le_bytes 3 w))"
  "WriteUint24 BigEndian w = (if 2 ^ 24 \<le> unat w then None else Some (rev (le_bytes 3 w)))"
  by (simp_all add: le_bytes_def upt_bytes upt_small littleEndian_WriteUint56_def bigEndian_WriteUint56_def
      littleEndian_WriteUint48_def bigEndian_WriteUint48_def littleEndian_WriteUint40_def
      bigEndian_WriteUint40_def littleEndian_WriteUint24_def bigEndian_WriteUint24_def)

lemma ReadUintN_bytes:
  "n \<le> 8 \<Longrightarrow> ReadUintN LittleEndian n (le_bytes n v @ rest) = Inr (take_bit (8 * n) v, rest)"
  "n \<le> 8 \<Longrightarrow> ReadUintN BigEndian n (rev (le_bytes n v) @ rest) = Inr (take_bit (8 * n) v, rest)"
  by (simp_all add: littleEndian_ReadUintN_bytes bigEndian_ReadUintN_bytes)

text \<open>A word is the sum of its shifted bytes.\<close>

lemma byte_sum_step:
  "push_bit (8 * k) (ucast (ucast (drop_bit (8 * k) v) :: byte)) + push_bit (8 * Suc k) (drop_bit (8 * Suc k) v) =
   push_bit (8 * k) (drop_bit (8 * k) (v :: 'a::len word))"
proof -
  have "ucast (ucast (drop_bit (8 * k) v) :: byte) = take_bit 8 (drop_bit (8 * k) v)"
    by (rule bit_word_eqI) (auto simp: bit_simps)
  moreover have "push_bit (8 * Suc k) (drop_bit (8 * Suc k) v) =
      push_bit (8 * k) (push_bit 8 (drop_bit 8 (drop_bit (8 * k) v)))"
    by (simp add: add.commute)
  ultimately show ?thesis by (metis add.commute bits_ident push_bit_add)
qed

lemma byte_sum:
  "ucast (ucast v :: byte) + push_bit 8 (ucast (ucast (drop_bit 8 v) :: byte)) +
   push_bit 16 (ucast (ucast (drop_bit 16 v) :: byte)) + push_bit 24 (ucast (ucast (drop_bit 24 v) :: byte)) +
   push_bit 32 (ucast (ucast (drop_bit 32 v) :: byte)) + push_bit 40 (ucast (ucast (drop_bit 40 v) :: byte)) +
   push_bit 48 (ucast (ucast (drop_bit 48 v) :: byte)) + push_bit 56 (ucast (ucast (drop_bit 56 v) :: byte)) =
   (v :: 64 word)"
  "ucast (ucast w :: byte) + push_bit 8 (ucast (ucast (drop_bit 8 w) :: byte)) +
   push_bit 16 (ucast (ucast (drop_bit 16 w) :: byte)) + push_bit 24 (ucast (ucast (drop_bit 24 w) :: byte)) =
   (w :: 32 word)"
  "ucast (ucast x :: byte) + push_bit 8 (ucast (ucast (drop_bit 8 x) :: byte)) = (x :: 16 word)"
proof -
  have "push_bit 64 (drop_bit 64 v) = (0 :: 64 word)" by (rule bit_word_eqI) (simp add: bit_simps)
  then show "ucast (ucast v :: byte) + push_bit 8 (ucast (ucast (drop_bit 8 v) :: byte)) +
   push_bit 16 (ucast (ucast (drop_bit 16 v) :: byte)) + push_bit 24 (ucast (ucast (drop_bit 24 v) :: byte)) +
   push_bit 32 (ucast (ucast (drop_bit 32 v) :: byte)) + push_bit 40 (ucast (ucast (drop_bit 40 v) :: byte)) +
   push_bit 48 (ucast (ucast (drop_bit 48 v) :: byte)) + push_bit 56 (ucast (ucast (drop_bit 56 v) :: byte)) = v"
    using byte_sum_step [of 0 v] byte_sum_step [of 1 v] byte_sum_step [of 2 v] byte_sum_step [of 3 v]
      byte_sum_step [of 4 v] byte_sum_step [of 5 v] byte_sum_step [of 6 v] byte_sum_step [of 7 v]
    by (simp add: add.assoc)
  have "push_bit 32 (drop_bit 32 w) = (0 :: 32 word)" by (rule bit_word_eqI) (simp add: bit_simps)
  then show "ucast (ucast w :: byte) + push_bit 8 (ucast (ucast (drop_bit 8 w) :: byte)) +
   push_bit 16 (ucast (ucast (drop_bit 16 w) :: byte)) + push_bit 24 (ucast (ucast (drop_bit 24 w) :: byte)) = w"
    using byte_sum_step [of 0 w] byte_sum_step [of 1 w] byte_sum_step [of 2 w] byte_sum_step [of 3 w]
    by (simp add: add.assoc)
  have "push_bit 16 (drop_bit 16 x) = (0 :: 16 word)" by (rule bit_word_eqI) (simp add: bit_simps)
  then show "ucast (ucast x :: byte) + push_bit 8 (ucast (ucast (drop_bit 8 x) :: byte)) = x"
    using byte_sum_step [of 0 x] byte_sum_step [of 1 x] by (simp add: add.assoc)
qed

lemma ReadUint_Write:
  "ReadUint64 bo (WriteUint64 bo v @ rest) = Inr (v, rest)"
  "ReadUint32 bo (WriteUint32 bo w @ rest) = Inr (w, rest)"
  "ReadUint16 bo (WriteUint16 bo x @ rest) = Inr (x, rest)"
  by (cases bo;
      simp add: littleEndian_ReadUint64_def littleEndian_WriteUint64_def bigEndian_ReadUint64_def
        bigEndian_WriteUint64_def littleEndian_ReadUint32_def littleEndian_WriteUint32_def
        bigEndian_ReadUint32_def bigEndian_WriteUint32_def littleEndian_ReadUint16_def
        littleEndian_WriteUint16_def bigEndian_ReadUint16_def bigEndian_WriteUint16_def byte_sum)+

lemma take_bit_small: "unat v < 2 ^ k \<Longrightarrow> take_bit k v = (v :: 64 word)"
proof (cases "k < 64")
  case True
  assume "unat v < 2 ^ k"
  moreover have "unat (of_nat (2 ^ k) :: 64 word) = 2 ^ k"
    using True power_strict_increasing [of k 64 "2 :: nat"] by (simp only: unat_of_nat) simp
  ultimately show ?thesis by (simp add: take_bit_eq_mod word_unat_eq_iff unat_mod)
qed (simp add: take_bit_word_eq_self)

section \<open>16-bit floats\<close>

text \<open>
  The values are \<^verbatim>\<open>uint64\<close> and \<^verbatim>\<open>uint16\<close> numbers, kept as natural numbers with the wrap-around
  written out.
\<close>

definition uFloat16MaxValue :: nat where
  "uFloat16MaxValue = (2 ^ 12 - 1) * 2 ^ 30"

definition ufloat16_value :: "nat \<Rightarrow> nat" where
  "ufloat16_value val =
     (if val < 2 ^ 12 then val
      else let exponent = (val div 2 ^ 11 + 2 ^ 16 - 1) mod 2 ^ 16;
               res = (val + 2 ^ 64 - (exponent * 2 ^ 11) mod 2 ^ 64) mod 2 ^ 64
           in (res * 2 ^ exponent) mod 2 ^ 64)"

definition readUfloat16 :: "ByteOrder \<Rightarrow> nat reader" where
  "readUfloat16 bo = rbind (ReadUint16 bo) (\<lambda>val. rret (ufloat16_value (unat val)))"

fun ufloat16_loop :: "nat \<Rightarrow> nat \<Rightarrow> nat \<Rightarrow> nat \<times> nat" where
  "ufloat16_loop offset x exponent =
     (if offset = 0 then (x, exponent)
      else if 2 ^ (11 + offset) \<le> x
      then ufloat16_loop (offset div 2) (x div 2 ^ offset) ((exponent + offset) mod 2 ^ 16)
      else ufloat16_loop (offset div 2) x exponent)"

declare ufloat16_loop.simps [simp del]

definition ufloat16_code :: "nat \<Rightarrow> nat" where
  "ufloat16_code x =
     (if x < 2 ^ 12 then x
      else if uFloat16MaxValue \<le> x then 2 ^ 16 - 1
      else let (x, exponent) = ufloat16_loop 16 x 0
           in (x mod 2 ^ 16 + (exponent * 2 ^ 11) mod 2 ^ 16) mod 2 ^ 16)"

definition writeUfloat16 :: "ByteOrder \<Rightarrow> nat \<Rightarrow> bytes" where
  "writeUfloat16 bo x = WriteUint16 bo (word_of_nat (ufloat16_code x))"

text \<open>The search stops with the highest bit in position 11.\<close>

lemma ufloat16_step:
  assumes "x < (2 :: nat) ^ (m + 2 * k)" "2 ^ (m + k) \<le> x"
  shows "2 ^ m \<le> x div 2 ^ k" "x div 2 ^ k < 2 ^ (m + k)"
proof -
  have "(2 :: nat) ^ (m + 2 * k) = 2 ^ (m + k) * 2 ^ k" by (simp flip: power_add)
  then have "x < 2 ^ (m + k) * 2 ^ k" using assms(1) by simp
  then show "x div 2 ^ k < 2 ^ (m + k)" by (rule less_mult_imp_div_less)
  have "2 ^ m * 2 ^ k \<le> x" using assms(2) by (simp flip: power_add)
  then show "2 ^ m \<le> x div 2 ^ k" by (subst less_eq_div_iff_mult_less_eq) auto
qed

lemma ufloat16_loop_spec:
  assumes "x = v div 2 ^ e" "2 ^ 11 \<le> x" "x < 2 ^ (11 + 2 * k)" "e + 2 * k \<le> 32"
    "k \<in> {1, 2, 4, 8, 16}"
  shows "\<exists>x' e'. ufloat16_loop k x e = (x', e') \<and> x' = v div 2 ^ e' \<and>
     2 ^ 11 \<le> x' \<and> x' < 2 ^ 12 \<and> e \<le> e' \<and> e' < 32"
  using assms
proof (induction k x e rule: ufloat16_loop.induct)
  case (1 k x e)
  define x1 e1 where "x1 = (if 2 ^ (11 + k) \<le> x then x div 2 ^ k else x)"
    and "e1 = (if 2 ^ (11 + k) \<le> x then e + k else e)"
  have o: "0 < k" using "1.prems" by auto
  have inv: "x1 = v div 2 ^ e1" "2 ^ 11 \<le> x1" "x1 < 2 ^ (11 + k)" "e \<le> e1" "e1 + k \<le> 32"
    using "1.prems" ufloat16_step [OF "1.prems"(3)]
    by (auto simp: x1_def e1_def power_add [of 2 e k] div_mult2_eq)
  have step: "ufloat16_loop k x e = ufloat16_loop (k div 2) x1 e1"
    using o "1.prems"(4) by (subst ufloat16_loop.simps) (simp add: x1_def e1_def)
  show ?case
  proof (cases "k = 1")
    case True
    then have "ufloat16_loop k x e = (x1, e1)"
      unfolding step by (subst ufloat16_loop.simps) simp
    then show ?thesis using inv True by simp
  next
    case False
    then have o2: "k = 2 * (k div 2)" "k div 2 \<in> {1, 2, 4, 8, 16}" using "1.prems"(5) by auto
    have "\<exists>x' e'. ufloat16_loop (k div 2) x1 e1 = (x', e') \<and> x' = v div 2 ^ e' \<and>
       2 ^ 11 \<le> x' \<and> x' < 2 ^ 12 \<and> e1 \<le> e' \<and> e' < 32"
    proof (cases "2 ^ (11 + k) \<le> x")
      case True
      then have "x1 = x div 2 ^ k" "e1 = (e + k) mod 2 ^ 16"
        using "1.prems"(4) by (auto simp: x1_def e1_def)
      then show ?thesis using "1.IH"(1) o True inv o2 by auto
    next
      case f: False
      then show ?thesis using "1.IH"(2) o inv o2 by (auto simp: x1_def e1_def)
    qed
    then show ?thesis unfolding step using inv(4) by fastforce
  qed
qed

lemma ufloat16_code_mid:
  assumes "2 ^ 12 \<le> v" "v < uFloat16MaxValue"
  shows "\<exists>e. 0 < e \<and> e \<le> 30 \<and> 2 ^ 11 \<le> v div 2 ^ e \<and> v div 2 ^ e < 2 ^ 12 \<and>
     ufloat16_code v = v div 2 ^ e + e * 2 ^ 11"
proof -
  have lt: "v < 2 ^ (11 + 2 * 16)" using assms(2) by (simp add: uFloat16MaxValue_def)
  obtain x' e where e: "ufloat16_loop 16 v 0 = (x', e)" "x' = v div 2 ^ e" "2 ^ 11 \<le> x'" "x' < 2 ^ 12" "e < 32"
    using ufloat16_loop_spec [of v v 0 16] assms(1) lt by auto
  have "e \<noteq> 0" using e assms(1) by (cases e) auto
  moreover have "e \<noteq> 31"
  proof
    assume "e = 31"
    then have "2 ^ 11 * 2 ^ 31 \<le> v" using e(2,3) by (simp add: less_eq_div_iff_mult_less_eq)
    then show False using assms(2) by (simp add: uFloat16MaxValue_def)
  qed
  ultimately have b: "0 < e" "e \<le> 30" using e(5) by auto
  then have "ufloat16_code v = x' + e * 2 ^ 11"
    using assms e by (simp add: ufloat16_code_def)
  with b e show ?thesis by blast
qed

lemma ufloat16_value_mid:
  assumes m: "2 ^ 11 \<le> m" "m < 2 ^ 12" and e: "0 < e" "e \<le> 30"
  shows "ufloat16_value (m + e * 2 ^ 11) = m * 2 ^ e"
proof -
  have "(m + e * 2 ^ 11) div 2 ^ 11 = Suc e"
  proof -
    have "m div 2 ^ 11 = 1" using m by (intro div_nat_eqI) auto
    then show ?thesis by simp
  qed
  moreover have "(m + e * 2 ^ 11 + 2 ^ 64 - e * 2 ^ 11) mod 2 ^ 64 = m" using m by simp
  moreover have "m * 2 ^ e \<le> 2 ^ 12 * 2 ^ 30"
    using m e by (intro mult_le_mono power_increasing) auto
  then have "m * 2 ^ e mod 2 ^ 64 = m * 2 ^ e" by (intro mod_less) simp
  ultimately show ?thesis using m e by (simp add: ufloat16_value_def)
qed

lemma ufloat16_value_max: "ufloat16_value (2 ^ 16 - 1) = uFloat16MaxValue"
  using ufloat16_value_mid [of "2 ^ 12 - 1" 30] by (simp add: uFloat16MaxValue_def)

lemma ufloat16_approx:
  "ufloat16_value (ufloat16_code v) \<le> v \<and>
   (if v < 2 ^ 12 then ufloat16_value (ufloat16_code v) = v
    else if uFloat16MaxValue \<le> v then ufloat16_value (ufloat16_code v) = uFloat16MaxValue
    else (v - ufloat16_value (ufloat16_code v)) * 2 ^ 11 < v)"
proof (cases "2 ^ 12 \<le> v \<and> v < uFloat16MaxValue")
  case True
  then obtain e where e: "0 < e" "e \<le> 30" "2 ^ 11 \<le> v div 2 ^ e" "v div 2 ^ e < 2 ^ 12"
    "ufloat16_code v = v div 2 ^ e + e * 2 ^ 11"
    using ufloat16_code_mid by blast
  then have r: "ufloat16_value (ufloat16_code v) = v div 2 ^ e * 2 ^ e"
    using ufloat16_value_mid [OF e(3,4,1,2)] by simp
  have d: "v - v div 2 ^ e * 2 ^ e < 2 ^ e" by (simp add: minus_div_mult_eq_mod)
  have "2 ^ e * 2 ^ 11 \<le> v div 2 ^ e * 2 ^ e" using mult_le_mono2 [OF e(3), of "2 ^ e"] by (simp add: mult.commute)
  also have "\<dots> \<le> v" by simp
  finally have "2 ^ e * 2 ^ 11 \<le> v" .
  moreover have "(v - v div 2 ^ e * 2 ^ e) * 2 ^ 11 < 2 ^ e * 2 ^ 11" using d by simp
  ultimately have "(v - v div 2 ^ e * 2 ^ e) * 2 ^ 11 < v" by (rule less_le_trans [rotated])
  then show ?thesis using r True by simp
next
  case False
  then consider "v < 2 ^ 12" | "uFloat16MaxValue \<le> v" "\<not> v < 2 ^ 12" by linarith
  then show ?thesis
  proof cases
    case 1
    then show ?thesis by (simp add: ufloat16_code_def ufloat16_value_def)
  next
    case 2
    then have "ufloat16_code v = 2 ^ 16 - 1" by (simp add: ufloat16_code_def)
    then show ?thesis using 2 by (simp only: ufloat16_value_max) simp
  qed
qed

lemma shift_unique:
  assumes "2 ^ n \<le> v div 2 ^ e" "v div 2 ^ e < 2 ^ Suc n" "2 ^ n \<le> v div 2 ^ f" "v div 2 ^ f < (2 :: nat) ^ Suc n"
  shows "e = f"
proof -
  have le: "\<not> e < f" if "2 ^ n \<le> v div 2 ^ f" "v div 2 ^ e < (2 :: nat) ^ Suc n" for e f
  proof
    assume "e < f"
    then have "v div 2 ^ f = v div 2 ^ e div 2 ^ (f - e)" by (simp add: div_mult2_eq [symmetric] flip: power_add)
    also have "\<dots> \<le> v div 2 ^ e div 2 ^ 1" using \<open>e < f\<close> by (intro div_le_mono2 power_increasing) auto
    also have "\<dots> < 2 ^ n" using that(2) by (simp add: less_mult_imp_div_less)
    finally show False using that(1) by simp
  qed
  show ?thesis using le [OF assms(1,4)] le [OF assms(3,2)] by linarith
qed

lemma ufloat16_code_value:
  assumes "x < 2 ^ 16"
  shows "ufloat16_code (ufloat16_value x) = x"
proof (cases "x < 2 ^ 12")
  case False
  define e m where "e = x div 2 ^ 11 - 1" and "m = 2 ^ 11 + x mod 2 ^ 11"
  have m: "2 ^ 11 \<le> m" "m < 2 ^ 12" by (simp_all add: m_def)
  have q: "2 \<le> x div 2 ^ 11" "x div 2 ^ 11 < 32" using False assms by (auto simp: less_eq_div_iff_mult_less_eq less_mult_imp_div_less)
  then have e: "0 < e" "e \<le> 30" by (auto simp: e_def)
  have "x = x div 2 ^ 11 * 2 ^ 11 + x mod 2 ^ 11" by simp
  also have "x div 2 ^ 11 = Suc e" using q by (simp add: e_def)
  finally have x: "x = m + e * 2 ^ 11" by (simp add: m_def)
  then have v: "ufloat16_value x = m * 2 ^ e" using ufloat16_value_mid [OF m e] by simp
  have lo: "2 ^ 12 \<le> m * 2 ^ e"
    using m(1) e(1) mult_le_mono [OF m(1), of "2 ^ 1" "2 ^ e"] power_increasing [of 1 e "2 :: nat"] by simp
  show ?thesis
  proof (cases "m * 2 ^ e < uFloat16MaxValue")
    case True
    then obtain f where "2 ^ 11 \<le> m * 2 ^ e div 2 ^ f" "m * 2 ^ e div 2 ^ f < 2 ^ 12"
      "ufloat16_code (m * 2 ^ e) = m * 2 ^ e div 2 ^ f + f * 2 ^ 11"
      using ufloat16_code_mid lo by blast
    moreover have "e = f" using shift_unique [of 11 "m * 2 ^ e" e f] m calculation by simp
    ultimately show ?thesis using v x by simp
  next
    case False
    have "e = 30"
    proof (rule ccontr)
      assume "e \<noteq> 30"
      then have "(2 :: nat) ^ e \<le> 2 ^ 29" using e(2) by (intro power_increasing) auto
      then have "m * 2 ^ e \<le> 2 ^ 12 * 2 ^ 29" using m by (intro mult_le_mono) auto
      then show False using False by (simp add: uFloat16MaxValue_def)
    qed
    moreover have "m = 2 ^ 12 - 1" using False m \<open>e = 30\<close> by (simp add: uFloat16MaxValue_def)
    ultimately show ?thesis using v x lo by (simp add: ufloat16_code_def uFloat16MaxValue_def)
  qed
qed (simp add: ufloat16_code_def ufloat16_value_def)

lemma ufloat16_code_less: "ufloat16_code v < 2 ^ 16"
  by (auto simp: ufloat16_code_def split: prod.split)

lemma unat_ufloat16_code: "unat (word_of_nat (ufloat16_code v) :: 16 word) = ufloat16_code v"
  using ufloat16_code_less [of v] by (simp add: unat_of_nat)

lemma length_le_bytes [simp]: "length (le_bytes k v) = k"
  by (simp add: le_bytes_def)

lemma checked_read:
  fixes v :: "64 word"
  assumes "k \<le> 8" "unat v < 2 ^ (8 * k)"
  shows "ReadUintN LittleEndian k (le_bytes k v @ rest) = Inr (v, rest)"
    "ReadUintN BigEndian k (rev (le_bytes k v) @ rest) = Inr (v, rest)"
  using ReadUintN_bytes [OF assms(1)] take_bit_small [OF assms(2)] by simp_all

lemma le_bytes_ucast: "k \<le> 4 \<Longrightarrow> le_bytes k (w :: 32 word) = le_bytes k (ucast w :: 64 word)"
  unfolding le_bytes_def by (intro map_cong refl bit_word_eqI) (auto simp: bit_simps)

text \<open>Natural numbers that fit a word.\<close>

lemma unat_word16: "n < 2 ^ 16 \<Longrightarrow> unat (word_of_nat n :: 16 word) = n"
  by (simp add: unat_of_nat)

lemma unat_word32: "n < 2 ^ 32 \<Longrightarrow> unat (word_of_nat n :: 32 word) = n"
  by (simp add: unat_of_nat)

lemma unat_word64: "n < 2 ^ 64 \<Longrightarrow> unat (word_of_nat n :: 64 word) = n"
  by (simp add: unat_of_nat)

section \<open>Properties\<close>

text \<open>
  C21: numbers survive the byte orders.  In both byte orders every number written with one of
  the fixed widths reads back, leaving the rest of the input, and the writers of 56, 48, 40 and
  24 bits panic exactly for numbers that do not fit.
\<close>

theorem byte_order_round_trip:
  "ReadUint64 bo (WriteUint64 bo v @ rest) = Inr (v, rest) \<and>
   ReadUint32 bo (WriteUint32 bo w @ rest) = Inr (w, rest) \<and>
   ReadUint16 bo (WriteUint16 bo x @ rest) = Inr (x, rest) \<and>
   (case WriteUint56 bo v of None \<Rightarrow> 2 ^ 56 \<le> unat v
    | Some b \<Rightarrow> length b = 7 \<and> ReadUintN bo 7 (b @ rest) = Inr (v, rest)) \<and>
   (case WriteUint48 bo v of None \<Rightarrow> 2 ^ 48 \<le> unat v
    | Some b \<Rightarrow> length b = 6 \<and> ReadUintN bo 6 (b @ rest) = Inr (v, rest)) \<and>
   (case WriteUint40 bo v of None \<Rightarrow> 2 ^ 40 \<le> unat v
    | Some b \<Rightarrow> length b = 5 \<and> ReadUintN bo 5 (b @ rest) = Inr (v, rest)) \<and>
   (case WriteUint24 bo w of None \<Rightarrow> 2 ^ 24 \<le> unat w
    | Some b \<Rightarrow> length b = 3 \<and> ReadUintN bo 3 (b @ rest) = Inr (ucast w, rest))"
proof -
  have w: "unat (ucast w :: 64 word) = unat w" 
  proof -
    have "unat w < 2 ^ 32" using unsigned_less [of w] by simp
    then show ?thesis by (simp add: unsigned_ucast_eq take_bit_nat_eq_self)
  qed
  show ?thesis
    using checked_read [of 7 v rest] checked_read [of 6 v rest] checked_read [of 5 v rest]
      checked_read [of 3 "ucast w" rest] w
    by (intro conjI ReadUint_Write; cases bo;
        simp add: write_bytes_checked [unfolded WriteUint56.simps WriteUint48.simps WriteUint40.simps
          WriteUint24.simps] le_bytes_ucast)
qed

text \<open>
  C22: the 16-bit float format.  A value written is read back as a value not larger than it:
  the value itself below \<open>2^12\<close>, the largest representable one when it is out of range, and
  otherwise one that is short by less than a \<open>2^11\<close>-th of the value; and every 16-bit pattern
  is the encoding of its own value.
\<close>

theorem ufloat16_round_trip:
  "(\<exists>r. readUfloat16 bo (writeUfloat16 bo v @ rest) = Inr (r, rest) \<and> r \<le> v \<and>
      (if v < 2 ^ 12 then r = v
       else if uFloat16MaxValue \<le> v then r = uFloat16MaxValue
       else (v - r) * 2 ^ 11 < v)) \<and>
   writeUfloat16 bo (ufloat16_value (unat x)) = WriteUint16 bo x"
proof -
  have "unat x < 2 ^ 16" using unsigned_less [of x] by simp
  then show ?thesis
    using ufloat16_approx [of v] ufloat16_code_value [of "unat x"]
    by (auto simp: readUfloat16_def writeUfloat16_def rbind_def ReadUint_Write unat_ufloat16_code)
qed

end
