(* ===== verification/Packet_Number.thy ===== *)
theory Packet_Number
  imports Main
begin

text \<open>
  Model of \<^verbatim>\<open>mp-quic/internal/protocol/packet_number.go\<close> and of the minima and maxima of
  \<^verbatim>\<open>internal/utils/minmax.go\<close> that the transport uses.  Packet numbers are \<^verbatim>\<open>uint64\<close> values,
  kept as natural numbers below \<open>2^64\<close> with the wrap-around of sums and differences written
  out.
\<close>

type_synonym PacketNumber = nat
type_synonym ByteCount = nat

definition add64 :: "nat \<Rightarrow> nat \<Rightarrow> nat" where
  "add64 a b = (a + b) mod 2 ^ 64"

definition sub64 :: "nat \<Rightarrow> nat \<Rightarrow> nat" where
  "sub64 a b = (a + 2 ^ 64 - b mod 2 ^ 64) mod 2 ^ 64"

section \<open>Minima and maxima\<close>

definition MaxPacketNumber :: "PacketNumber \<Rightarrow> PacketNumber \<Rightarrow> PacketNumber" where
  "MaxPacketNumber a b = (if a > b then a else b)"

definition MinPacketNumber :: "PacketNumber \<Rightarrow> PacketNumber \<Rightarrow> PacketNumber" where
  "MinPacketNumber a b = (if a < b then a else b)"

definition MaxByteCount :: "ByteCount \<Rightarrow> ByteCount \<Rightarrow> ByteCount" where
  "MaxByteCount a b = (if a > b then a else b)"

definition MinByteCount :: "ByteCount \<Rightarrow> ByteCount \<Rightarrow> ByteCount" where
  "MinByteCount a b = (if a < b then a else b)"

lemma minmax_eqs: "MaxPacketNumber a b = max a b" "MinPacketNumber a b = min a b"
  "MaxByteCount a b = max a b" "MinByteCount a b = min a b"
  by (auto simp: MaxPacketNumber_def MinPacketNumber_def MaxByteCount_def MinByteCount_def)

section \<open>Packet number lengths\<close>

definition PacketNumberLen1 :: nat where "PacketNumberLen1 = 1"
definition PacketNumberLen2 :: nat where "PacketNumberLen2 = 2"
definition PacketNumberLen4 :: nat where "PacketNumberLen4 = 4"
definition PacketNumberLen6 :: nat where "PacketNumberLen6 = 6"

lemmas pn_len_defs = PacketNumberLen1_def PacketNumberLen2_def PacketNumberLen4_def PacketNumberLen6_def

definition delta :: "PacketNumber \<Rightarrow> PacketNumber \<Rightarrow> PacketNumber" where
  "delta a b = (if a < b then sub64 b a else sub64 a b)"

definition closestTo :: "PacketNumber \<Rightarrow> PacketNumber \<Rightarrow> PacketNumber \<Rightarrow> PacketNumber" where
  "closestTo target a b = (if delta target a < delta target b then a else b)"

text \<open>\<^verbatim>\<open>x & ^(epochDelta - 1)\<close> clears the low bits of \<open>x\<close>.\<close>

definition InferPacketNumber :: "nat \<Rightarrow> PacketNumber \<Rightarrow> PacketNumber \<Rightarrow> PacketNumber" where
  "InferPacketNumber packetNumberLength lastPacketNumber wirePacketNumber =
     (let epochDelta = 2 ^ (packetNumberLength * 8);
          epoch = lastPacketNumber - lastPacketNumber mod epochDelta;
          prevEpochBegin = sub64 epoch epochDelta;
          nextEpochBegin = add64 epoch epochDelta;
          target = add64 lastPacketNumber 1
      in closestTo target (add64 epoch wirePacketNumber)
           (closestTo target (add64 prevEpochBegin wirePacketNumber)
              (add64 nextEpochBegin wirePacketNumber)))"

definition GetPacketNumberLengthForPublicHeader :: "PacketNumber \<Rightarrow> PacketNumber \<Rightarrow> nat" where
  "GetPacketNumberLengthForPublicHeader packetNumber leastUnacked =
     (let diff = sub64 packetNumber leastUnacked
      in if diff < 2 * 2 ^ (PacketNumberLen2 * 8 - 2) then PacketNumberLen2
         else if diff < 2 * 2 ^ (PacketNumberLen4 * 8 - 2) then PacketNumberLen4
         else PacketNumberLen6)"

definition GetPacketNumberLength :: "PacketNumber \<Rightarrow> nat" where
  "GetPacketNumberLength packetNumber =
     (if packetNumber < 2 ^ (PacketNumberLen1 * 8) then PacketNumberLen1
      else if packetNumber < 2 ^ (PacketNumberLen2 * 8) then PacketNumberLen2
      else if packetNumber < 2 ^ (PacketNumberLen4 * 8) then PacketNumberLen4
      else PacketNumberLen6)"

section \<open>Lemmas\<close>

lemma add64_small: "a + b < 2 ^ 64 \<Longrightarrow> add64 a b = a + b"
  by (simp add: add64_def)

lemma sub64_small: "b \<le> a \<Longrightarrow> a < 2 ^ 64 \<Longrightarrow> sub64 a b = a - b"
proof -
  assume "b \<le> a" "a < 2 ^ 64"
  then have "a + 2 ^ 64 - b = (a - b) + 2 ^ 64" "b mod 2 ^ 64 = b" by simp_all
  then show ?thesis using \<open>a < 2 ^ 64\<close> unfolding sub64_def by (simp only: mod_add_self2) simp
qed

lemma sub64_wrap:
  assumes "a < b" "b < 2 ^ 64"
  shows "sub64 a b = a + 2 ^ 64 - b"
  using assms by (simp add: sub64_def)

lemma delta_eq: "a < 2 ^ 64 \<Longrightarrow> b < 2 ^ 64 \<Longrightarrow> delta a b = (if a < b then b - a else a - b)"
  by (simp add: delta_def sub64_small)

text \<open>
  The candidate that is closer than all others of the same residue is chosen: \<open>D\<close> is the
  distance of two candidates, \<open>q\<close> the epoch and \<open>r\<close> the bytes on the wire.
\<close>

lemma candidate_cases:
  fixes D :: nat
  assumes D: "0 < D" and near: "pn < Suc l + D div 2" "Suc l < pn + D div 2"
    and q: "q = l - l mod D" and r: "r = pn mod D"
  shows "pn = q + r \<or> pn + D = q + r \<or> pn = q + D + r"
proof -
  define j k where "j = pn div D" and "k = l div D"
  have pn: "pn = D * j + r" and r_less: "r < D" using D by (simp_all add: j_def r)
  have qk: "q = D * k" by (simp add: q k_def minus_mod_eq_mult_div)
  have ql: "q \<le> l" "l < q + D"
    using D mod_less_divisor [of D l] mult_div_mod_eq [of D l] unfolding qk k_def by linarith+
  have "D * j < D * (k + 2)" using pn qk ql near(1) by (simp add: algebra_simps)
  then have "j < k + 2" using nat_mult_less_cancel1 [OF D] by blast
  moreover have "D * k < D * (j + 2)" using pn qk ql near(2) r_less by (simp add: algebra_simps)
  then have "k < j + 2" using nat_mult_less_cancel1 [OF D] by blast
  ultimately consider "j = k" | "k = j + 1" | "j = k + 1" by linarith
  then show ?thesis by cases (simp_all add: pn qk)
qed

lemma closestTo_mid:
  assumes "pn < t + h" "t < pn + h" "2 * h \<le> D" "pn < 2 ^ 62" "t < 2 ^ 63" "c < 2 ^ 64"
    "pn + D \<le> c \<or> c + D \<le> pn"
  shows "closestTo t pn c = pn" "closestTo t c pn = pn"
proof -
  have "delta t pn < h"
    using assms by (auto simp: delta_eq)
  moreover have "h < delta t c"
    using assms by (auto simp: delta_eq)
  ultimately show "closestTo t pn c = pn" "closestTo t c pn = pn"
    by (simp_all add: closestTo_def)
qed

lemma closest_candidate:
  assumes D: "0 < D" "D \<le> 2 ^ 48" and l: "l < 2 ^ 62" and pn: "pn < 2 ^ 62"
    and near: "pn < Suc l + D div 2" "Suc l < pn + D div 2"
    and q: "q = l - l mod D" and r: "r = pn mod D"
  shows "closestTo (Suc l) (add64 q r) (closestTo (Suc l) (add64 (sub64 q D) r) (add64 (add64 q D) r)) = pn"
proof -
  let ?P = "if D \<le> q then q - D + r else q + 2 ^ 64 - D + r"
  have ql: "q \<le> l" by (simp add: q)
  have r_less: "r < D" using D by (simp add: r)
  have q0: "D \<le> q \<or> q = 0"
    using D by (simp add: q minus_mod_eq_mult_div) (metis Suc_leI mult.right_neutral mult_le_mono2 neq0_conv One_nat_def)
  have A: "add64 q r = q + r" using ql l r_less D by (simp add: add64_small)
  have N: "add64 (add64 q D) r = q + D + r" using ql l r_less D by (simp add: add64_small)
  have P: "add64 (sub64 q D) r = ?P"
    using q0 ql l r_less D by (auto simp: sub64_small sub64_wrap add64_small)
  have h: "2 * (D div 2) \<le> D" and t: "Suc l < 2 ^ 63" using l by simp_all
  note mid = closestTo_mid [OF near h pn t]
  have ch: "closestTo (Suc l) a b = a \<or> closestTo (Suc l) a b = b" for a b
    by (simp add: closestTo_def)
  consider "pn = q + r" | "pn + D = q + r" | "pn = q + D + r"
    using candidate_cases [OF D(1) near q r] by blast
  then show ?thesis
  proof cases
    case 1
    have "closestTo (Suc l) pn ?P = pn" by (rule mid(1)) (use 1 q0 ql l r_less D in auto)
    moreover have "closestTo (Suc l) pn (q + D + r) = pn" by (rule mid(1)) (use 1 ql l r_less D in auto)
    ultimately show ?thesis unfolding A N P using 1 ch [of ?P "q + D + r"] by auto
  next
    case 2
    then have p: "?P = pn" using q0 r_less pn by auto
    have "closestTo (Suc l) pn (q + D + r) = pn" by (rule mid(1)) (use 2 ql l r_less D in auto)
    moreover have "closestTo (Suc l) (q + r) pn = pn" by (rule mid(2)) (use 2 ql l r_less D in auto)
    ultimately show ?thesis unfolding A N P p by simp
  next
    case 3
    have "closestTo (Suc l) ?P pn = pn" by (rule mid(2)) (use 3 q0 ql l r_less D in auto)
    moreover have "closestTo (Suc l) (q + r) pn = pn" by (rule mid(2)) (use 3 ql l r_less D in auto)
    ultimately show ?thesis unfolding A N P using 3 by simp
  qed
qed

lemma InferPacketNumber_near:
  assumes "k \<in> {1, 2, 4, 6}" "l < 2 ^ 62" "pn < 2 ^ 62"
    and "pn < Suc l + 2 ^ (k * 8) div 2" "Suc l < pn + 2 ^ (k * 8) div 2"
  shows "InferPacketNumber k l (pn mod 2 ^ (k * 8)) = pn"
proof -
  have "add64 l 1 = Suc l" using assms(2) by (simp add: add64_small)
  moreover have "(2 :: nat) ^ (k * 8) \<le> 2 ^ 48" using assms(1) by (intro power_increasing) auto
  ultimately show ?thesis
    unfolding InferPacketNumber_def Let_def
    using closest_candidate [of "2 ^ (k * 8)" l pn] assms by simp
qed

lemma packet_number_window:
  assumes pn: "pn < 2 ^ 62" "l < 2 ^ 62" and unacked: "leastUnacked \<le> Suc l" "Suc l < pn + 2 ^ 15"
    and window: "pn < leastUnacked + 2 ^ 47"
    and k: "k = GetPacketNumberLengthForPublicHeader pn leastUnacked"
  shows "InferPacketNumber k l (pn mod 2 ^ (k * 8)) = pn"
proof -
  have k6: "k \<in> {1, 2, 4, 6}"
    by (auto simp: k GetPacketNumberLengthForPublicHeader_def pn_len_defs Let_def)
  have big: "(2 :: nat) ^ 15 \<le> 2 ^ (k * 8) div 2"
    by (auto simp: k GetPacketNumberLengthForPublicHeader_def pn_len_defs Let_def)
  have "pn - leastUnacked < 2 ^ (k * 8) div 2"
  proof (cases "leastUnacked \<le> pn")
    case True
    then have "sub64 pn leastUnacked = pn - leastUnacked" using pn by (simp add: sub64_small)
    moreover have "pn - leastUnacked < 2 ^ 47" using window True by (simp add: less_diff_conv2)
    ultimately show ?thesis
      by (simp add: k GetPacketNumberLengthForPublicHeader_def pn_len_defs Let_def)
  qed (use big in simp)
  then have "pn < Suc l + 2 ^ (k * 8) div 2" using unacked by linarith
  moreover have "Suc l < pn + 2 ^ (k * 8) div 2" using unacked(2) big by simp
  ultimately show ?thesis
    using pn by (intro InferPacketNumber_near [OF k6]) auto
qed

section \<open>Properties\<close>

text \<open>
  C32: truncated packet numbers are recovered.  If the sender truncates a packet number to the
  length it chooses for the public header, and the largest number \<open>l\<close> the receiver has seen is
  not behind the sender's least unacknowledged packet, the number it infers is the one sent, as
  long as fewer than \<open>2^47\<close> packets are outstanding.  The packet may be newer than everything
  received, or arrive late, up to \<open>2^15\<close> packets behind \<open>l\<close>; so both the epoch after and the epoch
  before the one of \<open>l\<close> occur.
\<close>

theorem packet_number_recovered:
  assumes pn: "pn < 2 ^ 62" "l < 2 ^ 62" and unacked: "leastUnacked \<le> Suc l" "Suc l < pn + 2 ^ 15"
    and window: "pn < leastUnacked + 2 ^ 47"
  shows "let k = GetPacketNumberLengthForPublicHeader pn leastUnacked
         in InferPacketNumber k l (pn mod 2 ^ (k * 8)) = pn"
  unfolding Let_def by (rule packet_number_window [OF assms refl])

text \<open>A new packet in the next epoch of two byte numbers, and a late one in the previous epoch.\<close>

theorem packet_number_recovered_witness:
  "(let k = GetPacketNumberLengthForPublicHeader 70000 60000
    in InferPacketNumber k 65000 (70000 mod 2 ^ (k * 8)) = 70000) \<and>
   (let k = GetPacketNumberLengthForPublicHeader 65000 60000
    in k = 2 \<and> InferPacketNumber k 70000 (65000 mod 2 ^ (k * 8)) = 65000)"
proof -
  have "let k = GetPacketNumberLengthForPublicHeader 65000 60000
    in InferPacketNumber k 70000 (65000 mod 2 ^ (k * 8)) = 65000"
    by (rule packet_number_recovered) simp_all
  moreover have "GetPacketNumberLengthForPublicHeader 65000 60000 = 2"
    by (simp add: GetPacketNumberLengthForPublicHeader_def pn_len_defs sub64_small)
  moreover have "let k = GetPacketNumberLengthForPublicHeader 70000 60000
    in InferPacketNumber k 65000 (70000 mod 2 ^ (k * 8)) = 70000"
    by (rule packet_number_recovered) simp_all
  ultimately show ?thesis by (simp add: Let_def)
qed

end
