(* ===== verification/Wire_Frames.thy ===== *)
theory Wire_Frames
  imports Byte_Order Packet_Number
begin

text \<open>
  Model of the frames of \<^verbatim>\<open>mp-quic/internal/wire\<close> other than the acknowledgements: STREAM,
  RST_STREAM, BLOCKED, WINDOW_UPDATE, PING, GOAWAY, CONNECTION_CLOSE and STOP_WAITING.  A parser
  consumes a prefix of the bytes that are left.  A writer returns the bytes it appends, an error,
  or \<^const>\<open>None\<close> where the code panics; what the code leaves in the buffer when it fails is not
  part of the result.  Ids, offsets and packet numbers are natural numbers below the bound of
  their Go type.
\<close>

datatype wire_error =
    WireEOF
  | InvalidStreamDataLen
  | InvalidStreamDataOverflow
  | EmptyStreamFrameNoFin
  | errWriteEmptyFrameNoFin
  | errInvalidStreamIDLen
  | errInvalidOffsetLen
  | InvalidGoawayData
  | InvalidConnectionCloseData
  | errReasonPhraseTooLong
  | errPacketNumberNotSet
  | errLeastUnackedHigherThanPacketNumber
  | errPacketNumberLenNotSet
  | InvalidStopWaitingData
  | ErrInvalidAckRanges
  | ErrInvalidFirstAckRange
  | errInconsistentAckLargestAcked
  | errInconsistentAckLowestAcked
  | errInconsistentNumberOfRanges
  | ErrUnknownIPVersion
  | errInconsistentAddrIPVersion
  | ErrTooManyPaths
  | ErrPathsNumber
  | ErrMissingRTT
  | ErrPacketWithUnknownVersion
  | errResetAndVersionFlagSet
  | errReceivedTruncatedConnectionID
  | errInvalidConnectionID
  | errGetLengthNotForVersionNegotiation
  | errInvalidNonceLength
  | InvalidVersionNegotiationPacket

type_synonym 'a parser = "bytes \<Rightarrow> wire_error + 'a \<times> bytes"
type_synonym writer = "(wire_error + bytes) option"

definition pret :: "'a \<Rightarrow> 'a parser" where
  "pret x b = Inr (x, b)"

definition pfail :: "wire_error \<Rightarrow> 'a parser" where
  "pfail e b = Inl e"

definition pbind :: "'a parser \<Rightarrow> ('a \<Rightarrow> 'b parser) \<Rightarrow> 'b parser" where
  "pbind m f b = (case m b of Inl e \<Rightarrow> Inl e | Inr (x, b') \<Rightarrow> f x b')"

definition pread :: "'a reader \<Rightarrow> 'a parser" where
  "pread r b = (case r b of Inl e \<Rightarrow> Inl WireEOF | Inr x \<Rightarrow> Inr x)"

definition ReadFull :: "nat \<Rightarrow> bytes parser" where
  "ReadFull n b = (if length b < n then Inl WireEOF else Inr (take n b, drop n b))"

definition ReaderLen :: "nat parser" where
  "ReaderLen b = Inr (length b, b)"

text \<open>Appending the output of two writers.\<close>

definition wappend :: "writer \<Rightarrow> writer \<Rightarrow> writer" where
  "wappend v w =
     (case v of None \<Rightarrow> None | Some (Inl e) \<Rightarrow> Some (Inl e)
      | Some (Inr b) \<Rightarrow> (case w of None \<Rightarrow> None | Some (Inl e) \<Rightarrow> Some (Inl e) | Some (Inr c) \<Rightarrow> Some (Inr (b @ c))))"

definition wbytes :: "bytes \<Rightarrow> writer" where
  "wbytes b = Some (Inr b)"

definition wchecked :: "bytes option \<Rightarrow> writer" where
  "wchecked b = map_option Inr b"

definition MaxPacketSize :: nat where "MaxPacketSize = 1350"

section \<open>STREAM frames\<close>

record StreamFrame =
  StreamID :: nat
  FinBit :: bool
  DataLenPresent :: bool
  Offset :: nat
  Data :: bytes

definition DataLen :: "StreamFrame \<Rightarrow> nat" where
  "DataLen f = length (Data f)"

definition calculateStreamIDLength :: "StreamFrame \<Rightarrow> nat" where
  "calculateStreamIDLength f =
     (if StreamID f < 2 ^ 8 then 1 else if StreamID f < 2 ^ 16 then 2
      else if StreamID f < 2 ^ 24 then 3 else 4)"

definition getOffsetLength :: "StreamFrame \<Rightarrow> nat" where
  "getOffsetLength f =
     (if Offset f = 0 then 0 else if Offset f < 2 ^ 16 then 2 else if Offset f < 2 ^ 24 then 3
      else if Offset f < 2 ^ 32 then 4 else if Offset f < 2 ^ 40 then 5 else if Offset f < 2 ^ 48 then 6
      else if Offset f < 2 ^ 56 then 7 else 8)"

text \<open>The part after the type byte, with the fields read from that byte.\<close>

definition parse_stream_body :: "ByteOrder \<Rightarrow> bool \<Rightarrow> bool \<Rightarrow> nat \<Rightarrow> nat \<Rightarrow> StreamFrame parser" where
  "parse_stream_body bo fin dataLenPresent offsetLen streamIDLen =
     pbind (pread (ReadUintN bo streamIDLen)) (\<lambda>sid.
     pbind (pread (ReadUintN bo offsetLen)) (\<lambda>offset.
     pbind (if dataLenPresent then pread (ReadUint16 bo) else pret 0) (\<lambda>dataLen.
     if unat dataLen > MaxPacketSize then pfail InvalidStreamDataLen
     else pbind ReaderLen (\<lambda>remaining.
          let dataLen = (if \<not> dataLenPresent then remaining mod 2 ^ 16 else unat dataLen)
          in pbind (if dataLen \<noteq> 0 then ReadFull dataLen else pret []) (\<lambda>bs.
             let frame = \<lparr>StreamID = unat (ucast sid :: 32 word), FinBit = fin,
                          DataLenPresent = dataLenPresent, Offset = unat offset, Data = bs\<rparr>
             in if add64 (Offset frame) (DataLen frame) < Offset frame
                then pfail InvalidStreamDataOverflow
                else if \<not> FinBit frame \<and> DataLen frame = 0 then pfail EmptyStreamFrameNoFin
                else pret frame)))))"

definition ParseStreamFrame :: "VersionNumber \<Rightarrow> StreamFrame parser" where
  "ParseStreamFrame v =
     pbind (pread ReadByte) (\<lambda>typeByte.
       parse_stream_body (GetByteOrder v) (typeByte AND 0x40 > 0) (typeByte AND 0x20 > 0)
         (unat (let offsetLen = drop_bit 2 (typeByte AND 0x1c)
                in if offsetLen \<noteq> 0 then offsetLen + 1 else offsetLen))
         (unat ((typeByte AND 3) + 1)))"

definition stream_typeByte :: "StreamFrame \<Rightarrow> byte" where
  "stream_typeByte f =
     (let t = 0x80;
          t = (if FinBit f then t XOR 0x40 else t);
          t = (if DataLenPresent f then t XOR 0x20 else t);
          t = (if getOffsetLength f > 0 then t XOR push_bit 2 (word_of_nat (getOffsetLength f) - 1) else t)
      in t XOR (word_of_nat (calculateStreamIDLength f) - 1))"

definition write_streamID :: "ByteOrder \<Rightarrow> nat \<Rightarrow> nat \<Rightarrow> writer" where
  "write_streamID bo len sid =
     (if len = 1 then wbytes [word_of_nat sid]
      else if len = 2 then wbytes (WriteUint16 bo (word_of_nat sid))
      else if len = 3 then wchecked (WriteUint24 bo (word_of_nat sid))
      else if len = 4 then wbytes (WriteUint32 bo (word_of_nat sid))
      else Some (Inl errInvalidStreamIDLen))"

definition write_offset :: "ByteOrder \<Rightarrow> nat \<Rightarrow> nat \<Rightarrow> writer" where
  "write_offset bo len offset =
     (if len = 0 then wbytes []
      else if len = 2 then wbytes (WriteUint16 bo (word_of_nat offset))
      else if len = 3 then wchecked (WriteUint24 bo (word_of_nat offset))
      else if len = 4 then wbytes (WriteUint32 bo (word_of_nat offset))
      else if len = 5 then wchecked (WriteUint40 bo (word_of_nat offset))
      else if len = 6 then wchecked (WriteUint48 bo (word_of_nat offset))
      else if len = 7 then wchecked (WriteUint56 bo (word_of_nat offset))
      else if len = 8 then wbytes (WriteUint64 bo (word_of_nat offset))
      else Some (Inl errInvalidOffsetLen))"

definition StreamFrame_Write :: "VersionNumber \<Rightarrow> StreamFrame \<Rightarrow> writer" where
  "StreamFrame_Write v f =
     (if length (Data f) = 0 \<and> \<not> FinBit f then Some (Inl errWriteEmptyFrameNoFin)
      else wappend (wbytes [stream_typeByte f])
          (wappend (write_streamID (GetByteOrder v) (calculateStreamIDLength f) (StreamID f))
          (wappend (write_offset (GetByteOrder v) (getOffsetLength f) (Offset f))
          (wappend (wbytes (if DataLenPresent f
                            then WriteUint16 (GetByteOrder v) (word_of_nat (length (Data f))) else []))
             (wbytes (Data f))))))"

definition StreamFrame_MinLength :: "StreamFrame \<Rightarrow> nat" where
  "StreamFrame_MinLength f =
     1 + calculateStreamIDLength f + getOffsetLength f + (if DataLenPresent f then 2 else 0)"

section \<open>Fixed size control frames\<close>

record RstStreamFrame =
  rst_StreamID :: nat
  rst_ErrorCode :: nat
  rst_ByteOffset :: nat

definition RstStreamFrame_Write :: "VersionNumber \<Rightarrow> RstStreamFrame \<Rightarrow> bytes" where
  "RstStreamFrame_Write v f =
     [0x01] @ WriteUint32 (GetByteOrder v) (word_of_nat (rst_StreamID f))
     @ WriteUint64 (GetByteOrder v) (word_of_nat (rst_ByteOffset f))
     @ WriteUint32 (GetByteOrder v) (word_of_nat (rst_ErrorCode f))"

definition RstStreamFrame_MinLength :: nat where
  "RstStreamFrame_MinLength = 1 + 4 + 8 + 4"

definition ParseRstStreamFrame :: "VersionNumber \<Rightarrow> RstStreamFrame parser" where
  "ParseRstStreamFrame v =
     pbind (pread ReadByte) (\<lambda>_.
     pbind (pread (ReadUint32 (GetByteOrder v))) (\<lambda>sid.
     pbind (pread (ReadUint64 (GetByteOrder v))) (\<lambda>byteOffset.
     pbind (pread (ReadUint32 (GetByteOrder v))) (\<lambda>errorCode.
       pret \<lparr>rst_StreamID = unat sid, rst_ErrorCode = unat errorCode, rst_ByteOffset = unat byteOffset\<rparr>))))"

record BlockedFrame =
  blocked_StreamID :: nat

definition BlockedFrame_Write :: "VersionNumber \<Rightarrow> BlockedFrame \<Rightarrow> bytes" where
  "BlockedFrame_Write v f = [0x05] @ WriteUint32 (GetByteOrder v) (word_of_nat (blocked_StreamID f))"

definition BlockedFrame_MinLength :: nat where
  "BlockedFrame_MinLength = 1 + 4"

definition ParseBlockedFrame :: "VersionNumber \<Rightarrow> BlockedFrame parser" where
  "ParseBlockedFrame v =
     pbind (pread ReadByte) (\<lambda>_.
     pbind (pread (ReadUint32 (GetByteOrder v))) (\<lambda>sid. pret \<lparr>blocked_StreamID = unat sid\<rparr>))"

record WindowUpdateFrame =
  wu_StreamID :: nat
  wu_ByteOffset :: nat

definition WindowUpdateFrame_Write :: "VersionNumber \<Rightarrow> WindowUpdateFrame \<Rightarrow> bytes" where
  "WindowUpdateFrame_Write v f =
     [0x04] @ WriteUint32 (GetByteOrder v) (word_of_nat (wu_StreamID f))
     @ WriteUint64 (GetByteOrder v) (word_of_nat (wu_ByteOffset f))"

definition WindowUpdateFrame_MinLength :: nat where
  "WindowUpdateFrame_MinLength = 1 + 4 + 8"

definition ParseWindowUpdateFrame :: "VersionNumber \<Rightarrow> WindowUpdateFrame parser" where
  "ParseWindowUpdateFrame v =
     pbind (pread ReadByte) (\<lambda>_.
     pbind (pread (ReadUint32 (GetByteOrder v))) (\<lambda>sid.
     pbind (pread (ReadUint64 (GetByteOrder v))) (\<lambda>byteOffset.
       pret \<lparr>wu_StreamID = unat sid, wu_ByteOffset = unat byteOffset\<rparr>)))"

definition ParsePingFrame :: "VersionNumber \<Rightarrow> unit parser" where
  "ParsePingFrame v = pbind (pread ReadByte) (\<lambda>_. pret ())"

definition PingFrame_Write :: "VersionNumber \<Rightarrow> bytes" where
  "PingFrame_Write v = [0x07]"

definition PingFrame_MinLength :: nat where
  "PingFrame_MinLength = 1"

section \<open>Frames with a reason phrase\<close>

record GoawayFrame =
  ga_ErrorCode :: nat
  ga_LastGoodStream :: nat
  ga_ReasonPhrase :: bytes

definition ParseGoawayFrame :: "VersionNumber \<Rightarrow> GoawayFrame parser" where
  "ParseGoawayFrame v =
     pbind (pread ReadByte) (\<lambda>_.
     pbind (pread (ReadUint32 (GetByteOrder v))) (\<lambda>errorCode.
     pbind (pread (ReadUint32 (GetByteOrder v))) (\<lambda>lastGoodStream.
     pbind (pread (ReadUint16 (GetByteOrder v))) (\<lambda>reasonPhraseLen.
     if unat reasonPhraseLen > MaxPacketSize then pfail InvalidGoawayData
     else pbind (ReadFull (unat reasonPhraseLen)) (\<lambda>reasonPhrase.
       pret \<lparr>ga_ErrorCode = unat errorCode, ga_LastGoodStream = unat lastGoodStream,
             ga_ReasonPhrase = reasonPhrase\<rparr>)))))"

definition GoawayFrame_Write :: "VersionNumber \<Rightarrow> GoawayFrame \<Rightarrow> bytes" where
  "GoawayFrame_Write v f =
     [0x03] @ WriteUint32 (GetByteOrder v) (word_of_nat (ga_ErrorCode f))
     @ WriteUint32 (GetByteOrder v) (word_of_nat (ga_LastGoodStream f))
     @ WriteUint16 (GetByteOrder v) (word_of_nat (length (ga_ReasonPhrase f))) @ ga_ReasonPhrase f"

definition GoawayFrame_MinLength :: "GoawayFrame \<Rightarrow> nat" where
  "GoawayFrame_MinLength f = 1 + 4 + 4 + 2 + length (ga_ReasonPhrase f)"

record ConnectionCloseFrame =
  cc_ErrorCode :: nat
  cc_ReasonPhrase :: bytes

definition ParseConnectionCloseFrame :: "VersionNumber \<Rightarrow> ConnectionCloseFrame parser" where
  "ParseConnectionCloseFrame v =
     pbind (pread ReadByte) (\<lambda>_.
     pbind (pread (ReadUint32 (GetByteOrder v))) (\<lambda>errorCode.
     pbind (pread (ReadUint16 (GetByteOrder v))) (\<lambda>reasonPhraseLen.
     if unat reasonPhraseLen > MaxPacketSize then pfail InvalidConnectionCloseData
     else pbind (ReadFull (unat reasonPhraseLen)) (\<lambda>reasonPhrase.
       pret \<lparr>cc_ErrorCode = unat errorCode, cc_ReasonPhrase = reasonPhrase\<rparr>))))"

definition ConnectionCloseFrame_MinLength :: "ConnectionCloseFrame \<Rightarrow> nat" where
  "ConnectionCloseFrame_MinLength f = 1 + 4 + 2 + length (cc_ReasonPhrase f)"

definition ConnectionCloseFrame_Write :: "VersionNumber \<Rightarrow> ConnectionCloseFrame \<Rightarrow> writer" where
  "ConnectionCloseFrame_Write v f =
     (if length (cc_ReasonPhrase f) > 2 ^ 16 - 1 then Some (Inl errReasonPhraseTooLong)
      else wbytes ([0x02] @ WriteUint32 (GetByteOrder v) (word_of_nat (cc_ErrorCode f))
        @ WriteUint16 (GetByteOrder v) (word_of_nat (length (cc_ReasonPhrase f))) @ cc_ReasonPhrase f))"

section \<open>STOP\_WAITING frames\<close>

record StopWaitingFrame =
  sw_LeastUnacked :: PacketNumber
  sw_PacketNumberLen :: nat
  sw_PacketNumber :: PacketNumber

definition StopWaitingFrame_Write :: "VersionNumber \<Rightarrow> StopWaitingFrame \<Rightarrow> writer" where
  "StopWaitingFrame_Write v f =
     (if sw_PacketNumber f = 0 then Some (Inl errPacketNumberNotSet)
      else if sw_LeastUnacked f > sw_PacketNumber f then Some (Inl errLeastUnackedHigherThanPacketNumber)
      else let leastUnackedDelta = sub64 (sw_PacketNumber f) (sw_LeastUnacked f)
           in wappend (wbytes [0x06])
             (if sw_PacketNumberLen f = PacketNumberLen1 then wbytes [word_of_nat leastUnackedDelta]
              else if sw_PacketNumberLen f = PacketNumberLen2
              then wbytes (WriteUint16 (GetByteOrder v) (word_of_nat leastUnackedDelta))
              else if sw_PacketNumberLen f = PacketNumberLen4
              then wbytes (WriteUint32 (GetByteOrder v) (word_of_nat leastUnackedDelta))
              else if sw_PacketNumberLen f = PacketNumberLen6
              then wchecked (WriteUint48 (GetByteOrder v) (word_of_nat (leastUnackedDelta mod 2 ^ 48)))
              else Some (Inl errPacketNumberLenNotSet)))"

definition StopWaitingFrame_MinLength :: "StopWaitingFrame \<Rightarrow> wire_error + nat" where
  "StopWaitingFrame_MinLength f =
     (if sw_PacketNumberLen f = 0 then Inl errPacketNumberLenNotSet else Inr (1 + sw_PacketNumberLen f))"

definition ParseStopWaitingFrame :: "PacketNumber \<Rightarrow> nat \<Rightarrow> VersionNumber \<Rightarrow> StopWaitingFrame parser" where
  "ParseStopWaitingFrame packetNumber packetNumberLen v =
     pbind (pread ReadByte) (\<lambda>_.
     pbind (pread (ReadUintN (GetByteOrder v) packetNumberLen)) (\<lambda>leastUnackedDelta.
     if unat leastUnackedDelta \<ge> packetNumber then pfail InvalidStopWaitingData
     else pret \<lparr>sw_LeastUnacked = sub64 packetNumber (unat leastUnackedDelta), sw_PacketNumberLen = 0,
                sw_PacketNumber = 0\<rparr>))"

section \<open>Numbers on the wire\<close>

definition uint_bytes :: "ByteOrder \<Rightarrow> nat \<Rightarrow> nat \<Rightarrow> bytes" where
  "uint_bytes bo k n =
     (case bo of LittleEndian \<Rightarrow> le_bytes k (word_of_nat n :: 64 word)
      | BigEndian \<Rightarrow> rev (le_bytes k (word_of_nat n :: 64 word)))"

lemma length_uint_bytes [simp]: "length (uint_bytes bo k n) = k"
  by (cases bo) (simp_all add: uint_bytes_def)

lemma read_uint_bytes:
  assumes "k \<le> 8" "n < 2 ^ (8 * k)"
  shows "ReadUintN bo k (uint_bytes bo k n @ rest) = Inr (word_of_nat n, rest)"
proof -
  have "n < 2 ^ 64"
    using assms power_increasing [of "8 * k" 64 "2 :: nat"] by simp
  then have "unat (word_of_nat n :: 64 word) < 2 ^ (8 * k)"
    using assms(2) by (simp add: unat_word64)
  from checked_read [OF assms(1) this, of rest] show ?thesis
    by (cases bo) (simp_all add: uint_bytes_def)
qed

lemma le_bytes_ucast16: "k \<le> 2 \<Longrightarrow> le_bytes k (w :: 16 word) = le_bytes k (ucast w :: 64 word)"
  unfolding le_bytes_def by (intro map_cong refl bit_word_eqI) (auto simp: bit_simps)

lemma ucast_of_nat32: "n < 2 ^ 32 \<Longrightarrow> ucast (word_of_nat n :: 32 word) = (word_of_nat n :: 64 word)"
  by (simp add: word_unat_eq_iff unsigned_ucast_eq unat_of_nat take_bit_nat_eq_self)

lemma ucast_of_nat16: "n < 2 ^ 16 \<Longrightarrow> ucast (word_of_nat n :: 16 word) = (word_of_nat n :: 64 word)"
  by (simp add: word_unat_eq_iff unsigned_ucast_eq unat_of_nat take_bit_nat_eq_self)

lemma write_uint_bytes:
  "n < 2 ^ 16 \<Longrightarrow> WriteUint16 bo (word_of_nat n) = uint_bytes bo 2 n"
  "n < 2 ^ 24 \<Longrightarrow> WriteUint24 bo (word_of_nat n) = Some (uint_bytes bo 3 n)"
  "n < 2 ^ 32 \<Longrightarrow> WriteUint32 bo (word_of_nat n) = uint_bytes bo 4 n"
  "n < 2 ^ 40 \<Longrightarrow> WriteUint40 bo (word_of_nat n) = Some (uint_bytes bo 5 n)"
  "n < 2 ^ 48 \<Longrightarrow> WriteUint48 bo (word_of_nat n) = Some (uint_bytes bo 6 n)"
  "n < 2 ^ 56 \<Longrightarrow> WriteUint56 bo (word_of_nat n) = Some (uint_bytes bo 7 n)"
  "n < 2 ^ 64 \<Longrightarrow> WriteUint64 bo (word_of_nat n) = uint_bytes bo 8 n"
  by (cases bo; simp add: uint_bytes_def write_bytes [unfolded WriteUint64.simps WriteUint32.simps WriteUint16.simps]
      write_bytes_checked [unfolded WriteUint56.simps WriteUint48.simps WriteUint40.simps WriteUint24.simps]
      le_bytes_ucast le_bytes_ucast16 ucast_of_nat32 ucast_of_nat16 unat_of_nat)+

lemma uint_bytes_1: "n < 2 ^ 8 \<Longrightarrow> uint_bytes bo (Suc 0) n = [word_of_nat n]"
  by (cases bo) (simp_all add: uint_bytes_def le_bytes_def word_unat_eq_iff unsigned_ucast_eq unat_of_nat
      take_bit_nat_eq_self)

lemma write_streamID_bytes:
  assumes "n < 2 ^ 32" "len = (if n < 2 ^ 8 then 1 else if n < 2 ^ 16 then 2 else if n < 2 ^ 24 then 3 else 4)"
  shows "write_streamID bo len n = wbytes (uint_bytes bo len n)" "n < 2 ^ (8 * len)" "1 \<le> len" "len \<le> 4"
  using assms by (auto simp: write_streamID_def write_uint_bytes wchecked_def wbytes_def uint_bytes_1 [symmetric])

lemma write_offset_bytes:
  assumes "n < 2 ^ 64" "len = (if n = 0 then 0 else if n < 2 ^ 16 then 2 else if n < 2 ^ 24 then 3
      else if n < 2 ^ 32 then 4 else if n < 2 ^ 40 then 5 else if n < 2 ^ 48 then 6
      else if n < 2 ^ 56 then 7 else 8)"
  shows "write_offset bo len n = wbytes (uint_bytes bo len n)" "n < 2 ^ (8 * len)"
    "len = 0 \<or> 2 \<le> len" "len \<le> 8"
proof -
  have z: "uint_bytes bo 0 n = []" by (simp add: length_0_conv [symmetric] del: length_0_conv)
  show "write_offset bo len n = wbytes (uint_bytes bo len n)" 
    using assms z by (auto simp: write_offset_def write_uint_bytes wchecked_def wbytes_def)
qed (use assms in \<open>auto split: if_splits\<close>)

section \<open>Round trips\<close>

lemma pbind_pread:
  "r b = Inr (x, b') \<Longrightarrow> pbind (pread r) f b = f x b'"
  by (simp add: pbind_def pread_def)

lemma pbind_pret [simp]: "pbind (pret x) f b = f x b"
  by (simp add: pbind_def pret_def)

lemma pbind_ReadByte [simp]: "pbind (pread ReadByte) f (x # b) = f x b"
  by (simp add: pbind_pread)

lemma pbind_ReaderLen [simp]: "pbind ReaderLen f b = f (length b) b"
  by (simp add: pbind_def ReaderLen_def)

lemma pbind_ReadFull [simp]: "length xs = n \<Longrightarrow> pbind (ReadFull n) f (xs @ b) = f xs b"
  by (auto simp: pbind_def ReadFull_def)

lemma pbind_ReadFull_all [simp]: "pbind (ReadFull (length xs)) f xs = f xs []"
  using pbind_ReadFull [of xs "length xs" f "[]"] by simp

lemma pbind_WriteUint [simp]:
  "pbind (pread (ReadUint64 bo)) f (WriteUint64 bo v @ b) = f v b"
  "pbind (pread (ReadUint32 bo)) g (WriteUint32 bo w @ b) = g w b"
  "pbind (pread (ReadUint16 bo)) h (WriteUint16 bo x @ b) = h x b"
  by (rule pbind_pread, rule ReadUint_Write)+

lemma wappend_wbytes [simp]: "wappend (wbytes a) (wbytes b) = wbytes (a @ b)"
  by (simp add: wappend_def wbytes_def)

lemma stream_typeByte_fields:
  assumes "ol \<in> {0, 2, 3, 4, 5, 6, 7, 8}" "sl \<in> {1, 2, 3, 4}"
    and "ol = getOffsetLength f" "sl = calculateStreamIDLength f"
  shows "(stream_typeByte f AND 0x40 > 0) = FinBit f" "(stream_typeByte f AND 0x20 > 0) = DataLenPresent f"
    "unat (let ol = drop_bit 2 (stream_typeByte f AND 0x1c) in if ol \<noteq> 0 then ol + 1 else ol) = ol"
    "unat ((stream_typeByte f AND 3) + 1) = sl"
  using assms(1,2) unfolding stream_typeByte_def assms(3,4) [symmetric]
  by (cases "FinBit f"; cases "DataLenPresent f"; auto)+

text \<open>The well-formed STREAM frames, and what the parser reads after the type byte.\<close>

definition stream_ok :: "StreamFrame \<Rightarrow> bool" where
  "stream_ok f \<longleftrightarrow> StreamID f < 2 ^ 32 \<and> Offset f + DataLen f < 2 ^ 64 \<and> DataLen f \<le> MaxPacketSize \<and>
     (FinBit f \<or> DataLen f > 0)"

lemma stream_lengths:
  assumes "stream_ok f"
  shows "write_streamID bo (calculateStreamIDLength f) (StreamID f) =
      wbytes (uint_bytes bo (calculateStreamIDLength f) (StreamID f))"
    "StreamID f < 2 ^ (8 * calculateStreamIDLength f)" "calculateStreamIDLength f \<in> {1, 2, 3, 4}"
    "write_offset bo (getOffsetLength f) (Offset f) = wbytes (uint_bytes bo (getOffsetLength f) (Offset f))"
    "Offset f < 2 ^ (8 * getOffsetLength f)" "getOffsetLength f \<in> {0, 2, 3, 4, 5, 6, 7, 8}"
proof -
  have n: "StreamID f < 2 ^ 32" "Offset f < 2 ^ 64" using assms by (auto simp: stream_ok_def)
  note sl = write_streamID_bytes [OF n(1) calculateStreamIDLength_def] and
    ol = write_offset_bytes [OF n(2) getOffsetLength_def]
  show "write_streamID bo (calculateStreamIDLength f) (StreamID f) =
      wbytes (uint_bytes bo (calculateStreamIDLength f) (StreamID f))" by (rule sl(1))
  show "StreamID f < 2 ^ (8 * calculateStreamIDLength f)" by (rule sl(2))
  show "calculateStreamIDLength f \<in> {1, 2, 3, 4}" by (simp add: calculateStreamIDLength_def)
  show "write_offset bo (getOffsetLength f) (Offset f) = wbytes (uint_bytes bo (getOffsetLength f) (Offset f))"
    by (rule ol(1))
  show "Offset f < 2 ^ (8 * getOffsetLength f)" by (rule ol(2))
  show "getOffsetLength f \<in> {0, 2, 3, 4, 5, 6, 7, 8}" by (simp add: getOffsetLength_def)
qed

definition stream_bytes :: "VersionNumber \<Rightarrow> StreamFrame \<Rightarrow> bytes" where
  "stream_bytes v f =
     stream_typeByte f # uint_bytes (GetByteOrder v) (calculateStreamIDLength f) (StreamID f)
     @ uint_bytes (GetByteOrder v) (getOffsetLength f) (Offset f)
     @ (if DataLenPresent f then WriteUint16 (GetByteOrder v) (word_of_nat (DataLen f)) else []) @ Data f"

lemma StreamFrame_Write_bytes:
  assumes "stream_ok f"
  shows "StreamFrame_Write v f = Some (Inr (stream_bytes v f))"
proof -
  have "\<not> (length (Data f) = 0 \<and> \<not> FinBit f)" using assms by (auto simp: stream_ok_def DataLen_def)
  then show ?thesis
    unfolding StreamFrame_Write_def stream_lengths(1,4) [OF assms]
    by (simp add: stream_bytes_def DataLen_def) (simp add: wbytes_def)
qed

lemma length_WriteUint16 [simp]: "length (WriteUint16 bo x) = 2"
  by (cases bo) (simp_all add: write_bytes [unfolded WriteUint16.simps])

lemma length_WriteUint32 [simp]: "length (WriteUint32 bo x) = 4"
  by (cases bo) (simp_all add: write_bytes [unfolded WriteUint32.simps])

lemma length_WriteUint64 [simp]: "length (WriteUint64 bo x) = 8"
  by (cases bo) (simp_all add: write_bytes [unfolded WriteUint64.simps])

lemma ParseStreamFrame_bytes:
  assumes ok: "stream_ok f" and rest: "DataLenPresent f \<or> rest = []"
  shows "ParseStreamFrame v (stream_bytes v f @ rest) = Inr (f, rest)"
proof -
  note l = stream_lengths [OF ok]
  note t = stream_typeByte_fields [OF l(6) l(3) refl refl]
  have sid: "ReadUintN (GetByteOrder v) (calculateStreamIDLength f)
      (uint_bytes (GetByteOrder v) (calculateStreamIDLength f) (StreamID f) @ b) = Inr (word_of_nat (StreamID f), b)" for b
    using l(2,3) by (intro read_uint_bytes) auto
  have off: "ReadUintN (GetByteOrder v) (getOffsetLength f)
      (uint_bytes (GetByteOrder v) (getOffsetLength f) (Offset f) @ b) = Inr (word_of_nat (Offset f), b)" for b
    using l(5,6) by (intro read_uint_bytes) auto
  have n: "unat (ucast (word_of_nat (StreamID f) :: 64 word) :: 32 word) = StreamID f"
    "unat (word_of_nat (Offset f) :: 64 word) = Offset f"
    "unat (word_of_nat (DataLen f) :: 16 word) = DataLen f" "DataLen f \<le> MaxPacketSize" "DataLen f < 2 ^ 16"
    using ok by (auto simp: stream_ok_def unsigned_ucast_eq unat_of_nat take_bit_nat_eq_self MaxPacketSize_def)
  have eq: "\<lparr>StreamID = StreamID f, FinBit = FinBit f, DataLenPresent = DataLenPresent f, Offset = Offset f,
      Data = Data f\<rparr> = f" by simp
  have ov: "\<not> add64 (Offset f) (DataLen f) < Offset f" "\<not> (\<not> FinBit f \<and> DataLen f = 0)"
    using ok by (auto simp: stream_ok_def add64_def)
  note step = pbind_pread [of "ReadUintN (GetByteOrder v) (calculateStreamIDLength f)", OF sid]
    pbind_pread [of "ReadUintN (GetByteOrder v) (getOffsetLength f)", OF off]
  show ?thesis
    using n(3,4,5) rest ov eq
    unfolding ParseStreamFrame_def stream_bytes_def append_Cons pbind_ReadByte t append_assoc
      parse_stream_body_def step n
    by (cases "DataLenPresent f"; cases "Data f = []") (auto simp: DataLen_def pret_def Let_def unat_word16)
qed

lemma length_stream_bytes:
  "length (stream_bytes v f) = StreamFrame_MinLength f + DataLen f"
  by (simp add: stream_bytes_def StreamFrame_MinLength_def DataLen_def)

lemma pbind_Inr: "pbind m f b = Inr r \<longleftrightarrow> (\<exists>x b'. m b = Inr (x, b') \<and> f x b' = Inr r)"
  by (auto simp: pbind_def split: sum.split)

lemma pbind_assoc: "pbind (pbind m f) g b = pbind m (\<lambda>x. pbind (f x) g) b"
  by (simp add: pbind_def split: sum.split)

lemma parse_stream_body_Inr:
  assumes "parse_stream_body bo fin dlp ol sl b = Inr (f, rest)"
  obtains sid offset remaining dataLen bs b' where "dlp \<longrightarrow> dataLen \<le> MaxPacketSize" "dataLen < 2 ^ 16"
    "(if dataLen \<noteq> 0 then ReadFull dataLen else pret []) b' = Inr (bs, remaining)"
    "f = \<lparr>StreamID = unat (ucast (sid :: 64 word) :: 32 word), FinBit = fin, DataLenPresent = dlp,
        Offset = unat (offset :: 64 word), Data = bs\<rparr>"
    "\<not> add64 (unat offset) (length bs) < unat offset" "fin \<or> length bs \<noteq> 0"
proof -
  obtain sid b1 offset b2 dl b3 where 1: "\<not> unat (dl :: 16 word) > MaxPacketSize"
    "(let dataLen = (if \<not> dlp then length b3 mod 2 ^ 16 else unat dl)
      in pbind (if dataLen \<noteq> 0 then ReadFull dataLen else pret []) (\<lambda>bs.
             let frame = \<lparr>StreamID = unat (ucast (sid :: 64 word) :: 32 word), FinBit = fin,
                          DataLenPresent = dlp, Offset = unat (offset :: 64 word), Data = bs\<rparr>
             in if add64 (Offset frame) (DataLen frame) < Offset frame
                then pfail InvalidStreamDataOverflow
                else if \<not> FinBit frame \<and> DataLen frame = 0 then pfail EmptyStreamFrameNoFin
                else pret frame)) b3 = Inr (f, rest)"
    using assms unfolding parse_stream_body_def
    by (fastforce simp: pbind_Inr [of _ _ _ "(f, rest)"] pfail_def ReaderLen_def split: if_split_asm)
  define dataLen where "dataLen = (if \<not> dlp then length b3 mod 2 ^ 16 else unat dl)"
  have "dlp \<longrightarrow> dataLen \<le> MaxPacketSize" using 1(1) by (simp add: dataLen_def)
  moreover have "dataLen < 2 ^ 16" using unsigned_less [of dl] by (auto simp: dataLen_def)
  moreover obtain bs b4 where "(if dataLen \<noteq> 0 then ReadFull dataLen else pret []) b3 = Inr (bs, b4)"
    "\<not> add64 (unat offset) (length bs) < unat offset" "fin \<or> length bs \<noteq> 0"
    "f = \<lparr>StreamID = unat (ucast (sid :: 64 word) :: 32 word), FinBit = fin, DataLenPresent = dlp,
        Offset = unat (offset :: 64 word), Data = bs\<rparr>"
    using 1(2) unfolding dataLen_def [symmetric] Let_def pbind_Inr
    by (auto simp: pfail_def pret_def DataLen_def split: if_split_asm)
  ultimately show ?thesis by (intro that) auto
qed

text \<open>A parsed STOP_WAITING frame never asks to forget the packet that carries it.\<close>

lemma stop_waiting_bound:
  assumes "ParseStopWaitingFrame pn len v b = Inr (f, rest)" "pn < 2 ^ 64"
  shows "0 < sw_LeastUnacked f" "sw_LeastUnacked f \<le> pn"
  using assms
  by (auto simp: ParseStopWaitingFrame_def pbind_Inr pfail_def pret_def sub64_small split: if_splits)

section \<open>Properties\<close>

text \<open>
  A STREAM frame with data or the FIN bit, at most \<^verbatim>\<open>MaxPacketSize\<close> data and an end offset
  below \<open>2^64\<close> is written in exactly \<^verbatim>\<open>MinLength\<close> plus the data length bytes, for every choice
  of the shortest id and offset encodings, and parsing gives back the frame and the bytes that
  follow (a frame without length field takes the rest of the packet).
\<close>

theorem stream_frame_round_trip:
  assumes "stream_ok f" "DataLenPresent f \<or> rest = []"
  shows "\<exists>b. StreamFrame_Write v f = Some (Inr b) \<and> length b = StreamFrame_MinLength f + DataLen f \<and>
     ParseStreamFrame v (b @ rest) = Inr (f, rest)"
  using StreamFrame_Write_bytes [OF assms(1)] length_stream_bytes ParseStreamFrame_bytes [OF assms] by blast

theorem stream_frame_round_trip_witness:
  "\<exists>b. StreamFrame_Write 39 \<lparr>StreamID = 70000, FinBit = True, DataLenPresent = True, Offset = 2 ^ 40, Data = [1, 2]\<rparr>
       = Some (Inr b) \<and> length b = 14"
  using stream_frame_round_trip [of "\<lparr>StreamID = 70000, FinBit = True, DataLenPresent = True, Offset = 2 ^ 40,
      Data = [1, 2]\<rparr>" "[]" 39]
  by (auto simp: stream_ok_def DataLen_def MaxPacketSize_def StreamFrame_MinLength_def getOffsetLength_def
      calculateStreamIDLength_def)

text \<open>
  C31: the parser of STREAM frames only returns frames the rest of the transport can handle: the
  end of the data does not wrap around, an empty frame carries the FIN bit, and an explicit
  length is at most \<^verbatim>\<open>MaxPacketSize\<close>.
\<close>

theorem parsed_stream_frame_safe:
  assumes "ParseStreamFrame v b = Inr (f, rest)"
  shows "StreamID f < 2 ^ 32 \<and> Offset f + DataLen f < 2 ^ 64 \<and> (FinBit f \<or> DataLen f > 0) \<and>
     (DataLenPresent f \<longrightarrow> DataLen f \<le> MaxPacketSize) \<and> DataLen f < 2 ^ 16"
proof -
  from assms obtain fin dlp ol sl b' where body: "parse_stream_body (GetByteOrder v) fin dlp ol sl b' = Inr (f, rest)"
    unfolding ParseStreamFrame_def pbind_Inr by blast
  then obtain sid offset remaining dataLen bs b'' where d: "dlp \<longrightarrow> dataLen \<le> MaxPacketSize" "dataLen < 2 ^ 16"
    and bs: "(if dataLen \<noteq> 0 then ReadFull dataLen else pret []) b'' = Inr (bs, remaining)"
    and f: "f = \<lparr>StreamID = unat (ucast (sid :: 64 word) :: 32 word), FinBit = fin, DataLenPresent = dlp,
        Offset = unat (offset :: 64 word), Data = bs\<rparr>"
    and chk: "\<not> add64 (unat offset) (length bs) < unat offset" "fin \<or> length bs \<noteq> 0"
    by (rule parse_stream_body_Inr)
  have len: "length bs = dataLen"
    using bs by (auto simp: ReadFull_def pret_def split: if_splits)
  have o: "unat offset < 2 ^ 64" "unat (ucast sid :: 32 word) < 2 ^ 32"
    using unsigned_less [of offset] unsigned_less [of "ucast sid :: 32 word"] by simp_all
  have "unat offset + dataLen < 2 ^ 64"
  proof (rule ccontr)
    assume "\<not> unat offset + dataLen < 2 ^ 64"
    then have "add64 (unat offset) dataLen = unat offset + dataLen - 2 ^ 64"
      using o(1) d(2) by (simp add: add64_def mod_if)
    then show False using chk(1) len d(2) o(1) \<open>\<not> unat offset + dataLen < 2 ^ 64\<close> by simp
  qed
  then show ?thesis
    using d chk(2) len o(2) by (auto simp: f DataLen_def)
qed

theorem parsed_stream_frame_safe_witness:
  "ParseStreamFrame 39 [0x80, 5, 42] =
     Inr (\<lparr>StreamID = 5, FinBit = False, DataLenPresent = False, Offset = 0, Data = [42]\<rparr>, []) \<and>
   DataLen \<lparr>StreamID = 5, FinBit = False, DataLenPresent = False, Offset = 0, Data = [42 :: byte]\<rparr> < 2 ^ 16"
proof -
  let ?f = "\<lparr>StreamID = 5, FinBit = False, DataLenPresent = False, Offset = 0, Data = [42]\<rparr>"
  have "stream_bytes 39 ?f = [0x80, 5, 42]"
    by (simp add: stream_bytes_def stream_typeByte_def getOffsetLength_def calculateStreamIDLength_def
        uint_bytes_def le_bytes_def GetByteOrder_def)
  moreover have "stream_ok ?f" by (simp add: stream_ok_def DataLen_def MaxPacketSize_def)
  ultimately have p: "ParseStreamFrame 39 [0x80, 5, 42] = Inr (?f, [])"
    using ParseStreamFrame_bytes [of ?f "[]" 39] by simp
  with parsed_stream_frame_safe [OF p] show ?thesis by blast
qed

text \<open>Each control frame alone.\<close>

lemma control_parse:
  "rst_StreamID rst < 2 ^ 32 \<Longrightarrow> rst_ErrorCode rst < 2 ^ 32 \<Longrightarrow> rst_ByteOffset rst < 2 ^ 64 \<Longrightarrow>
     ParseRstStreamFrame v (RstStreamFrame_Write v rst @ rest) = Inr (rst, rest)"
  "blocked_StreamID bl < 2 ^ 32 \<Longrightarrow> ParseBlockedFrame v (BlockedFrame_Write v bl @ rest) = Inr (bl, rest)"
  "wu_StreamID wu < 2 ^ 32 \<Longrightarrow> wu_ByteOffset wu < 2 ^ 64 \<Longrightarrow>
     ParseWindowUpdateFrame v (WindowUpdateFrame_Write v wu @ rest) = Inr (wu, rest)"
  "ParsePingFrame v (PingFrame_Write v @ rest) = Inr ((), rest)"
  by (simp_all add: ParseRstStreamFrame_def RstStreamFrame_Write_def ParseBlockedFrame_def BlockedFrame_Write_def
      ParseWindowUpdateFrame_def WindowUpdateFrame_Write_def ParsePingFrame_def PingFrame_Write_def pret_def
      unat_word32 unat_word64)

lemma reason_parse:
  "ga_ErrorCode ga < 2 ^ 32 \<Longrightarrow> ga_LastGoodStream ga < 2 ^ 32 \<Longrightarrow> length (ga_ReasonPhrase ga) \<le> MaxPacketSize \<Longrightarrow>
     ParseGoawayFrame v (GoawayFrame_Write v ga @ rest) = Inr (ga, rest)"
  "cc_ErrorCode cc < 2 ^ 32 \<Longrightarrow> length (cc_ReasonPhrase cc) \<le> MaxPacketSize \<Longrightarrow>
     ParseConnectionCloseFrame v ([0x02] @ WriteUint32 (GetByteOrder v) (word_of_nat (cc_ErrorCode cc))
       @ WriteUint16 (GetByteOrder v) (word_of_nat (length (cc_ReasonPhrase cc))) @ cc_ReasonPhrase cc @ rest) = Inr (cc, rest)"
proof -
  have r: "n \<le> MaxPacketSize \<Longrightarrow> unat (word_of_nat n :: 16 word) = n" for n by (simp add: MaxPacketSize_def unat_word16)
  show "ga_ErrorCode ga < 2 ^ 32 \<Longrightarrow> ga_LastGoodStream ga < 2 ^ 32 \<Longrightarrow> length (ga_ReasonPhrase ga) \<le> MaxPacketSize \<Longrightarrow>
     ParseGoawayFrame v (GoawayFrame_Write v ga @ rest) = Inr (ga, rest)"
    by (simp add: ParseGoawayFrame_def GoawayFrame_Write_def pret_def unat_word32 r)
  show "cc_ErrorCode cc < 2 ^ 32 \<Longrightarrow> length (cc_ReasonPhrase cc) \<le> MaxPacketSize \<Longrightarrow>
     ParseConnectionCloseFrame v ([0x02] @ WriteUint32 (GetByteOrder v) (word_of_nat (cc_ErrorCode cc))
       @ WriteUint16 (GetByteOrder v) (word_of_nat (length (cc_ReasonPhrase cc))) @ cc_ReasonPhrase cc @ rest) = Inr (cc, rest)"
    by (simp add: ParseConnectionCloseFrame_def pret_def unat_word32 r)
qed

text \<open>
  The control frames survive the wire: a RST_STREAM, BLOCKED, WINDOW_UPDATE, PING, GOAWAY or
  CONNECTION_CLOSE frame is written in \<^verbatim>\<open>MinLength\<close> bytes and parses back to itself, leaving the
  bytes that follow.
\<close>

theorem control_frames_round_trip:
  assumes "rst_StreamID rst < 2 ^ 32" "rst_ErrorCode rst < 2 ^ 32" "rst_ByteOffset rst < 2 ^ 64"
    and "blocked_StreamID bl < 2 ^ 32" "wu_StreamID wu < 2 ^ 32" "wu_ByteOffset wu < 2 ^ 64"
    and "ga_ErrorCode ga < 2 ^ 32" "ga_LastGoodStream ga < 2 ^ 32" "length (ga_ReasonPhrase ga) \<le> MaxPacketSize"
    and "cc_ErrorCode cc < 2 ^ 32" "length (cc_ReasonPhrase cc) \<le> MaxPacketSize"
  shows "ParseRstStreamFrame v (RstStreamFrame_Write v rst @ rest) = Inr (rst, rest) \<and>
     length (RstStreamFrame_Write v rst) = RstStreamFrame_MinLength \<and>
     ParseBlockedFrame v (BlockedFrame_Write v bl @ rest) = Inr (bl, rest) \<and>
     length (BlockedFrame_Write v bl) = BlockedFrame_MinLength \<and>
     ParseWindowUpdateFrame v (WindowUpdateFrame_Write v wu @ rest) = Inr (wu, rest) \<and>
     length (WindowUpdateFrame_Write v wu) = WindowUpdateFrame_MinLength \<and>
     ParsePingFrame v (PingFrame_Write v @ rest) = Inr ((), rest) \<and>
     length (PingFrame_Write v) = PingFrame_MinLength \<and>
     ParseGoawayFrame v (GoawayFrame_Write v ga @ rest) = Inr (ga, rest) \<and>
     length (GoawayFrame_Write v ga) = GoawayFrame_MinLength ga \<and>
     (\<exists>b. ConnectionCloseFrame_Write v cc = Some (Inr b) \<and> length b = ConnectionCloseFrame_MinLength cc \<and>
        ParseConnectionCloseFrame v (b @ rest) = Inr (cc, rest))"
  using control_parse(1) [OF assms(1-3)] control_parse(2) [OF assms(4)] control_parse(3) [OF assms(5,6)] control_parse(4)
    reason_parse(1) [OF assms(7-9)] reason_parse(2) [OF assms(10,11)] assms(9,11)
  by (auto simp: RstStreamFrame_Write_def RstStreamFrame_MinLength_def BlockedFrame_Write_def
      BlockedFrame_MinLength_def WindowUpdateFrame_Write_def WindowUpdateFrame_MinLength_def PingFrame_Write_def
      PingFrame_MinLength_def GoawayFrame_Write_def GoawayFrame_MinLength_def ConnectionCloseFrame_Write_def
      ConnectionCloseFrame_MinLength_def wbytes_def MaxPacketSize_def)

theorem control_frames_round_trip_witness:
  "ParseRstStreamFrame 39 (RstStreamFrame_Write 39 \<lparr>rst_StreamID = 5, rst_ErrorCode = 7, rst_ByteOffset = 1000\<rparr>)
     = Inr (\<lparr>rst_StreamID = 5, rst_ErrorCode = 7, rst_ByteOffset = 1000\<rparr>, []) \<and>
   ParseGoawayFrame 37 (GoawayFrame_Write 37 \<lparr>ga_ErrorCode = 1, ga_LastGoodStream = 2, ga_ReasonPhrase = [65, 66]\<rparr>)
     = Inr (\<lparr>ga_ErrorCode = 1, ga_LastGoodStream = 2, ga_ReasonPhrase = [65, 66]\<rparr>, [])"
  using control_frames_round_trip [of "\<lparr>rst_StreamID = 5, rst_ErrorCode = 7, rst_ByteOffset = 1000\<rparr>"
      "\<lparr>blocked_StreamID = 5\<rparr>" "\<lparr>wu_StreamID = 5, wu_ByteOffset = 9\<rparr>"
      "\<lparr>ga_ErrorCode = 1, ga_LastGoodStream = 2, ga_ReasonPhrase = [65, 66]\<rparr>"
      "\<lparr>cc_ErrorCode = 1, cc_ReasonPhrase = []\<rparr>" 39 "[]"]
    control_frames_round_trip [of "\<lparr>rst_StreamID = 5, rst_ErrorCode = 7, rst_ByteOffset = 1000\<rparr>"
      "\<lparr>blocked_StreamID = 5\<rparr>" "\<lparr>wu_StreamID = 5, wu_ByteOffset = 9\<rparr>"
      "\<lparr>ga_ErrorCode = 1, ga_LastGoodStream = 2, ga_ReasonPhrase = [65, 66]\<rparr>"
      "\<lparr>cc_ErrorCode = 1, cc_ReasonPhrase = []\<rparr>" 37 "[]"]
  by (simp add: MaxPacketSize_def)

lemma stop_waiting_write:
  assumes "sw_LeastUnacked f \<le> sw_PacketNumber f" "0 < sw_PacketNumber f" "sw_PacketNumber f < 2 ^ 64"
    and len: "sw_PacketNumberLen f \<in> {PacketNumberLen1, PacketNumberLen2, PacketNumberLen4, PacketNumberLen6}"
    and d: "d = sw_PacketNumber f - sw_LeastUnacked f" "d < 2 ^ (8 * sw_PacketNumberLen f)"
  shows "StopWaitingFrame_Write v f = wbytes (6 # uint_bytes (GetByteOrder v) (sw_PacketNumberLen f) d)"
proof -
  have d': "sub64 (sw_PacketNumber f) (sw_LeastUnacked f) = d" "d < 2 ^ 64"
    using assms(1,3) by (simp_all add: sub64_small d)
  show ?thesis
    using assms(1,2) len d(2) d'
    by (auto simp: StopWaitingFrame_Write_def Let_def pn_len_defs uint_bytes_1 write_uint_bytes wchecked_def)
      (auto simp: wappend_def wbytes_def uint_bytes_1)
qed

lemma stop_waiting_read:
  assumes "k \<in> {PacketNumberLen1, PacketNumberLen2, PacketNumberLen4, PacketNumberLen6}" "d < 2 ^ (8 * k)" "pn < 2 ^ 64" "d < 2 ^ 64"
  shows "ParseStopWaitingFrame pn k v (6 # uint_bytes (GetByteOrder v) k d @ rest) =
    (if d \<ge> pn then Inl InvalidStopWaitingData
     else Inr (\<lparr>sw_LeastUnacked = pn - d, sw_PacketNumberLen = 0, sw_PacketNumber = 0\<rparr>, rest))"
proof -
  have "ReadUintN (GetByteOrder v) k (uint_bytes (GetByteOrder v) k d @ rest) = Inr (word_of_nat d, rest)"
    using assms(1,2) by (intro read_uint_bytes) (auto simp: pn_len_defs)
  then show ?thesis
    using assms(3,4) by (auto simp: ParseStopWaitingFrame_def pbind_pread unat_word64 pret_def pfail_def sub64_small)
qed

lemma stop_waiting_bytes:
  assumes "sw_LeastUnacked f \<le> sw_PacketNumber f" "0 < sw_LeastUnacked f" "sw_PacketNumber f < 2 ^ 64"
    and len: "sw_PacketNumberLen f \<in> {PacketNumberLen1, PacketNumberLen2, PacketNumberLen4, PacketNumberLen6}"
    and fits: "sw_PacketNumber f - sw_LeastUnacked f < 2 ^ (8 * sw_PacketNumberLen f)"
  obtains b where "StopWaitingFrame_Write v f = wbytes (6 # b)" "length b = sw_PacketNumberLen f"
    "\<And>rest. ParseStopWaitingFrame (sw_PacketNumber f) (sw_PacketNumberLen f) v (6 # b @ rest) =
       Inr (f\<lparr>sw_PacketNumberLen := 0, sw_PacketNumber := 0\<rparr>, rest)"
proof (rule that)
  let ?d = "sw_PacketNumber f - sw_LeastUnacked f"
  show "StopWaitingFrame_Write v f = wbytes (6 # uint_bytes (GetByteOrder v) (sw_PacketNumberLen f) ?d)"
    using assms by (intro stop_waiting_write) auto
  show "ParseStopWaitingFrame (sw_PacketNumber f) (sw_PacketNumberLen f) v
      (6 # uint_bytes (GetByteOrder v) (sw_PacketNumberLen f) ?d @ rest) =
       Inr (f\<lparr>sw_PacketNumberLen := 0, sw_PacketNumber := 0\<rparr>, rest)" for rest
    using assms(1-3) by (subst stop_waiting_read [OF len fits]) auto
qed simp

text \<open>
  A STOP_WAITING frame written in a packet is read by the peer, who knows the packet number,
  as the same least unacknowledged packet, whenever the distance fits the packet number length;
  a distance of the whole packet number is refused.
\<close>

theorem stop_waiting_round_trip:
  assumes "sw_LeastUnacked f \<le> sw_PacketNumber f" "0 < sw_PacketNumber f" "sw_PacketNumber f < 2 ^ 64"
    and len: "sw_PacketNumberLen f \<in> {PacketNumberLen1, PacketNumberLen2, PacketNumberLen4, PacketNumberLen6}"
    and fits: "sw_PacketNumber f - sw_LeastUnacked f < 2 ^ (8 * sw_PacketNumberLen f)"
  shows "\<exists>b. StopWaitingFrame_Write v f = Some (Inr b) \<and> StopWaitingFrame_MinLength f = Inr (length b) \<and>
     ParseStopWaitingFrame (sw_PacketNumber f) (sw_PacketNumberLen f) v (b @ rest) =
       (if sw_LeastUnacked f = 0 then Inl InvalidStopWaitingData
        else Inr (\<lparr>sw_LeastUnacked = sw_LeastUnacked f, sw_PacketNumberLen = 0, sw_PacketNumber = 0\<rparr>, rest))"
proof -
  let ?d = "sw_PacketNumber f - sw_LeastUnacked f"
  let ?b = "6 # uint_bytes (GetByteOrder v) (sw_PacketNumberLen f) ?d"
  have "StopWaitingFrame_Write v f = Some (Inr ?b)"
    using stop_waiting_write [OF assms(1-4) refl fits] by (simp add: wbytes_def)
  moreover have "StopWaitingFrame_MinLength f = Inr (length ?b)"
    using len by (auto simp: StopWaitingFrame_MinLength_def pn_len_defs)
  ultimately show ?thesis
    using assms(1-3) stop_waiting_read [OF len fits assms(3), of v rest] by auto
qed

theorem stop_waiting_round_trip_witness:
  "\<exists>b. StopWaitingFrame_Write 39 \<lparr>sw_LeastUnacked = 90, sw_PacketNumberLen = 2, sw_PacketNumber = 100\<rparr> = Some (Inr b) \<and>
     ParseStopWaitingFrame 100 2 39 b = Inr (\<lparr>sw_LeastUnacked = 90, sw_PacketNumberLen = 0, sw_PacketNumber = 0\<rparr>, [])"
  using stop_waiting_round_trip [of "\<lparr>sw_LeastUnacked = 90, sw_PacketNumberLen = 2, sw_PacketNumber = 100\<rparr>" 39 "[]"]
  by (auto simp: pn_len_defs)

end
