(* ===== verification/Frame_Sorter.thy ===== *)
theory Frame_Sorter
  imports Wire_Frames
begin

text \<open>
  Model of \<^verbatim>\<open>mp-quic/stream_frame_sorter.go\<close>, which puts the STREAM frames of one stream in
  order.  The linked list of gaps is a list of intervals; the pointers \<^verbatim>\<open>gap\<close> and \<^verbatim>\<open>endGap\<close> of
  \<^verbatim>\<open>Push\<close> are a split of that list, and \<open>end_gap\<close> says whether \<^verbatim>\<open>endGap\<close> is \<^verbatim>\<open>gap\<close> itself, a later
  element or an element that was already removed.
\<close>

type_synonym ByteInterval = "ByteCount \<times> ByteCount"

datatype sorter_error =
    errTooManyGapsInReceivedStreamData
  | errDuplicateStreamData
  | errEmptyStreamData
  | errNoGapFound
  | errNoEndGapFound

record streamFrameSorter =
  queuedFrames :: "ByteCount \<rightharpoonup> StreamFrame"
  readPosition :: ByteCount
  gaps :: "ByteInterval list"

definition protocol_MaxByteCount :: ByteCount where "protocol_MaxByteCount = 2 ^ 64 - 1"

definition MaxStreamFrameSorterGaps :: nat where "MaxStreamFrameSorterGaps = 2500"

definition newStreamFrameSorter :: streamFrameSorter where
  "newStreamFrameSorter =
     \<lparr>queuedFrames = Map.empty, readPosition = 0, gaps = [(0, protocol_MaxByteCount)]\<rparr>"

section \<open>Push\<close>

text \<open>The first loop: the gaps before the one found, that gap, and the gaps after it.\<close>

fun find_gap :: "ByteCount \<Rightarrow> ByteCount \<Rightarrow> ByteInterval list \<Rightarrow>
    sorter_error + ByteInterval list \<times> ByteInterval \<times> ByteInterval list" where
  "find_gap start final [] = Inl errNoGapFound"
| "find_gap start final ((a, b) # gs) =
     (if final \<le> a then Inl errDuplicateStreamData
      else if final > a \<and> start \<le> b then Inr ([], (a, b), gs)
      else map_sum id (map_prod (Cons (a, b)) id) (find_gap start final gs))"

datatype end_gap = SameGap | OtherGap ByteInterval | RemovedGap ByteInterval

text \<open>
  The second loop: \<open>cur\<close> is the gap \<^verbatim>\<open>endGap\<close> points to, \<open>same\<close> says whether it is \<^verbatim>\<open>gap\<close>, and
  \<open>post\<close> are the gaps behind it.  The result is the final \<^verbatim>\<open>endGap\<close>, the gaps behind it and the
  queued frames that are left.
\<close>

fun end_gap_loop :: "ByteCount \<Rightarrow> ByteInterval \<Rightarrow> bool \<Rightarrow> ByteInterval list \<Rightarrow> (ByteCount \<rightharpoonup> StreamFrame) \<Rightarrow>
    sorter_error option \<times> end_gap \<times> ByteInterval list \<times> (ByteCount \<rightharpoonup> StreamFrame)" where
  "end_gap_loop final cur same [] q =
     (if final \<ge> snd cur
      then (Some errNoEndGapFound, if same then SameGap else OtherGap cur, [], q)
      else (None, if same then SameGap else OtherGap cur, [], q))"
| "end_gap_loop final cur same (next # post) q =
     (if final \<ge> snd cur
      then if final \<le> fst next
           then (None, if same then SameGap else RemovedGap cur, next # post, q)
           else end_gap_loop final next False post (q(snd cur := None))
      else (None, if same then SameGap else OtherGap cur, next # post, q))"

fun end_gap_value :: "ByteInterval \<Rightarrow> end_gap \<Rightarrow> ByteInterval" where
  "end_gap_value gap SameGap = gap"
| "end_gap_value gap (OtherGap g) = g"
| "end_gap_value gap (RemovedGap g) = g"

fun end_gap_list :: "end_gap \<Rightarrow> ByteInterval list" where
  "end_gap_list (OtherGap g) = [g]"
| "end_gap_list eg = []"

text \<open>The update of the gap list; an assignment to a removed element does not change the list.\<close>

definition update_gaps :: "ByteCount \<Rightarrow> ByteCount \<Rightarrow> ByteInterval \<Rightarrow> end_gap \<Rightarrow> ByteInterval list" where
  "update_gaps start final gap eg =
     (if start = fst gap
      then (case eg of
              SameGap \<Rightarrow> (if final \<ge> snd gap then [] else [(final, snd gap)])
            | OtherGap g \<Rightarrow> (if final \<ge> snd gap then [] else [gap]) @ (if final < snd g then [(final, snd g)] else [g])
            | RemovedGap g \<Rightarrow> (if final \<ge> snd gap then [] else [gap]))
      else if final = snd (end_gap_value gap eg) then (fst gap, start) # end_gap_list eg
      else (case eg of
              SameGap \<Rightarrow> [(fst gap, start), (final, snd gap)]
            | OtherGap g \<Rightarrow> [(fst gap, start), (final, snd g)]
            | RemovedGap g \<Rightarrow> [(fst gap, start)]))"

definition cut_front :: "nat \<Rightarrow> StreamFrame \<Rightarrow> StreamFrame" where
  "cut_front n f = f\<lparr>Offset := add64 (Offset f) n, Data := drop n (Data f)\<rparr>"

text \<open>The part of \<^verbatim>\<open>Push\<close> after the frame was cut at a queued frame with its offset.\<close>

definition push_gaps :: "StreamFrame \<Rightarrow> streamFrameSorter \<Rightarrow> sorter_error option \<times> streamFrameSorter" where
  "push_gaps frame s =
     (let start = Offset frame; final = add64 (Offset frame) (DataLen frame)
      in case find_gap start final (gaps s) of
           Inl e \<Rightarrow> (Some e, s)
         | Inr (pre, gap, post) \<Rightarrow>
             let frame = (if start < fst gap then cut_front (fst gap - start) frame else frame);
                 start = (if start < fst gap then fst gap else start)
             in case end_gap_loop final gap True post (queuedFrames s) of
                  (Some e, eg, post', q) \<Rightarrow>
                    (Some e, s\<lparr>gaps := pre @ gap # end_gap_list eg @ post', queuedFrames := q\<rparr>)
                | (None, eg, post', q) \<Rightarrow>
                    let e = snd (end_gap_value gap eg);
                        frame = (if final > e then frame\<lparr>Data := take (DataLen frame - (final - e)) (Data frame)\<rparr>
                                 else frame);
                        final = (if final > e then e else final);
                        s = s\<lparr>gaps := pre @ update_gaps start final gap eg @ post', queuedFrames := q\<rparr>
                    in if length (gaps s) > MaxStreamFrameSorterGaps
                       then (Some errTooManyGapsInReceivedStreamData, s)
                       else (None, s\<lparr>queuedFrames := q(Offset frame \<mapsto> frame)\<rparr>))"

definition Push :: "StreamFrame \<Rightarrow> streamFrameSorter \<Rightarrow> sorter_error option \<times> streamFrameSorter" where
  "Push frame s =
     (if DataLen frame = 0
      then if FinBit frame then (None, s\<lparr>queuedFrames := (queuedFrames s)(Offset frame \<mapsto> frame)\<rparr>)
           else (Some errEmptyStreamData, s)
      else case queuedFrames s (Offset frame) of
             None \<Rightarrow> push_gaps frame s
           | Some oldFrame \<Rightarrow>
               if DataLen frame \<le> DataLen oldFrame then (Some errDuplicateStreamData, s)
               else push_gaps (cut_front (DataLen oldFrame) frame) s)"

section \<open>Head and Pop\<close>

definition Head :: "streamFrameSorter \<Rightarrow> StreamFrame option" where
  "Head s = queuedFrames s (readPosition s)"

definition Pop :: "streamFrameSorter \<Rightarrow> StreamFrame option \<times> streamFrameSorter" where
  "Pop s =
     (case Head s of
        None \<Rightarrow> (None, s)
      | Some frame \<Rightarrow>
          (Some frame, s\<lparr>readPosition := add64 (readPosition s) (DataLen frame),
                         queuedFrames := (queuedFrames s)(Offset frame := None)\<rparr>))"

section \<open>Tilings\<close>

text \<open>The queued frames lie end to end from \<open>a\<close> to \<open>b\<close>.\<close>

inductive tiles :: "(ByteCount \<rightharpoonup> StreamFrame) \<Rightarrow> ByteCount \<Rightarrow> ByteCount \<Rightarrow> bool" for q where
  tiles_empty: "tiles q a a"
| tiles_step: "q a = Some f \<Longrightarrow> 0 < DataLen f \<Longrightarrow> tiles q (a + DataLen f) b \<Longrightarrow> tiles q a b"

lemma tiles_le: "tiles q a b \<Longrightarrow> a \<le> b"
  by (induction rule: tiles.induct) auto

lemma tiles_trans: "tiles q a b \<Longrightarrow> tiles q b c \<Longrightarrow> tiles q a c"
  by (induction rule: tiles.induct) (auto intro: tiles.intros)

lemma tiles_agree: "tiles q a b \<Longrightarrow> (\<And>k. a \<le> k \<Longrightarrow> k < b \<Longrightarrow> q' k = q k) \<Longrightarrow> tiles q' a b"
proof (induction rule: tiles.induct)
  case (tiles_empty a)
  show ?case by (rule tiles.tiles_empty)
next
  case (tiles_step a f b)
  have "a < b" using tiles_le [OF tiles_step.hyps(3)] tiles_step.hyps(2) by simp
  then have "q' a = Some f" using tiles_step.prems tiles_step.hyps(1) by simp
  then show ?case using tiles_step by (intro tiles.tiles_step [of q' a f]) auto
qed

lemma tiles_one: "q a = Some f \<Longrightarrow> 0 < DataLen f \<Longrightarrow> tiles q a (a + DataLen f)"
  by (blast intro: tiles.intros)

lemma tiles_head: "tiles q a b \<Longrightarrow> a < b \<Longrightarrow> \<exists>f. q a = Some f \<and> 0 < DataLen f \<and> tiles q (a + DataLen f) b"
  by (erule tiles.cases) auto

text \<open>Gaps with tiled regions before, between and after them.\<close>

fun chain :: "(ByteCount \<rightharpoonup> StreamFrame) \<Rightarrow> ByteCount \<Rightarrow> ByteInterval list \<Rightarrow> ByteCount \<Rightarrow> bool" where
  "chain q a [] b \<longleftrightarrow> tiles q a b"
| "chain q a ((s, e) # gs) b \<longleftrightarrow> tiles q a s \<and> s < e \<and> chain q e gs b"

definition gap_bytes :: "ByteInterval list \<Rightarrow> ByteCount set" where
  "gap_bytes gs = (\<Union>(s, e) \<in> set gs. {s..<e})"

lemma gap_bytes_simps [simp]:
  "gap_bytes [] = {}" "gap_bytes ((s, e) # gs) = {s..<e} \<union> gap_bytes gs"
  "gap_bytes (gs @ gs') = gap_bytes gs \<union> gap_bytes gs'"
  by (auto simp: gap_bytes_def)

lemma gap_bytesI: "(a, b) \<in> set gs \<Longrightarrow> a \<le> x \<Longrightarrow> x < b \<Longrightarrow> x \<in> gap_bytes gs"
  by (force simp: gap_bytes_def)

lemma chain_append:
  "chain q a (gs @ (s, e) # gs') b \<longleftrightarrow> chain q a gs s \<and> s < e \<and> chain q e gs' b"
  by (induction gs arbitrary: a) auto

lemma chain_le: "chain q a gs b \<Longrightarrow> a \<le> b"
  by (induction gs arbitrary: a) (force dest: tiles_le)+

lemma chain_bytes: "chain q a gs b \<Longrightarrow> gap_bytes gs \<subseteq> {a..<b}"
proof (induction gs arbitrary: a)
  case (Cons g gs)
  obtain s e where g: "g = (s, e)" by (cases g)
  have "a \<le> s" "s < e" "e \<le> b" "gap_bytes gs \<subseteq> {e..<b}"
    using Cons tiles_le chain_le by (auto simp: g)
  then show ?case by (auto simp: g)
qed simp

lemma chain_bytes_first: "chain q a ((s, e) # gs) b \<Longrightarrow> gap_bytes ((s, e) # gs) \<subseteq> {s..<b}"
proof -
  assume "chain q a ((s, e) # gs) b"
  then have "chain q s ((s, e) # gs) b" by (simp add: tiles_empty)
  then show ?thesis by (rule chain_bytes)
qed

lemma chain_agree:
  "chain q a gs b \<Longrightarrow> (\<And>k. a \<le> k \<Longrightarrow> k < b \<Longrightarrow> k \<notin> gap_bytes gs \<Longrightarrow> q' k = q k) \<Longrightarrow> chain q' a gs b"
proof (induction gs arbitrary: a)
  case Nil
  then show ?case using tiles_agree by simp
next
  case (Cons g gs)
  obtain s e where g: "g = (s, e)" by (cases g)
  have c: "tiles q a s" "s < e" "chain q e gs b" using Cons.prems(1) by (auto simp: g)
  have le: "a \<le> s" "e \<le> b" using c tiles_le chain_le by auto
  have "gap_bytes (g # gs) \<subseteq> {s..<b}" using chain_bytes_first Cons.prems(1) unfolding g by metis
  then have "tiles q' a s" using Cons.prems(2) le c(2) by (intro tiles_agree [OF c(1)]) fastforce
  moreover have "chain q' e gs b"
  proof (rule Cons.IH [OF c(3)])
    fix k assume "e \<le> k" "k < b" "k \<notin> gap_bytes gs"
    then show "q' k = q k" using Cons.prems(2) [of k] le c(2) by (simp add: g)
  qed
  ultimately show ?case using c(2) by (simp add: g)
qed

lemma chain_join_tiles: "tiles q a b \<Longrightarrow> chain q b gs c \<Longrightarrow> chain q a gs c"
  by (cases gs) (auto intro: tiles_trans)

lemma chain_join: "chain q a gs b \<Longrightarrow> chain q b gs' c \<Longrightarrow> chain q a (gs @ gs') c"
proof (induction gs arbitrary: a)
  case Nil
  then show ?case using chain_join_tiles by simp
next
  case (Cons g gs)
  then show ?case by (cases g) auto
qed

section \<open>The two loops\<close>

lemma find_gap_Inr:
  assumes "find_gap start final gs = Inr (pre, (a, b), post)"
  shows "gs = pre @ (a, b) # post" "\<forall>(c, d) \<in> set pre. d < start" "a < final" "start \<le> b"
  using assms
proof (induction gs arbitrary: pre)
  case (Cons g gs)
  obtain c d where g: "g = (c, d)" by (cases g)
  {
    case 1
    then show ?case using Cons.IH(1) by (auto simp: g map_sum_def split: if_splits sum.splits)
  next
    case 2
    then show ?case using Cons.IH(2) by (fastforce simp: g map_sum_def split: if_splits sum.splits)
  next
    case 3
    then show ?case using Cons.IH(3) by (auto simp: g map_sum_def split: if_splits sum.splits)
  next
    case 4
    then show ?case using Cons.IH(4) by (auto simp: g map_sum_def split: if_splits sum.splits)
  }
qed auto

lemma find_gap_duplicate:
  assumes "find_gap start final gs = Inl errDuplicateStreamData" "chain q a gs b"
  shows "gap_bytes gs \<inter> {start..<final} = {}"
  using assms
proof (induction gs arbitrary: a)
  case (Cons g gs)
  obtain c d where g: "g = (c, d)" by (cases g)
  have ch: "tiles q a c" "c < d" "chain q d gs b" using Cons.prems(2) by (auto simp: g)
  have after: "gap_bytes gs \<subseteq> {d..<b}" using chain_bytes [OF ch(3)] .
  show ?case
  proof (cases "final \<le> c")
    case True
    then show ?thesis using after ch(2) by (fastforce simp: g)
  next
    case False
    then have "start > d" "find_gap start final gs = Inl errDuplicateStreamData"
      using Cons.prems(1) by (auto simp: g map_sum_def split: if_splits sum.splits)
    then show ?thesis using Cons.IH [OF _ ch(3)] by (auto simp: g)
  qed
qed simp

lemma find_gap_found:
  "gs \<noteq> [] \<Longrightarrow> start \<le> snd (last gs) \<Longrightarrow> find_gap start final gs \<noteq> Inl errNoGapFound"
proof (induction gs)
  case (Cons g gs)
  then show ?case
    by (cases g) (auto simp: map_sum_def split: sum.split if_splits)
qed simp

text \<open>
  The second loop ends at the last gap that starts before the end of the frame.  It drops frames
  queued behind the gaps it passed.
\<close>

lemma end_gap_loop_ok:
  assumes "end_gap_loop final cur same post q = (r, eg, post', q')" "chain q (snd cur) post M"
    and "fst cur < snd cur" "fst cur < final" "final < M" "snd (last (cur # post)) = M"
  shows "\<exists>mid es ee. r = None \<and> cur # post = mid @ (es, ee) # post' \<and>
     eg = (if same \<and> mid = [] then SameGap else if final < ee then OtherGap (es, ee) else RemovedGap (es, ee)) \<and>
     es < final \<and> (ee \<le> final \<longrightarrow> post' \<noteq> [] \<and> final \<le> fst (hd post')) \<and>
     (\<forall>k. q' k = q k \<or> q' k = None \<and> snd cur \<le> k \<and> k \<le> es \<and> k < final)"
  using assms
proof (induction post arbitrary: cur same q)
  case Nil
  then show ?case
    by (intro exI [of _ "[]"] exI [of _ "fst cur"] exI [of _ "snd cur"]) (auto split: if_splits)
next
  case (Cons nxt post)
  obtain cs ce where cur: "cur = (cs, ce)" by (cases cur)
  obtain ns ne where nxt: "nxt = (ns, ne)" by (cases nxt)
  have ch: "tiles q ce ns" "ns < ne" "chain q ne post M" "ce \<le> ns"
    using Cons.prems(2) tiles_le by (auto simp: cur nxt)
  show ?case
  proof (cases "ce \<le> final \<and> ns < final")
    case False
    then have "r = None" "post' = nxt # post" "q' = q"
      "eg = (if same then SameGap else if final < ce then OtherGap cur else RemovedGap cur)"
      using Cons.prems(1) by (auto simp: cur nxt split: if_splits)
    then show ?thesis
      using False Cons.prems(4)
      by (intro exI [of _ "[]"] exI [of _ cs] exI [of _ ce]) (auto simp: cur nxt)
  next
    case True
    let ?q = "q(ce := None)"
    have loop: "end_gap_loop final nxt False post ?q = (r, eg, post', q')"
      using True Cons.prems(1) by (simp add: cur nxt)
    have c: "chain ?q (snd nxt) post M"
      unfolding nxt snd_conv by (rule chain_agree [OF ch(3)]) (use ch(2,4) in auto)
    have nl: "fst nxt < snd nxt" "fst nxt < final" "snd (last (nxt # post)) = M"
      using True ch(2) Cons.prems(6) by (simp_all add: nxt)
    from Cons.IH [OF loop c nl(1,2) Cons.prems(5) nl(3)] obtain mid es ee where
      r: "r = None" "nxt # post = mid @ (es, ee) # post'"
      and eg: "eg = (if final < ee then OtherGap (es, ee) else RemovedGap (es, ee))"
      and e: "es < final" "ee \<le> final \<longrightarrow> post' \<noteq> [] \<and> final \<le> fst (hd post')"
      and k: "\<forall>k. q' k = ?q k \<or> q' k = None \<and> snd nxt \<le> k \<and> k \<le> es \<and> k < final"
      by (simp only: simp_thms if_False) blast
    have "chain q ce (nxt # post) M" using Cons.prems(2) by (simp add: cur)
    then have "chain q ce mid es" unfolding r(2) by (simp add: chain_append)
    then have "ce \<le> es" by (rule chain_le)
    then have "q' x = q x \<or> q' x = None \<and> ce \<le> x \<and> x \<le> es \<and> x < final" for x
      using k [rule_format, of x] ch(2,4) True by (cases "x = ce") (auto simp: nxt)
    then show ?thesis
      using r eg e by (intro exI [of _ "cur # mid"] exI [of _ es] exI [of _ ee]) (simp add: cur)
  qed
qed

section \<open>Filling the gaps\<close>

definition separate :: "ByteInterval list \<Rightarrow> bool" where
  "separate gs \<longleftrightarrow> sorted_wrt (\<lambda>g h. snd g < fst h) gs"

lemma chain_last: "chain q a gs b \<Longrightarrow> b - 1 \<in> gap_bytes gs \<Longrightarrow> gs \<noteq> [] \<and> snd (last gs) = b"
proof (induction gs arbitrary: a)
  case (Cons g gs)
  obtain s e where g: "g = (s, e)" by (cases g)
  have c: "s < e" "chain q e gs b" "e \<le> b" using Cons.prems(1) chain_le by (auto simp: g)
  show ?case
  proof (cases "b - 1 \<in> gap_bytes gs")
    case True
    then show ?thesis using Cons.IH [OF c(2)] by auto
  next
    case False
    then have b: "e = b" using Cons.prems(2) c by (auto simp: g)
    have "gs = []"
    proof (rule ccontr)
      assume "gs \<noteq> []"
      then obtain s' e' gs' where gs: "gs = (s', e') # gs'" by (metis list.exhaust prod.exhaust)
      then have "e \<le> s'" "s' < e'" "e' \<le> b" using c(2) tiles_le chain_le by auto
      then show False using b by simp
    qed
    then show ?thesis using b by (simp add: g)
  qed
qed simp

text \<open>
  A frame from \<open>start\<close> to \<open>final\<close> and the gaps \<open>(gs, ge)\<close> and \<open>(es, ee)\<close> the two loops found: the
  part of the frame from \<open>max start gs\<close> to \<open>min final ee\<close> is kept.
\<close>

definition filling ::
  "(ByteCount \<rightharpoonup> StreamFrame) \<Rightarrow> ByteCount \<Rightarrow> ByteCount \<Rightarrow> ByteInterval list \<Rightarrow> ByteInterval \<Rightarrow> ByteInterval list \<Rightarrow>
   ByteInterval list \<Rightarrow> ByteInterval \<Rightarrow> ByteInterval list \<Rightarrow> ByteCount \<Rightarrow> ByteCount \<Rightarrow> bool" where
  "filling q rp M pre gap post mid eg post' start final \<longleftrightarrow>
     chain q rp (pre @ gap # post) M \<and> separate (pre @ gap # post) \<and> gap # post = mid @ eg # post' \<and>
     fst eg < final \<and> (snd eg \<le> final \<longrightarrow> post' \<noteq> [] \<and> final \<le> fst (hd post')) \<and>
     (\<forall>g \<in> set pre. snd g < start) \<and> start < final \<and> start < snd gap"

lemma filling_facts:
  assumes "filling q rp M pre (gs, ge) post mid (es, ee) post' start final"
  shows "chain q rp pre gs" "gs < ge" "chain q gs mid es" "es < ee" "chain q ee post' M"
    "ge \<le> ee" "mid \<noteq> [] \<Longrightarrow> ge \<le> es" "mid = [] \<Longrightarrow> es = gs \<and> ee = ge"
    "gs \<le> max start gs" "max start gs < ge" "max start gs < min final ee"
proof -
  have f: "chain q rp (pre @ (gs, ge) # post) M" "(gs, ge) # post = mid @ (es, ee) # post'"
    "es < final" "start < final" "start < ge"
    using assms by (auto simp: filling_def)
  show c1: "chain q rp pre gs" "gs < ge" using f(1) by (simp_all add: chain_append)
  have "chain q gs ((gs, ge) # post) M" using f(1) by (simp add: chain_append tiles_empty)
  then show c2: "chain q gs mid es" "es < ee" "chain q ee post' M"
    unfolding f(2) by (simp_all add: chain_append)
  show m: "mid = [] \<Longrightarrow> es = gs \<and> ee = ge" using f(2) by auto
  show l: "ge \<le> es" if "mid \<noteq> []"
    using that f(2) c2(1) chain_le by (cases mid) auto
  show "ge \<le> ee" using m l c2(2) by fastforce
  then show "max start gs < min final ee" using f(3-5) c1(2) c2(2) chain_le [OF c2(1)] by auto
  show "gs \<le> max start gs" "max start gs < ge" using f(5) c1(2) by auto
qed

lemma filling_update:
  assumes "filling q rp M pre (gs, ge) post mid (es, ee) post' start final"
    and "eg = (if mid = [] then SameGap else if final < ee then OtherGap (es, ee) else RemovedGap (es, ee))"
  shows "end_gap_value (gs, ge) eg = (es, ee)"
    "update_gaps (max start gs) (min final ee) (gs, ge) eg =
       (if max start gs = gs then [] else [(gs, max start gs)]) @
       (if min final ee < ee then [(min final ee, ee)] else [])"
proof -
  note f = filling_facts [OF assms(1)]
  have es: "es < final" using assms(1) by (simp add: filling_def)
  show "end_gap_value (gs, ge) eg = (es, ee)" using f(8) by (auto simp: assms(2))
  show "update_gaps (max start gs) (min final ee) (gs, ge) eg =
       (if max start gs = gs then [] else [(gs, max start gs)]) @
       (if min final ee < ee then [(min final ee, ee)] else [])"
  proof (cases "mid = []")
    case True
    then show ?thesis using f(8) by (auto simp: update_gaps_def assms(2))
  next
    case False
    then show ?thesis using f(4,6,7) es by (auto simp: update_gaps_def assms(2))
  qed
qed

lemma filling_bytes:
  assumes "filling q rp M pre (gs, ge) post mid (es, ee) post' start final"
    and "start' = max start gs" "final' = min final ee"
  shows "gap_bytes (pre @ ((if start' = gs then [] else [(gs, start')]) @ (if final' < ee then [(final', ee)] else [])) @ post')
      = gap_bytes (pre @ (gs, ge) # post) - {start'..<final'}"
    "gap_bytes (pre @ (gs, ge) # post) \<inter> {start..<final} \<subseteq> {start'..<final'}"
proof -
  note f = filling_facts [OF assms(1)]
  define P where "P = gap_bytes pre" define Q where "Q = gap_bytes post'"
  define K where "K = gap_bytes mid \<union> {es..<ee}"
  have split: "(gs, ge) # post = mid @ (es, ee) # post'" and es: "es < final"
    and pre: "\<forall>g \<in> set pre. snd g < start" and hd: "ee \<le> final \<longrightarrow> post' \<noteq> [] \<and> final \<le> fst (hd post')"
    using assms(1) by (auto simp: filling_def)
  have P: "x < gs \<and> x < start" if "x \<in> P" for x
  proof -
    have "x < gs" using chain_bytes [OF f(1)] that by (auto simp: P_def)
    moreover have "x < start" using pre that by (fastforce simp: P_def gap_bytes_def)
    ultimately show ?thesis ..
  qed
  have Q: "ee \<le> x \<and> final \<le> x" if "x \<in> Q" for x
  proof -
    have x: "ee \<le> x" using chain_bytes [OF f(5)] that by (auto simp: Q_def)
    moreover have "final \<le> x" if l: "ee \<le> final"
    proof -
      obtain c d r where post': "post' = (c, d) # r" "final \<le> c" using hd l by (cases post') auto
      then have "Q \<subseteq> {c..<M}" using chain_bytes_first f(5) unfolding Q_def by metis
      then show ?thesis using post'(2) \<open>x \<in> Q\<close> by auto
    qed
    ultimately show ?thesis by fastforce
  qed
  have K1: "x \<in> K" if "gs \<le> x" "x < ge" for x
    using that split by (cases mid) (auto simp: K_def)
  have K2: "gs \<le> x \<and> x < ee" if "x \<in> K" for x
    using that chain_bytes [OF f(3)] chain_le [OF f(3)] f(4) by (force simp: K_def)
  have K3: "x \<in> K" if "es \<le> x" "x < ee" for x using that by (simp add: K_def)
  have all: "gap_bytes (pre @ (gs, ge) # post) = P \<union> K \<union> Q"
    unfolding split by (auto simp: P_def K_def Q_def)
  have s': "gs \<le> start'" "start' < ge" "start \<le> start'" "start' = start \<or> start' = gs"
    using f(9,10) assms(2) by auto
  have e': "final' \<le> final" "final' \<le> ee" "final' = final \<or> final' = ee" using assms(3) by auto
  show "gap_bytes (pre @ (gs, ge) # post) \<inter> {start..<final} \<subseteq> {start'..<final'}"
    unfolding all using P Q K2 s'(4) e'(3) by fastforce
  have new: "gap_bytes (pre @ ((if start' = gs then [] else [(gs, start')]) @ (if final' < ee then [(final', ee)] else [])) @ post')
      = P \<union> {gs..<start'} \<union> {final'..<ee} \<union> Q"
    by (auto simp: P_def Q_def)
  show "gap_bytes (pre @ ((if start' = gs then [] else [(gs, start')]) @ (if final' < ee then [(final', ee)] else [])) @ post')
      = gap_bytes (pre @ (gs, ge) # post) - {start'..<final'}"
    unfolding new all
  proof (intro equalityI subsetI)
    fix x assume "x \<in> P \<union> {gs..<start'} \<union> {final'..<ee} \<union> Q"
    then consider "x \<in> P" | "gs \<le> x" "x < start'" | "final' \<le> x" "x < ee" | "x \<in> Q" by auto
    then show "x \<in> P \<union> K \<union> Q - {start'..<final'}"
    proof cases
      case 1 then show ?thesis using P s'(1) by fastforce
    next
      case 2 then show ?thesis using K1 s'(2) by auto
    next
      case 3
      then have "es \<le> x" using e'(3) es by auto
      then show ?thesis using K3 3 by auto
    next
      case 4 then show ?thesis using Q e'(2) by fastforce
    qed
  next
    fix x assume "x \<in> P \<union> K \<union> Q - {start'..<final'}"
    then show "x \<in> P \<union> {gs..<start'} \<union> {final'..<ee} \<union> Q" using K2 by fastforce
  qed
qed

lemma filling_chain:
  assumes "filling q rp M pre (gs, ge) post mid (es, ee) post' start final"
    and "start' = max start gs" "final' = min final ee"
    and q': "\<forall>k. q' k = q k \<or> q' k = None \<and> ge \<le> k \<and> k < ee \<and> k < final"
    and frame: "DataLen frame = final' - start'"
  shows "chain (q'(start' \<mapsto> frame)) rp
     (pre @ ((if start' = gs then [] else [(gs, start')]) @ (if final' < ee then [(final', ee)] else [])) @ post') M"
proof -
  note f = filling_facts [OF assms(1)]
  let ?q = "q'(start' \<mapsto> frame)"
  have s': "gs \<le> start'" "start' < ge" "start' < final'" "final' \<le> ee" using f(9-11) assms(2,3) by auto
  have left: "chain ?q rp pre gs"
    by (rule chain_agree [OF f(1)]) (use q' s' f(2) in \<open>fastforce\<close>)
  have right: "chain ?q ee post' M"
    by (rule chain_agree [OF f(5)]) (use q' s' f(6) in \<open>fastforce\<close>)
  have "tiles ?q start' (start' + DataLen frame)" using frame s'(3) by (intro tiles_one) auto
  then have mid: "tiles ?q start' final'" using frame s'(3) by simp
  have "chain ?q final' ((if final' < ee then [(final', ee)] else []) @ post') M"
    using right s'(4) by (auto simp: tiles_empty)
  then have mr: "chain ?q start' ((if final' < ee then [(final', ee)] else []) @ post') M"
    by (rule chain_join_tiles [OF mid])
  have "chain ?q gs ((if start' = gs then [] else [(gs, start')]) @ (if final' < ee then [(final', ee)] else []) @ post') M"
    using mr s'(1) by (auto simp: tiles_empty)
  from chain_join [OF left this] show ?thesis by simp
qed

lemma filling_separate:
  assumes "filling q rp M pre (gs, ge) post mid (es, ee) post' start final"
    and "start' = max start gs" "final' = min final ee"
  shows "separate
     (pre @ ((if start' = gs then [] else [(gs, start')]) @ (if final' < ee then [(final', ee)] else [])) @ post')"
proof -
  note f = filling_facts [OF assms(1)]
  have s': "gs \<le> start'" "start' < ge" "start' < final'" "final' \<le> ee" using f(9-11) assms(2,3) by auto
  have sep: "separate (pre @ (gs, ge) # post)" and split: "(gs, ge) # post = mid @ (es, ee) # post'"
    using assms(1) unfolding filling_def by blast+
  have pg: "\<forall>g \<in> set pre. snd g < gs" using sep by (simp add: separate_def sorted_wrt_append)
  have "separate (pre @ mid @ (es, ee) # post')" using sep unfolding split by simp
  then have s: "sorted_wrt (\<lambda>g h. snd g < fst h) pre" "sorted_wrt (\<lambda>g h. snd g < fst h) post'"
    "\<forall>g \<in> set pre. \<forall>h \<in> set post'. snd g < fst h" "\<forall>h \<in> set post'. ee < fst h"
    by (auto simp: separate_def sorted_wrt_append)
  have "start' < ee" using s' f(6) by simp
  then show ?thesis
    using s s' pg unfolding separate_def by (fastforce simp: sorted_wrt_append)
qed

section \<open>The invariant\<close>

text \<open>
  \<open>c\<close> is the content of the stream and \<open>U\<close> the set of offsets received so far.  A queued frame is
  a piece of the content, or the empty frame at its end that carries the FIN; exactly the offsets not
  received are in gaps; and between the gaps, and from the read position to the first gap, the queued
  frames lie end to end.
\<close>

definition frame_ok :: "bytes \<Rightarrow> StreamFrame \<Rightarrow> bool" where
  "frame_ok c f \<longleftrightarrow> 0 < DataLen f \<and> Offset f + DataLen f \<le> length c \<and> length c < protocol_MaxByteCount \<and>
     Data f = take (DataLen f) (drop (Offset f) c)"

definition end_frame :: "bytes \<Rightarrow> StreamFrame \<Rightarrow> bool" where
  "end_frame c f \<longleftrightarrow> DataLen f = 0 \<and> FinBit f \<and> Offset f = length c"

definition frame_bytes :: "StreamFrame \<Rightarrow> ByteCount set" where
  "frame_bytes f = {Offset f..<Offset f + DataLen f}"

definition sorter_inv :: "bytes \<Rightarrow> ByteCount set \<Rightarrow> streamFrameSorter \<Rightarrow> bool" where
  "sorter_inv c U s \<longleftrightarrow>
     chain (queuedFrames s) (readPosition s) (gaps s) protocol_MaxByteCount \<and> separate (gaps s) \<and>
     gap_bytes (gaps s) = {..<protocol_MaxByteCount} - U \<and> U \<subseteq> {..<length c} \<and>
     length c < protocol_MaxByteCount \<and>
     (\<forall>k f. queuedFrames s k = Some f \<longrightarrow> Offset f = k \<and> (frame_ok c f \<and> frame_bytes f \<subseteq> U \<or> end_frame c f))"

lemma sorter_invD:
  assumes "sorter_inv c U s"
  shows "chain (queuedFrames s) (readPosition s) (gaps s) protocol_MaxByteCount" "separate (gaps s)"
    "gap_bytes (gaps s) = {..<protocol_MaxByteCount} - U" "U \<subseteq> {..<length c}" "length c < protocol_MaxByteCount"
    "queuedFrames s k = Some f \<Longrightarrow> Offset f = k"
    "queuedFrames s k = Some f \<Longrightarrow> frame_ok c f \<and> frame_bytes f \<subseteq> U \<or> end_frame c f"
  using assms unfolding sorter_inv_def by blast+

lemma cut_front_ok:
  assumes "frame_ok c f" "n < DataLen f"
  shows "frame_ok c (cut_front n f)" "Offset (cut_front n f) = Offset f + n"
    "DataLen (cut_front n f) = DataLen f - n"
proof -
  have "Offset f + n < 2 ^ 64" using assms by (simp add: frame_ok_def protocol_MaxByteCount_def)
  then show o: "Offset (cut_front n f) = Offset f + n" by (simp add: cut_front_def add64_def)
  show l: "DataLen (cut_front n f) = DataLen f - n" by (simp add: cut_front_def DataLen_def)
  have "Data (cut_front n f) = drop n (take (DataLen f) (drop (Offset f) c))"
    using assms(1) by (simp add: cut_front_def frame_ok_def)
  then show "frame_ok c (cut_front n f)"
    using assms o l by (simp add: frame_ok_def drop_take add.commute)
qed

lemma cut_back_ok:
  assumes "frame_ok c f" "0 < n" "n \<le> DataLen f"
  shows "frame_ok c (f\<lparr>Data := take n (Data f)\<rparr>)" "DataLen (f\<lparr>Data := take n (Data f)\<rparr>) = n"
proof -
  show l: "DataLen (f\<lparr>Data := take n (Data f)\<rparr>) = n" using assms(3) by (simp add: DataLen_def)
  have "Data f = take (DataLen f) (drop (Offset f) c)" using assms(1) by (simp add: frame_ok_def)
  then have "take n (Data f) = take n (drop (Offset f) c)"
    using assms(3) by (metis min.absorb1 take_take)
  then show "frame_ok c (f\<lparr>Data := take n (Data f)\<rparr>)"
    using assms l by (auto simp: frame_ok_def)
qed

lemma sorter_inv_last:
  assumes "sorter_inv c U s"
  shows "gaps s \<noteq> []" "snd (last (gaps s)) = protocol_MaxByteCount"
proof -
  have "protocol_MaxByteCount - 1 \<in> gap_bytes (gaps s)"
    using sorter_invD(3-5) [OF assms] by auto
  then show "gaps s \<noteq> []" "snd (last (gaps s)) = protocol_MaxByteCount"
    using sorter_invD(1) [OF assms] chain_last by blast+
qed

lemma find_gap_errors: "find_gap start final gs = Inl e \<Longrightarrow> e = errDuplicateStreamData \<or> e = errNoGapFound"
  by (induction gs) (auto simp: map_sum_def split: if_splits sum.splits)

text \<open>The part of the frame that fills the gaps.\<close>

lemma kept_frame:
  assumes "frame_ok c f" "start' = max (Offset f) gs" "final' = min (Offset f + DataLen f) ee" "start' < final'"
    and "f1 = (if Offset f < gs then cut_front (gs - Offset f) f else f)"
    and "f2 = (if Offset f + DataLen f > ee then f1\<lparr>Data := take (DataLen f1 - (Offset f + DataLen f - ee)) (Data f1)\<rparr> else f1)"
  shows "frame_ok c f2" "Offset f2 = start'" "DataLen f2 = final' - start'"
proof -
  have f1: "frame_ok c f1" "Offset f1 = start'" "DataLen f1 = Offset f + DataLen f - start'"
    using assms(1-5) cut_front_ok [OF assms(1), of "gs - Offset f"] by (auto split: if_splits)
  show "frame_ok c f2" "Offset f2 = start'" "DataLen f2 = final' - start'"
  proof (atomize (full), cases "Offset f + DataLen f > ee")
    case True
    then have n: "DataLen f1 - (Offset f + DataLen f - ee) = ee - start'" "0 < ee - start'" "ee - start' \<le> DataLen f1"
      using assms(2-4) f1(3) by auto
    show "frame_ok c f2 \<and> Offset f2 = start' \<and> DataLen f2 = final' - start'"
      using True assms(3,6) f1(2) n(1) cut_back_ok [OF f1(1) n(2,3)] by simp
  next
    case False
    then show "frame_ok c f2 \<and> Offset f2 = start' \<and> DataLen f2 = final' - start'"
      using assms(3,6) f1 by simp
  qed
qed

text \<open>What the search for the gaps gives for a frame of the stream.\<close>

lemma push_search:
  assumes inv: "sorter_inv c U s" and f: "frame_ok c f"
    and found: "find_gap (Offset f) (Offset f + DataLen f) (gaps s) = Inr (pre, gap, post)"
    and ne: "Offset f \<noteq> snd gap"
    and loop: "end_gap_loop (Offset f + DataLen f) gap True post (queuedFrames s) = (r, eg, post', q')"
  shows "\<exists>mid es ee. r = None \<and>
     filling (queuedFrames s) (readPosition s) protocol_MaxByteCount pre gap post mid (es, ee) post'
       (Offset f) (Offset f + DataLen f) \<and>
     eg = (if mid = [] then SameGap
           else if Offset f + DataLen f < ee then OtherGap (es, ee) else RemovedGap (es, ee)) \<and>
     (\<forall>k. q' k = queuedFrames s k \<or> q' k = None \<and> snd gap \<le> k \<and> k \<le> es \<and> k < Offset f + DataLen f)"
proof -
  let ?start = "Offset f" and ?final = "Offset f + DataLen f" and ?M = protocol_MaxByteCount
  obtain gs ge where gap: "gap = (gs, ge)" by (cases gap)
  note fg = find_gap_Inr [OF found [unfolded gap]]
  have ch: "chain (queuedFrames s) (readPosition s) (pre @ (gs, ge) # post) ?M" "separate (pre @ (gs, ge) # post)"
    using inv fg(1) by (simp_all add: sorter_inv_def)
  then have c: "gs < ge" "chain (queuedFrames s) ge post ?M" by (simp_all add: chain_append)
  have fin: "?final < ?M" "?start < ?final" using f by (auto simp: frame_ok_def)
  have lst: "snd (last (gap # post)) = ?M" using sorter_inv_last(2) [OF inv] fg(1) gap by simp
  from end_gap_loop_ok [OF loop _ _ _ fin(1) lst] c fg(3) obtain mid es ee where
    r: "r = None" "(gs, ge) # post = mid @ (es, ee) # post'"
    "eg = (if mid = [] then SameGap else if ?final < ee then OtherGap (es, ee) else RemovedGap (es, ee))"
    "es < ?final" "ee \<le> ?final \<longrightarrow> post' \<noteq> [] \<and> ?final \<le> fst (hd post')"
    "\<forall>k. q' k = queuedFrames s k \<or> q' k = None \<and> ge \<le> k \<and> k \<le> es \<and> k < ?final"
    by (auto simp: gap)
  have "filling (queuedFrames s) (readPosition s) ?M pre gap post mid (es, ee) post' ?start ?final"
    using ch r(2,4,5) fg(2,4) fin(2) ne unfolding filling_def gap by fastforce
  then show ?thesis using r unfolding gap by (intro exI [of _ mid] exI [of _ es] exI [of _ ee]) simp
qed

text \<open>The first offset that is missing is the start of the first gap.\<close>

definition front :: "streamFrameSorter \<Rightarrow> ByteCount" where
  "front s = fst (hd (gaps s))"

lemma front_ok:
  assumes inv: "sorter_inv c U s"
  shows "{..<front s} \<subseteq> U" "front s \<notin> U" "tiles (queuedFrames s) (readPosition s) (front s)"
    "readPosition s \<le> front s" "front s \<le> length c"
proof -
  note i = sorter_invD [OF inv]
  obtain a b gs where g: "gaps s = (a, b) # gs" using sorter_inv_last(1) [OF inv] by (metis list.exhaust prod.exhaust)
  have ch: "tiles (queuedFrames s) (readPosition s) a" "a < b" using i(1) by (simp_all add: g)
  have fr: "front s = a" by (simp add: front_def g)
  have sub: "gap_bytes (gaps s) \<subseteq> {a..<protocol_MaxByteCount}" using chain_bytes_first i(1) unfolding g by metis
  have a: "a \<in> gap_bytes (gaps s)" using ch(2) by (simp add: g)
  have "x \<in> U" if "x < a" for x
  proof -
    have "x < protocol_MaxByteCount" using a i(3) that by auto
    then show ?thesis using sub i(3) that by fastforce
  qed
  then show s1: "{..<front s} \<subseteq> U" by (auto simp: fr)
  show "front s \<notin> U" using a i(3) by (simp add: fr)
  show "tiles (queuedFrames s) (readPosition s) (front s)" using ch(1) fr by simp
  then show "readPosition s \<le> front s" by (rule tiles_le)
  show "front s \<le> length c" using s1 i(4) by (meson lessThan_subset_iff subset_trans)
qed

text \<open>
  What \<^verbatim>\<open>Push\<close> does to the queue: the frame it adds has the FIN bit of the frame pushed, ends at a byte
  that was missing, and reaches as far as the frame pushed if the last byte of that was missing; the
  frames that reach the end of the stream, and those before the first gap, stay.
\<close>

definition kept_of :: "ByteCount set \<Rightarrow> StreamFrame \<Rightarrow> StreamFrame \<Rightarrow> bool" where
  "kept_of U f h \<longleftrightarrow> FinBit h = FinBit f \<and> 0 < DataLen h \<and> Offset h + DataLen h - 1 \<notin> U \<and>
     (Offset f + DataLen f - 1 \<notin> U \<longrightarrow> Offset h + DataLen h = Offset f + DataLen f)"

definition queued_from ::
  "bytes \<Rightarrow> ByteCount set \<Rightarrow> StreamFrame \<Rightarrow> streamFrameSorter \<Rightarrow> streamFrameSorter \<Rightarrow> bool" where
  "queued_from c U f s s' \<longleftrightarrow> readPosition s' = readPosition s \<and>
     (\<exists>k h. queuedFrames s' k = Some h \<and> kept_of U f h \<and>
        (\<forall>k' g. queuedFrames s' k' = Some g \<longrightarrow> queuedFrames s k' = Some g \<or> g = h)) \<and>
     (\<forall>k h. queuedFrames s k = Some h \<longrightarrow> k + DataLen h = length c \<or> k < front s \<longrightarrow> queuedFrames s' k = Some h)"

lemma queued_from_put:
  assumes "kept_of U f h" "q' = q''(a \<mapsto> h)"
    and "\<And>k g. q'' k = Some g \<Longrightarrow> queuedFrames s k = Some g"
    and "\<And>k g. queuedFrames s k = Some g \<Longrightarrow> k + DataLen g = length c \<or> k < front s \<Longrightarrow> k \<noteq> a \<and> q'' k = Some g"
  shows "queued_from c U f s (s\<lparr>gaps := N, queuedFrames := q'\<rparr>)"
proof -
  have "queuedFrames s k = Some g \<or> g = h" if "q' k = Some g" for k g
    using that assms(3) by (cases "k = a") (auto simp: assms(2))
  moreover have "q' a = Some h" by (simp add: assms(2))
  moreover have "q' k = Some g" if "queuedFrames s k = Some g" "k + DataLen g = length c \<or> k < front s" for k g
    using assms(4) [OF that] by (simp add: assms(2))
  moreover have "queuedFrames (s\<lparr>gaps := N, queuedFrames := q'\<rparr>) = q'" by simp
  moreover have "readPosition (s\<lparr>gaps := N, queuedFrames := q'\<rparr>) = readPosition s" by simp
  ultimately show ?thesis using assms(1) unfolding queued_from_def by metis
qed

lemma push_gaps_ok:
  assumes inv: "sorter_inv c U s" and f: "frame_ok c f"
    and ne: "\<forall>g \<in> set (gaps s). Offset f \<noteq> snd g" and p: "push_gaps f s = (r, s')"
  shows "r = None \<and> sorter_inv c (U \<union> frame_bytes f) s' \<and> queued_from c U f s s' \<or>
     r = Some errDuplicateStreamData \<and> s' = s \<and> frame_bytes f \<subseteq> U \<or>
     r = Some errTooManyGapsInReceivedStreamData"
proof -
  let ?start = "Offset f" and ?final = "Offset f + DataLen f" and ?M = protocol_MaxByteCount
  have fin: "?final < ?M" "?start < ?final" "add64 ?start (DataLen f) = ?final"
    using f by (auto simp: frame_ok_def add64_def protocol_MaxByteCount_def)
  show ?thesis
  proof (cases "find_gap ?start ?final (gaps s)")
    case (Inl e)
    have "e \<noteq> errNoGapFound"
      using Inl find_gap_found [of "gaps s" ?start ?final] sorter_inv_last [OF inv] fin by auto
    then have e: "e = errDuplicateStreamData" using find_gap_errors [OF Inl] by simp
    have "gap_bytes (gaps s) \<inter> frame_bytes f = {}"
      using find_gap_duplicate [OF Inl [unfolded e] sorter_invD(1) [OF inv]] by (simp add: frame_bytes_def)
    then have "frame_bytes f \<subseteq> U"
      using sorter_invD(3) [OF inv] fin(1) by (auto simp: frame_bytes_def)
    then show ?thesis using p Inl e fin(3) by (simp add: push_gaps_def)
  next
    case (Inr t)
    obtain pre gs ge post where t: "t = (pre, (gs, ge), post)" by (cases t) auto
    obtain r' eg post' q' where loop: "end_gap_loop ?final (gs, ge) True post (queuedFrames s) = (r', eg, post', q')"
      by (metis prod.collapse)
    have gaps: "gaps s = pre @ (gs, ge) # post" using find_gap_Inr(1) Inr t by auto
    have "?start \<noteq> ge" using ne by (force simp: gaps)
    from push_search [OF inv f Inr [unfolded t] _ loop] this obtain mid es ee where
      r': "r' = None" and fill: "filling (queuedFrames s) (readPosition s) ?M pre (gs, ge) post mid (es, ee) post' ?start ?final"
      and eg: "eg = (if mid = [] then SameGap else if ?final < ee then OtherGap (es, ee) else RemovedGap (es, ee))"
      and q': "\<forall>k. q' k = queuedFrames s k \<or> q' k = None \<and> ge \<le> k \<and> k \<le> es \<and> k < ?final"
      by auto
    define start' where "start' = max ?start gs"
    define final' where "final' = min ?final ee"
    define f1 where "f1 = (if ?start < gs then cut_front (gs - ?start) f else f)"
    define f2 where "f2 = (if ?final > ee then f1\<lparr>Data := take (DataLen f1 - (?final - ee)) (Data f1)\<rparr> else f1)"
    note upd = filling_update [OF fill eg, folded start'_def final'_def]
    have lt: "start' < final'" using filling_facts(11) [OF fill] by (simp add: start'_def final'_def)
    note f2 = kept_frame [OF f start'_def final'_def lt f1_def f2_def]
    define N where "N = pre @ update_gaps start' final' (gs, ge) eg @ post'"
    have "r = Some errTooManyGapsInReceivedStreamData \<or>
       r = None \<and> s' = s\<lparr>gaps := N, queuedFrames := q'(start' \<mapsto> f2)\<rparr>"
    proof -
      have "(if ?start < gs then gs else ?start) = start'" "(if ?final > ee then ee else ?final) = final'"
        by (auto simp: start'_def final'_def)
      then have "push_gaps f s =
          (if length N > MaxStreamFrameSorterGaps
           then (Some errTooManyGapsInReceivedStreamData, s\<lparr>gaps := N, queuedFrames := q'\<rparr>)
           else (None, s\<lparr>gaps := N, queuedFrames := q', queuedFrames := q'(Offset f2 \<mapsto> f2)\<rparr>))"
        unfolding push_gaps_def Let_def fin(3) Inr t
        by (simp only: sum.case prod.case option.case fst_conv snd_conv loop r' upd(1) f1_def [symmetric]
            f2_def [symmetric] N_def [symmetric]) simp
      then show ?thesis using p f2(2) by (simp split: if_splits)
    qed
    moreover have "sorter_inv c (U \<union> frame_bytes f) (s\<lparr>gaps := N, queuedFrames := q'(start' \<mapsto> f2)\<rparr>)"
    proof -
      have Ng: "N = pre @ ((if start' = gs then [] else [(gs, start')]) @ (if final' < ee then [(final', ee)] else [])) @ post'"
        unfolding N_def upd(2) ..
      have c: "chain (q'(start' \<mapsto> f2)) (readPosition s) N ?M"
        unfolding Ng using filling_facts(4) [OF fill] q'
        by (intro filling_chain [OF fill start'_def final'_def _ f2(3)]) fastforce
      have sep: "separate N" unfolding Ng by (rule filling_separate [OF fill start'_def final'_def])
      note fb = filling_bytes [OF fill start'_def final'_def, folded Ng gaps]
      note old = sorter_invD [OF inv]
      have "?start \<le> start'" "final' \<le> ?final" by (simp_all add: start'_def final'_def)
      then have bytes: "gap_bytes N = {..<?M} - (U \<union> frame_bytes f)"
        using fb old(3) unfolding frame_bytes_def by fastforce
      have kept: "frame_bytes f2 \<subseteq> frame_bytes f"
        using \<open>?start \<le> start'\<close> \<open>final' \<le> ?final\<close> f2 lt by (auto simp: frame_bytes_def)
      have "U \<union> frame_bytes f \<subseteq> {..<length c}" using old(4) f by (auto simp: frame_bytes_def frame_ok_def)
      moreover have "Offset h = k \<and> (frame_ok c h \<and> frame_bytes h \<subseteq> U \<union> frame_bytes f \<or> end_frame c h)"
        if "(q'(start' \<mapsto> f2)) k = Some h" for k h
      proof (cases "k = start'")
        case True
        then show ?thesis using that f2(1,2) kept by auto
      next
        case False
        then have "queuedFrames s k = Some h" using that q' [rule_format, of k] by auto
        then show ?thesis using old(6,7) by blast
      qed
      ultimately show ?thesis using c sep bytes old(5) by (simp add: sorter_inv_def)
    qed
    moreover have "queued_from c U f s (s\<lparr>gaps := N, queuedFrames := q'(start' \<mapsto> f2)\<rparr>)"
    proof (rule queued_from_put [OF _ refl])
      note i = sorter_invD [OF inv] and ff = filling_facts [OF fill]
      have L: "?final \<le> length c" using f by (simp add: frame_ok_def)
      have es: "es < ?final" "(es, ee) \<in> set (gaps s)" using fill unfolding filling_def gaps by auto
      have gap: "x \<notin> U" if "es \<le> x \<and> x < ee \<or> gs \<le> x \<and> x < ge" for x
      proof -
        have "x \<in> gap_bytes (gaps s)"
          using that gap_bytesI [OF es(2)] gap_bytesI [of gs ge "gaps s"] by (auto simp: gaps)
        then show ?thesis unfolding i(3) by simp
      qed
      have "final' = ?final" if "?final - 1 \<notin> U"
      proof -
        have "?final - 1 \<in> gap_bytes (gaps s) \<inter> {?start..<?final}"
          using that fin(1,2) unfolding i(3) by (simp, linarith)
        then have "?final - 1 < final'"
          using filling_bytes(2) [OF fill start'_def final'_def, folded gaps] by fastforce
        then show ?thesis unfolding final'_def by linarith
      qed
      moreover have "FinBit f2 = FinBit f" by (simp add: f2_def f1_def cut_front_def)
      moreover have "final' - 1 \<notin> U"
      proof (rule gap)
        have "es < final'" "final' \<le> ee" using es(1) ff(4) by (simp_all add: final'_def)
        then show "es \<le> final' - 1 \<and> final' - 1 < ee \<or> gs \<le> final' - 1 \<and> final' - 1 < ge" by linarith
      qed
      ultimately show "kept_of U f f2" using f2(2,3) lt by (auto simp: kept_of_def)
      show "queuedFrames s k = Some g" if "q' k = Some g" for k g using that q' [rule_format, of k] by auto
      show "k \<noteq> start' \<and> q' k = Some g" if g: "queuedFrames s k = Some g" "k + DataLen g = length c \<or> k < front s" for k g
      proof (cases "k < front s")
        case True
        have "start' \<notin> U" "gs \<notin> U" using gap ff(2,9,10) by (auto simp: start'_def)
        then have "k < gs" "k \<noteq> start'" using True front_ok(1) [OF inv] by (meson lessThan_iff not_le order.strict_trans2 subsetD)+
        then show ?thesis using q' [rule_format, of k] g(1) ff(2) by auto
      next
        case False
        have s': "start' \<notin> U" "start' < length c"
          using gap [of start'] ff(9,10) lt L by (auto simp: start'_def final'_def)
        have kU: "x \<in> U" if "k \<le> x" "x < length c" for x
          using i(6,7) [OF g(1)] g(2) False that by (auto simp: frame_bytes_def end_frame_def)
        have "k \<noteq> start'" using kU [of k] s' by auto
        moreover have "\<not> (k \<le> es \<and> k < ?final)" using kU [of es] gap [of es] es(1) L ff(4) by auto
        ultimately show ?thesis using q' [rule_format, of k] g(1) by auto
      qed
    qed
    ultimately show ?thesis by blast
  qed
qed

text \<open>The offset of a frame that \<^verbatim>\<open>Push\<close> looks a gap up for is not the end of a gap.\<close>

lemma chain_gap: "chain q a gs M \<Longrightarrow> (x, e) \<in> set gs \<Longrightarrow> x < e"
  by (induction gs arbitrary: a) auto

lemma gap_end_queued:
  assumes "chain q a gs M" "separate gs" "(x, e) \<in> set gs" "e < M" "snd (last gs) = M"
  shows "q e \<noteq> None"
proof -
  obtain pre post where gs: "gs = pre @ (x, e) # post" using split_list [OF assms(3)] by auto
  have "post \<noteq> []" using gs assms(4,5) by auto
  then obtain y d post' where post: "post = (y, d) # post'" by (metis list.exhaust prod.exhaust)
  have "tiles q e y" using assms(1) by (simp add: gs post chain_append)
  moreover have "e < y" using assms(2) by (simp add: gs post separate_def sorted_wrt_append)
  ultimately show ?thesis using tiles_head by fastforce
qed

lemma Push_ok:
  assumes inv: "sorter_inv c U s" and f: "frame_ok c f" and p: "Push f s = (r, s')"
  shows "r = None \<and> sorter_inv c (U \<union> frame_bytes f) s' \<and> queued_from c U f s s' \<or>
     r = Some errDuplicateStreamData \<and> s' = s \<and> frame_bytes f \<subseteq> U \<or>
     r = Some errTooManyGapsInReceivedStreamData"
proof -
  note i = sorter_invD [OF inv]
  have f': "0 < DataLen f" "Offset f < length c" "Offset f + DataLen f \<le> length c" using f by (auto simp: frame_ok_def)
  show ?thesis
  proof (cases "queuedFrames s (Offset f)")
    case None
    have "Offset f \<noteq> snd g" if "g \<in> set (gaps s)" for g
      using gap_end_queued [OF i(1,2), of "fst g" "snd g"] sorter_inv_last(2) [OF inv] that None f'(2) i(5) by auto
    then show ?thesis using push_gaps_ok [OF inv f] p None f'(1) by (simp add: Push_def)
  next
    case (Some old)
    have old: "Offset old = Offset f" "frame_ok c old" "frame_bytes old \<subseteq> U"
      using i(6,7) [OF Some] f'(2) by (auto simp: end_frame_def)
    show ?thesis
    proof (cases "DataLen f \<le> DataLen old")
      case True
      then have "frame_bytes f \<subseteq> frame_bytes old" using old(1) by (auto simp: frame_bytes_def)
      then show ?thesis using p Some True f'(1) old(3) by (auto simp: Push_def)
    next
      case False
      let ?f = "cut_front (DataLen old) f"
      note cut = cut_front_ok [OF f, of "DataLen old"]
      have olen: "0 < DataLen old" using old(2) by (simp add: frame_ok_def)
      have bytes: "U \<union> frame_bytes ?f = U \<union> frame_bytes f"
        using cut(2,3) False old(1,3) by (auto simp: frame_bytes_def)
      have "Offset f + DataLen old \<noteq> snd g" if g: "g \<in> set (gaps s)" for g
      proof
        assume e: "Offset f + DataLen old = snd g"
        have "fst g < snd g" using chain_gap [OF i(1), of "fst g" "snd g"] g by simp
        then have "snd g - 1 \<in> gap_bytes (gaps s)" using g by (intro gap_bytesI [of "fst g" "snd g"]) auto
        moreover have "snd g - 1 \<in> U" using old(1,3) olen e by (auto simp: frame_bytes_def)
        ultimately show False using i(3) by simp
      qed
      then have "r = None \<and> sorter_inv c (U \<union> frame_bytes ?f) s' \<and> queued_from c U ?f s s' \<or>
          r = Some errDuplicateStreamData \<and> s' = s \<and> frame_bytes ?f \<subseteq> U \<or>
          r = Some errTooManyGapsInReceivedStreamData"
        using push_gaps_ok [OF inv cut(1)] cut(2) p Some False f'(1) by (simp add: Push_def)
      moreover have "queued_from c U ?f s s' = queued_from c U f s s'"
        using cut(2,3) False by (simp add: queued_from_def kept_of_def cut_front_def)
      ultimately show ?thesis using bytes by auto
    qed
  qed
qed

lemma Push_end_frame:
  assumes inv: "sorter_inv c U s" and f: "end_frame c f"
  shows "Push f s = (None, s\<lparr>queuedFrames := (queuedFrames s)(length c \<mapsto> f)\<rparr>)"
    "sorter_inv c U (s\<lparr>queuedFrames := (queuedFrames s)(length c \<mapsto> f)\<rparr>)"
proof -
  note i = sorter_invD [OF inv]
  show "Push f s = (None, s\<lparr>queuedFrames := (queuedFrames s)(length c \<mapsto> f)\<rparr>)"
    using f by (simp add: Push_def end_frame_def)
  have "length c \<in> gap_bytes (gaps s)" using i(3-5) by auto
  then have "chain ((queuedFrames s)(length c \<mapsto> f)) (readPosition s) (gaps s) protocol_MaxByteCount"
    by (intro chain_agree [OF i(1)]) auto
  moreover have "Offset h = k \<and> (frame_ok c h \<and> frame_bytes h \<subseteq> U \<or> end_frame c h)"
    if "((queuedFrames s)(length c \<mapsto> f)) k = Some h" for k h
    using that i(6,7) [of k h] f by (auto simp: end_frame_def split: if_splits)
  ultimately show "sorter_inv c U (s\<lparr>queuedFrames := (queuedFrames s)(length c \<mapsto> f)\<rparr>)"
    using i(2-5) by (simp add: sorter_inv_def)
qed

lemma Head_None:
  assumes inv: "sorter_inv c U s" and "Head s = None"
  shows "front s = readPosition s"
  using tiles_head [OF front_ok(3) [OF inv]] front_ok(4) [OF inv] assms(2) by (force simp: Head_def)

lemma Head_Some:
  assumes inv: "sorter_inv c U s" and h: "Head s = Some f"
  shows "Offset f = readPosition s"
    "frame_ok c f \<and> readPosition s + DataLen f \<le> front s \<or>
     end_frame c f \<and> readPosition s = length c \<and> front s = length c"
proof -
  note i = sorter_invD [OF inv] and fr = front_ok [OF inv]
  have q: "queuedFrames s (readPosition s) = Some f" using h by (simp add: Head_def)
  show o: "Offset f = readPosition s" by (rule i(6) [OF q])
  show "frame_ok c f \<and> readPosition s + DataLen f \<le> front s \<or>
     end_frame c f \<and> readPosition s = length c \<and> front s = length c"
  proof (cases "end_frame c f")
    case True
    then show ?thesis using o fr(4,5) by (simp add: end_frame_def)
  next
    case False
    then have f: "frame_ok c f" "frame_bytes f \<subseteq> U" using i(7) [OF q] by auto
    then have "front s \<notin> {readPosition s..<readPosition s + DataLen f}" using fr(2) o by (auto simp: frame_bytes_def)
    then show ?thesis using f(1) fr(4) by auto
  qed
qed

lemma Pop_ok:
  assumes inv: "sorter_inv c U s" and h: "Head s = Some f"
  shows "Pop s = (Some f, s\<lparr>readPosition := readPosition s + DataLen f,
        queuedFrames := (queuedFrames s)(readPosition s := None)\<rparr>)"
    "sorter_inv c U (s\<lparr>readPosition := readPosition s + DataLen f,
        queuedFrames := (queuedFrames s)(readPosition s := None)\<rparr>)"
proof -
  note i = sorter_invD [OF inv] and fr = front_ok [OF inv] and hd = Head_Some [OF inv h]
  have q: "queuedFrames s (readPosition s) = Some f" using h by (simp add: Head_def)
  have len: "readPosition s + DataLen f \<le> length c" using hd fr(5) by (auto simp: end_frame_def)
  then have "readPosition s + DataLen f < 2 ^ 64" using i(5) by (simp add: protocol_MaxByteCount_def)
  then show "Pop s = (Some f, s\<lparr>readPosition := readPosition s + DataLen f,
        queuedFrames := (queuedFrames s)(readPosition s := None)\<rparr>)"
    using h hd(1) by (simp add: Pop_def add64_def)
  let ?q = "(queuedFrames s)(readPosition s := None)"
  obtain a b gs where g: "gaps s = (a, b) # gs" using sorter_inv_last(1) [OF inv] by (metis list.exhaust prod.exhaust)
  have fa: "front s = a" by (simp add: front_def g)
  have "chain ?q (readPosition s + DataLen f) (gaps s) protocol_MaxByteCount"
  proof -
    have t: "tiles (queuedFrames s) (readPosition s + DataLen f) a"
    proof (cases "DataLen f = 0")
      case True
      then show ?thesis using fr(3) fa by simp
    next
      case False
      then show ?thesis using tiles_head [OF fr(3)] q fa hd(2) by (auto simp: end_frame_def frame_ok_def)
    qed
    moreover have "a < b" "chain (queuedFrames s) b gs protocol_MaxByteCount" using i(1) by (simp_all add: g)
    ultimately have "chain (queuedFrames s) (readPosition s + DataLen f) (gaps s) protocol_MaxByteCount"
      by (simp add: g)
    moreover have "?q k = queuedFrames s k" if "readPosition s + DataLen f \<le> k" "k \<notin> gap_bytes (gaps s)" for k
    proof (cases "DataLen f = 0")
      case True
      then have "readPosition s = a" using hd(2) fa by (auto simp: frame_ok_def)
      then show ?thesis using that(2) \<open>a < b\<close> by (auto simp: g)
    next
      case False
      then show ?thesis using that(1) by simp
    qed
    ultimately show ?thesis by (rule chain_agree) blast
  qed
  moreover have "Offset h = k \<and> (frame_ok c h \<and> frame_bytes h \<subseteq> U \<or> end_frame c h)" if "?q k = Some h" for k h
    using that i(6,7) [of k h] by (simp split: if_splits)
  ultimately show "sorter_inv c U (s\<lparr>readPosition := readPosition s + DataLen f, queuedFrames := ?q\<rparr>)"
    using i(2-5) by (simp add: sorter_inv_def)
qed

lemma newStreamFrameSorter_inv:
  "length c < protocol_MaxByteCount \<Longrightarrow> sorter_inv c {} newStreamFrameSorter"
  by (auto simp: sorter_inv_def newStreamFrameSorter_def separate_def tiles_empty protocol_MaxByteCount_def)

section \<open>The end of the stream\<close>

text \<open>
  A FIN bit is at the end of the stream.  When the FIN has arrived, it is in a queued frame: the empty
  one at the end, or the only one that reaches the end.
\<close>

definition fin_at_end :: "bytes \<Rightarrow> streamFrameSorter \<Rightarrow> bool" where
  "fin_at_end c s \<longleftrightarrow> (\<forall>k h. queuedFrames s k = Some h \<longrightarrow> FinBit h \<longrightarrow> Offset h + DataLen h = length c)"

definition fin_waits :: "bytes \<Rightarrow> streamFrameSorter \<Rightarrow> bool" where
  "fin_waits c s \<longleftrightarrow> (\<exists>k h. queuedFrames s k = Some h \<and> FinBit h \<and> Offset h + DataLen h = length c \<and>
     (DataLen h = 0 \<or> readPosition s < length c \<and>
      (\<forall>k' g. queuedFrames s k' = Some g \<longrightarrow> 0 < DataLen g \<longrightarrow> Offset g + DataLen g = length c \<longrightarrow> g = h)))"

text \<open>A frame with FIN whose end has not been received with other data missing.\<close>

definition fin_frame :: "bytes \<Rightarrow> ByteCount set \<Rightarrow> StreamFrame \<Rightarrow> bool" where
  "fin_frame c U f \<longleftrightarrow> (FinBit f \<longrightarrow> Offset f + DataLen f = length c \<and>
     (length c - 1 \<notin> U \<or> frame_bytes f \<subseteq> U))"

lemma reaches_end:
  assumes "sorter_inv c U s" "queuedFrames s k = Some h" "0 < DataLen h" "Offset h + DataLen h = length c"
  shows "length c - 1 \<in> U"
proof -
  have "frame_bytes h \<subseteq> U" using sorter_invD(7) [OF assms(1,2)] assms(3) by (auto simp: end_frame_def)
  moreover have "length c - 1 \<in> frame_bytes h" using assms(3,4) by (auto simp: frame_bytes_def)
  ultimately show ?thesis by blast
qed

lemma Push_fin_at_end:
  assumes q: "queued_from c U f s s'" and "fin_at_end c s" and f: "fin_frame c U f" "0 < DataLen f"
    and new: "\<not> frame_bytes f \<subseteq> U"
  shows "fin_at_end c s'"
  unfolding fin_at_end_def
proof (intro allI impI)
  fix k h assume h: "queuedFrames s' k = Some h" "FinBit h"
  then consider "queuedFrames s k = Some h" | "kept_of U f h" using q unfolding queued_from_def by blast
  then show "Offset h + DataLen h = length c"
  proof cases
    case 1
    then show ?thesis using assms(2) h(2) unfolding fin_at_end_def by blast
  next
    case 2
    then show ?thesis using f new h(2) by (auto simp: kept_of_def fin_frame_def)
  qed
qed

lemma Push_fin_stays:
  assumes inv: "sorter_inv c U s" and q: "queued_from c U f s s'" and "fin_waits c s"
  shows "fin_waits c s'"
proof -
  obtain k h where h: "queuedFrames s k = Some h" "FinBit h" "Offset h + DataLen h = length c"
    and un: "DataLen h = 0 \<or> readPosition s < length c \<and>
      (\<forall>k' g. queuedFrames s k' = Some g \<longrightarrow> 0 < DataLen g \<longrightarrow> Offset g + DataLen g = length c \<longrightarrow> g = h)"
    using assms(3) unfolding fin_waits_def by blast
  have "k + DataLen h = length c" using h(3) sorter_invD(6) [OF inv h(1)] by simp
  then have h': "queuedFrames s' k = Some h" using q h(1) unfolding queued_from_def by blast
  have "g = h" if "0 < DataLen h" "queuedFrames s' k' = Some g" "0 < DataLen g" "Offset g + DataLen g = length c" for k' g
  proof -
    have "length c - 1 \<in> U" using reaches_end [OF inv h(1) that(1) h(3)] .
    then have "\<not> kept_of U f g" using that(4) by (auto simp: kept_of_def)
    then have "queuedFrames s k' = Some g" using q that(2) unfolding queued_from_def by blast
    then show ?thesis using un that(1,3,4) by auto
  qed
  moreover have "readPosition s' = readPosition s" using q by (simp add: queued_from_def)
  ultimately show ?thesis using h(2,3) h' un unfolding fin_waits_def by (metis gr0I)
qed

lemma Push_fin_new:
  assumes inv: "sorter_inv c U s" and q: "queued_from c U f s s'" and f: "fin_frame c U f" "FinBit f"
    and new: "\<not> frame_bytes f \<subseteq> U"
  shows "fin_waits c s'"
proof -
  obtain k h where h: "queuedFrames s' k = Some h" "kept_of U f h"
    and un: "\<And>k' g. queuedFrames s' k' = Some g \<Longrightarrow> queuedFrames s k' = Some g \<or> g = h"
    using q unfolding queued_from_def by blast
  have fin: "Offset f + DataLen f = length c" "length c - 1 \<notin> U" using f new by (auto simp: fin_frame_def)
  have kept: "Offset g + DataLen g = length c" "FinBit g" if "kept_of U f g" for g
    using that fin f(2) by (auto simp: kept_of_def)
  have "g = h" if g: "queuedFrames s' k' = Some g" "0 < DataLen g" "Offset g + DataLen g = length c" for k' g
    using un [OF g(1)] reaches_end [OF inv _ g(2,3)] fin(2) by blast
  moreover have "readPosition s' < length c"
  proof -
    have "{..<readPosition s} \<subseteq> U" using front_ok(1,4) [OF inv] by auto
    then have "readPosition s \<le> length c - 1" using fin(2) by (meson lessThan_iff not_le subsetD)
    moreover have "0 < length c" using fin(1) new by (cases "length c") (auto simp: frame_bytes_def)
    moreover have "readPosition s' = readPosition s" using q unfolding queued_from_def by blast
    ultimately show ?thesis by linarith
  qed
  ultimately show ?thesis using h kept [OF h(2)] unfolding fin_waits_def by blast
qed

lemma Push_new_bytes:
  assumes "queued_from c U f s s'" "sorter_inv c (U \<union> frame_bytes f) s'"
  shows "\<not> frame_bytes f \<subseteq> U"
proof -
  obtain k h where h: "queuedFrames s' k = Some h" "kept_of U f h"
    using assms(1) unfolding queued_from_def by blast
  then have "frame_bytes h \<subseteq> U \<union> frame_bytes f"
    using sorter_invD(7) [OF assms(2) h(1)] by (auto simp: end_frame_def kept_of_def)
  moreover have "Offset h + DataLen h - 1 \<in> frame_bytes h - U" using h(2) by (auto simp: kept_of_def frame_bytes_def)
  ultimately show ?thesis by blast
qed

lemma Push_end_frame_fin:
  assumes "end_frame c f"
  shows "fin_at_end c s \<Longrightarrow> fin_at_end c (s\<lparr>queuedFrames := (queuedFrames s)(length c \<mapsto> f)\<rparr>)"
    "fin_waits c (s\<lparr>queuedFrames := (queuedFrames s)(length c \<mapsto> f)\<rparr>)"
proof -
  show "fin_at_end c (s\<lparr>queuedFrames := (queuedFrames s)(length c \<mapsto> f)\<rparr>)" if "fin_at_end c s"
    using that assms unfolding fin_at_end_def by (auto simp: end_frame_def)
  have "queuedFrames (s\<lparr>queuedFrames := (queuedFrames s)(length c \<mapsto> f)\<rparr>) (length c) = Some f" by simp
  then show "fin_waits c (s\<lparr>queuedFrames := (queuedFrames s)(length c \<mapsto> f)\<rparr>)"
    using assms(1) unfolding fin_waits_def end_frame_def by (metis add.right_neutral)
qed

lemma Pop_fin_at_end: "fin_at_end c s \<Longrightarrow> fin_at_end c (s\<lparr>readPosition := p, queuedFrames := (queuedFrames s)(k := None)\<rparr>)"
  unfolding fin_at_end_def by auto

lemma Pop_fin_stays:
  assumes inv: "sorter_inv c U s" and h: "Head s = Some f" and "\<not> FinBit f" "fin_waits c s"
  shows "fin_waits c (s\<lparr>readPosition := readPosition s + DataLen f,
        queuedFrames := (queuedFrames s)(readPosition s := None)\<rparr>)"
proof -
  let ?q = "(queuedFrames s)(readPosition s := None)"
  obtain k g where g: "queuedFrames s k = Some g" "FinBit g" "Offset g + DataLen g = length c"
    and un: "DataLen g = 0 \<or> readPosition s < length c \<and>
      (\<forall>k' g'. queuedFrames s k' = Some g' \<longrightarrow> 0 < DataLen g' \<longrightarrow> Offset g' + DataLen g' = length c \<longrightarrow> g' = g)"
    using assms(4) unfolding fin_waits_def by blast
  have f: "queuedFrames s (readPosition s) = Some f" using h by (simp add: Head_def)
  have "k \<noteq> readPosition s" using g(1,2) f assms(3) by auto
  then have g': "?q k = Some g" using g(1) by simp
  have "readPosition s + DataLen f < length c" if "0 < DataLen g"
  proof -
    have "Offset f + DataLen f \<noteq> length c \<or> DataLen f = 0" using un that f g(2) assms(3) by auto
    moreover have "readPosition s < length c" using un that by simp
    ultimately show ?thesis using Head_Some [OF inv h] front_ok(5) [OF inv] by fastforce
  qed
  moreover have "g' = g" if "0 < DataLen g" "?q k' = Some g'" "0 < DataLen g'" "Offset g' + DataLen g' = length c" for k' g'
    using un that by (auto split: if_splits)
  ultimately have "DataLen g = 0 \<or> readPosition s + DataLen f < length c \<and>
      (\<forall>k' g'. ?q k' = Some g' \<longrightarrow> 0 < DataLen g' \<longrightarrow> Offset g' + DataLen g' = length c \<longrightarrow> g' = g)"
    by blast
  then show ?thesis using g' g(2,3) unfolding fin_waits_def by (intro exI [of _ k] exI [of _ g]) simp
qed

text \<open>Once everything has arrived, there is a frame at the head, and at the end it has the FIN.\<close>

lemma fin_at_head:
  assumes inv: "sorter_inv c U s" and "fin_waits c s" "front s = length c"
  shows "\<exists>f. Head s = Some f \<and> (readPosition s = length c \<longrightarrow> FinBit f)"
proof (cases "readPosition s = length c")
  case True
  obtain k h where h: "queuedFrames s k = Some h" "FinBit h" "Offset h + DataLen h = length c"
    "DataLen h = 0 \<or> readPosition s < length c"
    using assms(2) unfolding fin_waits_def by blast
  then have "k = length c" using True sorter_invD(6) [OF inv h(1)] by simp
  then show ?thesis using h(1,2) True by (simp add: Head_def)
next
  case False
  then show ?thesis using Head_None [OF inv] assms(3) by (cases "Head s") auto
qed

end
