(* ===== verification/Connection_Parameters.thy ===== *)
theory Connection_Parameters
  imports Byte_Order Packet_Number
begin

text \<open>
  Model of \<^verbatim>\<open>mp-quic/internal/handshake/connection_parameters_manager.go\<close>: the negotiation of
  flow control windows, stream limits and the idle timeout.  Tag values are byte strings,
  durations are counted in nanoseconds; an operation that can fail half way returns its error
  together with the state it leaves behind.
\<close>

datatype Perspective = PerspectiveServer | PerspectiveClient

datatype Tag = TagTCID | TagMSPC | TagMIDS | TagICSL | TagSFCW | TagCFCW

datatype param_error = ErrMalformedTag | ErrFlowControlRenegotiationNotSupported

type_synonym Duration = int

definition second :: Duration where "second = 10 ^ 9"

definition InitialStreamFlowControlWindow :: ByteCount where
  "InitialStreamFlowControlWindow = 2 ^ 14"

definition InitialConnectionFlowControlWindow :: ByteCount where
  "InitialConnectionFlowControlWindow = 2 ^ 14"

definition ReceiveStreamFlowControlWindow :: ByteCount where
  "ReceiveStreamFlowControlWindow = 2 ^ 10 * 32"

definition ReceiveConnectionFlowControlWindow :: ByteCount where
  "ReceiveConnectionFlowControlWindow = 2 ^ 10 * 48"

definition MaxStreamsPerConnection :: nat where "MaxStreamsPerConnection = 100"

definition MaxIncomingDynamicStreamsPerConnection :: nat where
  "MaxIncomingDynamicStreamsPerConnection = 100"

definition MaxStreamsMinimumIncrement :: nat where "MaxStreamsMinimumIncrement = 10"

record connectionParametersManager =
  cp_version :: VersionNumber
  perspective :: Perspective
  flowControlNegotiated :: bool
  truncateConnectionID :: bool
  maxStreamsPerConnection :: nat
  maxIncomingDynamicStreamsPerConnection :: nat
  idleConnectionStateLifetime :: Duration
  sendStreamFlowControlWindow :: ByteCount
  sendConnectionFlowControlWindow :: ByteCount
  receiveStreamFlowControlWindow :: ByteCount
  receiveConnectionFlowControlWindow :: ByteCount
  maxReceiveStreamFlowControlWindow :: ByteCount
  maxReceiveConnectionFlowControlWindow :: ByteCount

definition NewConnectionParamatersManager ::
  "Perspective \<Rightarrow> VersionNumber \<Rightarrow> ByteCount \<Rightarrow> ByteCount \<Rightarrow> Duration \<Rightarrow> connectionParametersManager" where
  "NewConnectionParamatersManager pers v maxStream maxConn idleTimeout =
     \<lparr>cp_version = v, perspective = pers, flowControlNegotiated = False, truncateConnectionID = False,
      maxStreamsPerConnection = MaxStreamsPerConnection,
      maxIncomingDynamicStreamsPerConnection = MaxStreamsPerConnection,
      idleConnectionStateLifetime = idleTimeout,
      sendStreamFlowControlWindow = InitialStreamFlowControlWindow,
      sendConnectionFlowControlWindow = InitialConnectionFlowControlWindow,
      receiveStreamFlowControlWindow = ReceiveStreamFlowControlWindow,
      receiveConnectionFlowControlWindow = ReceiveConnectionFlowControlWindow,
      maxReceiveStreamFlowControlWindow = maxStream,
      maxReceiveConnectionFlowControlWindow = maxConn\<rparr>"

section \<open>Negotiation\<close>

definition negotiateMaxStreamsPerConnection :: "nat \<Rightarrow> nat" where
  "negotiateMaxStreamsPerConnection clientValue =
     (if clientValue < MaxStreamsPerConnection then clientValue else MaxStreamsPerConnection)"

definition negotiateMaxIncomingDynamicStreamsPerConnection :: "nat \<Rightarrow> nat" where
  "negotiateMaxIncomingDynamicStreamsPerConnection clientValue =
     (if clientValue < MaxIncomingDynamicStreamsPerConnection then clientValue
      else MaxIncomingDynamicStreamsPerConnection)"

definition negotiateIdleConnectionStateLifetime ::
  "connectionParametersManager \<Rightarrow> Duration \<Rightarrow> Duration" where
  "negotiateIdleConnectionStateLifetime h clientValue =
     (if clientValue > idleConnectionStateLifetime h then idleConnectionStateLifetime h else clientValue)"

text \<open>
  One \<^verbatim>\<open>if value, ok := params[tag]; ok\<close> block: nothing without the tag, an error for a value
  of fewer than four bytes, and otherwise the update with the number read.
\<close>

definition param_block ::
  "(Tag \<Rightarrow> bytes option) \<Rightarrow> Tag \<Rightarrow> (connectionParametersManager \<Rightarrow> nat \<Rightarrow> connectionParametersManager) \<Rightarrow>
   connectionParametersManager \<Rightarrow> param_error option \<times> connectionParametersManager" where
  "param_block params tag upd h =
     (case params tag of
        None \<Rightarrow> (None, h)
      | Some v \<Rightarrow> (case ReadUint32 LittleEndian v of
                    Inl e \<Rightarrow> (Some ErrMalformedTag, h)
                  | Inr (w, _) \<Rightarrow> (None, upd h (unat w))))"

text \<open>The flow control blocks also refuse a second negotiation.\<close>

definition window_block ::
  "(Tag \<Rightarrow> bytes option) \<Rightarrow> Tag \<Rightarrow> (connectionParametersManager \<Rightarrow> nat \<Rightarrow> connectionParametersManager) \<Rightarrow>
   connectionParametersManager \<Rightarrow> param_error option \<times> connectionParametersManager" where
  "window_block params tag upd h =
     (if params tag \<noteq> None \<and> flowControlNegotiated h
      then (Some ErrFlowControlRenegotiationNotSupported, h)
      else param_block params tag upd h)"

text \<open>Statements in sequence, with the early return of an error.\<close>

definition andThen :: "('s \<Rightarrow> 'e option \<times> 's) \<Rightarrow> ('s \<Rightarrow> 'e option \<times> 's) \<Rightarrow> 's \<Rightarrow> 'e option \<times> 's" where
  "andThen f g s = (case f s of (Some e, s') \<Rightarrow> (Some e, s') | (None, s') \<Rightarrow> g s')"

definition SetFromMap ::
  "(Tag \<Rightarrow> bytes option) \<Rightarrow> connectionParametersManager \<Rightarrow> param_error option \<times> connectionParametersManager" where
  "SetFromMap params =
     andThen (\<lambda>h. if perspective h = PerspectiveServer
                  then param_block params TagTCID (\<lambda>h v. h\<lparr>truncateConnectionID := (v = 0)\<rparr>) h
                  else (None, h))
     (andThen (param_block params TagMSPC
                 (\<lambda>h v. h\<lparr>maxStreamsPerConnection := negotiateMaxStreamsPerConnection v\<rparr>))
     (andThen (param_block params TagMIDS
                 (\<lambda>h v. h\<lparr>maxIncomingDynamicStreamsPerConnection :=
                            negotiateMaxIncomingDynamicStreamsPerConnection v\<rparr>))
     (andThen (param_block params TagICSL
                 (\<lambda>h v. h\<lparr>idleConnectionStateLifetime :=
                            negotiateIdleConnectionStateLifetime h (int v * second)\<rparr>))
     (andThen (window_block params TagSFCW (\<lambda>h v. h\<lparr>sendStreamFlowControlWindow := v\<rparr>))
     (andThen (window_block params TagCFCW (\<lambda>h v. h\<lparr>sendConnectionFlowControlWindow := v\<rparr>))
       (\<lambda>h. (None, if params TagSFCW \<noteq> None \<or> params TagCFCW \<noteq> None
                   then h\<lparr>flowControlNegotiated := True\<rparr> else h)))))))"

section \<open>Getters and the hello message\<close>

definition GetSendStreamFlowControlWindow :: "connectionParametersManager \<Rightarrow> ByteCount" where
  "GetSendStreamFlowControlWindow h = sendStreamFlowControlWindow h"

definition GetSendConnectionFlowControlWindow :: "connectionParametersManager \<Rightarrow> ByteCount" where
  "GetSendConnectionFlowControlWindow h = sendConnectionFlowControlWindow h"

definition GetReceiveStreamFlowControlWindow :: "connectionParametersManager \<Rightarrow> ByteCount" where
  "GetReceiveStreamFlowControlWindow h = receiveStreamFlowControlWindow h"

definition GetMaxReceiveStreamFlowControlWindow :: "connectionParametersManager \<Rightarrow> ByteCount" where
  "GetMaxReceiveStreamFlowControlWindow h = maxReceiveStreamFlowControlWindow h"

definition GetReceiveConnectionFlowControlWindow :: "connectionParametersManager \<Rightarrow> ByteCount" where
  "GetReceiveConnectionFlowControlWindow h = receiveConnectionFlowControlWindow h"

definition GetMaxReceiveConnectionFlowControlWindow :: "connectionParametersManager \<Rightarrow> ByteCount" where
  "GetMaxReceiveConnectionFlowControlWindow h = maxReceiveConnectionFlowControlWindow h"

definition GetMaxOutgoingStreams :: "connectionParametersManager \<Rightarrow> nat" where
  "GetMaxOutgoingStreams h = maxIncomingDynamicStreamsPerConnection h"

text \<open>\<^verbatim>\<open>float64(100) * 1.1\<close> rounds down to 110.\<close>

definition GetMaxIncomingStreams :: "connectionParametersManager \<Rightarrow> nat" where
  "GetMaxIncomingStreams h =
     (let maxStreams = MaxIncomingDynamicStreamsPerConnection
      in max (maxStreams + MaxStreamsMinimumIncrement) (maxStreams * 11 div 10))"

definition GetIdleConnectionStateLifetime :: "connectionParametersManager \<Rightarrow> Duration" where
  "GetIdleConnectionStateLifetime h = idleConnectionStateLifetime h"

definition TruncateConnectionID :: "connectionParametersManager \<Rightarrow> bool" where
  "TruncateConnectionID h =
     (if perspective h = PerspectiveClient then False else truncateConnectionID h)"

text \<open>Go divides integers towards zero.\<close>

definition quot :: "int \<Rightarrow> int \<Rightarrow> int" where
  "quot a b = (if 0 \<le> a then a div b else - (- a div b))"

definition GetHelloMap :: "connectionParametersManager \<Rightarrow> Tag \<Rightarrow> bytes option" where
  "GetHelloMap h =
     [TagICSL \<mapsto> WriteUint32 LittleEndian (word_of_int (quot (GetIdleConnectionStateLifetime h) second)),
      TagMSPC \<mapsto> WriteUint32 LittleEndian (word_of_nat (maxStreamsPerConnection h)),
      TagMIDS \<mapsto> WriteUint32 LittleEndian (word_of_nat MaxIncomingDynamicStreamsPerConnection),
      TagCFCW \<mapsto> WriteUint32 LittleEndian (word_of_nat (GetReceiveConnectionFlowControlWindow h)),
      TagSFCW \<mapsto> WriteUint32 LittleEndian (word_of_nat (GetReceiveStreamFlowControlWindow h))]"

section \<open>Lemmas\<close>

lemma ReadUint32_hello: "ReadUint32 LittleEndian (WriteUint32 LittleEndian w) = Inr (w, [])"
  using ReadUint_Write(2) [of LittleEndian w "[]"] by simp

lemma param_block_hello:
  "params tag = Some (WriteUint32 LittleEndian w) \<Longrightarrow> param_block params tag upd h = (None, upd h (unat w))"
  using ReadUint32_hello [of w] by (simp add: param_block_def)

lemma window_block_hello:
  "params tag = Some (WriteUint32 LittleEndian w) \<Longrightarrow> \<not> flowControlNegotiated h \<Longrightarrow>
     window_block params tag upd h = (None, upd h (unat w))"
  by (simp add: window_block_def param_block_hello)

text \<open>Parameters that fit the 32 bits of the hello message.\<close>

definition params_fit :: "connectionParametersManager \<Rightarrow> bool" where
  "params_fit h \<longleftrightarrow> receiveStreamFlowControlWindow h < 2 ^ 32 \<and>
     receiveConnectionFlowControlWindow h < 2 ^ 32 \<and> maxStreamsPerConnection h < 2 ^ 32 \<and>
     0 \<le> idleConnectionStateLifetime h \<and> idleConnectionStateLifetime h div second < 2 ^ 32"

lemma unat_word32_int: "0 \<le> n \<Longrightarrow> n < 2 ^ 32 \<Longrightarrow> unat (word_of_int n :: 32 word) = nat n"
  by (simp add: unat_eq_nat_uint uint_word_of_int_eq take_bit_eq_mod)

lemma SetFromMap_hello:
  assumes peer: "params_fit p" and h: "\<not> flowControlNegotiated h"
  shows "SetFromMap (GetHelloMap p) h =
     (None, h\<lparr>maxStreamsPerConnection := min (maxStreamsPerConnection p) MaxStreamsPerConnection,
              maxIncomingDynamicStreamsPerConnection := MaxIncomingDynamicStreamsPerConnection,
              idleConnectionStateLifetime :=
                min (idleConnectionStateLifetime p div second * second) (idleConnectionStateLifetime h),
              sendStreamFlowControlWindow := receiveStreamFlowControlWindow p,
              sendConnectionFlowControlWindow := receiveConnectionFlowControlWindow p,
              flowControlNegotiated := True\<rparr>)"
proof -
  have hm: "GetHelloMap p TagTCID = None"
    "GetHelloMap p TagMSPC = Some (WriteUint32 LittleEndian (word_of_nat (maxStreamsPerConnection p)))"
    "GetHelloMap p TagMIDS = Some (WriteUint32 LittleEndian (word_of_nat MaxIncomingDynamicStreamsPerConnection))"
    "GetHelloMap p TagICSL = Some (WriteUint32 LittleEndian (word_of_int (idleConnectionStateLifetime p div second)))"
    "GetHelloMap p TagSFCW = Some (WriteUint32 LittleEndian (word_of_nat (receiveStreamFlowControlWindow p)))"
    "GetHelloMap p TagCFCW = Some (WriteUint32 LittleEndian (word_of_nat (receiveConnectionFlowControlWindow p)))"
    using peer by (simp_all add: GetHelloMap_def GetIdleConnectionStateLifetime_def quot_def params_fit_def
        GetReceiveConnectionFlowControlWindow_def GetReceiveStreamFlowControlWindow_def)
  have "0 \<le> idleConnectionStateLifetime p div second"
    using peer by (simp add: params_fit_def second_def pos_imp_zdiv_nonneg_iff)
  then show ?thesis
    using peer h
    by (simp add: SetFromMap_def andThen_def hm param_block_hello window_block_hello param_block_def [of _ TagTCID]
        params_fit_def unat_word32 unat_word32_int negotiateMaxStreamsPerConnection_def min_def
        negotiateMaxIncomingDynamicStreamsPerConnection_def MaxIncomingDynamicStreamsPerConnection_def
        negotiateIdleConnectionStateLifetime_def)
qed

lemma SetFromMap_hello_again:
  assumes "params_fit p" "flowControlNegotiated h"
  shows "\<exists>h'. SetFromMap (GetHelloMap p) h = (Some ErrFlowControlRenegotiationNotSupported, h') \<and>
     sendStreamFlowControlWindow h' = sendStreamFlowControlWindow h \<and>
     sendConnectionFlowControlWindow h' = sendConnectionFlowControlWindow h"
  using assms
  by (simp add: SetFromMap_def andThen_def GetHelloMap_def param_block_hello window_block_def
      param_block_def [of _ TagTCID])

section \<open>Properties\<close>

text \<open>
  C30: the hello exchange.  After each side has read the hello message of the other, the send
  windows of one are the receive windows of the other, the number of streams is within both
  limits, the idle timeout is at most the peer's, and a second exchange is refused without
  changing the windows.
\<close>

theorem hello_exchange:
  assumes "params_fit server" "\<not> flowControlNegotiated client"
  shows "\<exists>client'. SetFromMap (GetHelloMap server) client = (None, client') \<and>
     GetSendStreamFlowControlWindow client' = GetReceiveStreamFlowControlWindow server \<and>
     GetSendConnectionFlowControlWindow client' = GetReceiveConnectionFlowControlWindow server \<and>
     maxStreamsPerConnection client' \<le> maxStreamsPerConnection server \<and>
     maxStreamsPerConnection client' \<le> MaxStreamsPerConnection \<and>
     GetIdleConnectionStateLifetime client' \<le> GetIdleConnectionStateLifetime server \<and>
     GetIdleConnectionStateLifetime client' \<le> GetIdleConnectionStateLifetime client \<and>
     (\<exists>client''. SetFromMap (GetHelloMap server) client' = (Some ErrFlowControlRenegotiationNotSupported, client'') \<and>
        GetSendStreamFlowControlWindow client'' = GetSendStreamFlowControlWindow client' \<and>
        GetSendConnectionFlowControlWindow client'' = GetSendConnectionFlowControlWindow client')"
proof -
  obtain client' where c': "SetFromMap (GetHelloMap server) client = (None, client')"
    and c'_eq: "maxStreamsPerConnection client' = min (maxStreamsPerConnection server) MaxStreamsPerConnection"
      "idleConnectionStateLifetime client' =
         min (idleConnectionStateLifetime server div second * second) (idleConnectionStateLifetime client)"
      "sendStreamFlowControlWindow client' = receiveStreamFlowControlWindow server"
      "sendConnectionFlowControlWindow client' = receiveConnectionFlowControlWindow server"
      "flowControlNegotiated client'"
    using SetFromMap_hello [OF assms] by simp
  have idle: "idleConnectionStateLifetime server div second * second \<le> idleConnectionStateLifetime server"
    by (simp add: second_def)
  from SetFromMap_hello_again [OF assms(1) c'_eq(5)] obtain client'' where
    "SetFromMap (GetHelloMap server) client' = (Some ErrFlowControlRenegotiationNotSupported, client'')"
    "sendStreamFlowControlWindow client'' = sendStreamFlowControlWindow client'"
    "sendConnectionFlowControlWindow client'' = sendConnectionFlowControlWindow client'"
    by blast
  then show ?thesis
    using c' c'_eq idle
    by (intro exI [of _ client']) (simp add: GetSendStreamFlowControlWindow_def
        GetReceiveStreamFlowControlWindow_def GetSendConnectionFlowControlWindow_def
        GetReceiveConnectionFlowControlWindow_def GetIdleConnectionStateLifetime_def)
qed

theorem hello_exchange_witness:
  "\<exists>client'. SetFromMap (GetHelloMap (NewConnectionParamatersManager PerspectiveServer 39 (2 ^ 20) (2 ^ 21) (30 * second)))
      (NewConnectionParamatersManager PerspectiveClient 39 (2 ^ 24) (2 ^ 25) (30 * second)) = (None, client') \<and>
     GetSendStreamFlowControlWindow client' = 32768"
  using hello_exchange [of "NewConnectionParamatersManager PerspectiveServer 39 (2 ^ 20) (2 ^ 21) (30 * second)"
      "NewConnectionParamatersManager PerspectiveClient 39 (2 ^ 24) (2 ^ 25) (30 * second)"]
  by (auto simp: params_fit_def NewConnectionParamatersManager_def ReceiveStreamFlowControlWindow_def second_def
      ReceiveConnectionFlowControlWindow_def MaxStreamsPerConnection_def GetReceiveStreamFlowControlWindow_def)

end
