(* ===== verification/Flow_Control.thy ===== *)
theory Flow_Control
  imports Connection_Parameters
begin

text \<open>
  Model of \<^verbatim>\<open>mp-quic/internal/flowcontrol\<close>: the flow controller of a stream or of the connection
  and the manager that keeps them in step.  Byte counts are natural numbers with the 64-bit
  wrap-around of \<^verbatim>\<open>+\<close> and \<^verbatim>\<open>-\<close> written out.  The connection parameters, the clock, the smoothed
  round-trip time and the remote round-trip times are arguments; the clock is read once per
  operation and the zero \<^verbatim>\<open>time.Time\<close> is \<open>None\<close>.
\<close>

type_synonym StreamID = nat

record flowController =
  streamID :: StreamID
  contributesToConnection :: bool
  bytesSent :: ByteCount
  sendWindow :: ByteCount
  bytesRetrans :: ByteCount
  lastWindowUpdateTime :: "int option"
  bytesRead :: ByteCount
  highestReceived :: ByteCount
  receiveWindow :: ByteCount
  receiveWindowIncrement :: ByteCount
  maxReceiveWindowIncrement :: ByteCount

record fc_env =
  now :: int
  smoothedRTT :: Duration
  remoteRTTs :: "Duration list"

datatype fc_error =
    ErrReceivedSmallerByteOffset
  | errMapAccess
  | StreamDataAfterTermination
  | StreamReceivedTooMuchData ByteCount StreamID ByteCount
  | ConnReceivedTooMuchData ByteCount ByteCount

section \<open>One flow controller\<close>

definition newFlowController :: "connectionParametersManager \<Rightarrow> StreamID \<Rightarrow> bool \<Rightarrow> flowController" where
  "newFlowController cp sid contrib =
     (let w = (if sid = 0 then GetReceiveConnectionFlowControlWindow cp
               else GetReceiveStreamFlowControlWindow cp);
          mx = (if sid = 0 then GetMaxReceiveConnectionFlowControlWindow cp
                else GetMaxReceiveStreamFlowControlWindow cp)
      in \<lparr>streamID = sid, contributesToConnection = contrib, bytesSent = 0, sendWindow = 0,
          bytesRetrans = 0, lastWindowUpdateTime = None, bytesRead = 0, highestReceived = 0,
          receiveWindow = w, receiveWindowIncrement = w, maxReceiveWindowIncrement = mx\<rparr>)"

definition ContributesToConnection :: "flowController \<Rightarrow> bool" where
  "ContributesToConnection c = contributesToConnection c"

definition getSendWindow :: "connectionParametersManager \<Rightarrow> flowController \<Rightarrow> ByteCount" where
  "getSendWindow cp c =
     (if sendWindow c = 0
      then if streamID c = 0 then GetSendConnectionFlowControlWindow cp
           else GetSendStreamFlowControlWindow cp
      else sendWindow c)"

definition fc_AddBytesSent :: "ByteCount \<Rightarrow> flowController \<Rightarrow> flowController" where
  "fc_AddBytesSent n c = c\<lparr>bytesSent := add64 (bytesSent c) n\<rparr>"

definition fc_GetBytesSent :: "flowController \<Rightarrow> ByteCount" where
  "fc_GetBytesSent c = bytesSent c"

definition fc_AddBytesRetrans :: "ByteCount \<Rightarrow> flowController \<Rightarrow> flowController" where
  "fc_AddBytesRetrans n c = c\<lparr>bytesRetrans := add64 (bytesRetrans c) n\<rparr>"

definition fc_GetBytesRetrans :: "flowController \<Rightarrow> ByteCount" where
  "fc_GetBytesRetrans c = bytesRetrans c"

definition UpdateSendWindow :: "ByteCount \<Rightarrow> flowController \<Rightarrow> bool \<times> flowController" where
  "UpdateSendWindow newOffset c =
     (if newOffset > sendWindow c then (True, c\<lparr>sendWindow := newOffset\<rparr>) else (False, c))"

definition fc_SendWindowSize :: "connectionParametersManager \<Rightarrow> flowController \<Rightarrow> ByteCount" where
  "fc_SendWindowSize cp c =
     (let w = getSendWindow cp c in if bytesSent c > w then 0 else sub64 w (bytesSent c))"

definition SendWindowOffset :: "connectionParametersManager \<Rightarrow> flowController \<Rightarrow> ByteCount" where
  "SendWindowOffset cp c = getSendWindow cp c"

definition fc_UpdateHighestReceived ::
  "ByteCount \<Rightarrow> flowController \<Rightarrow> (ByteCount \<times> fc_error option) \<times> flowController" where
  "fc_UpdateHighestReceived byteOffset c =
     (if byteOffset = highestReceived c then ((0, None), c)
      else if byteOffset > highestReceived c
      then ((sub64 byteOffset (highestReceived c), None), c\<lparr>highestReceived := byteOffset\<rparr>)
      else ((0, Some ErrReceivedSmallerByteOffset), c))"

definition IncrementHighestReceived :: "ByteCount \<Rightarrow> flowController \<Rightarrow> flowController" where
  "IncrementHighestReceived increment c = c\<lparr>highestReceived := add64 (highestReceived c) increment\<rparr>"

definition fc_AddBytesRead :: "fc_env \<Rightarrow> ByteCount \<Rightarrow> flowController \<Rightarrow> flowController" where
  "fc_AddBytesRead env n c =
     (let c = (if bytesRead c = 0 then c\<lparr>lastWindowUpdateTime := Some (now env)\<rparr> else c)
      in c\<lparr>bytesRead := add64 (bytesRead c) n\<rparr>)"

definition MaxDuration :: "Duration \<Rightarrow> Duration \<Rightarrow> Duration" where
  "MaxDuration a b = (if a > b then a else b)"

definition maybeAdjustWindowIncrement :: "fc_env \<Rightarrow> flowController \<Rightarrow> flowController" where
  "maybeAdjustWindowIncrement env c =
     (case lastWindowUpdateTime c of
        None \<Rightarrow> c
      | Some t \<Rightarrow>
          if smoothedRTT env = 0 then c
          else let maxRemoteRTT = foldl MaxDuration 0 (remoteRTTs env)
               in if now env - t \<ge> 2 * MaxDuration (smoothedRTT env) maxRemoteRTT then c
                  else c\<lparr>receiveWindowIncrement :=
                           MinByteCount (add64 (receiveWindowIncrement c) (receiveWindowIncrement c))
                             (maxReceiveWindowIncrement c)\<rparr>)"

definition MaybeUpdateWindow ::
  "fc_env \<Rightarrow> flowController \<Rightarrow> (bool \<times> ByteCount \<times> ByteCount) \<times> flowController" where
  "MaybeUpdateWindow env c =
     (if sub64 (receiveWindow c) (bytesRead c) < receiveWindowIncrement c div 2
      then let oldWindowIncrement = receiveWindowIncrement c;
               c = maybeAdjustWindowIncrement env c;
               newWindowIncrement = (if receiveWindowIncrement c \<noteq> oldWindowIncrement
                                     then receiveWindowIncrement c else 0);
               c = c\<lparr>lastWindowUpdateTime := Some (now env),
                     receiveWindow := add64 (bytesRead c) (receiveWindowIncrement c)\<rparr>
           in ((True, newWindowIncrement, receiveWindow c), c)
      else ((False, receiveWindowIncrement c, receiveWindow c), c))"

definition EnsureMinimumWindowIncrement :: "ByteCount \<Rightarrow> flowController \<Rightarrow> flowController" where
  "EnsureMinimumWindowIncrement inc c =
     (if inc > receiveWindowIncrement c
      then c\<lparr>receiveWindowIncrement := MinByteCount inc (maxReceiveWindowIncrement c),
             lastWindowUpdateTime := None\<rparr>
      else c)"

definition CheckFlowControlViolation :: "flowController \<Rightarrow> bool" where
  "CheckFlowControlViolation c \<longleftrightarrow> highestReceived c > receiveWindow c"

section \<open>The flow control manager\<close>

record flowControlManager =
  streamFlowController :: "StreamID \<rightharpoonup> flowController"
  connFlowController :: flowController

definition NewFlowControlManager :: "connectionParametersManager \<Rightarrow> flowControlManager" where
  "NewFlowControlManager cp =
     \<lparr>streamFlowController = Map.empty, connFlowController = newFlowController cp 0 False\<rparr>"

definition getFlowController :: "StreamID \<Rightarrow> flowControlManager \<Rightarrow> fc_error + flowController" where
  "getFlowController sid f =
     (case streamFlowController f sid of None \<Rightarrow> Inl errMapAccess | Some c \<Rightarrow> Inr c)"

text \<open>Storing a controller back is the update through the pointer the map holds.\<close>

definition put_stream :: "StreamID \<Rightarrow> flowController \<Rightarrow> flowControlManager \<Rightarrow> flowControlManager" where
  "put_stream sid c f = f\<lparr>streamFlowController := (streamFlowController f)(sid \<mapsto> c)\<rparr>"

definition put_conn :: "flowController \<Rightarrow> flowControlManager \<Rightarrow> flowControlManager" where
  "put_conn c f = f\<lparr>connFlowController := c\<rparr>"

definition NewStream ::
  "connectionParametersManager \<Rightarrow> StreamID \<Rightarrow> bool \<Rightarrow> flowControlManager \<Rightarrow> flowControlManager" where
  "NewStream cp sid contrib f =
     (if streamFlowController f sid \<noteq> None then f
      else put_stream sid (newFlowController cp sid contrib) f)"

definition RemoveStream :: "StreamID \<Rightarrow> flowControlManager \<Rightarrow> flowControlManager" where
  "RemoveStream sid f = f\<lparr>streamFlowController := (streamFlowController f)(sid := None)\<rparr>"

text \<open>
  The second half of \<^verbatim>\<open>ResetStream\<close> and \<^verbatim>\<open>UpdateHighestReceived\<close>: both check the stream, account
  the increment to the connection and check the connection.
\<close>

definition account_received ::
  "StreamID \<Rightarrow> ByteCount \<Rightarrow> ByteCount \<Rightarrow> flowController \<Rightarrow> flowControlManager \<Rightarrow> fc_error option \<times> flowControlManager" where
  "account_received sid byteOffset increment c f =
     (if CheckFlowControlViolation c
      then (Some (StreamReceivedTooMuchData byteOffset sid (receiveWindow c)), f)
      else if ContributesToConnection c
      then let f = put_conn (IncrementHighestReceived increment (connFlowController f)) f
           in if CheckFlowControlViolation (connFlowController f)
              then (Some (ConnReceivedTooMuchData (highestReceived (connFlowController f))
                            (receiveWindow (connFlowController f))), f)
              else (None, f)
      else (None, f))"

definition ResetStream :: "StreamID \<Rightarrow> ByteCount \<Rightarrow> flowControlManager \<Rightarrow> fc_error option \<times> flowControlManager" where
  "ResetStream sid byteOffset f =
     (case getFlowController sid f of
        Inl e \<Rightarrow> (Some e, f)
      | Inr c \<Rightarrow>
          (case fc_UpdateHighestReceived byteOffset c of
             ((_, Some e), c') \<Rightarrow> (Some StreamDataAfterTermination, put_stream sid c' f)
           | ((increment, None), c') \<Rightarrow> account_received sid byteOffset increment c' (put_stream sid c' f)))"

definition UpdateHighestReceived ::
  "StreamID \<Rightarrow> ByteCount \<Rightarrow> flowControlManager \<Rightarrow> fc_error option \<times> flowControlManager" where
  "UpdateHighestReceived sid byteOffset f =
     (case getFlowController sid f of
        Inl e \<Rightarrow> (Some e, f)
      | Inr c \<Rightarrow>
          (case fc_UpdateHighestReceived byteOffset c of
             ((increment, _), c') \<Rightarrow> account_received sid byteOffset increment c' (put_stream sid c' f)))"

text \<open>\<^verbatim>\<open>AddBytesRead\<close>, \<^verbatim>\<open>AddBytesSent\<close> and \<^verbatim>\<open>AddBytesRetrans\<close> count on the stream and, if it
  contributes, on the connection.\<close>

definition count_bytes ::
  "(flowController \<Rightarrow> flowController) \<Rightarrow> StreamID \<Rightarrow> flowControlManager \<Rightarrow> fc_error option \<times> flowControlManager" where
  "count_bytes op sid f =
     (case getFlowController sid f of
        Inl e \<Rightarrow> (Some e, f)
      | Inr c \<Rightarrow>
          let f = put_stream sid (op c) f
          in (None, if ContributesToConnection c then put_conn (op (connFlowController f)) f else f))"

definition AddBytesRead ::
  "fc_env \<Rightarrow> StreamID \<Rightarrow> ByteCount \<Rightarrow> flowControlManager \<Rightarrow> fc_error option \<times> flowControlManager" where
  "AddBytesRead env sid n = count_bytes (fc_AddBytesRead env n) sid"

definition AddBytesSent :: "StreamID \<Rightarrow> ByteCount \<Rightarrow> flowControlManager \<Rightarrow> fc_error option \<times> flowControlManager" where
  "AddBytesSent sid n = count_bytes (fc_AddBytesSent n) sid"

definition AddBytesRetrans :: "StreamID \<Rightarrow> ByteCount \<Rightarrow> flowControlManager \<Rightarrow> fc_error option \<times> flowControlManager" where
  "AddBytesRetrans sid n = count_bytes (fc_AddBytesRetrans n) sid"

definition GetBytesSent :: "StreamID \<Rightarrow> flowControlManager \<Rightarrow> fc_error + ByteCount" where
  "GetBytesSent sid f = map_sum id fc_GetBytesSent (getFlowController sid f)"

definition GetBytesRetrans :: "StreamID \<Rightarrow> flowControlManager \<Rightarrow> fc_error + ByteCount" where
  "GetBytesRetrans sid f = map_sum id fc_GetBytesRetrans (getFlowController sid f)"

text \<open>
  The range over the map visits the streams in an arbitrary order, the list \<open>ids\<close>;
  \<^verbatim>\<open>float64(n) * 1.5\<close> is rounded down.
\<close>

type_synonym WindowUpdate = "StreamID \<times> ByteCount"

fun stream_updates ::
  "fc_env \<Rightarrow> bool \<Rightarrow> StreamID list \<Rightarrow> flowControlManager \<Rightarrow> WindowUpdate list \<times> flowControlManager" where
  "stream_updates env force [] f = ([], f)"
| "stream_updates env force (sid # ids) f =
     (case streamFlowController f sid of
        None \<Rightarrow> stream_updates env force ids f
      | Some c \<Rightarrow>
          (case MaybeUpdateWindow env c of
             ((necessary, newIncrement, offset), c') \<Rightarrow>
               let f = put_stream sid c' f
               in if force \<or> necessary
                  then let f = (if ContributesToConnection c' \<and> newIncrement \<noteq> 0
                                then put_conn (EnsureMinimumWindowIncrement (newIncrement * 3 div 2)
                                       (connFlowController f)) f
                                else f)
                       in map_prod (Cons (sid, offset)) id (stream_updates env force ids f)
                  else stream_updates env force ids f))"

definition GetWindowUpdates ::
  "fc_env \<Rightarrow> StreamID list \<Rightarrow> bool \<Rightarrow> flowControlManager \<Rightarrow> WindowUpdate list \<times> flowControlManager" where
  "GetWindowUpdates env ids force f =
     (case stream_updates env force ids f of (res, f) \<Rightarrow>
        (case MaybeUpdateWindow env (connFlowController f) of
           ((necessary, _, offset), c') \<Rightarrow>
             (res @ (if force \<or> necessary then [(0, offset)] else []), put_conn c' f)))"

definition GetReceiveWindow :: "StreamID \<Rightarrow> flowControlManager \<Rightarrow> fc_error + ByteCount" where
  "GetReceiveWindow sid f =
     (if sid = 0 then Inr (receiveWindow (connFlowController f))
      else map_sum id receiveWindow (getFlowController sid f))"

definition SendWindowSize :: "connectionParametersManager \<Rightarrow> StreamID \<Rightarrow> flowControlManager \<Rightarrow> fc_error + ByteCount" where
  "SendWindowSize cp sid f =
     (case getFlowController sid f of
        Inl e \<Rightarrow> Inl e
      | Inr c \<Rightarrow>
          let res = fc_SendWindowSize cp c
          in Inr (if ContributesToConnection c
                  then MinByteCount res (fc_SendWindowSize cp (connFlowController f)) else res))"

definition RemainingConnectionWindowSize :: "connectionParametersManager \<Rightarrow> flowControlManager \<Rightarrow> ByteCount" where
  "RemainingConnectionWindowSize cp f = fc_SendWindowSize cp (connFlowController f)"

definition UpdateWindow :: "StreamID \<Rightarrow> ByteCount \<Rightarrow> flowControlManager \<Rightarrow> (fc_error + bool) \<times> flowControlManager" where
  "UpdateWindow sid offset f =
     (if sid = 0
      then case UpdateSendWindow offset (connFlowController f) of (b, c) \<Rightarrow> (Inr b, put_conn c f)
      else case getFlowController sid f of
             Inl e \<Rightarrow> (Inl e, f)
           | Inr c \<Rightarrow> (case UpdateSendWindow offset c of (b, c') \<Rightarrow> (Inr b, put_stream sid c' f)))"

section \<open>The receiving side of a controller\<close>

definition rcv_ok :: "flowController \<Rightarrow> bool" where
  "rcv_ok c \<longleftrightarrow> bytesRead c \<le> highestReceived c \<and> highestReceived c \<le> receiveWindow c \<and>
     receiveWindowIncrement c \<le> maxReceiveWindowIncrement c \<and> maxReceiveWindowIncrement c \<le> 2 ^ 62 \<and>
     2 \<le> receiveWindowIncrement c \<and> bytesRead c \<le> 2 ^ 62 \<and> receiveWindow c \<le> 2 ^ 63"

text \<open>What an operation on the windows leaves alone, and that it only moves them up.\<close>

definition grows :: "flowController \<Rightarrow> flowController \<Rightarrow> bool" where
  "grows c c' \<longleftrightarrow> rcv_ok c' \<and> receiveWindow c \<le> receiveWindow c' \<and>
     receiveWindowIncrement c \<le> receiveWindowIncrement c' \<and>
     streamID c' = streamID c \<and> contributesToConnection c' = contributesToConnection c \<and>
     bytesRead c' = bytesRead c \<and> highestReceived c' = highestReceived c"

lemma grows_refl: "rcv_ok c \<Longrightarrow> grows c c"
  by (simp add: grows_def)

lemma grows_trans: "grows a b \<Longrightarrow> grows b c \<Longrightarrow> grows a c"
  by (auto simp: grows_def)

lemma sub64_le [simp]: "b \<le> a \<Longrightarrow> a < 2 ^ 64 \<Longrightarrow> sub64 a b = a - b"
  by (rule sub64_small) auto

lemma add64_le: "a + b < 2 ^ 64 \<Longrightarrow> add64 a b = a + b"
  by (rule add64_small) auto

lemma maybeAdjust_grows:
  assumes "rcv_ok c"
  shows "grows c (maybeAdjustWindowIncrement env c)"
    "receiveWindow (maybeAdjustWindowIncrement env c) = receiveWindow c"
  using assms by (auto simp: maybeAdjustWindowIncrement_def grows_def rcv_ok_def minmax_eqs add64_le
      Let_def split: option.split)

lemma EnsureMinimum_grows: "rcv_ok c \<Longrightarrow> grows c (EnsureMinimumWindowIncrement inc c)"
  by (auto simp: EnsureMinimumWindowIncrement_def grows_def rcv_ok_def minmax_eqs)

lemma MaybeUpdateWindow_grows:
  assumes ok: "rcv_ok c" and m: "MaybeUpdateWindow env c = ((necessary, inc, offset), c')"
  shows "grows c c'" "offset = receiveWindow c'"
    "necessary \<longleftrightarrow> receiveWindow c - bytesRead c < receiveWindowIncrement c div 2"
    "necessary \<Longrightarrow> receiveWindow c' = bytesRead c + receiveWindowIncrement c'"
proof -
  let ?a = "maybeAdjustWindowIncrement env c"
  have a: "grows c ?a" "receiveWindow ?a = receiveWindow c"
    using maybeAdjust_grows [OF ok] by auto
  have d: "sub64 (receiveWindow c) (bytesRead c) = receiveWindow c - bytesRead c"
    using ok by (auto simp: rcv_ok_def)
  have w: "add64 (bytesRead ?a) (receiveWindowIncrement ?a) = bytesRead c + receiveWindowIncrement ?a"
    using a by (subst add64_le) (auto simp: grows_def rcv_ok_def)
  show n: "necessary \<longleftrightarrow> receiveWindow c - bytesRead c < receiveWindowIncrement c div 2"
    using m by (auto simp: MaybeUpdateWindow_def d Let_def split: if_splits)
  show o: "offset = receiveWindow c'"
    using m by (auto simp: MaybeUpdateWindow_def Let_def split: if_splits)
  show "receiveWindow c' = bytesRead c + receiveWindowIncrement c'" if "necessary"
    using m that w by (auto simp: MaybeUpdateWindow_def d Let_def split: if_splits)
  show "grows c c'"
  proof (cases necessary)
    case True
    then have c': "c' = ?a\<lparr>lastWindowUpdateTime := Some (now env),
        receiveWindow := bytesRead c + receiveWindowIncrement ?a\<rparr>"
      using m w by (auto simp: MaybeUpdateWindow_def d Let_def split: if_splits)
    have "receiveWindow c - bytesRead c < receiveWindowIncrement c div 2"
      using n True by simp
    then have "receiveWindow c \<le> bytesRead c + receiveWindowIncrement c"
      by linarith
    then show ?thesis
      using a ok unfolding c' by (auto simp: grows_def rcv_ok_def)
  next
    case False
    then have "c' = c"
      using m by (auto simp: MaybeUpdateWindow_def d Let_def split: if_splits)
    then show ?thesis
      using ok by (simp add: grows_refl)
  qed
qed

section \<open>Sums over the streams that count for the connection\<close>

definition stream_total :: "(flowController \<Rightarrow> ByteCount) \<Rightarrow> (StreamID \<rightharpoonup> flowController) \<Rightarrow> ByteCount" where
  "stream_total g m =
     (\<Sum>sid\<in>dom m. case m sid of Some c \<Rightarrow> if contributesToConnection c then g c else 0 | None \<Rightarrow> 0)"

lemma stream_total_update:
  assumes "finite (dom m)" "m sid = Some c" "contributesToConnection c' = contributesToConnection c"
  shows "stream_total g (m(sid \<mapsto> c')) + (if contributesToConnection c then g c else 0) =
     stream_total g m + (if contributesToConnection c then g c' else 0)"
proof -
  have "insert sid (dom m) = dom m"
    using assms(2) by (auto simp: dom_def)
  moreover have "sid \<in> dom m"
    using assms(2) by auto
  ultimately show ?thesis
    using assms by (auto simp: stream_total_def sum.remove [of "dom m" sid] intro!: sum.cong)
qed

lemma stream_total_new:
  assumes "finite (dom m)" "m sid = None"
  shows "stream_total g (m(sid \<mapsto> c)) = stream_total g m + (if contributesToConnection c then g c else 0)"
proof -
  have "sid \<notin> dom m" using assms(2) by auto
  then have "(\<Sum>x\<in>dom m. case (m(sid \<mapsto> c)) x of Some c \<Rightarrow> if contributesToConnection c then g c else 0 | None \<Rightarrow> 0)
    = stream_total g m"
    unfolding stream_total_def by (intro sum.cong) auto
  then show ?thesis
    using assms \<open>sid \<notin> dom m\<close> by (simp add: stream_total_def)
qed

lemma stream_total_mono:
  assumes "dom m = dom m'" "finite (dom m)"
    and "\<And>sid c c'. m sid = Some c \<Longrightarrow> m' sid = Some c' \<Longrightarrow>
           contributesToConnection c = contributesToConnection c' \<and> g c \<le> h c'"
  shows "stream_total g m \<le> stream_total h m'"
  unfolding stream_total_def assms(1) [symmetric]
proof (rule sum_mono)
  fix sid assume "sid \<in> dom m"
  then obtain c c' where "m sid = Some c" "m' sid = Some c'"
    using assms(1) by (metis domD)
  then show "(case m sid of None \<Rightarrow> 0 | Some c \<Rightarrow> if contributesToConnection c then g c else 0) \<le>
     (case m' sid of None \<Rightarrow> 0 | Some c \<Rightarrow> if contributesToConnection c then h c else 0)"
    using assms(3) by simp
qed

lemma stream_total_member:
  assumes "finite (dom m)" "m sid = Some c" "contributesToConnection c"
  shows "g c \<le> stream_total g m"
  using assms member_le_sum [of sid "dom m"
      "\<lambda>sid. case m sid of Some c \<Rightarrow> if contributesToConnection c then g c else 0 | None \<Rightarrow> 0"]
  by (auto simp: stream_total_def)

section \<open>Growth of a whole manager\<close>

definition mgr_ok :: "flowControlManager \<Rightarrow> bool" where
  "mgr_ok f \<longleftrightarrow> rcv_ok (connFlowController f) \<and>
     (\<forall>sid c. streamFlowController f sid = Some c \<longrightarrow> rcv_ok c)"

definition mgr_grows :: "flowControlManager \<Rightarrow> flowControlManager \<Rightarrow> bool" where
  "mgr_grows f f' \<longleftrightarrow> grows (connFlowController f) (connFlowController f') \<and>
     dom (streamFlowController f') = dom (streamFlowController f) \<and>
     (\<forall>sid c c'. streamFlowController f sid = Some c \<longrightarrow> streamFlowController f' sid = Some c' \<longrightarrow> grows c c')"

lemma mgr_grows_refl: "mgr_ok f \<Longrightarrow> mgr_grows f f"
  by (auto simp: mgr_grows_def mgr_ok_def grows_refl)

lemma mgr_grows_trans:
  assumes "mgr_grows a b" "mgr_grows b c"
  shows "mgr_grows a c"
proof -
  have "grows u w" if u: "streamFlowController a sid = Some u" and w: "streamFlowController c sid = Some w" for sid u w
  proof -
    obtain v where "streamFlowController b sid = Some v"
      using assms(1) u unfolding mgr_grows_def by blast
    then have "grows u v" "grows v w" using assms u w by (auto simp: mgr_grows_def)
    then show ?thesis by (rule grows_trans)
  qed
  moreover have "grows (connFlowController a) (connFlowController c)"
    using assms grows_trans unfolding mgr_grows_def by blast
  ultimately show ?thesis using assms by (simp add: mgr_grows_def)
qed

lemma mgr_grows_ok:
  assumes "mgr_grows f f'"
  shows "mgr_ok f'"
proof -
  have "rcv_ok c'" if c': "streamFlowController f' sid = Some c'" for sid c'
  proof -
    have "sid \<in> dom (streamFlowController f)" using assms c' unfolding mgr_grows_def by blast
    then obtain c where "streamFlowController f sid = Some c" by blast
    then have "grows c c'" using assms c' by (simp add: mgr_grows_def)
    then show ?thesis by (simp add: grows_def)
  qed
  then show ?thesis using assms by (auto simp: mgr_ok_def mgr_grows_def grows_def)
qed

lemma mgr_grows_stream:
  "mgr_ok f \<Longrightarrow> streamFlowController f sid = Some c \<Longrightarrow> grows c c' \<Longrightarrow> mgr_grows f (put_stream sid c' f)"
  by (auto simp: mgr_grows_def mgr_ok_def put_stream_def grows_refl)

lemma mgr_grows_conn:
  "mgr_ok f \<Longrightarrow> grows (connFlowController f) c' \<Longrightarrow> mgr_grows f (put_conn c' f)"
  by (auto simp: mgr_grows_def mgr_ok_def put_conn_def grows_refl)

lemma put_simps [simp]:
  "connFlowController (put_stream sid c f) = connFlowController f"
  "streamFlowController (put_stream sid c f) = (streamFlowController f)(sid \<mapsto> c)"
  "connFlowController (put_conn c f) = c"
  "streamFlowController (put_conn c f) = streamFlowController f"
  by (auto simp: put_stream_def put_conn_def)

text \<open>The window a manager grants to a stream, or to the connection for id 0.\<close>

definition granted :: "StreamID \<Rightarrow> flowControlManager \<Rightarrow> ByteCount" where
  "granted sid f =
     (if sid = 0 then receiveWindow (connFlowController f)
      else case streamFlowController f sid of Some c \<Rightarrow> receiveWindow c | None \<Rightarrow> 0)"

lemma granted_grows: "mgr_grows f f' \<Longrightarrow> granted sid f \<le> granted sid f'"
  by (auto simp: granted_def mgr_grows_def grows_def split: option.split)

text \<open>After the check of a window it is half an increment ahead of the reader.\<close>

lemma MaybeUpdateWindow_ahead:
  assumes "rcv_ok c" "MaybeUpdateWindow env c = ((necessary, inc, offset), c')"
  shows "bytesRead c < offset"
  using MaybeUpdateWindow_grows [OF assms] assms(1)
  by (cases necessary) (auto simp: rcv_ok_def grows_def)

definition read_by :: "StreamID \<Rightarrow> flowControlManager \<Rightarrow> ByteCount" where
  "read_by sid f =
     (if sid = 0 then bytesRead (connFlowController f)
      else case streamFlowController f sid of Some c \<Rightarrow> bytesRead c | None \<Rightarrow> 0)"

lemma read_by_grows:
  assumes "mgr_grows f f'"
  shows "read_by sid f' = read_by sid f"
proof -
  have conn: "bytesRead (connFlowController f') = bytesRead (connFlowController f)"
    using assms by (simp add: mgr_grows_def grows_def [of "connFlowController f"])
  have dom: "dom (streamFlowController f') = dom (streamFlowController f)"
    using assms by (simp add: mgr_grows_def)
  show ?thesis
  proof (cases "streamFlowController f sid")
    case None
    then have "sid \<notin> dom (streamFlowController f')" unfolding dom by blast
    then have "streamFlowController f' sid = None" by blast
    then show ?thesis using None conn by (simp add: read_by_def)
  next
    case (Some c)
    then have "sid \<in> dom (streamFlowController f')" unfolding dom by blast
    then obtain c' where c': "streamFlowController f' sid = Some c'" by blast
    then have "grows c c'" using Some assms by (simp add: mgr_grows_def)
    then show ?thesis using Some c' conn by (simp add: read_by_def grows_def)
  qed
qed

text \<open>One round of the loop over the streams.\<close>

lemma stream_updates_step:
  assumes ok: "mgr_ok f" and sid: "sid \<noteq> 0" and c: "streamFlowController f sid = Some c"
  obtains necessary offset f1 where "mgr_grows f f1" "granted sid f1 = offset" "read_by sid f < offset"
    "\<And>k. k \<noteq> sid \<Longrightarrow> granted k f1 = granted k f"
    "\<not> necessary \<Longrightarrow> granted sid f = offset"
    "stream_updates env force (sid # ids) f =
       map_prod (\<lambda>res. if force \<or> necessary then (sid, offset) # res else res) id
         (stream_updates env force ids f1)"
proof -
  obtain nec inc offset c' where m: "MaybeUpdateWindow env c = ((nec, inc, offset), c')"
    by (metis prod.collapse)
  have rok: "rcv_ok c" using ok c by (simp add: mgr_ok_def)
  note g = MaybeUpdateWindow_grows [OF rok m] and ahead = MaybeUpdateWindow_ahead [OF rok m]
  let ?f = "put_stream sid c' f"
  let ?e = "put_conn (EnsureMinimumWindowIncrement (inc * 3 div 2) (connFlowController ?f)) ?f"
  have f1: "mgr_grows f ?f" by (rule mgr_grows_stream [OF ok c g(1)])
  have f2: "mgr_grows f ?e"
    using mgr_grows_trans [OF f1 mgr_grows_conn [OF mgr_grows_ok [OF f1] EnsureMinimum_grows]]
      mgr_grows_ok [OF f1] by (simp add: mgr_ok_def)
  have same: "c' = c" if "\<not> nec"
    using m that by (auto simp: MaybeUpdateWindow_def Let_def split: if_splits)
  define f1 where "f1 = (if (force \<or> nec) \<and> ContributesToConnection c' \<and> inc \<noteq> 0 then ?e else ?f)"
  show ?thesis
  proof (rule that [of f1 offset nec])
    show "mgr_grows f f1" using f1 f2 by (simp add: f1_def)
    show "granted sid f1 = offset" using g(2) sid by (simp add: f1_def granted_def)
    show "read_by sid f < offset" using ahead sid c by (simp add: read_by_def)
    show "granted k f1 = granted k f" if "k \<noteq> sid" for k
      using that by (simp add: f1_def granted_def EnsureMinimumWindowIncrement_def)
    show "granted sid f = offset" if "\<not> nec"
      using g(2) same [OF that] sid c by (simp add: granted_def)
    show "stream_updates env force (sid # ids) f =
       map_prod (\<lambda>res. if force \<or> nec then (sid, offset) # res else res) id (stream_updates env force ids f1)"
      by (cases force; cases nec; cases "ContributesToConnection c' \<and> inc \<noteq> 0")
        (auto simp: c m f1_def Let_def map_prod_def split: prod.split)
  qed
qed

lemma stream_updates_grow:
  assumes "mgr_ok f" "0 \<notin> set ids" "stream_updates env force ids f = (res, f')"
  shows "mgr_grows f f' \<and> (\<forall>(sid, offset) \<in> set res. offset \<le> granted sid f')"
  using assms
proof (induction ids arbitrary: f res f')
  case Nil
  then show ?case by (simp add: mgr_grows_refl)
next
  case (Cons sid ids)
  show ?case
  proof (cases "streamFlowController f sid")
    case None
    then show ?thesis using Cons by simp
  next
    case (Some c)
    have "sid \<noteq> 0" using Cons.prems(2) by auto
    then obtain nec offset f1 where f1: "mgr_grows f f1" "granted sid f1 = offset"
      and eq: "stream_updates env force (sid # ids) f =
         map_prod (\<lambda>res. if force \<or> nec then (sid, offset) # res else res) id (stream_updates env force ids f1)"
      by (rule stream_updates_step [OF Cons.prems(1) _ Some, where env = env and force = force and ids = ids]) blast
    obtain res' where r: "stream_updates env force ids f1 = (res', f')" "set res \<subseteq> insert (sid, offset) (set res')"
      using Cons.prems(3) unfolding eq by (cases "stream_updates env force ids f1") (auto split: if_splits)
    have "mgr_grows f1 f'" "\<forall>(sid, offset) \<in> set res'. offset \<le> granted sid f'"
      using Cons.IH [OF mgr_grows_ok [OF f1(1)] _ r(1)] Cons.prems(2) by auto
    then show ?thesis
      using r(2) f1 granted_grows [of f1 f' sid] mgr_grows_trans [of f f1 f'] by auto
  qed
qed

lemma GetWindowUpdates_grow:
  assumes "mgr_ok f" "0 \<notin> set ids" "GetWindowUpdates env ids force f = (res, f')"
  shows "mgr_grows f f'" "\<forall>(sid, offset) \<in> set res. offset \<le> granted sid f'"
proof -
  obtain r f1 where su: "stream_updates env force ids f = (r, f1)" by (metis prod.collapse)
  obtain nec inc offset c' where m: "MaybeUpdateWindow env (connFlowController f1) = ((nec, inc, offset), c')"
    by (metis prod.collapse)
  have f': "f' = put_conn c' f1" and res: "set res \<subseteq> insert (0, offset) (set r)"
    using assms(3) by (auto simp: GetWindowUpdates_def su m split: if_splits)
  have s1: "mgr_grows f f1" "\<forall>(sid, offset) \<in> set r. offset \<le> granted sid f1"
    using stream_updates_grow [OF assms(1,2) su] by auto
  then have ok: "mgr_ok f1" by (blast intro: mgr_grows_ok)
  then have "rcv_ok (connFlowController f1)" by (simp add: mgr_ok_def)
  note g = MaybeUpdateWindow_grows [OF this m]
  have g1: "mgr_grows f1 f'" unfolding f' by (rule mgr_grows_conn [OF ok g(1)])
  then show "mgr_grows f f'" using s1(1) mgr_grows_trans by blast
  have "granted 0 f' = offset" by (simp add: granted_def f' g(2))
  then show "\<forall>(sid, offset) \<in> set res. offset \<le> granted sid f'"
    using res s1(2) granted_grows [OF g1] order_trans by auto blast
qed

section \<open>A sender and a receiver\<close>

text \<open>
  One direction of a connection: the manager of the sending side, the manager of the receiving
  side, and every window update the receiver has announced.  Frames and window updates may
  arrive late, repeatedly, out of order or never.  The receiver opens a stream together with the
  sender, and reads at most what it received; the amount of data is bounded by \<open>2^62\<close> bytes.
  Each side removes a stream on its own, as the garbage collection of its session does; two more
  fields keep the controllers as they were when they were removed.  Stream ids are not used again.
\<close>

record flow_pair =
  fp_sender :: flowControlManager
  fp_receiver :: flowControlManager
  fp_updates :: "WindowUpdate list"
  fp_sender_gone :: "StreamID \<rightharpoonup> flowController"
  fp_receiver_gone :: "StreamID \<rightharpoonup> flowController"

text \<open>A manager with the removed controllers put back, and so everything a sender has sent.\<close>

definition whole :: "(StreamID \<rightharpoonup> flowController) \<Rightarrow> flowControlManager \<Rightarrow> flowControlManager" where
  "whole gone f = f\<lparr>streamFlowController := gone ++ streamFlowController f\<rparr>"

definition all_sent :: "flow_pair \<Rightarrow> flowControlManager" where
  "all_sent s = whole (fp_sender_gone s) (fp_sender s)"

inductive flow_reach :: "connectionParametersManager \<Rightarrow> connectionParametersManager \<Rightarrow> flow_pair \<Rightarrow> bool"
  for scp rcp where
  init: "flow_reach scp rcp \<lparr>fp_sender = NewFlowControlManager scp, fp_receiver = NewFlowControlManager rcp,
           fp_updates = [], fp_sender_gone = Map.empty, fp_receiver_gone = Map.empty\<rparr>"
| opens: "\<lbrakk>flow_reach scp rcp s; sid \<noteq> 0; fp_sender_gone s sid = None; fp_receiver_gone s sid = None\<rbrakk> \<Longrightarrow>
     flow_reach scp rcp (s\<lparr>fp_sender := NewStream scp sid contrib (fp_sender s),
       fp_receiver := NewStream rcp sid contrib (fp_receiver s)\<rparr>)"
| send: "\<lbrakk>flow_reach scp rcp s; SendWindowSize scp sid (fp_sender s) = Inr w; n \<le> w\<rbrakk> \<Longrightarrow>
     flow_reach scp rcp (s\<lparr>fp_sender := snd (AddBytesSent sid n (fp_sender s))\<rparr>)"
| deliver: "\<lbrakk>flow_reach scp rcp s; GetBytesSent sid (all_sent s) = Inr b; offset \<le> b\<rbrakk> \<Longrightarrow>
     flow_reach scp rcp (s\<lparr>fp_receiver := snd (UpdateHighestReceived sid offset (fp_receiver s))\<rparr>)"
| reset: "\<lbrakk>flow_reach scp rcp s; GetBytesSent sid (all_sent s) = Inr b\<rbrakk> \<Longrightarrow>
     flow_reach scp rcp (s\<lparr>fp_receiver := snd (ResetStream sid b (fp_receiver s))\<rparr>)"
| read: "\<lbrakk>flow_reach scp rcp s; streamFlowController (fp_receiver s) sid = Some c;
     bytesRead c + n \<le> highestReceived c; bytesRead c + n \<le> 2 ^ 62;
     bytesRead (connFlowController (fp_receiver s)) + n \<le> 2 ^ 62\<rbrakk> \<Longrightarrow>
     flow_reach scp rcp (s\<lparr>fp_receiver := snd (AddBytesRead env sid n (fp_receiver s))\<rparr>)"
| announce: "\<lbrakk>flow_reach scp rcp s; 0 \<notin> set ids; GetWindowUpdates env ids force (fp_receiver s) = (res, f)\<rbrakk> \<Longrightarrow>
     flow_reach scp rcp (s\<lparr>fp_receiver := f, fp_updates := fp_updates s @ res\<rparr>)"
| update: "\<lbrakk>flow_reach scp rcp s; (sid, offset) \<in> set (fp_updates s)\<rbrakk> \<Longrightarrow>
     flow_reach scp rcp (s\<lparr>fp_sender := snd (UpdateWindow sid offset (fp_sender s))\<rparr>)"
| sender_removes: "\<lbrakk>flow_reach scp rcp s; streamFlowController (fp_sender s) sid = Some c\<rbrakk> \<Longrightarrow>
     flow_reach scp rcp (s\<lparr>fp_sender := RemoveStream sid (fp_sender s),
       fp_sender_gone := (fp_sender_gone s)(sid \<mapsto> c)\<rparr>)"
| receiver_removes: "\<lbrakk>flow_reach scp rcp s; streamFlowController (fp_receiver s) sid = Some c\<rbrakk> \<Longrightarrow>
     flow_reach scp rcp (s\<lparr>fp_receiver := RemoveStream sid (fp_receiver s),
       fp_receiver_gone := (fp_receiver_gone s)(sid \<mapsto> c)\<rparr>)"

text \<open>The sender knows the receiver's initial windows, and these can grow.\<close>

definition negotiated :: "connectionParametersManager \<Rightarrow> connectionParametersManager \<Rightarrow> bool" where
  "negotiated scp rcp \<longleftrightarrow>
     GetSendStreamFlowControlWindow scp = GetReceiveStreamFlowControlWindow rcp \<and>
     GetSendConnectionFlowControlWindow scp = GetReceiveConnectionFlowControlWindow rcp \<and>
     2 \<le> GetReceiveStreamFlowControlWindow rcp \<and> 2 \<le> GetReceiveConnectionFlowControlWindow rcp \<and>
     GetReceiveStreamFlowControlWindow rcp \<le> GetMaxReceiveStreamFlowControlWindow rcp \<and>
     GetReceiveConnectionFlowControlWindow rcp \<le> GetMaxReceiveConnectionFlowControlWindow rcp \<and>
     GetMaxReceiveStreamFlowControlWindow rcp \<le> 2 ^ 62 \<and>
     GetMaxReceiveConnectionFlowControlWindow rcp \<le> 2 ^ 62"

definition linked :: "connectionParametersManager \<Rightarrow> flowController \<Rightarrow> flowController \<Rightarrow> bool" where
  "linked scp cs cr \<longleftrightarrow> bytesSent cs \<le> receiveWindow cr \<and> highestReceived cr \<le> bytesSent cs \<and>
     getSendWindow scp cs \<le> receiveWindow cr \<and> rcv_ok cr \<and>
     contributesToConnection cs = contributesToConnection cr"

text \<open>The invariant, first for a pair of managers that never removed a stream.\<close>

definition pair_inv :: "connectionParametersManager \<Rightarrow> flow_pair \<Rightarrow> bool" where
  "pair_inv scp s \<longleftrightarrow>
     (let S = streamFlowController (fp_sender s); R = streamFlowController (fp_receiver s);
          cs = connFlowController (fp_sender s); cr = connFlowController (fp_receiver s)
      in finite (dom S) \<and> dom R = dom S \<and> 0 \<notin> dom S \<and> linked scp cs cr \<and>
         (\<forall>sid c c'. S sid = Some c \<longrightarrow> R sid = Some c' \<longrightarrow> linked scp c c') \<and>
         bytesSent cs = stream_total bytesSent S \<and> highestReceived cr = stream_total highestReceived R \<and>
         bytesRead cr = stream_total bytesRead R \<and>
         (\<forall>(sid, offset) \<in> set (fp_updates s). offset \<le> granted sid (fp_receiver s)))"

lemma linked_new:
  "negotiated scp rcp \<Longrightarrow> linked scp (newFlowController scp sid contrib) (newFlowController rcp sid contrib)"
  by (auto simp: negotiated_def linked_def newFlowController_def rcv_ok_def getSendWindow_def Let_def)

lemma SendWindowSize_bound:
  assumes "n \<le> fc_SendWindowSize scp cs" "linked scp cs cr"
  shows "bytesSent cs + n \<le> receiveWindow cr" "bytesSent (fc_AddBytesSent n cs) = bytesSent cs + n"
    "linked scp (fc_AddBytesSent n cs) cr"
proof -
  have r: "receiveWindow cr \<le> 2 ^ 63" using assms(2) by (simp add: linked_def rcv_ok_def)
  show 1: "bytesSent cs + n \<le> receiveWindow cr"
  proof (cases "bytesSent cs > getSendWindow scp cs")
    case True
    then have "n = 0" using assms(1) by (simp add: fc_SendWindowSize_def)
    then show ?thesis using assms(2) by (simp add: linked_def)
  next
    case False
    moreover have "getSendWindow scp cs < 2 ^ 64" using assms(2) r by (simp add: linked_def)
    ultimately have "n \<le> getSendWindow scp cs - bytesSent cs"
      using assms(1) by (simp add: fc_SendWindowSize_def Let_def)
    then show ?thesis using False assms(2) unfolding linked_def by linarith
  qed
  then show 2: "bytesSent (fc_AddBytesSent n cs) = bytesSent cs + n"
    using r by (simp add: fc_AddBytesSent_def add64_le)
  show "linked scp (fc_AddBytesSent n cs) cr"
    using 1 2 assms(2) by (auto simp: linked_def fc_AddBytesSent_def getSendWindow_def)
qed

lemma linked_update:
  "linked scp cs cr \<Longrightarrow> offset \<le> receiveWindow cr \<Longrightarrow> linked scp (snd (UpdateSendWindow offset cs)) cr"
  by (auto simp: linked_def UpdateSendWindow_def getSendWindow_def)

lemma linked_grows: "linked scp cs cr \<Longrightarrow> grows cr cr' \<Longrightarrow> linked scp cs cr'"
  by (auto simp: linked_def grows_def)

lemma pair_inv_other:
  assumes "pair_inv scp s"
  shows "(\<exists>c. streamFlowController (fp_sender s) sid = Some c) \<longleftrightarrow>
     (\<exists>c. streamFlowController (fp_receiver s) sid = Some c)"
proof -
  have "dom (streamFlowController (fp_receiver s)) = dom (streamFlowController (fp_sender s))"
    using assms by (simp add: pair_inv_def Let_def)
  then show ?thesis by blast
qed

lemma pair_inv_mgr_ok: "pair_inv scp s \<Longrightarrow> mgr_ok (fp_receiver s)"
  using pair_inv_other [of scp s] unfolding mgr_ok_def pair_inv_def linked_def Let_def by blast

lemma pair_inv_send_bound:
  assumes "pair_inv scp s"
  shows "getSendWindow scp (connFlowController (fp_sender s)) < 2 ^ 64"
    "streamFlowController (fp_sender s) sid = Some c \<Longrightarrow> getSendWindow scp c < 2 ^ 64"
proof -
  have b: "getSendWindow scp x < 2 ^ 64" if "linked scp x y" for x y
    using that by (simp add: linked_def rcv_ok_def)
  show "getSendWindow scp (connFlowController (fp_sender s)) < 2 ^ 64"
    using assms b by (auto simp: pair_inv_def Let_def)
  assume c: "streamFlowController (fp_sender s) sid = Some c"
  then obtain c' where "streamFlowController (fp_receiver s) sid = Some c'"
    using pair_inv_other [OF assms] by blast
  then have "linked scp c c'" using assms c by (simp add: pair_inv_def Let_def)
  then show "getSendWindow scp c < 2 ^ 64" by (rule b)
qed

lemma inv_init:
  "negotiated scp rcp \<Longrightarrow> pair_inv scp \<lparr>fp_sender = NewFlowControlManager scp,
     fp_receiver = NewFlowControlManager rcp, fp_updates = [], fp_sender_gone = sg, fp_receiver_gone = rg\<rparr>"
  using linked_new [of scp rcp 0 False]
  by (simp add: pair_inv_def NewFlowControlManager_def stream_total_def)
    (simp add: newFlowController_def Let_def)

lemma inv_opens:
  assumes "negotiated scp rcp" "pair_inv scp s" "sid \<noteq> 0"
  shows "pair_inv scp (s\<lparr>fp_sender := NewStream scp sid contrib (fp_sender s),
     fp_receiver := NewStream rcp sid contrib (fp_receiver s)\<rparr>)"
proof (cases "sid \<in> dom (streamFlowController (fp_sender s))")
  case True
  then have "sid \<in> dom (streamFlowController (fp_receiver s))"
    using assms(2) by (simp add: pair_inv_def Let_def)
  then show ?thesis using True assms(2) by (auto simp: NewStream_def)
next
  case False
  then have n: "streamFlowController (fp_sender s) sid = None" "streamFlowController (fp_receiver s) sid = None"
    using assms(2) by (auto simp: pair_inv_def Let_def)
  have z: "bytesSent (newFlowController scp sid contrib) = 0" "highestReceived (newFlowController rcp sid contrib) = 0"
    "bytesRead (newFlowController rcp sid contrib) = 0"
    by (simp_all add: newFlowController_def Let_def)
  have u: "granted k (fp_receiver s) \<le> granted k (put_stream sid c (fp_receiver s))" for k c
    using n by (auto simp: granted_def)
  have "\<forall>(k, offset) \<in> set (fp_updates s). offset \<le> granted k (put_stream sid c (fp_receiver s))" for c
    using assms(2) u order_trans unfolding pair_inv_def Let_def by fast
  then show ?thesis
    using assms n z linked_new [OF assms(1)]
    by (simp add: pair_inv_def Let_def NewStream_def stream_total_new)
qed

lemma count_bytes_Some:
  "streamFlowController f sid = Some c \<Longrightarrow>
     count_bytes op sid f = (None, let f = put_stream sid (op c) f
       in if contributesToConnection c then put_conn (op (connFlowController f)) f else f)"
  by (simp add: count_bytes_def getFlowController_def ContributesToConnection_def Let_def)

lemma fc_AddBytesSent_sel [simp]:
  "contributesToConnection (fc_AddBytesSent n c) = contributesToConnection c"
  by (simp add: fc_AddBytesSent_def)

lemma inv_send:
  assumes inv: "pair_inv scp s" and w: "SendWindowSize scp sid (fp_sender s) = Inr w" "n \<le> w"
  shows "pair_inv scp (s\<lparr>fp_sender := snd (AddBytesSent sid n (fp_sender s))\<rparr>)"
proof -
  let ?S = "streamFlowController (fp_sender s)" and ?R = "streamFlowController (fp_receiver s)"
  let ?cs = "connFlowController (fp_sender s)"
  obtain c where c: "?S sid = Some c"
    using w(1) by (auto simp: SendWindowSize_def getFlowController_def split: option.splits)
  obtain c' where c': "?R sid = Some c'"
    using pair_inv_other [OF inv] c by blast
  have n: "n \<le> fc_SendWindowSize scp c" "contributesToConnection c \<Longrightarrow> n \<le> fc_SendWindowSize scp ?cs"
    using w c by (auto simp: SendWindowSize_def getFlowController_def ContributesToConnection_def minmax_eqs Let_def
        split: if_splits)
  have l: "linked scp c c'" "linked scp ?cs (connFlowController (fp_receiver s))"
    using inv c c' by (auto simp: pair_inv_def Let_def)
  note b = SendWindowSize_bound [OF n(1) l(1)] and bc = SendWindowSize_bound [OF n(2) l(2)]
  have "finite (dom ?S)" using inv by (simp add: pair_inv_def Let_def)
  from stream_total_update [OF this c, of "fc_AddBytesSent n c" bytesSent]
  have t: "stream_total bytesSent (?S(sid \<mapsto> fc_AddBytesSent n c)) =
      stream_total bytesSent ?S + (if contributesToConnection c then n else 0)"
    using b(2) by (simp split: if_splits)
  have d: "dom (?S(sid \<mapsto> fc_AddBytesSent n c)) = dom ?S" using c by auto
  have k: "linked scp x x'" if "(?S(sid \<mapsto> fc_AddBytesSent n c)) k = Some x" "?R k = Some x'" for k x x'
    using that inv b(3) c' by (cases "k = sid") (auto simp: pair_inv_def Let_def)
  show ?thesis
    using inv k d t bc b unfolding AddBytesSent_def
    by (auto simp: count_bytes_Some [OF c] pair_inv_def Let_def simp del: dom_fun_upd fun_upd_apply)
qed

text \<open>Accounting received bytes: never an error, and the totals move together.\<close>

lemma UpdateHighestReceived_Some:
  assumes "streamFlowController f sid = Some c" "highestReceived c < 2 ^ 64" "offset < 2 ^ 64"
  shows "UpdateHighestReceived sid offset f =
     account_received sid offset (max offset (highestReceived c) - highestReceived c)
       (c\<lparr>highestReceived := max offset (highestReceived c)\<rparr>)
       (put_stream sid (c\<lparr>highestReceived := max offset (highestReceived c)\<rparr>) f)"
  using assms
  by (auto simp: UpdateHighestReceived_def getFlowController_def fc_UpdateHighestReceived_def max_def)

lemma ResetStream_Some:
  "streamFlowController f sid = Some c \<Longrightarrow> highestReceived c \<le> offset \<Longrightarrow>
     ResetStream sid offset f = UpdateHighestReceived sid offset f"
  by (simp add: ResetStream_def UpdateHighestReceived_def getFlowController_def fc_UpdateHighestReceived_def)

lemma inv_deliver:
  assumes inv: "pair_inv scp s" and c: "streamFlowController (fp_sender s) sid = Some c"
    and o: "offset \<le> bytesSent c"
  shows "fst (UpdateHighestReceived sid offset (fp_receiver s)) = None"
    "pair_inv scp (s\<lparr>fp_receiver := snd (UpdateHighestReceived sid offset (fp_receiver s))\<rparr>)"
proof -
  let ?S = "streamFlowController (fp_sender s)" and ?R = "streamFlowController (fp_receiver s)"
  let ?cs = "connFlowController (fp_sender s)" and ?cr = "connFlowController (fp_receiver s)"
  obtain c' where c': "?R sid = Some c'"
    using pair_inv_other [OF inv] c by blast
  define h where "h = max offset (highestReceived c')"
  let ?c = "c'\<lparr>highestReceived := h\<rparr>"
  let ?R' = "?R(sid \<mapsto> ?c)" and ?i = "h - highestReceived c'"
  have l: "linked scp c c'" "linked scp ?cs ?cr" and fin: "finite (dom ?R)" "dom ?R = dom ?S"
    using inv c c' by (auto simp: pair_inv_def Let_def)
  have h: "highestReceived c' \<le> h" "h \<le> bytesSent c" "h \<le> receiveWindow c'" "h \<le> 2 ^ 63"
    using l o by (auto simp: h_def linked_def rcv_ok_def)
  have lc: "linked scp c ?c"
    using l(1) h by (auto simp: linked_def rcv_ok_def)
  have k: "linked scp x x'" if "?S k = Some x" "?R' k = Some x'" for k x x'
    using that inv lc c by (cases "k = sid") (auto simp: pair_inv_def Let_def)
  have d: "dom ?R' = dom ?R" using c' by auto
  have t: "stream_total highestReceived ?R' = stream_total highestReceived ?R + (if contributesToConnection c' then ?i else 0)"
      "stream_total bytesRead ?R' = stream_total bytesRead ?R"
    using stream_total_update [OF fin(1) c', of ?c highestReceived]
      stream_total_update [OF fin(1) c', of ?c bytesRead] h(1) by (auto split: if_splits)
  have "stream_total highestReceived ?R' \<le> stream_total bytesSent ?S"
    using d fin k by (intro stream_total_mono) (auto simp: linked_def simp del: dom_fun_upd fun_upd_apply)
  then have conn: "contributesToConnection c' \<Longrightarrow> highestReceived ?cr + ?i \<le> bytesSent ?cs"
    using t inv by (simp add: pair_inv_def Let_def)
  have w: "bytesSent ?cs \<le> receiveWindow ?cr" "receiveWindow ?cr \<le> 2 ^ 63"
    using l(2) by (auto simp: linked_def rcv_ok_def)
  have a: "contributesToConnection c' \<Longrightarrow> add64 (highestReceived ?cr) ?i = highestReceived ?cr + ?i"
    using conn w by (intro add64_le) simp
  have b: "offset < 2 ^ 64" "highestReceived c' < 2 ^ 64"
    using h by (auto simp: h_def)
  define f where "f = put_stream sid ?c (fp_receiver s)"
  have u: "UpdateHighestReceived sid offset (fp_receiver s) =
     (None, if contributesToConnection c'
            then put_conn (?cr\<lparr>highestReceived := highestReceived ?cr + ?i\<rparr>) f else f)"
    using h conn w a unfolding UpdateHighestReceived_Some [OF c' b(2) b(1)]
    by (auto simp: f_def h_def [symmetric] account_received_def CheckFlowControlViolation_def ContributesToConnection_def
        IncrementHighestReceived_def)
  show "fst (UpdateHighestReceived sid offset (fp_receiver s)) = None"
    by (simp add: u)
  have g: "granted k (snd (UpdateHighestReceived sid offset (fp_receiver s))) = granted k (fp_receiver s)" for k
    using c' by (simp add: u f_def granted_def)
  have lr: "contributesToConnection c' \<Longrightarrow> linked scp ?cs (?cr\<lparr>highestReceived := highestReceived ?cr + ?i\<rparr>)"
    using l(2) conn w by (auto simp: linked_def rcv_ok_def)
  show "pair_inv scp (s\<lparr>fp_receiver := snd (UpdateHighestReceived sid offset (fp_receiver s))\<rparr>)"
    using inv k d t lr g unfolding pair_inv_def Let_def
    by (simp add: u f_def del: dom_fun_upd fun_upd_apply)
qed

lemma fc_AddBytesRead_sel [simp]:
  "contributesToConnection (fc_AddBytesRead env n c) = contributesToConnection c"
  "highestReceived (fc_AddBytesRead env n c) = highestReceived c"
  "receiveWindow (fc_AddBytesRead env n c) = receiveWindow c"
  "bytesRead (fc_AddBytesRead env n c) = add64 (bytesRead c) n"
  by (simp_all add: fc_AddBytesRead_def Let_def)

lemma linked_read:
  "linked scp c c' \<Longrightarrow> bytesRead c' + n \<le> highestReceived c' \<Longrightarrow> bytesRead c' + n \<le> 2 ^ 62 \<Longrightarrow>
     linked scp c (fc_AddBytesRead env n c') \<and> bytesRead (fc_AddBytesRead env n c') = bytesRead c' + n"
  by (auto simp: linked_def rcv_ok_def add64_le) (auto simp: fc_AddBytesRead_def Let_def)

lemma inv_read:
  assumes inv: "pair_inv scp s" and c': "streamFlowController (fp_receiver s) sid = Some c'"
    and n: "bytesRead c' + n \<le> highestReceived c'" "bytesRead c' + n \<le> 2 ^ 62"
      "bytesRead (connFlowController (fp_receiver s)) + n \<le> 2 ^ 62"
  shows "pair_inv scp (s\<lparr>fp_receiver := snd (AddBytesRead env sid n (fp_receiver s))\<rparr>)"
proof -
  let ?S = "streamFlowController (fp_sender s)" and ?R = "streamFlowController (fp_receiver s)"
  let ?cs = "connFlowController (fp_sender s)" and ?cr = "connFlowController (fp_receiver s)"
  let ?c = "fc_AddBytesRead env n c'" and ?C = "fc_AddBytesRead env n ?cr"
  let ?R' = "?R(sid \<mapsto> ?c)"
  obtain c where c: "?S sid = Some c"
    using pair_inv_other [OF inv] c' by blast
  have l: "linked scp c c'" "linked scp ?cs ?cr" and fin: "finite (dom ?R)" "dom ?R = dom ?S"
    using inv c c' by (auto simp: pair_inv_def Let_def)
  note lc = linked_read [OF l(1) n(1,2), of env]
  have k: "linked scp x x'" if "?S k = Some x" "?R' k = Some x'" for k x x'
    using that inv lc c by (cases "k = sid") (auto simp: pair_inv_def Let_def)
  have d: "dom ?R' = dom ?R" using c' by auto
  have t: "stream_total bytesRead ?R' = stream_total bytesRead ?R + (if contributesToConnection c' then n else 0)"
      "stream_total highestReceived ?R' = stream_total highestReceived ?R"
    using stream_total_update [OF fin(1) c', of ?c bytesRead] lc
      stream_total_update [OF fin(1) c', of ?c highestReceived] by (auto split: if_splits)
  have "stream_total bytesRead ?R' \<le> stream_total highestReceived ?R'"
  proof (intro stream_total_mono)
    fix k x x' assume x: "?R' k = Some x" "?R' k = Some x'"
    then obtain y where "?S k = Some y" using d fin by blast
    then have "linked scp y x" using k x by blast
    then show "contributesToConnection x = contributesToConnection x' \<and> bytesRead x \<le> highestReceived x'"
      using x by (auto simp: linked_def rcv_ok_def)
  qed (use d fin in auto)
  then have "contributesToConnection c' \<Longrightarrow> bytesRead ?cr + n \<le> highestReceived ?cr"
    using t inv by (simp add: pair_inv_def Let_def)
  then have lr: "contributesToConnection c' \<Longrightarrow> linked scp ?cs ?C \<and> bytesRead ?C = bytesRead ?cr + n"
    using linked_read [OF l(2) _ n(3)] by blast
  have g: "granted k (snd (AddBytesRead env sid n (fp_receiver s))) = granted k (fp_receiver s)" for k
    using c' by (simp add: AddBytesRead_def count_bytes_Some Let_def granted_def)
  show ?thesis
    using inv k d t lr g unfolding pair_inv_def Let_def
    by (simp add: AddBytesRead_def count_bytes_Some [OF c'] Let_def del: dom_fun_upd fun_upd_apply)
qed

lemma mgr_grows_total:
  assumes "mgr_grows f f'" "\<And>c c'. grows c c' \<Longrightarrow> g c' = g c"
  shows "stream_total g (streamFlowController f') = stream_total g (streamFlowController f)"
proof -
  have d: "dom (streamFlowController f') = dom (streamFlowController f)"
    using assms(1) by (simp add: mgr_grows_def)
  show ?thesis
    unfolding stream_total_def d
  proof (rule sum.cong [OF refl])
    fix sid assume sid: "sid \<in> dom (streamFlowController f)"
    then obtain c where c: "streamFlowController f sid = Some c" by blast
    from sid obtain c' where c': "streamFlowController f' sid = Some c'" unfolding d [symmetric] by blast
    have "grows c c'" using assms(1) c c' by (simp add: mgr_grows_def)
    then show "(case streamFlowController f' sid of None \<Rightarrow> 0
         | Some c \<Rightarrow> if contributesToConnection c then g c else 0) =
       (case streamFlowController f sid of None \<Rightarrow> 0
         | Some c \<Rightarrow> if contributesToConnection c then g c else 0)"
      using c c' assms(2) by (simp add: grows_def)
  qed
qed

lemma inv_announce:
  assumes inv: "pair_inv scp s" and ids: "0 \<notin> set ids"
    and g: "GetWindowUpdates env ids force (fp_receiver s) = (res, f)"
  shows "pair_inv scp (s\<lparr>fp_receiver := f, fp_updates := fp_updates s @ res\<rparr>)"
proof -
  let ?S = "streamFlowController (fp_sender s)" and ?R = "streamFlowController (fp_receiver s)"
  have ok: "mgr_ok (fp_receiver s)" using inv by (rule pair_inv_mgr_ok)
  note m = GetWindowUpdates_grow [OF ok ids g]
  let ?R' = "streamFlowController f"
  have d: "dom ?R' = dom ?R" and fin: "finite (dom ?R)"
    using m(1) inv by (auto simp: mgr_grows_def pair_inv_def Let_def)
  have gr: "grows x x'" if "?R k = Some x" "?R' k = Some x'" for k x x'
    using m(1) that by (simp add: mgr_grows_def)
  have k: "linked scp x x'" if x: "?S k = Some x" "?R' k = Some x'" for k x x'
  proof -
    obtain y where y: "?R k = Some y" using d x by blast
    then have "linked scp x y" using inv x by (simp add: pair_inv_def Let_def)
    then show ?thesis using gr [OF y x(2)] by (rule linked_grows)
  qed
  have tt: "stream_total highestReceived ?R' = stream_total highestReceived ?R"
    "stream_total bytesRead ?R' = stream_total bytesRead ?R"
    using m(1) by (rule mgr_grows_total, simp add: grows_def)+
  have c: "grows (connFlowController (fp_receiver s)) (connFlowController f)"
    using m(1) by (simp add: mgr_grows_def)
  have u: "\<forall>(sid, offset)\<in>set (fp_updates s). offset \<le> granted sid f"
  proof clarify
    fix sid offset assume "(sid, offset) \<in> set (fp_updates s)"
    then have "offset \<le> granted sid (fp_receiver s)" using inv by (auto simp: pair_inv_def Let_def)
    then show "offset \<le> granted sid f" using granted_grows [OF m(1), of sid] by simp
  qed
  have cc: "highestReceived (connFlowController f) = highestReceived (connFlowController (fp_receiver s))"
    "bytesRead (connFlowController f) = bytesRead (connFlowController (fp_receiver s))"
    using c by (simp_all add: grows_def)
  have "linked scp (connFlowController (fp_sender s)) (connFlowController f)"
    using inv linked_grows [OF _ c] by (simp add: pair_inv_def Let_def)
  then show ?thesis
    using inv k d tt cc u m(2) by (simp add: pair_inv_def Let_def ball_Un)
qed

lemma inv_update:
  assumes inv: "pair_inv scp s" and u: "(sid, offset) \<in> set (fp_updates s)"
  shows "pair_inv scp (s\<lparr>fp_sender := snd (UpdateWindow sid offset (fp_sender s))\<rparr>)"
proof -
  have o: "offset \<le> granted sid (fp_receiver s)"
    using inv u by (auto simp: pair_inv_def Let_def)
  have sel: "bytesSent (snd (UpdateSendWindow offset c)) = bytesSent c"
    "contributesToConnection (snd (UpdateSendWindow offset c)) = contributesToConnection c" for c
    by (simp_all add: UpdateSendWindow_def)
  let ?S = "streamFlowController (fp_sender s)" and ?R = "streamFlowController (fp_receiver s)"
  consider "sid = 0" | "sid \<noteq> 0" "?S sid = None" | c where "sid \<noteq> 0" "?S sid = Some c"
    by (cases "?S sid") auto
  then show ?thesis
  proof cases
    case 1
    then show ?thesis
      using inv o linked_update sel
      by (simp add: UpdateWindow_def pair_inv_def Let_def granted_def split_beta)
  next
    case 2
    then show ?thesis using inv by (simp add: UpdateWindow_def getFlowController_def)
  next
    case (3 c)
    then obtain c' where c': "?R sid = Some c'"
      using pair_inv_other [OF inv] by blast
    let ?c = "snd (UpdateSendWindow offset c)"
    have "linked scp c c'" using inv 3 c' by (simp add: pair_inv_def Let_def)
    then have lc: "linked scp ?c c'" using o c' 3 by (simp add: linked_update granted_def)
    have k: "linked scp x x'" if "(?S(sid \<mapsto> ?c)) k = Some x" "?R k = Some x'" for k x x'
      using that inv lc c' by (cases "k = sid") (auto simp: pair_inv_def Let_def)
    have d: "dom (?S(sid \<mapsto> ?c)) = dom ?S" using 3 by auto
    have fin: "finite (dom ?S)" using inv by (simp add: pair_inv_def Let_def)
    have t: "stream_total bytesSent (?S(sid \<mapsto> ?c)) = stream_total bytesSent ?S"
      using stream_total_update [OF fin 3(2), of ?c bytesSent] sel by (simp split: if_splits)
    show ?thesis
      using inv 3 k d t unfolding pair_inv_def Let_def
      by (simp add: UpdateWindow_def getFlowController_def split_beta del: dom_fun_upd fun_upd_apply)
  qed
qed

lemma GetBytesSent_Inr:
  "GetBytesSent sid f = Inr b \<longleftrightarrow> (\<exists>c. streamFlowController f sid = Some c \<and> b = bytesSent c)"
  by (auto simp: GetBytesSent_def getFlowController_def fc_GetBytesSent_def split: option.split)

lemma reset_is_deliver:
  assumes "pair_inv scp s" "streamFlowController (fp_sender s) sid = Some c"
  shows "ResetStream sid (bytesSent c) (fp_receiver s) = UpdateHighestReceived sid (bytesSent c) (fp_receiver s)"
proof -
  obtain c' where c': "streamFlowController (fp_receiver s) sid = Some c'"
    using pair_inv_other [OF assms(1)] assms(2) by blast
  then have "highestReceived c' \<le> bytesSent c"
    using assms by (auto simp: pair_inv_def linked_def Let_def)
  with c' show ?thesis by (rule ResetStream_Some)
qed

subsection \<open>With the removed streams put back\<close>

text \<open>
  An operation on a stream that is still there does the same to the manager with the removed streams
  put back, and one on a removed stream changes nothing.
\<close>

lemma whole_sel [simp]:
  "connFlowController (whole g f) = connFlowController f"
  "streamFlowController (whole g f) = g ++ streamFlowController f"
  "whole g (put_stream sid c f) = put_stream sid c (whole g f)"
  "whole g (put_conn c f) = put_conn c (whole g f)"
  by (simp_all add: whole_def put_stream_def put_conn_def)

lemma whole_open:
  "streamFlowController f sid = Some c \<Longrightarrow> getFlowController sid (whole g f) = Inr c"
  by (simp add: getFlowController_def)

lemma count_bytes_whole:
  assumes "streamFlowController f sid = Some c"
  shows "count_bytes op sid (whole g f) = map_prod id (whole g) (count_bytes op sid f)"
    "dom (streamFlowController (snd (count_bytes op sid f))) = dom (streamFlowController f)"
proof -
  have "getFlowController sid f = Inr c" using assms by (simp add: getFlowController_def)
  then show "count_bytes op sid (whole g f) = map_prod id (whole g) (count_bytes op sid f)"
    by (simp add: count_bytes_def whole_open [OF assms] Let_def)
  show "dom (streamFlowController (snd (count_bytes op sid f))) = dom (streamFlowController f)"
    using assms by (auto simp: count_bytes_Some Let_def)
qed

lemma account_received_whole:
  "account_received sid offset inc c (whole g f) = map_prod id (whole g) (account_received sid offset inc c f)"
  "streamFlowController (snd (account_received sid offset inc c f)) = streamFlowController f"
  by (simp_all add: account_received_def Let_def)

lemma UpdateHighestReceived_whole:
  assumes "streamFlowController f sid = Some c"
  shows "UpdateHighestReceived sid offset (whole g f) = map_prod id (whole g) (UpdateHighestReceived sid offset f)"
    "dom (streamFlowController (snd (UpdateHighestReceived sid offset f))) = dom (streamFlowController f)"
proof -
  have o: "getFlowController sid f = Inr c" using assms by (simp add: getFlowController_def)
  then show "UpdateHighestReceived sid offset (whole g f) =
      map_prod id (whole g) (UpdateHighestReceived sid offset f)"
    using account_received_whole(1) [of sid offset _ _ g "put_stream sid _ f"]
    by (simp add: UpdateHighestReceived_def whole_open [OF assms] split: prod.split)
  show "dom (streamFlowController (snd (UpdateHighestReceived sid offset f))) = dom (streamFlowController f)"
    using assms o by (auto simp: UpdateHighestReceived_def account_received_whole(2) split: prod.split)
qed

lemma removed_stream:
  assumes "streamFlowController f sid = None"
  shows "UpdateHighestReceived sid offset f = (Some errMapAccess, f)"
    "ResetStream sid offset f = (Some errMapAccess, f)"
  using assms by (simp_all add: UpdateHighestReceived_def ResetStream_def getFlowController_def)

lemma stream_updates_whole:
  "dom (streamFlowController f) = D \<Longrightarrow>
     stream_updates env force (filter (\<lambda>i. i \<in> D) ids) (whole g f) =
       map_prod id (whole g) (stream_updates env force ids f) \<and>
     dom (streamFlowController (snd (stream_updates env force ids f))) = D"
proof (induction ids arbitrary: f)
  case Nil
  then show ?case by simp
next
  case (Cons sid ids)
  show ?case
  proof (cases "streamFlowController f sid")
    case None
    then have "sid \<notin> D" using Cons.prems by auto
    then show ?thesis using Cons.IH [OF Cons.prems] None by simp
  next
    case (Some c)
    then have sid: "sid \<in> D" "(g ++ streamFlowController f) sid = Some c" using Cons.prems by auto
    obtain nec inc offset c' where m: "MaybeUpdateWindow env c = ((nec, inc, offset), c')"
      by (metis prod.collapse)
    define f1 where "f1 h = (let h = put_stream sid c' h
      in if (force \<or> nec) \<and> ContributesToConnection c' \<and> inc \<noteq> 0
         then put_conn (EnsureMinimumWindowIncrement (inc * 3 div 2) (connFlowController h)) h else h)" for h
    have step: "stream_updates env force (sid # ids) h =
        map_prod (if force \<or> nec then Cons (sid, offset) else id) id (stream_updates env force ids (f1 h))"
      if "streamFlowController h sid = Some c" for h ids
      using that by (simp add: m f1_def Let_def prod.map_id0)
    have w: "f1 (whole g f) = whole g (f1 f)" and d: "dom (streamFlowController (f1 f)) = D"
      using Cons.prems sid by (auto simp: f1_def Let_def)
    have "streamFlowController (whole g f) sid = Some c" using sid(2) by simp
    note e = step [OF this, of "filter (\<lambda>i. i \<in> D) ids"] step [OF Some, of ids]
    show ?thesis
      using Cons.IH [OF d] sid(1) e by (simp add: w prod.map_comp comp_def del: stream_updates.simps)
  qed
qed

lemma GetWindowUpdates_whole:
  assumes "GetWindowUpdates env ids force f = (res, f')"
  shows "GetWindowUpdates env (filter (\<lambda>i. i \<in> dom (streamFlowController f)) ids) force (whole g f) = (res, whole g f')"
    "dom (streamFlowController f') = dom (streamFlowController f)"
proof -
  obtain r f1 where su: "stream_updates env force ids f = (r, f1)" by (metis prod.collapse)
  note w = stream_updates_whole [OF refl, of env force f ids g, unfolded su]
  show "GetWindowUpdates env (filter (\<lambda>i. i \<in> dom (streamFlowController f)) ids) force (whole g f) = (res, whole g f')"
    using assms w by (auto simp: GetWindowUpdates_def su split: prod.splits)
  have "streamFlowController f' = streamFlowController f1"
    using assms by (auto simp: GetWindowUpdates_def su split: prod.splits)
  then show "dom (streamFlowController f') = dom (streamFlowController f)" using w by simp
qed

definition whole_pair :: "flow_pair \<Rightarrow> flow_pair" where
  "whole_pair s = s\<lparr>fp_sender := whole (fp_sender_gone s) (fp_sender s),
     fp_receiver := whole (fp_receiver_gone s) (fp_receiver s)\<rparr>"

definition flow_inv :: "connectionParametersManager \<Rightarrow> flow_pair \<Rightarrow> bool" where
  "flow_inv scp s \<longleftrightarrow> pair_inv scp (whole_pair s) \<and>
     dom (fp_sender_gone s) \<inter> dom (streamFlowController (fp_sender s)) = {} \<and>
     dom (fp_receiver_gone s) \<inter> dom (streamFlowController (fp_receiver s)) = {}"

lemma whole_pair_sel [simp]:
  "fp_sender (whole_pair s) = whole (fp_sender_gone s) (fp_sender s)"
  "fp_receiver (whole_pair s) = whole (fp_receiver_gone s) (fp_receiver s)"
  "fp_updates (whole_pair s) = fp_updates s"
  by (simp_all add: whole_pair_def)

lemma flow_inv_whole: "flow_inv scp s \<Longrightarrow> pair_inv scp (whole_pair s)"
  by (simp add: flow_inv_def)

lemma pair_inv_eq:
  "pair_inv scp s \<Longrightarrow> fp_sender t = fp_sender s \<Longrightarrow> fp_receiver t = fp_receiver s \<Longrightarrow>
     fp_updates t = fp_updates s \<Longrightarrow> pair_inv scp t"
  by (simp add: pair_inv_def)

lemma flow_inv_sender:
  assumes "flow_inv scp s" "dom (streamFlowController f) = dom (streamFlowController (fp_sender s))"
    and "pair_inv scp ((whole_pair s)\<lparr>fp_sender := whole (fp_sender_gone s) f\<rparr>)"
  shows "flow_inv scp (s\<lparr>fp_sender := f\<rparr>)"
  using assms(1,2) pair_inv_eq [OF assms(3)] by (simp add: flow_inv_def)

lemma flow_inv_receiver:
  assumes "flow_inv scp s" "dom (streamFlowController f) = dom (streamFlowController (fp_receiver s))"
    and "pair_inv scp ((whole_pair s)\<lparr>fp_receiver := whole (fp_receiver_gone s) f, fp_updates := us\<rparr>)"
  shows "flow_inv scp (s\<lparr>fp_receiver := f, fp_updates := us\<rparr>)"
  using assms(1,2) pair_inv_eq [OF assms(3)] by (simp add: flow_inv_def)

lemma flow_inv_receiver':
  assumes "flow_inv scp s" "dom (streamFlowController f) = dom (streamFlowController (fp_receiver s))"
    and "pair_inv scp ((whole_pair s)\<lparr>fp_receiver := whole (fp_receiver_gone s) f\<rparr>)"
  shows "flow_inv scp (s\<lparr>fp_receiver := f\<rparr>)"
  using assms(1,2) pair_inv_eq [OF assms(3)] by (simp add: flow_inv_def)

lemma flow_init:
  "negotiated scp rcp \<Longrightarrow> flow_inv scp \<lparr>fp_sender = NewFlowControlManager scp,
     fp_receiver = NewFlowControlManager rcp, fp_updates = [], fp_sender_gone = Map.empty, fp_receiver_gone = Map.empty\<rparr>"
  using inv_init [of scp rcp Map.empty Map.empty] by (simp add: flow_inv_def whole_pair_def whole_def)

lemma NewStream_whole:
  "g sid = None \<Longrightarrow> NewStream cp sid contrib (whole g f) = whole g (NewStream cp sid contrib f)"
  by (auto simp: NewStream_def map_add_None)

lemma flow_opens:
  assumes "negotiated scp rcp" "flow_inv scp s" "sid \<noteq> 0" "fp_sender_gone s sid = None" "fp_receiver_gone s sid = None"
  shows "flow_inv scp (s\<lparr>fp_sender := NewStream scp sid contrib (fp_sender s),
     fp_receiver := NewStream rcp sid contrib (fp_receiver s)\<rparr>)"
proof -
  have n: "dom g \<inter> dom (streamFlowController (NewStream cp sid contrib f)) = {}"
    if "dom g \<inter> dom (streamFlowController f) = {}" "g sid = None" for g f cp
    using that by (auto simp: NewStream_def)
  have p: "pair_inv scp ((whole_pair s)\<lparr>fp_sender := whole (fp_sender_gone s) (NewStream scp sid contrib (fp_sender s)),
     fp_receiver := whole (fp_receiver_gone s) (NewStream rcp sid contrib (fp_receiver s))\<rparr>)"
    using inv_opens [OF assms(1) flow_inv_whole [OF assms(2)] assms(3), of contrib] assms(4,5)
    by (simp add: NewStream_whole)
  show ?thesis
    using assms(2) pair_inv_eq [OF p] assms(4,5)
      n [of "fp_sender_gone s" "fp_sender s" scp] n [of "fp_receiver_gone s" "fp_receiver s" rcp]
    by (simp add: flow_inv_def)
qed

lemma flow_send:
  assumes "flow_inv scp s" "SendWindowSize scp sid (fp_sender s) = Inr w" "n \<le> w"
  shows "flow_inv scp (s\<lparr>fp_sender := snd (AddBytesSent sid n (fp_sender s))\<rparr>)"
proof -
  obtain c where c: "streamFlowController (fp_sender s) sid = Some c"
    using assms(2) by (auto simp: SendWindowSize_def getFlowController_def split: option.splits)
  then have "SendWindowSize scp sid (fp_sender (whole_pair s)) = Inr w"
    using assms(2) by (auto simp: SendWindowSize_def getFlowController_def Let_def)
  from inv_send [OF flow_inv_whole [OF assms(1)] this assms(3)] show ?thesis
    using count_bytes_whole [OF c] by (intro flow_inv_sender [OF assms(1)]) (simp_all add: AddBytesSent_def)
qed

lemma flow_deliver:
  assumes "flow_inv scp s" "GetBytesSent sid (all_sent s) = Inr b" "offset \<le> b"
  shows "fst (UpdateHighestReceived sid offset (fp_receiver s)) =
      (if streamFlowController (fp_receiver s) sid = None then Some errMapAccess else None)"
    "flow_inv scp (s\<lparr>fp_receiver := snd (UpdateHighestReceived sid offset (fp_receiver s))\<rparr>)"
    "ResetStream sid b (fp_receiver s) = UpdateHighestReceived sid b (fp_receiver s)"
proof -
  obtain c where c: "streamFlowController (fp_sender (whole_pair s)) sid = Some c" and b: "b = bytesSent c"
    using assms(2) unfolding GetBytesSent_Inr all_sent_def whole_pair_sel by blast
  note w = flow_inv_whole [OF assms(1)]
  note d = inv_deliver [OF w c assms(3) [unfolded b]]
  show "fst (UpdateHighestReceived sid offset (fp_receiver s)) =
      (if streamFlowController (fp_receiver s) sid = None then Some errMapAccess else None)"
    "flow_inv scp (s\<lparr>fp_receiver := snd (UpdateHighestReceived sid offset (fp_receiver s))\<rparr>)"
    "ResetStream sid b (fp_receiver s) = UpdateHighestReceived sid b (fp_receiver s)"
  proof (atomize (full), cases "streamFlowController (fp_receiver s) sid")
    case None
    then show "fst (UpdateHighestReceived sid offset (fp_receiver s)) =
        (if streamFlowController (fp_receiver s) sid = None then Some errMapAccess else None) \<and>
      flow_inv scp (s\<lparr>fp_receiver := snd (UpdateHighestReceived sid offset (fp_receiver s))\<rparr>) \<and>
      ResetStream sid b (fp_receiver s) = UpdateHighestReceived sid b (fp_receiver s)"
      using assms(1) by (simp add: removed_stream)
  next
    case (Some c')
    note u = UpdateHighestReceived_whole [OF Some, of offset]
    have "linked scp c c'"
      using w c Some by (simp add: pair_inv_def Let_def)
    then have "ResetStream sid b (fp_receiver s) = UpdateHighestReceived sid b (fp_receiver s)"
      by (intro ResetStream_Some [OF Some]) (simp add: b linked_def)
    moreover have "flow_inv scp (s\<lparr>fp_receiver := snd (UpdateHighestReceived sid offset (fp_receiver s))\<rparr>)"
      using d(2) u by (intro flow_inv_receiver' [OF assms(1)]) simp_all
    ultimately show "fst (UpdateHighestReceived sid offset (fp_receiver s)) =
        (if streamFlowController (fp_receiver s) sid = None then Some errMapAccess else None) \<and>
      flow_inv scp (s\<lparr>fp_receiver := snd (UpdateHighestReceived sid offset (fp_receiver s))\<rparr>) \<and>
      ResetStream sid b (fp_receiver s) = UpdateHighestReceived sid b (fp_receiver s)"
      using d(1) u(1) Some by simp
  qed
qed

lemma flow_read:
  assumes "flow_inv scp s" "streamFlowController (fp_receiver s) sid = Some c"
    "bytesRead c + n \<le> highestReceived c" "bytesRead c + n \<le> 2 ^ 62"
    "bytesRead (connFlowController (fp_receiver s)) + n \<le> 2 ^ 62"
  shows "flow_inv scp (s\<lparr>fp_receiver := snd (AddBytesRead env sid n (fp_receiver s))\<rparr>)"
  using inv_read [OF flow_inv_whole [OF assms(1)], of sid c n env] count_bytes_whole [OF assms(2)] assms(2-)
  by (intro flow_inv_receiver' [OF assms(1)]) (simp_all add: AddBytesRead_def)

lemma flow_announce:
  assumes "flow_inv scp s" "0 \<notin> set ids" "GetWindowUpdates env ids force (fp_receiver s) = (res, f)"
  shows "flow_inv scp (s\<lparr>fp_receiver := f, fp_updates := fp_updates s @ res\<rparr>)"
proof -
  note w = GetWindowUpdates_whole(1) [OF assms(3), of "fp_receiver_gone s"] GetWindowUpdates_whole(2) [OF assms(3)]
  have "0 \<notin> set (filter (\<lambda>i. i \<in> dom (streamFlowController (fp_receiver s))) ids)" using assms(2) by simp
  from inv_announce [OF flow_inv_whole [OF assms(1)] this] w show ?thesis
    by (intro flow_inv_receiver [OF assms(1)]) simp_all
qed

lemma flow_update:
  assumes "flow_inv scp s" "(sid, offset) \<in> set (fp_updates s)"
  shows "flow_inv scp (s\<lparr>fp_sender := snd (UpdateWindow sid offset (fp_sender s))\<rparr>)"
proof -
  have u: "pair_inv scp ((whole_pair s)\<lparr>fp_sender := snd (UpdateWindow sid offset (fp_sender (whole_pair s)))\<rparr>)"
    using inv_update [OF flow_inv_whole [OF assms(1)]] assms(2) by simp
  consider "sid = 0" | "sid \<noteq> 0" "streamFlowController (fp_sender s) sid = None"
    | c where "sid \<noteq> 0" "streamFlowController (fp_sender s) sid = Some c" by (cases "streamFlowController (fp_sender s) sid") auto
  then show ?thesis
  proof cases
    case 1
    with u show ?thesis
      by (intro flow_inv_sender [OF assms(1)]) (simp_all add: UpdateWindow_def split_beta)
  next
    case 2
    then show ?thesis using assms(1) by (simp add: UpdateWindow_def getFlowController_def)
  next
    case (3 c)
    have "dom (streamFlowController (snd (UpdateWindow sid offset (fp_sender s)))) = dom (streamFlowController (fp_sender s))"
      using 3 by (auto simp: UpdateWindow_def getFlowController_def split_beta)
    then show ?thesis
      using u 3 by (intro flow_inv_sender [OF assms(1)]) (simp_all add: UpdateWindow_def getFlowController_def split_beta)
  qed
qed

lemma RemoveStream_whole:
  assumes "streamFlowController f sid = Some c" "dom g \<inter> dom (streamFlowController f) = {}"
  shows "whole (g(sid \<mapsto> c)) (RemoveStream sid f) = whole g f"
    "dom (g(sid \<mapsto> c)) \<inter> dom (streamFlowController (RemoveStream sid f)) = {}"
proof -
  have "g(sid \<mapsto> c) ++ (streamFlowController f)(sid := None) = g ++ streamFlowController f"
    using assms(1) by (auto simp: fun_eq_iff map_add_def split: option.split)
  then show "whole (g(sid \<mapsto> c)) (RemoveStream sid f) = whole g f"
    by (simp add: whole_def RemoveStream_def)
  show "dom (g(sid \<mapsto> c)) \<inter> dom (streamFlowController (RemoveStream sid f)) = {}"
    using assms(2) by (auto simp: RemoveStream_def)
qed

lemma flow_removes:
  assumes "flow_inv scp s"
  shows "streamFlowController (fp_sender s) sid = Some c \<Longrightarrow>
      flow_inv scp (s\<lparr>fp_sender := RemoveStream sid (fp_sender s), fp_sender_gone := (fp_sender_gone s)(sid \<mapsto> c)\<rparr>)"
    "streamFlowController (fp_receiver s) sid = Some c \<Longrightarrow>
      flow_inv scp (s\<lparr>fp_receiver := RemoveStream sid (fp_receiver s), fp_receiver_gone := (fp_receiver_gone s)(sid \<mapsto> c)\<rparr>)"
  using RemoveStream_whole [of "fp_sender s" sid c "fp_sender_gone s"]
    RemoveStream_whole [of "fp_receiver s" sid c "fp_receiver_gone s"] pair_inv_eq [OF flow_inv_whole [OF assms]] assms
  by (simp_all add: flow_inv_def del: dom_fun_upd)

lemma flow_reach_inv:
  assumes "flow_reach scp rcp s" "negotiated scp rcp"
  shows "flow_inv scp s"
  using assms
proof induction
  case init
  then show ?case by (rule flow_init)
next
  case (opens s sid contrib)
  then show ?case by (intro flow_opens) auto
next
  case (send s sid w n)
  then show ?case by (intro flow_send) auto
next
  case (deliver s sid b offset)
  then show ?case by (intro flow_deliver(2)) auto
next
  case (reset s sid b)
  then show ?case using flow_deliver [of scp s sid b b] by simp
next
  case (read s sid c n env)
  then show ?case by (intro flow_read) auto
next
  case (announce s ids env force res f)
  then show ?case by (intro flow_announce) auto
next
  case (update s sid offset)
  then show ?case by (intro flow_update) auto
next
  case (sender_removes s sid c)
  then show ?case by (intro flow_removes) auto
next
  case (receiver_removes s sid c)
  then show ?case by (intro flow_removes) auto
qed

lemma flow_mgr_ok:
  assumes "flow_inv scp s"
  shows "mgr_ok (fp_receiver s)"
proof -
  have "rcv_ok c" if "streamFlowController (fp_receiver s) sid = Some c" for sid c
  proof -
    have "(fp_receiver_gone s ++ streamFlowController (fp_receiver s)) sid = Some c"
      using that by (rule map_add_find_right)
    then show ?thesis
      using pair_inv_mgr_ok [OF flow_inv_whole [OF assms]] unfolding mgr_ok_def whole_pair_sel whole_sel by metis
  qed
  then show ?thesis
    using pair_inv_mgr_ok [OF flow_inv_whole [OF assms]] by (simp add: mgr_ok_def)
qed

lemma flow_send_bound:
  assumes "flow_inv scp s"
  shows "getSendWindow scp (connFlowController (fp_sender s)) < 2 ^ 64"
    "streamFlowController (fp_sender s) sid = Some c \<Longrightarrow> getSendWindow scp c < 2 ^ 64"
  using pair_inv_send_bound(1) [OF flow_inv_whole [OF assms]]
    pair_inv_send_bound(2) [OF flow_inv_whole [OF assms], of sid c] by simp_all

lemma stream_total_add:
  assumes "finite (dom m)" "finite (dom m')" "dom m \<inter> dom m' = {}"
  shows "stream_total g (m ++ m') = stream_total g m' + stream_total g m"
proof -
  have "(m ++ m') sid = (if sid \<in> dom m' then m' sid else m sid)" for sid
    by (auto simp: map_add_def split: option.split)
  then have "(\<Sum>sid\<in>dom m. case (m ++ m') sid of Some c \<Rightarrow> if contributesToConnection c then g c else 0 | None \<Rightarrow> 0) =
      stream_total g m"
    "(\<Sum>sid\<in>dom m'. case (m ++ m') sid of Some c \<Rightarrow> if contributesToConnection c then g c else 0 | None \<Rightarrow> 0) =
      stream_total g m'"
    unfolding stream_total_def using assms(3) by (intro sum.cong; force)+
  then show ?thesis
    using assms by (simp add: stream_total_def sum.union_disjoint Int_commute)
qed

section \<open>Window updates unblock a sender\<close>

definition deliver_updates :: "WindowUpdate list \<Rightarrow> flowControlManager \<Rightarrow> flowControlManager" where
  "deliver_updates us f = fold (\<lambda>(sid, offset) f. snd (UpdateWindow sid offset f)) us f"

text \<open>Every update is ahead of the reader, and a stream without update has its window there already.\<close>

lemma stream_updates_conn:
  assumes "mgr_ok f" "0 \<notin> set ids"
  shows "granted 0 (snd (stream_updates env force ids f)) = granted 0 f"
  using assms
proof (induction ids arbitrary: f)
  case Nil
  then show ?case by simp
next
  case (Cons sid ids)
  show ?case
  proof (cases "streamFlowController f sid")
    case None
    then show ?thesis using Cons by simp
  next
    case (Some c)
    have sid: "sid \<noteq> 0" using Cons.prems(2) by auto
    then obtain nec offset f1 where f1: "mgr_grows f f1"
      and other: "\<And>k. k \<noteq> sid \<Longrightarrow> granted k f1 = granted k f"
      and eq: "stream_updates env force (sid # ids) f =
         map_prod (\<lambda>res. if force \<or> nec then (sid, offset) # res else res) id (stream_updates env force ids f1)"
      by (rule stream_updates_step [OF Cons.prems(1) _ Some, where env = env and force = force and ids = ids]) blast
    have "granted 0 f1 = granted 0 f" using other [of 0] sid by simp
    then show ?thesis using Cons.IH [OF mgr_grows_ok [OF f1]] Cons.prems(2) unfolding eq by simp
  qed
qed

lemma stream_updates_ahead:
  assumes "mgr_ok f" "0 \<notin> set ids" "stream_updates env force ids f = (res, f')"
  shows "(\<forall>(sid, offset) \<in> set res. read_by sid f < offset \<and> sid \<noteq> 0) \<and>
     (\<forall>sid \<in> set ids. streamFlowController f sid \<noteq> None \<longrightarrow>
        sid \<in> fst ` set res \<or> read_by sid f < granted sid f)"
  using assms
proof (induction ids arbitrary: f res f')
  case Nil
  then show ?case by simp
next
  case (Cons sid ids)
  show ?case
  proof (cases "streamFlowController f sid")
    case None
    then show ?thesis using Cons by auto
  next
    case (Some c)
    have sid: "sid \<noteq> 0" using Cons.prems(2) by auto
    then obtain nec offset f1 where f1: "mgr_grows f f1" "read_by sid f < offset"
      and other: "\<And>k. k \<noteq> sid \<Longrightarrow> granted k f1 = granted k f"
      and same: "\<not> nec \<Longrightarrow> granted sid f = offset"
      and eq: "stream_updates env force (sid # ids) f =
         map_prod (\<lambda>res. if force \<or> nec then (sid, offset) # res else res) id (stream_updates env force ids f1)"
      by (rule stream_updates_step [OF Cons.prems(1) _ Some, where env = env and force = force and ids = ids]) blast
    obtain res' where r: "stream_updates env force ids f1 = (res', f')"
      and res: "res = (if force \<or> nec then (sid, offset) # res' else res')"
      using Cons.prems(3) unfolding eq by (cases "stream_updates env force ids f1") auto
    have IH: "\<forall>(k, offset) \<in> set res'. read_by k f < offset \<and> k \<noteq> 0"
      "\<forall>k \<in> set ids. streamFlowController f1 k \<noteq> None \<longrightarrow> k \<in> fst ` set res' \<or> read_by k f < granted k f1"
      using Cons.IH [OF mgr_grows_ok [OF f1(1)] _ r] Cons.prems(2) read_by_grows [OF f1(1)] by auto
    have dom: "streamFlowController f1 k \<noteq> None \<longleftrightarrow> streamFlowController f k \<noteq> None" for k
      using f1(1) by (auto simp: mgr_grows_def dom_def)
    have head: "sid \<in> fst ` set res \<or> read_by sid f < granted sid f"
      using f1(2) same by (auto simp: res)
    have tail: "k \<in> fst ` set res \<or> read_by k f < granted k f"
      if k: "k \<in> set ids" "k \<noteq> sid" "streamFlowController f k \<noteq> None" for k
    proof -
      have "k \<in> fst ` set res' \<or> read_by k f < granted k f1"
        using IH(2) k dom by blast
      then show ?thesis
        using other k Cons.prems(2) by (auto simp: res)
    qed
    have all: "\<forall>k \<in> set (sid # ids). streamFlowController f k \<noteq> None \<longrightarrow>
        k \<in> fst ` set res \<or> read_by k f < granted k f"
      using head tail by (metis set_ConsD)
    have "\<forall>(k, offset) \<in> set res. read_by k f < offset \<and> k \<noteq> 0"
      using IH(1) f1(2) sid by (simp add: res)
    then show ?thesis using all by blast
  qed
qed

lemma GetWindowUpdates_ahead:
  assumes ok: "mgr_ok f" and ids: "0 \<notin> set ids" "sid \<in> set ids" "streamFlowController f sid \<noteq> None"
    and u: "GetWindowUpdates env ids force f = (res, f')"
  shows "\<forall>(k, offset) \<in> set res. read_by k f < offset"
    "sid \<in> fst ` set res \<or> read_by sid f < granted sid f"
    "0 \<in> fst ` set res \<or> read_by 0 f < granted 0 f"
proof -
  obtain r f1 where su: "stream_updates env force ids f = (r, f1)" by (metis prod.collapse)
  obtain nec inc offset c' where m: "MaybeUpdateWindow env (connFlowController f1) = ((nec, inc, offset), c')"
    by (metis prod.collapse)
  have res: "res = r @ (if force \<or> nec then [(0, offset)] else [])"
    using u by (auto simp: GetWindowUpdates_def su m)
  have g: "mgr_grows f f1" using stream_updates_grow [OF ok ids(1) su] by simp
  then have "rcv_ok (connFlowController f1)" using mgr_grows_ok by (auto simp: mgr_ok_def)
  from MaybeUpdateWindow_ahead [OF this m] MaybeUpdateWindow_grows [OF this m]
  have o: "read_by 0 f < offset" "\<not> nec \<Longrightarrow> offset = granted 0 f1"
    using read_by_grows [OF g, of 0] m
    by (auto simp: read_by_def granted_def MaybeUpdateWindow_def Let_def split: if_splits)
  note su' = stream_updates_ahead [OF ok ids(1) su]
  show "\<forall>(k, offset) \<in> set res. read_by k f < offset"
    using su' o by (auto simp: res)
  show "sid \<in> fst ` set res \<or> read_by sid f < granted sid f"
    using su' ids by (auto simp: res)
  show "0 \<in> fst ` set res \<or> read_by 0 f < granted 0 f"
    using o stream_updates_conn [OF ok ids(1), of env force] by (cases nec) (force simp: res su)+
qed

lemma deliver_stays:
  assumes "\<forall>(k, offset) \<in> set us. k = sid \<longrightarrow> L < offset" "sid \<noteq> 0" "streamFlowController f sid = Some c"
  shows "\<exists>c'. streamFlowController (deliver_updates us f) sid = Some c' \<and>
     bytesSent c' = bytesSent c \<and> contributesToConnection c' = contributesToConnection c \<and> 
     (sid \<in> fst ` set us \<or> L < getSendWindow scp c \<longrightarrow> L < getSendWindow scp c')"
  using assms
proof (induction us arbitrary: f c)
  case Nil
  then show ?case by (simp add: deliver_updates_def)
next
  case (Cons u us)
  obtain k offset where u: "u = (k, offset)" by (cases u)
  let ?f = "snd (UpdateWindow k offset f)"
  have eq: "deliver_updates (u # us) f = deliver_updates us ?f"
    by (simp add: deliver_updates_def u)
  show ?case
  proof (cases "k = sid")
    case True
    let ?c = "snd (UpdateSendWindow offset c)"
    have "streamFlowController ?f sid = Some ?c"
      using Cons.prems True by (simp add: UpdateWindow_def getFlowController_def split_beta)
    moreover have "L < getSendWindow scp ?c" "bytesSent ?c = bytesSent c"
      "contributesToConnection ?c = contributesToConnection c"
      using Cons.prems(1) True u by (auto simp: UpdateSendWindow_def getSendWindow_def)
    ultimately show ?thesis
      using Cons.IH [of ?f ?c] Cons.prems unfolding eq by auto
  next
    case False
    have "streamFlowController ?f sid = Some c"
      using Cons.prems False
      by (auto simp: UpdateWindow_def getFlowController_def split_beta split: option.split)
    then show ?thesis
      using Cons.IH [of ?f c] Cons.prems False u unfolding eq by auto
  qed
qed

lemma deliver_conn:
  assumes "\<forall>(k, offset) \<in> set us. k = 0 \<longrightarrow> L < offset"
  shows "bytesSent (connFlowController (deliver_updates us f)) = bytesSent (connFlowController f) \<and>
     (0 \<in> fst ` set us \<or> L < getSendWindow scp (connFlowController f) \<longrightarrow>
        L < getSendWindow scp (connFlowController (deliver_updates us f)))"
  using assms
proof (induction us arbitrary: f)
  case Nil
  then show ?case by (simp add: deliver_updates_def)
next
  case (Cons u us)
  obtain k offset where u: "u = (k, offset)" by (cases u)
  let ?f = "snd (UpdateWindow k offset f)"
  have eq: "deliver_updates (u # us) f = deliver_updates us ?f"
    by (simp add: deliver_updates_def u)
  have "bytesSent (connFlowController ?f) = bytesSent (connFlowController f)"
    "k = 0 \<or> L < getSendWindow scp (connFlowController f) \<Longrightarrow> L < getSendWindow scp (connFlowController ?f)"
    using Cons.prems u
    by (auto simp: UpdateWindow_def getFlowController_def UpdateSendWindow_def getSendWindow_def split_beta
        split: option.split)
  then show ?case
    using Cons.IH [of ?f] Cons.prems u unfolding eq by auto
qed

lemma SendWindowSize_pos:
  assumes "streamFlowController f sid = Some c" "bytesSent c < getSendWindow scp c" "getSendWindow scp c < 2 ^ 64"
    "bytesSent (connFlowController f) < getSendWindow scp (connFlowController f)"
    "getSendWindow scp (connFlowController f) < 2 ^ 64"
  shows "\<exists>w > 0. SendWindowSize scp sid f = Inr w"
  using assms by (auto simp: SendWindowSize_def getFlowController_def fc_SendWindowSize_def minmax_eqs Let_def)

lemma flow_deliver_updates:
  "flow_inv scp s \<Longrightarrow> set us \<subseteq> set (fp_updates s) \<Longrightarrow>
     flow_inv scp (s\<lparr>fp_sender := deliver_updates us (fp_sender s)\<rparr>)"
proof (induction us arbitrary: s)
  case Nil
  then show ?case by (simp add: deliver_updates_def)
next
  case (Cons u us)
  obtain k offset where u: "u = (k, offset)" by (cases u)
  from Cons.prems have "flow_inv scp (s\<lparr>fp_sender := snd (UpdateWindow k offset (fp_sender s))\<rparr>)"
    using u by (intro flow_update) auto
  from Cons.IH [OF this] Cons.prems(2) show ?case
    by (simp add: deliver_updates_def u)
qed

section \<open>A concrete connection\<close>

lemma all_sent_open: "GetBytesSent sid (fp_sender s) = Inr b \<Longrightarrow> GetBytesSent sid (all_sent s) = Inr b"
  unfolding GetBytesSent_Inr all_sent_def whole_sel map_add_Some_iff by blast

lemma all_sent_removed:
  assumes "streamFlowController (fp_sender s) sid = Some c"
  shows "GetBytesSent sid (all_sent (s\<lparr>fp_sender := RemoveStream sid (fp_sender s),
    fp_sender_gone := (fp_sender_gone s)(sid \<mapsto> c)\<rparr>)) = Inr (bytesSent c)"
  by (simp add: GetBytesSent_Inr all_sent_def RemoveStream_def map_add_def)

text \<open>A server with default windows and a client that read its hello message; 1000 bytes sent on stream 5, delivered and read.\<close>

definition demo_rcp :: connectionParametersManager where
  "demo_rcp = NewConnectionParamatersManager PerspectiveServer 39 (2 ^ 20) (2 ^ 21) (30 * second)"

definition demo_scp :: connectionParametersManager where
  "demo_scp = snd (SetFromMap (GetHelloMap demo_rcp)
     (NewConnectionParamatersManager PerspectiveClient 39 (2 ^ 24) (2 ^ 25) (30 * second)))"

definition demo_env :: fc_env where
  "demo_env = \<lparr>now = 5, smoothedRTT = 3, remoteRTTs = []\<rparr>"

lemma demo_scp_eq:
  "demo_scp = (NewConnectionParamatersManager PerspectiveClient 39 (2 ^ 24) (2 ^ 25) (30 * second))
     \<lparr>sendStreamFlowControlWindow := 32768, sendConnectionFlowControlWindow := 49152, flowControlNegotiated := True\<rparr>"
proof -
  have "params_fit demo_rcp"
    by (simp add: params_fit_def demo_rcp_def NewConnectionParamatersManager_def second_def
        ReceiveStreamFlowControlWindow_def ReceiveConnectionFlowControlWindow_def MaxStreamsPerConnection_def)
  from SetFromMap_hello [OF this,
      of "NewConnectionParamatersManager PerspectiveClient 39 (2 ^ 24) (2 ^ 25) (30 * second)"]
  show ?thesis
    by (simp add: demo_scp_def demo_rcp_def NewConnectionParamatersManager_def second_def
        ReceiveStreamFlowControlWindow_def ReceiveConnectionFlowControlWindow_def MaxStreamsPerConnection_def
        MaxIncomingDynamicStreamsPerConnection_def)
qed

lemmas demo_windows =
  GetSendStreamFlowControlWindow_def GetSendConnectionFlowControlWindow_def
  GetReceiveStreamFlowControlWindow_def GetReceiveConnectionFlowControlWindow_def
  GetMaxReceiveStreamFlowControlWindow_def GetMaxReceiveConnectionFlowControlWindow_def
  ReceiveStreamFlowControlWindow_def ReceiveConnectionFlowControlWindow_def
  NewConnectionParamatersManager_def demo_scp_eq demo_rcp_def

lemma demo_negotiated: "negotiated demo_scp demo_rcp"
  by (simp add: negotiated_def demo_windows)

lemmas demo_flow_eval = NewFlowControlManager_def NewStream_def newFlowController_def Let_def
  SendWindowSize_def getFlowController_def fc_SendWindowSize_def getSendWindow_def minmax_eqs
  ContributesToConnection_def AddBytesSent_def count_bytes_def fc_AddBytesSent_def add64_def sub64_def
  GetBytesSent_def fc_GetBytesSent_def UpdateHighestReceived_def fc_UpdateHighestReceived_def
  account_received_def CheckFlowControlViolation_def IncrementHighestReceived_def
  AddBytesRead_def fc_AddBytesRead_def demo_windows

lemma demo_flow:
  "\<exists>s c c'. flow_reach demo_scp demo_rcp s \<and> GetBytesSent 5 (fp_sender s) = Inr 1000 \<and>
     streamFlowController (fp_sender s) 5 = Some c \<and> streamFlowController (fp_receiver s) 5 = Some c' \<and>
     bytesRead c' = bytesSent c \<and> getSendWindow demo_scp c = receiveWindow c' \<and>
     bytesRead (connFlowController (fp_receiver s)) = bytesSent (connFlowController (fp_sender s)) \<and>
     getSendWindow demo_scp (connFlowController (fp_sender s)) = receiveWindow (connFlowController (fp_receiver s)) \<and>
     fp_sender_gone s = Map.empty \<and> contributesToConnection c"
proof -
  define s0 where "s0 = \<lparr>fp_sender = NewFlowControlManager demo_scp, fp_receiver = NewFlowControlManager demo_rcp,
    fp_updates = [], fp_sender_gone = Map.empty, fp_receiver_gone = Map.empty\<rparr>"
  define s1 where "s1 = s0\<lparr>fp_sender := NewStream demo_scp 5 True (fp_sender s0),
    fp_receiver := NewStream demo_rcp 5 True (fp_receiver s0)\<rparr>"
  define s2 where "s2 = s1\<lparr>fp_sender := snd (AddBytesSent 5 1000 (fp_sender s1))\<rparr>"
  define s3 where "s3 = s2\<lparr>fp_receiver := snd (UpdateHighestReceived 5 1000 (fp_receiver s2))\<rparr>"
  define s4 where "s4 = s3\<lparr>fp_receiver := snd (AddBytesRead demo_env 5 1000 (fp_receiver s3))\<rparr>"
  note d = s4_def s3_def s2_def s1_def s0_def
  have "flow_reach demo_scp demo_rcp s1"
    unfolding s1_def s0_def by (intro flow_reach.opens flow_reach.init) simp_all
  moreover have "SendWindowSize demo_scp 5 (fp_sender s1) = Inr 32768"
    by (simp add: d demo_flow_eval)
  ultimately have "flow_reach demo_scp demo_rcp s2"
    unfolding s2_def by (rule flow_reach.send) simp
  moreover have sent: "GetBytesSent 5 (fp_sender s2) = Inr 1000"
    by (simp add: d demo_flow_eval)
  ultimately have "flow_reach demo_scp demo_rcp s3"
    unfolding s3_def by (intro flow_reach.deliver [of _ _ s2 5 1000] all_sent_open) simp_all
  moreover obtain c where "streamFlowController (fp_receiver s3) 5 = Some c" "bytesRead c + 1000 \<le> highestReceived c"
    "bytesRead c + 1000 \<le> 2 ^ 62" "bytesRead (connFlowController (fp_receiver s3)) + 1000 \<le> 2 ^ 62"
    by (simp add: d demo_flow_eval)
  ultimately have "flow_reach demo_scp demo_rcp s4"
    unfolding s4_def by (rule flow_reach.read)
  moreover have "fp_sender s4 = fp_sender s2" by (simp add: s4_def s3_def)
  ultimately show ?thesis
    using sent by (intro exI [of _ s4]) (simp add: d demo_flow_eval)
qed

text \<open>The same connection after the sender, and then the receiver, removed the stream.\<close>

lemma demo_flow_removed:
  "\<exists>s s'. flow_reach demo_scp demo_rcp s \<and> streamFlowController (fp_sender s) 5 = None \<and>
     GetBytesSent 5 (all_sent s) = Inr 1000 \<and> streamFlowController (fp_receiver s) 5 \<noteq> None \<and>
     flow_reach demo_scp demo_rcp s' \<and> streamFlowController (fp_sender s') 5 = None \<and>
     streamFlowController (fp_receiver s') 5 = None \<and> stream_total bytesSent (fp_sender_gone s') = 1000"
proof -
  obtain s c c' where s: "flow_reach demo_scp demo_rcp s" "GetBytesSent 5 (fp_sender s) = Inr 1000"
    "streamFlowController (fp_sender s) 5 = Some c" "streamFlowController (fp_receiver s) 5 = Some c'"
    "fp_sender_gone s = Map.empty" "contributesToConnection c"
    using demo_flow by blast
  define s1 where "s1 = s\<lparr>fp_sender := RemoveStream 5 (fp_sender s), fp_sender_gone := (fp_sender_gone s)(5 \<mapsto> c)\<rparr>"
  define s2 where "s2 = s1\<lparr>fp_receiver := RemoveStream 5 (fp_receiver s1),
    fp_receiver_gone := (fp_receiver_gone s1)(5 \<mapsto> c')\<rparr>"
  have "flow_reach demo_scp demo_rcp s1" unfolding s1_def using s(1,3) by (rule flow_reach.sender_removes)
  moreover from this have "flow_reach demo_scp demo_rcp s2"
    unfolding s2_def using s(4) by (intro flow_reach.receiver_removes) (simp_all add: s1_def)
  moreover have b: "bytesSent c = 1000" using s(2,3) by (simp add: GetBytesSent_Inr)
  moreover have "GetBytesSent 5 (all_sent s1) = Inr 1000"
    unfolding s1_def all_sent_removed [OF s(3)] b ..
  moreover have "streamFlowController (fp_sender s1) 5 = None" "streamFlowController (fp_receiver s1) 5 \<noteq> None"
    "streamFlowController (fp_sender s2) 5 = None" "streamFlowController (fp_receiver s2) 5 = None"
    "fp_sender_gone s2 = [5 \<mapsto> c]"
    using s by (simp_all add: s1_def s2_def RemoveStream_def)
  moreover have "stream_total bytesSent [5 \<mapsto> c] = 1000"
    using s(6) b by (simp add: stream_total_def)
  ultimately show ?thesis by (metis (no_types, lifting))
qed

section \<open>Properties\<close>

text \<open>
  C23: a sender that never sends more than \<^verbatim>\<open>SendWindowSize\<close> allows is never accused of a flow
  control violation, neither for a stream nor for the connection, by a receiver that announced
  its windows in the hello message and by window updates.  This holds whatever stream frames
  are delayed, repeated, reordered or lost, for resets that carry the final size, and whichever
  streams either side has removed: a frame for a stream the receiver has removed finds no
  controller, and every other one is accepted.
\<close>

theorem flow_control_safe:
  assumes "flow_reach scp rcp s" "negotiated scp rcp"
    and "GetBytesSent sid (all_sent s) = Inr b" "offset \<le> b"
  shows "fst (UpdateHighestReceived sid offset (fp_receiver s)) =
       (if streamFlowController (fp_receiver s) sid = None then Some errMapAccess else None) \<and>
     fst (ResetStream sid b (fp_receiver s)) =
       (if streamFlowController (fp_receiver s) sid = None then Some errMapAccess else None)"
  using flow_deliver [OF flow_reach_inv [OF assms(1,2)] assms(3)] assms(4) by simp

theorem flow_control_safe_witness:
  "\<exists>s. flow_reach demo_scp demo_rcp s \<and> streamFlowController (fp_sender s) 5 = None \<and>
     GetBytesSent 5 (all_sent s) = Inr 1000 \<and> fst (UpdateHighestReceived 5 1000 (fp_receiver s)) = None"
proof -
  obtain s where "flow_reach demo_scp demo_rcp s" "streamFlowController (fp_sender s) 5 = None"
    "GetBytesSent 5 (all_sent s) = Inr 1000" "streamFlowController (fp_receiver s) 5 \<noteq> None"
    using demo_flow_removed by blast
  moreover from this have "fst (UpdateHighestReceived 5 1000 (fp_receiver s)) = None"
    using flow_control_safe [OF _ demo_negotiated, of s 5 1000 1000] by simp
  ultimately show ?thesis by blast
qed

text \<open>
  C29: the connection level counters of both sides are the sums of the counters of the streams
  that contribute to the connection: those open now and, as \<^verbatim>\<open>RemoveStream\<close> leaves the connection
  level alone, those removed, with the counts they had then.  On the connection level what is
  read was received, what was received was sent, and what was sent fits the window granted.
\<close>

theorem connection_accounting:
  assumes "flow_reach scp rcp s" "negotiated scp rcp"
  shows "bytesSent (connFlowController (fp_sender s)) =
       stream_total bytesSent (streamFlowController (fp_sender s)) + stream_total bytesSent (fp_sender_gone s) \<and>
     highestReceived (connFlowController (fp_receiver s)) =
       stream_total highestReceived (streamFlowController (fp_receiver s)) +
       stream_total highestReceived (fp_receiver_gone s) \<and>
     bytesRead (connFlowController (fp_receiver s)) =
       stream_total bytesRead (streamFlowController (fp_receiver s)) + stream_total bytesRead (fp_receiver_gone s) \<and>
     bytesRead (connFlowController (fp_receiver s)) \<le> highestReceived (connFlowController (fp_receiver s)) \<and>
     highestReceived (connFlowController (fp_receiver s)) \<le> bytesSent (connFlowController (fp_sender s)) \<and>
     bytesSent (connFlowController (fp_sender s)) \<le> receiveWindow (connFlowController (fp_receiver s))"
proof -
  have r: "flow_inv scp s" using assms by (rule flow_reach_inv)
  have p: "pair_inv scp (whole_pair s)" using r by (rule flow_inv_whole)
  then have "finite (dom (fp_sender_gone s ++ streamFlowController (fp_sender s)))"
    "finite (dom (fp_receiver_gone s ++ streamFlowController (fp_receiver s)))"
    by (simp_all add: pair_inv_def Let_def del: dom_map_add)
  then have t: "stream_total g (fp_sender_gone s ++ streamFlowController (fp_sender s)) =
      stream_total g (streamFlowController (fp_sender s)) + stream_total g (fp_sender_gone s)"
    "stream_total g (fp_receiver_gone s ++ streamFlowController (fp_receiver s)) =
      stream_total g (streamFlowController (fp_receiver s)) + stream_total g (fp_receiver_gone s)" for g
    using r by (simp_all add: stream_total_add flow_inv_def)
  show ?thesis
    using p by (auto simp: pair_inv_def linked_def rcv_ok_def Let_def t)
qed

theorem connection_accounting_witness:
  "\<exists>s. flow_reach demo_scp demo_rcp s \<and> streamFlowController (fp_sender s) 5 = None \<and>
     streamFlowController (fp_receiver s) 5 = None \<and>
     bytesSent (connFlowController (fp_sender s)) = stream_total bytesSent (streamFlowController (fp_sender s)) + 1000"
proof -
  obtain s where "flow_reach demo_scp demo_rcp s" "streamFlowController (fp_sender s) 5 = None"
    "streamFlowController (fp_receiver s) 5 = None" "stream_total bytesSent (fp_sender_gone s) = 1000"
    using demo_flow_removed by blast
  then show ?thesis using connection_accounting [OF _ demo_negotiated, of s] by auto
qed

text \<open>
  C24: flow control does not deadlock.  When everything sent has been read, on the stream and on the
  connection, and the updates announced so far have been delivered, the updates the receiver then
  announces leave, once all of them are delivered too, room to send on every stream that was
  looked at, whether or not the sender was blocked before.
\<close>

theorem flow_control_live:
  assumes "flow_reach scp rcp s" "negotiated scp rcp"
    and c: "streamFlowController (fp_sender s) sid = Some c" "streamFlowController (fp_receiver s) sid = Some c'"
    and "bytesRead c' = bytesSent c" "getSendWindow scp c = receiveWindow c'"
    and "bytesRead (connFlowController (fp_receiver s)) = bytesSent (connFlowController (fp_sender s))"
    and "getSendWindow scp (connFlowController (fp_sender s)) = receiveWindow (connFlowController (fp_receiver s))"
    and ids: "0 \<notin> set ids" "sid \<in> set ids"
    and u: "GetWindowUpdates env ids force (fp_receiver s) = (res, f)"
  shows "\<exists>w > 0. SendWindowSize scp sid (deliver_updates res (fp_sender s)) = Inr w"
proof -
  have inv: "flow_inv scp s" using assms(1,2) by (rule flow_reach_inv)
  have sid: "sid \<noteq> 0" using ids by metis
  have ok: "mgr_ok (fp_receiver s)" using inv by (rule flow_mgr_ok)
  have some: "streamFlowController (fp_receiver s) sid \<noteq> None" using c by simp
  note a = GetWindowUpdates_ahead [OF ok ids some u]
  have rb: "read_by sid (fp_receiver s) = bytesSent c" "granted sid (fp_receiver s) = getSendWindow scp c"
    "read_by 0 (fp_receiver s) = bytesSent (connFlowController (fp_sender s))"
    "granted 0 (fp_receiver s) = getSendWindow scp (connFlowController (fp_sender s))"
    using assms sid by (simp_all add: read_by_def granted_def)
  let ?f = "deliver_updates res (fp_sender s)"
  have "\<forall>(k, offset) \<in> set res. k = sid \<longrightarrow> bytesSent c < offset"
    using a(1) rb(1) by auto
  from deliver_stays [OF this sid c(1), of scp] obtain d where
    d: "streamFlowController ?f sid = Some d" "bytesSent d = bytesSent c" "bytesSent c < getSendWindow scp d"
    using a(2) rb(1,2) by auto
  have e: "\<forall>(k, offset) \<in> set res. k = 0 \<longrightarrow> bytesSent (connFlowController (fp_sender s)) < offset"
    using a(1) rb(3) by auto
  have e: "bytesSent (connFlowController ?f) = bytesSent (connFlowController (fp_sender s))"
    "bytesSent (connFlowController (fp_sender s)) < getSendWindow scp (connFlowController ?f)"
    using deliver_conn [OF e, of "fp_sender s" scp] a(3) rb(3,4) by auto
  have "flow_inv scp (s\<lparr>fp_receiver := f, fp_updates := fp_updates s @ res, fp_sender := ?f\<rparr>)"
    using flow_deliver_updates [OF flow_announce [OF inv ids(1) u], of res] by simp
  then have "getSendWindow scp d < 2 ^ 64" "getSendWindow scp (connFlowController ?f) < 2 ^ 64"
    using flow_send_bound d(1) by fastforce+
  then show ?thesis
    using d e by (intro SendWindowSize_pos) auto
qed

theorem flow_control_live_witness:
  "\<exists>s res f w. flow_reach demo_scp demo_rcp s \<and> GetBytesSent 5 (fp_sender s) = Inr 1000 \<and>
     GetWindowUpdates demo_env [5] False (fp_receiver s) = (res, f) \<and> w > 0 \<and>
     SendWindowSize demo_scp 5 (deliver_updates res (fp_sender s)) = Inr w"
proof -
  obtain s c c' where s: "flow_reach demo_scp demo_rcp s" "GetBytesSent 5 (fp_sender s) = Inr 1000"
    "streamFlowController (fp_sender s) 5 = Some c" "streamFlowController (fp_receiver s) 5 = Some c'"
    "bytesRead c' = bytesSent c" "getSendWindow demo_scp c = receiveWindow c'"
    "bytesRead (connFlowController (fp_receiver s)) = bytesSent (connFlowController (fp_sender s))"
    "getSendWindow demo_scp (connFlowController (fp_sender s)) = receiveWindow (connFlowController (fp_receiver s))"
    using demo_flow by blast
  obtain res f where r: "GetWindowUpdates demo_env [5] False (fp_receiver s) = (res, f)"
    by (metis prod.collapse)
  have "\<exists>w > 0. SendWindowSize demo_scp 5 (deliver_updates res (fp_sender s)) = Inr w"
    by (rule flow_control_live [OF s(1) demo_negotiated s(3-8) _ _ r]) simp_all
  then show ?thesis using s r by blast
qed

end
