(* ===== verification/Quic_Stream.thy ===== *)
theory Quic_Stream
  imports Frame_Sorter Flow_Control
begin

text \<open>
  Model of \<^verbatim>\<open>mp-quic/stream.go\<close>: one stream with its frame sorter, reading through the flow
  control manager of the connection.  The flow control manager is shared by all streams and passed
  beside the stream.  The mutex, the channels and the callbacks appear as follows: an operation is
  atomic; a full \<^verbatim>\<open>readChan\<close> or \<^verbatim>\<open>writeChan\<close> is a flag; the calls of \<^verbatim>\<open>onData\<close> and \<^verbatim>\<open>onReset\<close> are a
  list of outputs; and waiting on a channel is the result \<open>ReadBlocks\<close> or \<open>WriteBlocks\<close>, after which
  the call goes on inside its loop (\<open>Read_resume\<close>, \<open>write_wait\<close>) in the state it wakes up in.  A zero
  deadline is \<open>None\<close>, a nil slice is \<open>None\<close>.
\<close>

datatype stream_err =
    EOF
  | errDeadline
  | WriteOnClosedStream StreamID
  | BugBytesRead
  | BugReadPosInFrame
  | FlowControlError fc_error
  | SorterError sorter_error
  | PeerError nat

datatype callback = OnData | OnReset StreamID ByteCount

record stream =
  st_id :: StreamID
  readPosInFrame :: int
  writeOffset :: ByteCount
  readOffset :: ByteCount
  st_err :: "stream_err option"
  cancelled :: bool
  finishedReading :: bool
  finishedWriting :: bool
  resetLocally :: bool
  resetRemotely :: bool
  frameQueue :: streamFrameSorter
  readChan :: bool
  readDeadline :: "int option"
  dataForWriting :: "bytes option"
  finSent :: bool
  rstSent :: bool
  writeChan :: bool
  writeDeadline :: "int option"
  ctxDone :: bool

definition newStream :: "StreamID \<Rightarrow> stream" where
  "newStream sid =
     \<lparr>st_id = sid, readPosInFrame = 0, writeOffset = 0, readOffset = 0, st_err = None, cancelled = False,
      finishedReading = False, finishedWriting = False, resetLocally = False, resetRemotely = False,
      frameQueue = newStreamFrameSorter, readChan = False, readDeadline = None, dataForWriting = None,
      finSent = False, rstSent = False, writeChan = False, writeDeadline = None, ctxDone = False\<rparr>"

section \<open>Reading\<close>

definition passed :: "int \<Rightarrow> int option \<Rightarrow> bool" where
  "passed t deadline = (case deadline of None \<Rightarrow> False | Some d \<Rightarrow> \<not> t < d)"

text \<open>\<^verbatim>\<open>int(x)\<close> of an unsigned 64-bit number.\<close>

definition to_int :: "nat \<Rightarrow> int" where
  "to_int x = (if x < 2 ^ 63 then int x else int x - 2 ^ 64)"

datatype read_result =
    ReadReturns bytes "stream_err option"
  | ReadBlocks
  | ReadPanics

text \<open>
  One run of the inner loop of \<^verbatim>\<open>Read\<close>: it leaves the loop with an error (which may be nil when the
  stream was cancelled) or with a frame, or it waits.
\<close>

datatype wait_result = WaitError "stream_err option" | WaitFrame | WaitBlocks

definition read_wait :: "int \<Rightarrow> StreamFrame option \<Rightarrow> stream \<Rightarrow> wait_result \<times> stream" where
  "read_wait t frame s =
     (if resetLocally s \<or> cancelled s then (WaitError (st_err s), s)
      else if passed t (readDeadline s) then (WaitError (Some errDeadline), s)
      else case frame of
             Some f \<Rightarrow> (WaitFrame, s\<lparr>readPosInFrame := to_int (sub64 (readOffset s) (Offset f))\<rparr>)
           | None \<Rightarrow> (WaitBlocks, s))"

text \<open>The part of an iteration of \<^verbatim>\<open>Read\<close> before the frame is consumed: the number of bytes to copy.\<close>

definition read_checks :: "nat \<Rightarrow> bytes \<Rightarrow> StreamFrame \<Rightarrow> stream \<Rightarrow> read_result + nat" where
  "read_checks n acc f s =
     (let m = min (int n - int (length acc)) (int (DataLen f) - readPosInFrame s)
      in if length acc > n then Inl (ReadReturns acc (Some BugBytesRead))
         else if readPosInFrame s > int (DataLen f) then Inl (ReadReturns acc (Some BugReadPosInFrame))
         else if readPosInFrame s < 0 then Inl ReadPanics
         else Inr (nat m))"

text \<open>Consuming \<open>m\<close> bytes of the frame; the result says whether the frame ended the stream.\<close>

definition read_consume ::
  "fc_env \<Rightarrow> nat \<Rightarrow> StreamFrame \<Rightarrow> stream \<Rightarrow> flowControlManager \<Rightarrow> bool \<times> stream \<times> flowControlManager" where
  "read_consume env m f s fm =
     (let s = s\<lparr>readPosInFrame := readPosInFrame s + int m, readOffset := add64 (readOffset s) m\<rparr>;
          fm = (if resetRemotely s then fm else snd (AddBytesRead env (st_id s) m fm))
      in if readPosInFrame s \<ge> int (DataLen f)
         then let s = s\<lparr>frameQueue := snd (Pop (frameQueue s))\<rparr>
              in if FinBit f then (True, s\<lparr>finishedReading := True\<rparr>, fm) else (False, s, fm)
         else (False, s, fm))"

text \<open>
  One iteration of the loop of \<^verbatim>\<open>Read\<close> with a buffer of \<open>n\<close> bytes, \<open>acc\<close> of which are filled: \<open>Inl\<close> with
  what \<^verbatim>\<open>Read\<close> returns, or \<open>Inr\<close> with the bytes in the buffer when the loop goes on.  \<^verbatim>\<open>onData\<close> is called
  once per iteration, and \<open>env i\<close> is the clock in iteration \<open>i\<close>.
\<close>

definition read_iter ::
  "(nat \<Rightarrow> fc_env) \<Rightarrow> nat \<Rightarrow> bytes \<Rightarrow> callback list \<Rightarrow> stream \<Rightarrow> flowControlManager \<Rightarrow>
   (read_result + bytes) \<times> callback list \<times> stream \<times> flowControlManager" where
  "read_iter env n acc cbs s fm =
     (let frame = Head (frameQueue s)
      in if frame = None \<and> acc \<noteq> [] then (Inl (ReadReturns acc (st_err s)), cbs, s, fm)
         else case read_wait (now (env (length cbs))) frame s of
                (WaitBlocks, s) \<Rightarrow> (Inl ReadBlocks, cbs, s, fm)
              | (WaitError (Some e), s) \<Rightarrow> (Inl (ReadReturns acc (Some e)), cbs, s, fm)
              | (w, s) \<Rightarrow>
                  (case frame of
                     None \<Rightarrow> (Inl ReadPanics, cbs, s, fm)
                   | Some f \<Rightarrow>
                       (case read_checks n acc f s of
                          Inl r \<Rightarrow> (Inl r, cbs, s, fm)
                        | Inr m \<Rightarrow>
                            let acc = acc @ take m (drop (nat (readPosInFrame s)) (Data f))
                            in case read_consume (env (length cbs)) m f s fm of
                                 (fin, s, fm) \<Rightarrow>
                                   (if fin then Inl (ReadReturns acc (Some EOF)) else Inr acc,
                                    cbs @ [OnData], s, fm))))"

text \<open>The loop; \<open>None\<close> would be a loop that never ends.\<close>

partial_function (option) stream_read_loop ::
  "(nat \<Rightarrow> fc_env) \<Rightarrow> nat \<Rightarrow> bytes \<Rightarrow> callback list \<Rightarrow> stream \<Rightarrow> flowControlManager \<Rightarrow>
   (read_result \<times> callback list \<times> stream \<times> flowControlManager) option" where
  "stream_read_loop env n acc cbs s fm =
     (if length acc < n
      then case read_iter env n acc cbs s fm of
             (r, cbs, s, fm) \<Rightarrow>
               (case r of Inl r \<Rightarrow> Some (r, cbs, s, fm) | Inr acc \<Rightarrow> stream_read_loop env n acc cbs s fm)
      else Some (ReadReturns acc None, cbs, s, fm))"

definition Read ::
  "(nat \<Rightarrow> fc_env) \<Rightarrow> nat \<Rightarrow> stream \<Rightarrow> flowControlManager \<Rightarrow>
   (read_result \<times> callback list \<times> stream \<times> flowControlManager) option" where
  "Read env n s fm =
     (if cancelled s \<or> resetLocally s then Some (ReadReturns [] (st_err s), [], s, fm)
      else if finishedReading s then Some (ReadReturns [] (Some EOF), [], s, fm)
      else stream_read_loop env n [] [] s fm)"

text \<open>
  A call that waits has an empty buffer.  When it wakes up it goes on in the inner loop, without the
  checks at the start of \<^verbatim>\<open>Read\<close>: \<open>signalled\<close> if it took the signal from \<^verbatim>\<open>readChan\<close>, otherwise because
  the timer of its deadline fired.
\<close>

definition Read_resume ::
  "(nat \<Rightarrow> fc_env) \<Rightarrow> bool \<Rightarrow> nat \<Rightarrow> stream \<Rightarrow> flowControlManager \<Rightarrow>
   (read_result \<times> callback list \<times> stream \<times> flowControlManager) option" where
  "Read_resume env signalled n s fm =
     stream_read_loop env n [] [] (if signalled then s\<lparr>readChan := False\<rparr> else s) fm"

section \<open>Writing\<close>

datatype write_result = WriteReturns nat "stream_err option" | WriteBlocks

text \<open>The loop of \<^verbatim>\<open>Write\<close> for a buffer of \<open>n\<close> bytes, entered again after each wait.\<close>

definition write_wait :: "int \<Rightarrow> nat \<Rightarrow> stream \<Rightarrow> write_result" where
  "write_wait t n s =
     (if passed t (writeDeadline s) then WriteReturns 0 (Some errDeadline)
      else if dataForWriting s = None \<or> st_err s \<noteq> None
      then (case st_err s of
              Some e \<Rightarrow> WriteReturns (n - (case dataForWriting s of None \<Rightarrow> 0 | Some d \<Rightarrow> length d)) (Some e)
            | None \<Rightarrow> WriteReturns n None)
      else WriteBlocks)"

definition Write :: "int \<Rightarrow> bytes \<Rightarrow> stream \<Rightarrow> write_result \<times> callback list \<times> stream" where
  "Write t p s =
     (if resetLocally s \<or> st_err s \<noteq> None then (WriteReturns 0 (st_err s), [], s)
      else if finishedWriting s then (WriteReturns 0 (Some (WriteOnClosedStream (st_id s))), [], s)
      else if length p = 0 then (WriteReturns 0 None, [], s)
      else let s = s\<lparr>dataForWriting := Some p\<rparr> in (write_wait t (length p) s, [OnData], s))"

definition lenOfDataForWriting :: "stream \<Rightarrow> ByteCount" where
  "lenOfDataForWriting s =
     (if st_err s = None then (case dataForWriting s of None \<Rightarrow> 0 | Some d \<Rightarrow> length d) else 0)"

definition signalRead :: "stream \<Rightarrow> stream" where
  "signalRead s = s\<lparr>readChan := True\<rparr>"

definition signalWrite :: "stream \<Rightarrow> stream" where
  "signalWrite s = s\<lparr>writeChan := True\<rparr>"

definition getDataForWriting :: "ByteCount \<Rightarrow> stream \<Rightarrow> bytes option \<times> stream" where
  "getDataForWriting maxBytes s =
     (case dataForWriting s of
        None \<Rightarrow> (None, s)
      | Some d \<Rightarrow>
          if st_err s \<noteq> None then (None, s)
          else if length d > maxBytes
          then (Some (take maxBytes d),
                s\<lparr>dataForWriting := Some (drop maxBytes d), writeOffset := add64 (writeOffset s) maxBytes\<rparr>)
          else (Some d,
                signalWrite (s\<lparr>dataForWriting := None\<rparr>)\<lparr>writeOffset := add64 (writeOffset s) (length d)\<rparr>))"

definition Close :: "stream \<Rightarrow> callback list \<times> stream" where
  "Close s = ([OnData], s\<lparr>finishedWriting := True, ctxDone := True\<rparr>)"

definition finishedWriteAndSentFin :: "stream \<Rightarrow> bool" where
  "finishedWriteAndSentFin s \<longleftrightarrow> finishedWriting s \<and> finSent s"

definition shouldSendReset :: "stream \<Rightarrow> bool" where
  "shouldSendReset s \<longleftrightarrow>
     \<not> rstSent s \<and> (resetLocally s \<or> resetRemotely s) \<and> \<not> finishedWriteAndSentFin s"

definition shouldSendFin :: "stream \<Rightarrow> bool" where
  "shouldSendFin s \<longleftrightarrow> finishedWriting s \<and> \<not> finSent s \<and> st_err s = None \<and> dataForWriting s = None"

definition sentFin :: "stream \<Rightarrow> stream" where
  "sentFin s = s\<lparr>finSent := True\<rparr>"

section \<open>Frames and signals from the session\<close>

definition AddStreamFrame ::
  "StreamFrame \<Rightarrow> stream \<Rightarrow> flowControlManager \<Rightarrow> stream_err option \<times> stream \<times> flowControlManager" where
  "AddStreamFrame frame s fm =
     (case UpdateHighestReceived (st_id s) (add64 (Offset frame) (DataLen frame)) fm of
        (Some e, fm) \<Rightarrow> (Some (FlowControlError e), s, fm)
      | (None, fm) \<Rightarrow>
          (case Push frame (frameQueue s) of
             (r, fq) \<Rightarrow>
               let s = s\<lparr>frameQueue := fq\<rparr>
               in if r \<noteq> None \<and> r \<noteq> Some errDuplicateStreamData
                  then (map_option SorterError r, s, fm)
                  else (None, signalRead s, fm)))"

definition SetReadDeadline :: "int option \<Rightarrow> stream \<Rightarrow> stream" where
  "SetReadDeadline t s =
     (let old = readDeadline s; s = s\<lparr>readDeadline := t\<rparr>
      in if (case (t, old) of (None, None) \<Rightarrow> False | (None, Some _) \<Rightarrow> True | (Some _, None) \<Rightarrow> False
               | (Some a, Some b) \<Rightarrow> a < b)
         then signalRead s else s)"

definition SetWriteDeadline :: "int option \<Rightarrow> stream \<Rightarrow> stream" where
  "SetWriteDeadline t s =
     (let old = writeDeadline s; s = s\<lparr>writeDeadline := t\<rparr>
      in if (case (t, old) of (None, None) \<Rightarrow> False | (None, Some _) \<Rightarrow> True | (Some _, None) \<Rightarrow> False
               | (Some a, Some b) \<Rightarrow> a < b)
         then signalWrite s else s)"

definition SetDeadline :: "int option \<Rightarrow> stream \<Rightarrow> stream" where
  "SetDeadline t s = SetWriteDeadline t (SetReadDeadline t s)"

definition CloseRemote :: "ByteCount \<Rightarrow> stream \<Rightarrow> flowControlManager \<Rightarrow> stream \<times> flowControlManager" where
  "CloseRemote offset s fm =
     snd (AddStreamFrame \<lparr>StreamID = 0, FinBit = True, DataLenPresent = False, Offset = offset, Data = []\<rparr> s fm)"

definition set_err :: "(stream \<Rightarrow> stream) \<Rightarrow> stream_err option \<Rightarrow> stream \<Rightarrow> stream" where
  "set_err signal e s = (if st_err s = None then signal (s\<lparr>st_err := e\<rparr>) else s)"

definition Cancel :: "stream_err option \<Rightarrow> stream \<Rightarrow> stream" where
  "Cancel e s = set_err (signalWrite \<circ> signalRead) e (s\<lparr>cancelled := True, ctxDone := True\<rparr>)"

text \<open>The end of \<^verbatim>\<open>Reset\<close> and \<^verbatim>\<open>RegisterRemoteError\<close>.\<close>

definition send_reset :: "stream \<Rightarrow> callback list \<times> stream" where
  "send_reset s =
     (if shouldSendReset s then ([OnReset (st_id s) (writeOffset s)], s\<lparr>rstSent := True\<rparr>) else ([], s))"

definition Reset :: "stream_err option \<Rightarrow> stream \<Rightarrow> callback list \<times> stream" where
  "Reset e s =
     (if resetLocally s then ([], s)
      else send_reset (set_err (signalWrite \<circ> signalRead) e (s\<lparr>resetLocally := True, ctxDone := True\<rparr>)))"

definition RegisterRemoteError :: "stream_err option \<Rightarrow> stream \<Rightarrow> callback list \<times> stream" where
  "RegisterRemoteError e s =
     (if resetRemotely s then ([], s)
      else send_reset (set_err signalWrite e (s\<lparr>resetRemotely := True, ctxDone := True\<rparr>)))"

definition finished :: "stream \<Rightarrow> bool" where
  "finished s \<longleftrightarrow> cancelled s \<or> finishedReading s \<and> finishedWriteAndSentFin s \<or>
     resetRemotely s \<and> rstSent s \<or> finishedReading s \<and> rstSent s \<or>
     finishedWriteAndSentFin s \<and> resetRemotely s"

section \<open>One call of Read\<close>

text \<open>
  The bytes before \<^verbatim>\<open>readOffset\<close> were returned; the frame that holds the next byte, if it was begun,
  is at the head of the queue.  If \<open>u\<close>, the frames queued with FIN end at the end of the content.
\<close>

definition read_inv :: "bytes \<Rightarrow> bool \<Rightarrow> ByteCount set \<Rightarrow> stream \<Rightarrow> bool" where
  "read_inv c u U s \<longleftrightarrow> sorter_inv c U (frameQueue s) \<and> (u \<longrightarrow> fin_at_end c (frameQueue s)) \<and>
     readPosition (frameQueue s) \<le> readOffset s \<and> readOffset s \<le> front (frameQueue s) \<and>
     (readPosition (frameQueue s) < readOffset s \<longrightarrow>
        (\<exists>f. Head (frameQueue s) = Some f \<and> readOffset s < readPosition (frameQueue s) + DataLen f)) \<and>
     (u \<longrightarrow> finishedReading s \<longrightarrow> readOffset s = length c) \<and> length c < 2 ^ 63"

lemma read_invD:
  assumes "read_inv c u U s"
  shows "sorter_inv c U (frameQueue s)" "u \<Longrightarrow> fin_at_end c (frameQueue s)"
    "readPosition (frameQueue s) \<le> readOffset s" "readOffset s \<le> front (frameQueue s)"
    "readOffset s \<le> length c" "length c < 2 ^ 63"
    "u \<Longrightarrow> finishedReading s \<Longrightarrow> readOffset s = length c"
    "Head (frameQueue s) = None \<Longrightarrow> readOffset s = front (frameQueue s)"
    "Head (frameQueue s) = Some f \<Longrightarrow> DataLen f \<noteq> 0 \<Longrightarrow> readOffset s < readPosition (frameQueue s) + DataLen f"
    "Head (frameQueue s) = Some f \<Longrightarrow> DataLen f = 0 \<Longrightarrow> readOffset s = readPosition (frameQueue s)"
proof -
  show i: "sorter_inv c U (frameQueue s)" "u \<Longrightarrow> fin_at_end c (frameQueue s)"
    "readPosition (frameQueue s) \<le> readOffset s" "readOffset s \<le> front (frameQueue s)"
    "u \<Longrightarrow> finishedReading s \<Longrightarrow> readOffset s = length c" "length c < 2 ^ 63"
    using assms unfolding read_inv_def by blast+
  show "readOffset s \<le> length c" using i(4) front_ok(5) [OF i(1)] by simp
  have p: "\<exists>f. Head (frameQueue s) = Some f \<and> readOffset s < readPosition (frameQueue s) + DataLen f"
    if "readPosition (frameQueue s) \<noteq> readOffset s"
    using assms that i(3) unfolding read_inv_def by (metis le_neq_implies_less)
  show "readOffset s = front (frameQueue s)" if "Head (frameQueue s) = None"
    using p that Head_None [OF i(1) that] by force
  show "readOffset s < readPosition (frameQueue s) + DataLen f"
    if "Head (frameQueue s) = Some f" "DataLen f \<noteq> 0"
    using p that by (cases "readPosition (frameQueue s) = readOffset s") auto
  show "readOffset s = readPosition (frameQueue s)" if "Head (frameQueue s) = Some f" "DataLen f = 0"
    using p that i(3) by fastforce
qed

text \<open>What a call leaves alone.\<close>

definition same_side :: "stream \<Rightarrow> stream \<Rightarrow> bool" where
  "same_side s s' \<longleftrightarrow> st_err s' = st_err s \<and> cancelled s' = cancelled s \<and> resetLocally s' = resetLocally s \<and>
     readDeadline s' = readDeadline s \<and> gaps (frameQueue s') = gaps (frameQueue s)"

lemma same_side_trans: "same_side a b \<Longrightarrow> same_side b d \<Longrightarrow> same_side a d"
  by (simp add: same_side_def)

lemma same_side_front: "same_side s s' \<Longrightarrow> front (frameQueue s') = front (frameQueue s)"
  by (simp add: same_side_def front_def)

text \<open>One chunk: \<open>m\<close> bytes from the read offset, and the stream moves past them.\<close>

lemma read_consume_ok:
  assumes inv: "read_inv c u U s" and h: "Head (frameQueue s) = Some f" and fr: "\<not> finishedReading s"
    and pos: "readPosInFrame s = int (readOffset s - readPosition (frameQueue s))"
    and m: "m \<le> readPosition (frameQueue s) + DataLen f - readOffset s"
    and r: "read_consume env m f s fm = (fin, s', fm')"
  shows "read_inv c u U s'" "same_side s s'" "readOffset s' = readOffset s + m" "finishedReading s' = fin"
    "fin_waits c (frameQueue s) \<Longrightarrow> fin \<or> fin_waits c (frameQueue s')"
    "u \<Longrightarrow> fin \<Longrightarrow> readOffset s' = length c" "DataLen f = 0 \<Longrightarrow> fin"
    "take m (drop (nat (readPosInFrame s)) (Data f)) = take m (drop (readOffset s) c)"
proof -
  note i = read_invD [OF inv]
  let ?q = "frameQueue s" and ?p = "readPosition (frameQueue s)"
  have hs: "Offset f = ?p" "frame_ok c f \<and> ?p + DataLen f \<le> front ?q \<or> end_frame c f \<and> ?p = length c \<and> front ?q = length c"
    using Head_Some [OF i(1) h] by auto
  have pp: "?p \<le> readOffset s" "readOffset s \<le> ?p + DataLen f"
    using i(3) i(9,10) [OF h] by (cases "DataLen f = 0"; simp)+
  have lc: "?p + DataLen f \<le> length c" using hs front_ok(5) [OF i(1)] by (auto simp: end_frame_def)
  then have ro: "add64 (readOffset s) m = readOffset s + m" using m pp i(6) by (intro add64_small) simp
  have last: "u \<Longrightarrow> FinBit f \<Longrightarrow> ?p + DataLen f = length c"
    using i(2) h hs(1) unfolding fin_at_end_def Head_def by metis
  have whole: "readPosInFrame s + int m \<ge> int (DataLen f) \<longleftrightarrow> readOffset s + m = ?p + DataLen f"
    using pos pp m by auto
  show "take m (drop (nat (readPosInFrame s)) (Data f)) = take m (drop (readOffset s) c)"
  proof (cases "end_frame c f")
    case True
    then have "m = 0" using m pp by (auto simp: end_frame_def)
    then show ?thesis by simp
  next
    case False
    then have "Data f = take (DataLen f) (drop ?p c)" using hs by (simp add: frame_ok_def)
    then have "drop (readOffset s - ?p) (Data f) = take (DataLen f - (readOffset s - ?p)) (drop (readOffset s) c)"
      using pp(1) by (simp add: drop_take)
    moreover have "nat (readPosInFrame s) = readOffset s - ?p" using pos by simp
    moreover have "min m (DataLen f - (readOffset s - ?p)) = m" using m pp by linarith
    ultimately show ?thesis by simp
  qed
  have *: "(read_inv c u U s' \<and> same_side s s' \<and> readOffset s' = readOffset s + m \<and> finishedReading s' = fin) \<and>
     (fin_waits c (frameQueue s) \<longrightarrow> fin \<or> fin_waits c (frameQueue s')) \<and> (u \<longrightarrow> fin \<longrightarrow> readOffset s' = length c) \<and>
     (DataLen f = 0 \<longrightarrow> fin)"
  proof (cases "readOffset s + m = ?p + DataLen f")
    case True
    let ?q' = "?q\<lparr>readPosition := ?p + DataLen f, queuedFrames := (queuedFrames ?q)(?p := None)\<rparr>"
    have pop: "snd (Pop ?q) = ?q'" "sorter_inv c U ?q'" using Pop_ok [OF i(1) h] by simp_all
    have s': "fin = FinBit f" "s' = s\<lparr>readPosInFrame := readPosInFrame s + int m, readOffset := readOffset s + m,
        frameQueue := ?q', finishedReading := FinBit f\<rparr>"
      using r fr whole True pop(1) ro by (auto simp: read_consume_def Let_def split: if_splits)
    have "front ?q' = front ?q" by (simp add: front_def)
    moreover have "?p + DataLen f \<le> front ?q" using hs by (auto simp: end_frame_def)
    ultimately have "read_inv c u U s'"
      using pop(2) Pop_fin_at_end [OF i(2)] last True i(6) unfolding read_inv_def s' by simp
    moreover have "fin_waits c ?q \<longrightarrow> fin \<or> fin_waits c ?q'" using Pop_fin_stays [OF i(1) h] s'(1) by blast
    moreover have "DataLen f = 0 \<longrightarrow> fin" using hs s'(1) by (auto simp: frame_ok_def end_frame_def)
    ultimately show ?thesis using True last s' by (auto simp: same_side_def)
  next
    case False
    then have s': "fin = False" "s' = s\<lparr>readPosInFrame := readPosInFrame s + int m, readOffset := readOffset s + m\<rparr>"
      using r whole ro by (auto simp: read_consume_def Let_def split: if_splits)
    have lt: "readOffset s + m < ?p + DataLen f" using False m pp by auto
    then have "read_inv c u U s'" using i(1-4,6) h hs fr unfolding read_inv_def s' by (auto simp: end_frame_def)
    moreover have "DataLen f \<noteq> 0" using lt pp by auto
    ultimately show ?thesis using s' fr by (auto simp: same_side_def)
  qed
  then show "read_inv c u U s'" "same_side s s'" "readOffset s' = readOffset s + m" "finishedReading s' = fin"
    "fin_waits c (frameQueue s) \<Longrightarrow> fin \<or> fin_waits c (frameQueue s')"
    "u \<Longrightarrow> fin \<Longrightarrow> readOffset s' = length c" "DataLen f = 0 \<Longrightarrow> fin"
    by blast+
qed

text \<open>What \<^verbatim>\<open>Read\<close> returned after \<open>acc\<close> was in the buffer.\<close>

definition read_post ::
  "bytes \<Rightarrow> bool \<Rightarrow> ByteCount set \<Rightarrow> nat \<Rightarrow> bytes \<Rightarrow> stream \<Rightarrow> read_result \<Rightarrow> stream \<Rightarrow> bool" where
  "read_post c u U n acc s r s' \<longleftrightarrow> read_inv c u U s' \<and> same_side s s' \<and> readOffset s \<le> readOffset s' \<and>
     (fin_waits c (frameQueue s) \<longrightarrow> finishedReading s' \<or> fin_waits c (frameQueue s')) \<and>
     (case r of
        ReadPanics \<Rightarrow> False
      | ReadBlocks \<Rightarrow> acc = [] \<and> s' = s \<and> Head (frameQueue s) = None
      | ReadReturns d e \<Rightarrow>
          d = acc @ take (readOffset s' - readOffset s) (drop (readOffset s) c) \<and> length d \<le> n \<and>
          e \<in> {None, Some EOF, Some errDeadline, st_err s} \<and> (finishedReading s' \<longrightarrow> e = Some EOF) \<and>
          (finishedReading s' \<or> length d = n \<or> Head (frameQueue s') = None \<or> readDeadline s \<noteq> None))"

lemma read_post_step:
  assumes "read_post c u U n acc1 s1 r s'" "same_side s s1" "readOffset s1 = readOffset s + m"
    and "acc1 = acc @ take m (drop (readOffset s) c)" "fin_waits c (frameQueue s) \<longrightarrow> fin_waits c (frameQueue s1)"
    and "acc1 \<noteq> []"
  shows "read_post c u U n acc s r s'"
proof -
  have p: "read_inv c u U s'" "same_side s1 s'" "readOffset s1 \<le> readOffset s'"
    "fin_waits c (frameQueue s1) \<longrightarrow> finishedReading s' \<or> fin_waits c (frameQueue s')"
    using assms(1) unfolding read_post_def by blast+
  have e: "st_err s1 = st_err s" "readDeadline s1 = readDeadline s" using assms(2) by (simp_all add: same_side_def)
  have "take (readOffset s' - readOffset s) (drop (readOffset s) c) =
      take m (drop (readOffset s) c) @ take (readOffset s' - readOffset s1) (drop (readOffset s1) c)"
  proof -
    have "readOffset s' - readOffset s = m + (readOffset s' - readOffset s1)" using p(3) assms(3) by simp
    then show ?thesis by (simp add: take_add assms(3) add.commute)
  qed
  then have "case r of
        ReadPanics \<Rightarrow> False
      | ReadBlocks \<Rightarrow> False
      | ReadReturns d e \<Rightarrow>
          d = acc @ take (readOffset s' - readOffset s) (drop (readOffset s) c) \<and> length d \<le> n \<and>
          e \<in> {None, Some EOF, Some errDeadline, st_err s} \<and> (finishedReading s' \<longrightarrow> e = Some EOF) \<and>
          (finishedReading s' \<or> length d = n \<or> Head (frameQueue s') = None \<or> readDeadline s \<noteq> None)"
    using assms(1,4,6) unfolding read_post_def e by (cases r) auto
  then show ?thesis
    unfolding read_post_def using p assms(3,5) same_side_trans [OF assms(2) p(2)] by (cases r) auto
qed

definition may_read :: "stream \<Rightarrow> bool" where
  "may_read s \<longleftrightarrow> \<not> cancelled s \<and> \<not> resetLocally s \<and> \<not> finishedReading s"

text \<open>One iteration either returns or adds at least one byte.\<close>

lemma read_iter_ok:
  assumes inv: "read_inv c u U s" and may: "may_read s" and n: "length acc < n"
    and r: "read_iter env n acc cbs s fm = (r, cbs', s', fm')"
  shows "(\<exists>r'. r = Inl r' \<and> read_post c u U n acc s r' s') \<or>
     (\<exists>acc' m. r = Inr acc' \<and> 0 < m \<and> acc' = acc @ take m (drop (readOffset s) c) \<and> length acc' = length acc + m \<and>
        length acc' \<le> n \<and> read_inv c u U s' \<and> may_read s' \<and> same_side s s' \<and> readOffset s' = readOffset s + m \<and>
        (fin_waits c (frameQueue s) \<longrightarrow> fin_waits c (frameQueue s')))"
proof -
  note i = read_invD [OF inv]
  have refl: "same_side s s" by (simp add: same_side_def)
  show ?thesis
  proof (cases "Head (frameQueue s)")
    case None
    have w: "read_wait (now (env (length cbs))) None s =
        ((if passed (now (env (length cbs))) (readDeadline s) then WaitError (Some errDeadline) else WaitBlocks), s)"
      using may by (simp add: read_wait_def may_read_def)
    have it: "r = Inl (if acc \<noteq> [] then ReadReturns acc (st_err s)
        else if passed (now (env (length cbs))) (readDeadline s) then ReadReturns acc (Some errDeadline) else ReadBlocks)" "s' = s"
      using r unfolding read_iter_def Let_def None w by (auto split: if_splits)
    have "read_post c u U n acc s (ReadReturns acc (st_err s)) s" "read_post c u U n acc s (ReadReturns acc (Some errDeadline)) s"
      "acc = [] \<Longrightarrow> read_post c u U n acc s ReadBlocks s"
      using None inv refl n may by (auto simp: read_post_def may_read_def)
    then show ?thesis using it by auto
  next
    case (Some f)
    let ?p = "readPosition (frameQueue s)"
    let ?s = "s\<lparr>readPosInFrame := int (readOffset s - ?p)\<rparr>"
    show ?thesis
    proof (cases "passed (now (env (length cbs))) (readDeadline s)")
      case True
      then have "r = Inl (ReadReturns acc (Some errDeadline))" "s' = s" "readDeadline s \<noteq> None"
        using r may Some by (auto simp: read_iter_def read_wait_def may_read_def passed_def Let_def split: option.splits)
      then show ?thesis using inv refl n may by (auto simp: read_post_def may_read_def)
    next
      case False
      have hs: "Offset f = ?p" "?p + DataLen f \<le> length c"
        using Head_Some [OF i(1) Some] front_ok(5) [OF i(1)] by (auto simp: end_frame_def)
      have pp: "?p \<le> readOffset s" "readOffset s \<le> ?p + DataLen f"
        using i(3) i(9,10) [OF Some] by (cases "DataLen f = 0"; simp)+
      have w: "read_wait (now (env (length cbs))) (Some f) s = (WaitFrame, ?s)"
      proof -
        have "sub64 (readOffset s) (Offset f) = readOffset s - ?p"
          unfolding hs(1) using pp(1) i(5,6) by (intro sub64_small) auto
        moreover have "readOffset s - ?p < 2 ^ 63" using i(5,6) by linarith
        ultimately show ?thesis using False may by (simp add: read_wait_def may_read_def to_int_def)
      qed
      define m where "m = min (n - length acc) (?p + DataLen f - readOffset s)"
      have "read_checks n acc f ?s = Inr m"
        using n pp unfolding m_def by (auto simp: read_checks_def Let_def min_def)
      moreover obtain fin s1 fm1 where c: "read_consume (env (length cbs)) m f ?s fm = (fin, s1, fm1)" by (metis prod_cases3)
      ultimately have res: "s' = s1" "r = (let acc' = acc @ take m (drop (readOffset s - ?p) (Data f))
          in if fin then Inl (ReadReturns acc' (Some EOF)) else Inr acc')"
        using r Some w by (auto simp: read_iter_def Let_def)
      have inv': "read_inv c u U ?s" using inv by (simp add: read_inv_def)
      have "Head (frameQueue ?s) = Some f" "\<not> finishedReading ?s"
        "readPosInFrame ?s = int (readOffset ?s - readPosition (frameQueue ?s))"
        "m \<le> readPosition (frameQueue ?s) + DataLen f - readOffset ?s"
        using Some may by (simp_all add: may_read_def m_def)
      note rc = read_consume_ok [OF inv' this c]
      have len: "m \<le> n - length acc" "m \<le> length c - readOffset s" using hs(2) by (auto simp: m_def)
      have data: "take m (drop (readOffset s - ?p) (Data f)) = take m (drop (readOffset s) c)" using rc(8) by simp
      have same: "same_side s s1" using rc(2) by (simp add: same_side_def)
      show ?thesis
      proof (cases fin)
        case True
        then have "read_post c u U n acc s (ReadReturns (acc @ take m (drop (readOffset s) c)) (Some EOF)) s1"
          using rc(1,3,4) same len n by (auto simp: read_post_def)
        then show ?thesis using True res data by (simp add: Let_def)
      next
        case False
        then have "DataLen f \<noteq> 0" using rc(7) by blast
        then have "0 < m" using n i(9) [OF Some] by (simp add: m_def)
        moreover have "may_read s1" using may same rc(4) False by (simp add: may_read_def same_side_def)
        ultimately show ?thesis using False res data rc(1,3,5) same len n by (auto simp: Let_def)
      qed
    qed
  qed
qed

text \<open>The loop ends, because every iteration that goes on fills the buffer further.\<close>

lemma stream_read_loop_ok:
  assumes "read_inv c u U s" "may_read s" "length acc \<le> n"
  shows "\<exists>r cbs' s' fm'. stream_read_loop env n acc cbs s fm = Some (r, cbs', s', fm') \<and> read_post c u U n acc s r s'"
  using assms
proof (induction "n - length acc" arbitrary: acc cbs s fm rule: less_induct)
  case less
  show ?case
  proof (cases "length acc < n")
    case False
    then show ?thesis
      using less.prems by (subst stream_read_loop.simps) (auto simp: read_post_def same_side_def may_read_def)
  next
    case True
    obtain r cbs1 s1 fm1 where it: "read_iter env n acc cbs s fm = (r, cbs1, s1, fm1)" by (metis prod_cases4)
    have loop: "stream_read_loop env n acc cbs s fm =
        (case r of Inl r \<Rightarrow> Some (r, cbs1, s1, fm1) | Inr acc \<Rightarrow> stream_read_loop env n acc cbs1 s1 fm1)"
      by (subst stream_read_loop.simps) (simp add: True it)
    from read_iter_ok [OF less.prems(1,2) True it] show ?thesis
    proof (elim disjE exE conjE)
      fix r' assume "r = Inl r'" "read_post c u U n acc s r' s1"
      then show ?thesis using loop by auto
    next
      fix acc' m assume r: "r = Inr acc'" and m: "0 < m" and a: "acc' = acc @ take m (drop (readOffset s) c)"
        "length acc' = length acc + m" "length acc' \<le> n" and s1: "read_inv c u U s1" "may_read s1" "same_side s s1"
        "readOffset s1 = readOffset s + m" "fin_waits c (frameQueue s) \<longrightarrow> fin_waits c (frameQueue s1)"
      have "n - length acc' < n - length acc" "acc' \<noteq> []" using m a(2) True by auto
      from less.hyps [OF this(1) s1(1,2) a(3)] obtain r' cbs' s' fm' where
        l: "stream_read_loop env n acc' cbs1 s1 fm1 = Some (r', cbs', s', fm')" "read_post c u U n acc' s1 r' s'" by blast
      then show ?thesis
        using loop r read_post_step [OF l(2) s1(3,4) a(1) s1(5) \<open>acc' \<noteq> []\<close>] by auto
    qed
  qed
qed

section \<open>A stream over its life\<close>

text \<open>
  The frames a sender makes of the content \<open>c\<close>: pieces of it, with the FIN bit on the piece that reaches
  the end if \<open>wl\<close> (the writer closed before the last byte was sent), or an empty frame with the FIN.
\<close>

definition sent_frame :: "bytes \<Rightarrow> bool \<Rightarrow> StreamFrame \<Rightarrow> bool" where
  "sent_frame c wl f \<longleftrightarrow> end_frame c f \<or>
     frame_ok c f \<and> (FinBit f \<longleftrightarrow> wl \<and> Offset f + DataLen f = length c)"

definition received :: "StreamFrame list \<Rightarrow> ByteCount set" where
  "received fs = (\<Union>f \<in> set fs. frame_bytes f)"

lemma received_simps [simp]: "received [] = {}" "received (f # fs) = received fs \<union> frame_bytes f"
  by (auto simp: received_def)

text \<open>
  A frame with FIN is cut at its front only, if at all: if its last byte was received before, so was
  all of it.  The second definition says so of every frame of a list, the last one added first.
\<close>

definition uncut_fin :: "bytes \<Rightarrow> ByteCount set \<Rightarrow> StreamFrame \<Rightarrow> bool" where
  "uncut_fin c U f \<longleftrightarrow> (FinBit f \<longrightarrow> length c - 1 \<notin> U \<or> frame_bytes f \<subseteq> U)"

fun fins_uncut :: "bytes \<Rightarrow> StreamFrame list \<Rightarrow> bool" where
  "fins_uncut c [] = True"
| "fins_uncut c (f # fs) = (fins_uncut c fs \<and> uncut_fin c (received fs) f)"

text \<open>The calls that do not touch the receiving side of the stream.\<close>

datatype stream_call =
    CallWrite int bytes
  | CallGetData ByteCount
  | CallClose
  | CallSentFin
  | CallSetReadDeadline "int option"
  | CallSetWriteDeadline "int option"
  | CallCancel "stream_err option"
  | CallReset "stream_err option"
  | CallRemoteError "stream_err option"

fun run_call :: "stream_call \<Rightarrow> stream \<Rightarrow> stream" where
  "run_call (CallWrite t p) s = snd (snd (Write t p s))"
| "run_call (CallGetData n) s = snd (getDataForWriting n s)"
| "run_call CallClose s = snd (Close s)"
| "run_call CallSentFin s = sentFin s"
| "run_call (CallSetReadDeadline t) s = SetReadDeadline t s"
| "run_call (CallSetWriteDeadline t) s = SetWriteDeadline t s"
| "run_call (CallCancel e) s = Cancel e s"
| "run_call (CallReset e) s = snd (Reset e s)"
| "run_call (CallRemoteError e) s = snd (RegisterRemoteError e s)"

text \<open>
  The bytes a call of \<^verbatim>\<open>Read\<close> with a buffer of \<open>n\<close> bytes returns, and whether it still waits afterwards.
\<close>

fun read_bytes :: "read_result \<Rightarrow> bytes" where
  "read_bytes (ReadReturns d e) = d"
| "read_bytes ReadBlocks = []"
| "read_bytes ReadPanics = []"

definition still_waits :: "nat \<Rightarrow> read_result \<Rightarrow> nat option" where
  "still_waits n r = (if r = ReadBlocks then Some n else None)"

text \<open>Cancelled or reset with a nil error: a call of \<^verbatim>\<open>Read\<close> that waits does not notice.\<close>

definition nil_stop :: "stream \<Rightarrow> bool" where
  "nil_stop s \<longleftrightarrow> (cancelled s \<or> resetLocally s) \<and> st_err s = None"

text \<open>
  The states of a stream with the content \<open>c\<close>: \<open>fs\<close> are the frames added so far, the last one first,
  \<open>out\<close> the bytes its calls of \<^verbatim>\<open>Read\<close> returned, and \<open>w\<close> is the buffer size of the call that waits, if
  there is one (calls of \<^verbatim>\<open>Read\<close> do not overlap).  The flow control manager is whatever the other
  streams made of it.  A waiting call is not woken by a cancellation or reset with a nil error.
\<close>

inductive stream_reach :: "bytes \<Rightarrow> bool \<Rightarrow> StreamFrame list \<Rightarrow> bytes \<Rightarrow> nat option \<Rightarrow> stream \<Rightarrow> bool"
  for c wl where
  reach_new: "length c < 2 ^ 63 \<Longrightarrow> stream_reach c wl [] [] None (newStream sid)"
| reach_frame: "stream_reach c wl fs out w s \<Longrightarrow> sent_frame c wl f \<Longrightarrow>
     AddStreamFrame f s fm = (None, s', fm') \<Longrightarrow> stream_reach c wl (f # fs) out w s'"
| reach_read: "stream_reach c wl fs out None s \<Longrightarrow> Read env n s fm = Some (r, cbs, s', fm') \<Longrightarrow> r \<noteq> ReadPanics \<Longrightarrow>
     stream_reach c wl fs (out @ read_bytes r) (still_waits n r) s'"
| reach_resume: "stream_reach c wl fs out (Some n) s \<Longrightarrow> \<not> nil_stop s \<Longrightarrow> (signalled \<longrightarrow> readChan s) \<Longrightarrow>
     Read_resume env signalled n s fm = Some (r, cbs, s', fm') \<Longrightarrow> r \<noteq> ReadPanics \<Longrightarrow>
     stream_reach c wl fs (out @ read_bytes r) (still_waits n r) s'"
| reach_call: "stream_reach c wl fs out w s \<Longrightarrow> stream_reach c wl fs out w (run_call call s)"

definition reach_inv :: "bytes \<Rightarrow> bool \<Rightarrow> StreamFrame list \<Rightarrow> bytes \<Rightarrow> nat option \<Rightarrow> stream \<Rightarrow> bool" where
  "reach_inv c wl fs out w s \<longleftrightarrow> read_inv c (fins_uncut c fs) (received fs) s \<and> out = take (readOffset s) c \<and>
     (\<forall>g \<in> set fs. sent_frame c wl g) \<and> (w \<noteq> None \<longrightarrow> \<not> finishedReading s) \<and>
     (fins_uncut c fs \<longrightarrow> (\<exists>g \<in> set fs. FinBit g) \<longrightarrow> finishedReading s \<or> fin_waits c (frameQueue s))"

lemma run_call_same:
  "frameQueue (run_call call s) = frameQueue s \<and> readOffset (run_call call s) = readOffset s \<and>
   finishedReading (run_call call s) = finishedReading s"
  by (cases call)
    (auto simp: Write_def getDataForWriting_def Close_def sentFin_def SetReadDeadline_def SetWriteDeadline_def
      Cancel_def Reset_def RegisterRemoteError_def set_err_def send_reset_def signalRead_def signalWrite_def
      Let_def split: option.splits)

lemma reach_inv_new: "length c < 2 ^ 63 \<Longrightarrow> reach_inv c wl [] [] None (newStream sid)"
  using newStreamFrameSorter_inv [of c]
  by (simp add: reach_inv_def read_inv_def newStream_def newStreamFrameSorter_def fin_at_end_def front_def
      protocol_MaxByteCount_def)

lemma read_inv_frame:
  assumes inv: "read_inv c u U s" and q: "sorter_inv c V q" "v \<longrightarrow> fin_at_end c q" "U \<subseteq> V" and v: "v \<longrightarrow> u"
    and pos: "readPosition q = readPosition (frameQueue s)"
    and hd: "\<And>h. readPosition q < front (frameQueue s) \<Longrightarrow> Head (frameQueue s) = Some h \<Longrightarrow> Head q = Some h"
    and s': "frameQueue s' = q" "readOffset s' = readOffset s" "finishedReading s' = finishedReading s"
  shows "read_inv c v V s'"
proof -
  note i = read_invD [OF inv]
  have "front (frameQueue s) \<le> front q"
    using front_ok(1) [OF i(1)] front_ok(2) [OF q(1)] q(3) by (meson lessThan_iff not_le subsetD)
  moreover have "\<exists>f. Head q = Some f \<and> readOffset s < readPosition q + DataLen f" if "readPosition q < readOffset s"
    using inv that hd i(4) pos unfolding read_inv_def by (metis order.strict_trans2)
  ultimately show ?thesis using i(3,4,6,7) q v pos s' unfolding read_inv_def by auto
qed

text \<open>If the end of the content was received before, so was the FIN.\<close>

lemma fin_received:
  assumes fs: "\<forall>g \<in> set fs. sent_frame c wl g" and f: "sent_frame c wl f" "\<not> end_frame c f" "FinBit f"
    and d: "frame_bytes f \<subseteq> received fs"
  shows "\<exists>g \<in> set fs. FinBit g"
proof -
  have e: "wl" "Offset f + DataLen f = length c" "0 < DataLen f"
    using f by (auto simp: sent_frame_def frame_ok_def)
  then have "length c - 1 \<in> frame_bytes f" by (auto simp: frame_bytes_def)
  then obtain g where g: "g \<in> set fs" "length c - 1 \<in> frame_bytes g" using d by (auto simp: received_def)
  then have "sent_frame c wl g" "Offset g + DataLen g \<ge> length c" "0 < DataLen g"
    using fs by (auto simp: frame_bytes_def)
  then have "FinBit g" using e(1) by (auto simp: sent_frame_def frame_ok_def end_frame_def)
  then show ?thesis using g(1) by blast
qed

lemma reach_inv_frame:
  assumes inv: "reach_inv c wl fs out w s" and f: "sent_frame c wl f"
    and a: "AddStreamFrame f s fm = (None, s', fm')"
  shows "reach_inv c wl (f # fs) out w s'"
proof -
  let ?U = "received fs" and ?q = "frameQueue s" and ?u = "fins_uncut c fs"
  let ?v = "fins_uncut c (f # fs)"
  have r: "read_inv c ?u ?U s" and out: "out = take (readOffset s) c" and fs: "\<forall>g \<in> set fs. sent_frame c wl g"
    and w: "w \<noteq> None \<longrightarrow> \<not> finishedReading s"
    and fin: "?u \<longrightarrow> (\<exists>g \<in> set fs. FinBit g) \<longrightarrow> finishedReading s \<or> fin_waits c ?q"
    using inv unfolding reach_inv_def by blast+
  note i = read_invD [OF r]
  have vu: "?v \<longrightarrow> ?u" by simp
  obtain p q where push: "Push f ?q = (p, q)" by fastforce
  have p: "p = None \<or> p = Some errDuplicateStreamData" and s': "s' = signalRead (s\<lparr>frameQueue := q\<rparr>)"
    using a push by (auto simp: AddStreamFrame_def Let_def split: prod.splits option.splits if_splits)
  have sel: "frameQueue s' = q" "readOffset s' = readOffset s" "finishedReading s' = finishedReading s"
    by (simp_all add: s' signalRead_def)
  have ff: "?v \<Longrightarrow> fin_frame c ?U f" using f by (auto simp: sent_frame_def uncut_fin_def fin_frame_def end_frame_def)
  have "read_inv c ?v (?U \<union> frame_bytes f) s' \<and> (fin_waits c ?q \<longrightarrow> fin_waits c q) \<and>
     (?v \<longrightarrow> FinBit f \<longrightarrow> fin_waits c q \<or> (\<exists>g \<in> set fs. FinBit g))"
  proof (cases "end_frame c f")
    case True
    note e = Push_end_frame [OF i(1) True] Push_end_frame_fin [OF True]
    have q: "q = ?q\<lparr>queuedFrames := (queuedFrames ?q)(length c \<mapsto> f)\<rparr>" using push e(1) by simp
    have U: "?U \<union> frame_bytes f = ?U" using True by (auto simp: frame_bytes_def end_frame_def)
    have "read_inv c ?v ?U s'"
      by (rule read_inv_frame [OF r _ _ _ vu _ _ sel]) (use e i(2) vu q front_ok(5) [OF i(1)] in \<open>auto simp: Head_def\<close>)
    then show ?thesis using e(4) q U by simp
  next
    case False
    then have fo: "frame_ok c f" using f by (simp add: sent_frame_def)
    show ?thesis
    proof (cases "p = None")
      case True
      then have ok: "sorter_inv c (?U \<union> frame_bytes f) q" "queued_from c ?U f ?q q"
        using Push_ok [OF i(1) fo push] by auto
      note new = Push_new_bytes [OF ok(2,1)]
      have len: "0 < DataLen f" using fo by (simp add: frame_ok_def)
      have pos: "readPosition q = readPosition ?q" using ok(2) unfolding queued_from_def by blast
      have at_end: "?v \<longrightarrow> fin_at_end c q" using Push_fin_at_end [OF ok(2) _ _ len new] i(2) ff vu by blast
      have "read_inv c ?v (?U \<union> frame_bytes f) s'"
      proof (rule read_inv_frame [OF r ok(1) at_end _ vu pos _ sel])
        fix h assume "readPosition q < front ?q" "Head ?q = Some h"
        then show "Head q = Some h" using ok(2) pos unfolding queued_from_def Head_def by simp
      qed simp
      then show ?thesis using Push_fin_stays [OF i(1) ok(2)] Push_fin_new [OF i(1) ok(2) _ _ new] ff by blast
    next
      case False
      then have d: "q = ?q" "frame_bytes f \<subseteq> ?U" using p Push_ok [OF i(1) fo push] by auto
      then have "read_inv c ?v (?U \<union> frame_bytes f) s'" using r sel by (auto simp: read_inv_def Un_absorb2)
      then show ?thesis using d fin_received [OF fs f \<open>\<not> end_frame c f\<close>] by blast
    qed
  qed
  then show ?thesis using out fs f w fin vu sel unfolding reach_inv_def received_simps by auto
qed

lemma Read_ok:
  assumes inv: "read_inv c u U s"
  shows "\<exists>r cbs s' fm'. Read env n s fm = Some (r, cbs, s', fm') \<and>
     (if may_read s then read_post c u U n [] s r s'
      else s' = s \<and> r = ReadReturns [] (if cancelled s \<or> resetLocally s then st_err s else Some EOF))"
  using stream_read_loop_ok [OF inv, of "[]" n env "[]" fm] by (auto simp: Read_def may_read_def)

text \<open>A call that is woken does what a new call would do.\<close>

lemma Read_resume_ok:
  assumes inv: "read_inv c u U s" and "\<not> nil_stop s" "\<not> finishedReading s"
  shows "\<exists>r cbs s' fm'. Read_resume env signalled n s fm = Some (r, cbs, s', fm') \<and>
     (if may_read s then read_post c u U n [] (if signalled then s\<lparr>readChan := False\<rparr> else s) r s'
      else s' = (if signalled then s\<lparr>readChan := False\<rparr> else s) \<and> (\<exists>e. r = ReadReturns [] e \<and> e \<in> {None, st_err s}))"
proof -
  let ?s = "if signalled then s\<lparr>readChan := False\<rparr> else s"
  have inv': "read_inv c u U ?s" using inv by (simp add: read_inv_def)
  show ?thesis
  proof (cases "may_read s")
    case True
    then have "may_read ?s" by (simp add: may_read_def)
    from stream_read_loop_ok [OF inv' this, of "[]" n env "[]" fm] show ?thesis
      using True by (simp add: Read_resume_def)
  next
    case False
    then obtain e where e: "cancelled s \<or> resetLocally s" "st_err s = Some e"
      using assms(2,3) by (auto simp: may_read_def nil_stop_def)
    have "read_wait t frame ?s = (WaitError (Some e), ?s)" for t frame
      using e by (auto simp: read_wait_def)
    then have "read_iter env n [] [] ?s fm = (Inl (ReadReturns [] (Some e)), [], ?s, fm)"
      unfolding read_iter_def Let_def by simp
    then have "stream_read_loop env n [] [] ?s fm = Some (ReadReturns [] (if 0 < n then Some e else None), [], ?s, fm)"
      by (subst stream_read_loop.simps) simp
    then show ?thesis using False e by (auto simp: Read_resume_def)
  qed
qed

lemma reach_inv_post:
  assumes inv: "reach_inv c wl fs out w s" and "\<not> finishedReading s"
    and p: "read_post c (fins_uncut c fs) (received fs) n [] s1 r s'" and "r \<noteq> ReadPanics"
    and s1: "readOffset s1 = readOffset s" "frameQueue s1 = frameQueue s" "\<not> finishedReading s1"
  shows "reach_inv c wl fs (out @ read_bytes r) (still_waits n r) s'"
proof (cases r)
  case (ReadReturns d e)
  then have d: "readOffset s1 \<le> readOffset s'" "d = take (readOffset s' - readOffset s1) (drop (readOffset s1) c)"
    using p by (simp_all add: read_post_def)
  have "take (readOffset s') c = take (readOffset s) c @ d"
    unfolding d(2) using d(1) s1(1) by (metis le_add_diff_inverse take_add)
  then show ?thesis
    using inv p assms(2) s1 ReadReturns unfolding reach_inv_def read_post_def still_waits_def by auto
next
  case ReadBlocks
  then show ?thesis
    using inv p assms(2) s1 unfolding reach_inv_def read_post_def still_waits_def by auto
qed (use assms(4) in simp)

lemma reach_inv_read:
  assumes inv: "reach_inv c wl fs out None s" and r: "Read env n s fm = Some (r, cbs, s', fm')" "r \<noteq> ReadPanics"
  shows "reach_inv c wl fs (out @ read_bytes r) (still_waits n r) s'"
proof -
  have ri: "read_inv c (fins_uncut c fs) (received fs) s" using inv by (simp add: reach_inv_def)
  show ?thesis
  proof (cases "may_read s")
    case True
    then have "read_post c (fins_uncut c fs) (received fs) n [] s r s'" "\<not> finishedReading s"
      using Read_ok [OF ri, of env n fm] r by (auto simp: may_read_def)
    from reach_inv_post [OF inv this(2,1) r(2)] this(2) show ?thesis by simp
  next
    case False
    then show ?thesis using Read_ok [OF ri, of env n fm] r inv by (auto simp: still_waits_def)
  qed
qed

lemma reach_inv_resume:
  assumes inv: "reach_inv c wl fs out (Some k) s" and n: "\<not> nil_stop s"
    and r: "Read_resume env signalled n s fm = Some (r, cbs, s', fm')" "r \<noteq> ReadPanics"
  shows "reach_inv c wl fs (out @ read_bytes r) (still_waits n r) s'"
proof -
  have ri: "read_inv c (fins_uncut c fs) (received fs) s" and fr: "\<not> finishedReading s"
    using inv by (auto simp: reach_inv_def)
  note ok = Read_resume_ok [OF ri n fr, of env signalled n fm]
  show ?thesis
  proof (cases "may_read s")
    case True
    then have "read_post c (fins_uncut c fs) (received fs) n []
        (if signalled then s\<lparr>readChan := False\<rparr> else s) r s'" using ok r by auto
    from reach_inv_post [OF inv fr this r(2)] fr show ?thesis by simp
  next
    case False
    then show ?thesis
      using ok r inv by (auto simp: still_waits_def reach_inv_def read_inv_def)
  qed
qed

lemma stream_reach_inv: "stream_reach c wl fs out w s \<Longrightarrow> reach_inv c wl fs out w s"
proof (induction rule: stream_reach.induct)
  case (reach_call fs out w s call)
  then show ?case using run_call_same [of call s] by (auto simp: reach_inv_def read_inv_def)
qed (auto intro: reach_inv_new reach_inv_frame reach_inv_read reach_inv_resume)

lemma front_unique:
  assumes "sorter_inv c U q" "{..<k} \<subseteq> U" "k \<notin> U"
  shows "front q = k"
  using front_ok(1,2) [OF assms(1)] assms(2,3) by (metis lessThan_iff linorder_neqE_nat subsetD)

lemma reach_out:
  assumes "reach_inv c wl fs out w s"
  shows "length out = readOffset s" "out = take (length out) c"
proof -
  have "readOffset s \<le> length c" using assms read_invD(5) unfolding reach_inv_def by blast
  then show "length out = readOffset s" "out = take (length out) c" using assms by (auto simp: reach_inv_def)
qed

text \<open>What the reader does next: a call with a buffer of \<open>n\<close> bytes, or the rest of the call that waits.\<close>

definition next_read ::
  "(nat \<Rightarrow> fc_env) \<Rightarrow> bool \<Rightarrow> nat \<Rightarrow> nat option \<Rightarrow> stream \<Rightarrow> flowControlManager \<Rightarrow>
   (read_result \<times> callback list \<times> stream \<times> flowControlManager) option" where
  "next_read env signalled n w s fm =
     (case w of None \<Rightarrow> Read env n s fm | Some k \<Rightarrow> Read_resume env signalled k s fm)"

definition buffer_size :: "nat \<Rightarrow> nat option \<Rightarrow> nat" where
  "buffer_size n w = (case w of None \<Rightarrow> n | Some k \<Rightarrow> k)"

lemma next_read_ok:
  assumes inv: "reach_inv c wl fs out w s" and stop: "w = None \<or> \<not> nil_stop s"
  obtains r cbs s' fm' s1 where "next_read env signalled n w s fm = Some (r, cbs, s', fm')" "r \<noteq> ReadPanics"
    "reach_inv c wl fs (out @ read_bytes r) (still_waits (buffer_size n w) r) s'" "reach_inv c wl fs out w s1"
    "may_read s \<Longrightarrow> read_post c (fins_uncut c fs) (received fs) (buffer_size n w) [] s1 r s'"
    "\<not> may_read s \<Longrightarrow> \<exists>e. r = ReadReturns [] e \<and> e \<in> {None, Some EOF, st_err s}"
    "may_read s1 = may_read s" "readDeadline s1 = readDeadline s" "st_err s1 = st_err s"
proof (cases w)
  case None
  have ri: "read_inv c (fins_uncut c fs) (received fs) s" using inv by (simp add: reach_inv_def)
  from Read_ok [OF ri] obtain r cbs s' fm' where r: "Read env n s fm = Some (r, cbs, s', fm')"
    "if may_read s then read_post c (fins_uncut c fs) (received fs) n [] s r s'
      else s' = s \<and> r = ReadReturns [] (if cancelled s \<or> resetLocally s then st_err s else Some EOF)" by blast
  have p: "r \<noteq> ReadPanics" using r(2) by (auto simp: read_post_def split: if_splits)
  show ?thesis
    by (rule that [of r cbs s' fm' s])
      (use r p inv reach_inv_read [OF inv [unfolded None] r(1) p] None in
        \<open>auto simp: next_read_def buffer_size_def split: if_splits\<close>)
next
  case (Some k)
  have ri: "read_inv c (fins_uncut c fs) (received fs) s" "\<not> finishedReading s" using inv Some by (simp_all add: reach_inv_def)
  let ?s = "if signalled then s\<lparr>readChan := False\<rparr> else s"
  have n: "\<not> nil_stop s" using stop Some by simp
  from Read_resume_ok [OF ri(1) n ri(2)] obtain r cbs s' fm' where r: "Read_resume env signalled k s fm = Some (r, cbs, s', fm')"
    "if may_read s then read_post c (fins_uncut c fs) (received fs) k [] ?s r s'
      else s' = ?s \<and> (\<exists>e. r = ReadReturns [] e \<and> e \<in> {None, st_err s})" by blast
  have p: "r \<noteq> ReadPanics" using r(2) by (auto simp: read_post_def split: if_splits)
  have i1: "reach_inv c wl fs out w ?s" using inv by (simp add: reach_inv_def read_inv_def)
  show ?thesis
  proof (rule that [of r cbs s' fm' ?s])
    show "reach_inv c wl fs (out @ read_bytes r) (still_waits (buffer_size n w) r) s'"
      using reach_inv_resume [OF inv [unfolded Some] n r(1) p] Some by (simp add: buffer_size_def)
    show "may_read s \<Longrightarrow> read_post c (fins_uncut c fs) (received fs) (buffer_size n w) [] ?s r s'"
      using r(2) Some by (simp add: buffer_size_def)
    show "\<not> may_read s \<Longrightarrow> \<exists>e. r = ReadReturns [] e \<and> e \<in> {None, Some EOF, st_err s}"
      using r(2) by auto
  qed (use r(1) p i1 Some in \<open>simp_all add: next_read_def may_read_def\<close>)
qed

lemma read_available:
  assumes inv: "reach_inv c wl fs out w s" and u: "fins_uncut c fs" and may: "may_read s" "readDeadline s = None"
    and k: "{..<k} \<subseteq> received fs" "k \<notin> received fs"
    and p: "read_post c (fins_uncut c fs) (received fs) n [] s r s'"
  shows "r = ReadBlocks \<and> length out = k \<and> (\<forall>f \<in> set fs. k = length c \<longrightarrow> \<not> FinBit f) \<or>
     (\<exists>e. r = ReadReturns (take n (drop (length out) (take k c))) e \<and>
        (\<forall>f \<in> set fs. FinBit f \<and> k = length c \<and> k < length out + n \<longrightarrow> e = Some EOF \<and> finishedReading s'))"
proof -
  have ri: "read_inv c (fins_uncut c fs) (received fs) s"
    and fin: "(\<exists>g \<in> set fs. FinBit g) \<longrightarrow> finishedReading s \<or> fin_waits c (frameQueue s)"
    using inv u unfolding reach_inv_def by blast+
  note i = read_invD [OF ri] and out = reach_out [OF inv]
  have p': "read_inv c (fins_uncut c fs) (received fs) s'" "readOffset s \<le> readOffset s'"
    "fin_waits c (frameQueue s) \<longrightarrow> finishedReading s' \<or> fin_waits c (frameQueue s')" using p unfolding read_post_def by blast+
  note i' = read_invD [OF p'(1)]
  have fr: "front (frameQueue s) = k" "front (frameQueue s') = k" using front_unique i(1) i'(1) k by blast+
  have kc: "k \<le> length c" using front_ok(5) [OF i(1)] fr by simp
  have w: "fin_waits c (frameQueue s)" if "f \<in> set fs" "FinBit f" for f using that fin may(1) by (auto simp: may_read_def)
  show ?thesis
  proof (cases r)
    case ReadBlocks
    then have h: "Head (frameQueue s) = None" using p by (simp add: read_post_def)
    then have "length out = k" using i(8) fr out(1) by simp
    moreover have "\<not> FinBit f" if "f \<in> set fs" "k = length c" for f
      using fin_at_head [OF i(1)] w that fr h by fastforce
    ultimately show ?thesis using ReadBlocks by blast
  next
    case (ReadReturns d e)
    have d: "d = take (readOffset s' - readOffset s) (drop (readOffset s) c)" "length d \<le> n"
      "finishedReading s' \<longrightarrow> e = Some EOF" "finishedReading s' \<or> length d = n \<or> Head (frameQueue s') = None"
      using p may(2) unfolding ReadReturns read_post_def by auto
    have len: "length d = readOffset s' - readOffset s" using d(1) i'(5) by simp
    have le: "readOffset s' \<le> k" using i'(4) fr by simp
    have stop: "length d = n \<or> readOffset s' = k"
      using d(4) i'(7) [OF u] i'(8) fr(2) kc le by (metis le_antisym)
    have "take n (drop (length out) (take k c)) = take (min n (k - readOffset s)) (drop (readOffset s) c)"
      by (simp add: out(1) drop_take)
    also have "min n (k - readOffset s) = readOffset s' - readOffset s" using stop d(2) len le by auto
    finally have data: "d = take n (drop (length out) (take k c))" using d(1) by simp
    have "e = Some EOF \<and> finishedReading s'" if f: "f \<in> set fs" "FinBit f" "k = length c" "k < length out + n" for f
    proof -
      have "length d \<noteq> n" using len le f(4) out(1) p'(2) by auto
      moreover have "Head (frameQueue s') \<noteq> None" if "\<not> finishedReading s'"
        using fin_at_head [OF i'(1)] p'(3) w [OF f(1,2)] that fr(2) f(3) by auto
      ultimately show ?thesis using d(3,4) by metis
    qed
    then show ?thesis using ReadReturns data by blast
  next
    case ReadPanics
    then show ?thesis using p by (simp add: read_post_def)
  qed
qed

text \<open>Two frames of a content of three bytes, the last one first.\<close>

definition demo_tail :: StreamFrame where
  "demo_tail = \<lparr>StreamID = 5, FinBit = True, DataLenPresent = True, Offset = 2, Data = [7]\<rparr>"

definition demo_start :: StreamFrame where
  "demo_start = \<lparr>StreamID = 5, FinBit = False, DataLenPresent = True, Offset = 0, Data = [9, 8]\<rparr>"

definition demo_fm :: flowControlManager where
  "demo_fm = NewStream demo_rcp 5 True (NewFlowControlManager demo_rcp)"

lemmas demo_push = Push_def push_gaps_def newStreamFrameSorter_def DataLen_def add64_def sub64_def
  update_gaps_def protocol_MaxByteCount_def MaxStreamFrameSorterGaps_def Let_def

lemma demo_frames:
  "\<exists>s1 fm1. AddStreamFrame demo_tail (newStream 5) demo_fm = (None, s1, fm1) \<and>
     (\<exists>s2 fm2. AddStreamFrame demo_start s1 fm1 = (None, s2, fm2) \<and>
        \<not> cancelled s2 \<and> \<not> resetLocally s2 \<and> \<not> finishedReading s2 \<and> readDeadline s2 = None)"
  by (simp add: AddStreamFrame_def newStream_def demo_tail_def demo_start_def demo_fm_def demo_push
      signalRead_def demo_flow_eval)

lemma demo_stream:
  "\<exists>s. stream_reach [9, 8, 7] True [demo_start, demo_tail] [] None s \<and> \<not> cancelled s \<and> \<not> resetLocally s \<and>
     \<not> finishedReading s \<and> readDeadline s = None"
proof -
  obtain s1 fm1 s2 fm2 where s: "AddStreamFrame demo_tail (newStream 5) demo_fm = (None, s1, fm1)"
    "AddStreamFrame demo_start s1 fm1 = (None, s2, fm2)"
    "\<not> cancelled s2 \<and> \<not> resetLocally s2 \<and> \<not> finishedReading s2 \<and> readDeadline s2 = None"
    using demo_frames by blast
  have "stream_reach [9, 8, 7] True [] [] None (newStream 5)" by (rule reach_new) simp
  then have "stream_reach [9, 8, 7] True [demo_tail] [] None s1"
    by (rule reach_frame [OF _ _ s(1)])
      (simp_all add: sent_frame_def frame_ok_def demo_tail_def DataLen_def protocol_MaxByteCount_def)
  then have "stream_reach [9, 8, 7] True [demo_start, demo_tail] [] None s2"
    by (rule reach_frame [OF _ _ s(2)])
      (simp_all add: sent_frame_def frame_ok_def demo_start_def DataLen_def protocol_MaxByteCount_def)
  then show ?thesis using s(3) by blast
qed

text \<open>Nothing was cut, and a \<^verbatim>\<open>Read\<close> that waited before the second frame came is woken by it.\<close>

lemma demo_uncut: "fins_uncut [9, 8, 7] [demo_start, demo_tail]"
  by (simp add: uncut_fin_def demo_start_def)


text \<open>
  A call that waits while the stream is reset with a nil error, as the HTTP server does with its data
  stream, wakes up and uses the frame that is not there.
\<close>

lemma nil_reset_panics:
  assumes "\<not> resetLocally s" "st_err s = None" "Head (frameQueue s) = None" "0 < n"
  shows "\<exists>s' fm'. Read_resume env True n (snd (Reset None s)) fm = Some (ReadPanics, [], s', fm')"
proof -
  have "frameQueue (snd (Reset None s)) = frameQueue s" "resetLocally (snd (Reset None s))" "st_err (snd (Reset None s)) = None"
    using assms by (auto simp: Reset_def set_err_def send_reset_def signalRead_def signalWrite_def)
  then show ?thesis
    using assms(3,4) unfolding Read_resume_def
    by (subst stream_read_loop.simps) (simp add: read_iter_def read_wait_def)
qed

section \<open>The properties\<close>



text \<open>
  C34: \<^verbatim>\<open>Read\<close> terminates and returns all it can.  On a stream that is open for reading and has no read
  deadline, with a buffer of \<open>n\<close> bytes, the bytes before \<open>k\<close> received and no frame with FIN cut at its
  end, a call of \<^verbatim>\<open>Read\<close>, or one that waited and is woken, returns exactly the next bytes before \<open>k\<close>
  that fit the buffer; it waits only if there is none.  Once the whole content and the FIN have
  arrived, a buffer larger than the rest gives the rest and the end of the stream.
\<close>

theorem stream_read_complete:
  assumes "stream_reach c wl fs out w s" "\<not> cancelled s" "\<not> resetLocally s" "\<not> finishedReading s"
    and "readDeadline s = None" "fins_uncut c fs" "{..<k} \<subseteq> received fs" "k \<notin> received fs"
  shows "\<exists>r cbs s' fm'. next_read env signalled n w s fm = Some (r, cbs, s', fm') \<and>
     (r = ReadBlocks \<and> length out = k \<and> (\<forall>f \<in> set fs. k = length c \<longrightarrow> \<not> FinBit f) \<or>
      (\<exists>e. r = ReadReturns (take (buffer_size n w) (drop (length out) (take k c))) e \<and>
         (\<forall>f \<in> set fs. FinBit f \<and> k = length c \<and> k < length out + buffer_size n w \<longrightarrow>
            e = Some EOF \<and> finishedReading s')))"
proof -
  have inv: "reach_inv c wl fs out w s" using assms(1) by (rule stream_reach_inv)
  have may: "may_read s" "w = None \<or> \<not> nil_stop s" using assms(2-4) by (auto simp: may_read_def nil_stop_def)
  obtain r cbs s' fm' s1 where r: "next_read env signalled n w s fm = Some (r, cbs, s', fm')"
    "reach_inv c wl fs out w s1" "may_read s1" "readDeadline s1 = None"
    "read_post c (fins_uncut c fs) (received fs) (buffer_size n w) [] s1 r s'"
    using next_read_ok [OF inv may(2)] may(1) assms(5) by metis
  from read_available [OF r(2) assms(6) r(3,4) assms(7,8) r(5)] r(1) show ?thesis by blast
qed

theorem stream_read_complete_witness:
  "\<exists>s cbs s' fm'. stream_reach [9, 8, 7] True [demo_start, demo_tail] [] None s \<and>
     Read (\<lambda>i. demo_env) 4 s demo_fm = Some (ReadReturns [9, 8, 7] (Some EOF), cbs, s', fm') \<and> finishedReading s'"
proof -
  obtain s where s: "stream_reach [9, 8, 7] True [demo_start, demo_tail] [] None s" "\<not> cancelled s" "\<not> resetLocally s"
    "\<not> finishedReading s" "readDeadline s = None"
    using demo_stream by blast
  have "received [demo_start, demo_tail] = {..<3}"
    by (auto simp: demo_start_def demo_tail_def frame_bytes_def DataLen_def)
  then have "{..<3} \<subseteq> received [demo_start, demo_tail]" "3 \<notin> received [demo_start, demo_tail]" by auto
  from stream_read_complete [OF s demo_uncut this, of "\<lambda>i. demo_env" True 4 demo_fm] s(1) show ?thesis
    by (auto simp: demo_tail_def next_read_def buffer_size_def)
qed

text \<open>The gap list and the queue after a late last part and then the whole content.\<close>

definition fin_frame_at :: "StreamID \<Rightarrow> ByteCount \<Rightarrow> bytes \<Rightarrow> StreamFrame" where
  "fin_frame_at sid off d = \<lparr>StreamID = sid, FinBit = True, DataLenPresent = True, Offset = off, Data = d\<rparr>"

lemma Push_tail:
  assumes "a \<noteq> []" "b \<noteq> []" "length a + length b < 2 ^ 63"
  shows "Push (fin_frame_at sid (length a) b) newStreamFrameSorter =
     (None, \<lparr>queuedFrames = [length a \<mapsto> fin_frame_at sid (length a) b], readPosition = 0,
             gaps = [(0, length a), (length a + length b, protocol_MaxByteCount)]\<rparr>)"
  using assms
  by (simp add: Push_def push_gaps_def newStreamFrameSorter_def fin_frame_at_def DataLen_def add64_def
      update_gaps_def protocol_MaxByteCount_def MaxStreamFrameSorterGaps_def Let_def)

lemma Push_whole:
  assumes "a \<noteq> []" "b \<noteq> []" "length a + length b < 2 ^ 63"
  shows "Push (fin_frame_at sid 0 (a @ b))
      \<lparr>queuedFrames = [length a \<mapsto> t], readPosition = 0,
       gaps = [(0, length a), (length a + length b, protocol_MaxByteCount)]\<rparr> =
     (None, \<lparr>queuedFrames = [length a \<mapsto> t, 0 \<mapsto> fin_frame_at sid 0 a], readPosition = 0,
             gaps = [(length a + length b, protocol_MaxByteCount)]\<rparr>)"
  using assms
  by (simp add: Push_def push_gaps_def fin_frame_at_def DataLen_def add64_def
      update_gaps_def protocol_MaxByteCount_def MaxStreamFrameSorterGaps_def Let_def)

lemma AddStreamFrame_None:
  assumes "AddStreamFrame f s fm = (None, s', fm')" "Push f (frameQueue s) = (None, q)"
  shows "s' = signalRead (s\<lparr>frameQueue := q\<rparr>)"
  using assms by (auto simp: AddStreamFrame_def Let_def split: prod.splits option.splits if_splits)

text \<open>
  C35: a frame with FIN that is cut at its end keeps the FIN.  When the last part \<open>b\<close> of the content
  arrives first, with the FIN, and then the whole content \<open>a @ b\<close> in one frame with the FIN (the original
  packet, overtaken by its retransmission that was split), \<^verbatim>\<open>Read\<close> returns \<open>a\<close> with the end of the stream
  and the stream is finished, although \<open>b\<close> was received and not read.
\<close>

theorem early_end_of_stream:
  assumes "a \<noteq> []" "b \<noteq> []" "length a + length b < 2 ^ 63" "length a \<le> n"
    and "AddStreamFrame (fin_frame_at sid (length a) b) (newStream sid) fm = (None, s1, fm1)"
    and "AddStreamFrame (fin_frame_at sid 0 (a @ b)) s1 fm1 = (None, s2, fm2)"
  shows "\<exists>s3 fm3. Read env n s2 fm2 = Some (ReadReturns a (Some EOF), [OnData], s3, fm3) \<and> finishedReading s3 \<and>
     queuedFrames (frameQueue s3) (length a) = Some (fin_frame_at sid (length a) b)"
proof -
  let ?q1 = "\<lparr>queuedFrames = [length a \<mapsto> fin_frame_at sid (length a) b], readPosition = 0,
             gaps = [(0, length a), (length a + length b, protocol_MaxByteCount)]\<rparr>"
  let ?q2 = "\<lparr>queuedFrames = [length a \<mapsto> fin_frame_at sid (length a) b, 0 \<mapsto> fin_frame_at sid 0 a], readPosition = 0,
             gaps = [(length a + length b, protocol_MaxByteCount)]\<rparr>"
  have s1: "s1 = signalRead (newStream sid\<lparr>frameQueue := ?q1\<rparr>)"
    using AddStreamFrame_None [OF assms(5)] Push_tail [OF assms(1-3)] by (simp add: newStream_def)
  have "Push (fin_frame_at sid 0 (a @ b)) (frameQueue s1) = (None, ?q2)"
    using Push_whole [OF assms(1-3)] by (simp add: s1 signalRead_def)
  then have s2: "s2 = signalRead (s1\<lparr>frameQueue := ?q2\<rparr>)" by (rule AddStreamFrame_None [OF assms(6)])
  have len: "length a < 2 ^ 64" using assms(3) by simp
  have n: "0 < n" using assms(1,4) by (cases a) auto
  have "\<exists>s3 fm3. read_iter env n [] [] s2 fm2 = (Inl (ReadReturns a (Some EOF)), [OnData], s3, fm3) \<and> finishedReading s3 \<and>
     queuedFrames (frameQueue s3) (length a) = Some (fin_frame_at sid (length a) b)"
    using assms(1,4) len n
    by (simp add: s2 s1 signalRead_def newStream_def read_iter_def Head_def read_wait_def passed_def fin_frame_at_def
        to_int_def sub64_def read_checks_def DataLen_def read_consume_def Pop_def Let_def)
  then obtain s3 fm3 where it: "read_iter env n [] [] s2 fm2 = (Inl (ReadReturns a (Some EOF)), [OnData], s3, fm3)"
    "finishedReading s3" "queuedFrames (frameQueue s3) (length a) = Some (fin_frame_at sid (length a) b)" by blast
  have "stream_read_loop env n [] [] s2 fm2 = Some (ReadReturns a (Some EOF), [OnData], s3, fm3)"
    using n it(1) by (subst stream_read_loop.simps) simp
  moreover have "\<not> cancelled s2" "\<not> resetLocally s2" "\<not> finishedReading s2"
    by (simp_all add: s2 s1 signalRead_def newStream_def)
  ultimately show ?thesis using it(2,3) by (simp add: Read_def)
qed

theorem early_end_of_stream_witness:
  "\<exists>s2 fm2 s3 fm3. Read (\<lambda>i. demo_env) 9 s2 fm2 = Some (ReadReturns [9, 8] (Some EOF), [OnData], s3, fm3) \<and>
     queuedFrames (frameQueue s3) 2 = Some (fin_frame_at 5 2 [7])"
proof -
  have "\<exists>s1 fm1. AddStreamFrame (fin_frame_at 5 (length [9, 8::byte]) [7]) (newStream 5) demo_fm = (None, s1, fm1) \<and>
     (\<exists>s2 fm2. AddStreamFrame (fin_frame_at 5 0 ([9, 8] @ [7])) s1 fm1 = (None, s2, fm2))"
    by (simp add: AddStreamFrame_def newStream_def fin_frame_at_def demo_fm_def demo_push
        signalRead_def demo_flow_eval)
  then obtain s1 fm1 s2 fm2 where
    s: "AddStreamFrame (fin_frame_at 5 (length [9, 8::byte]) [7]) (newStream 5) demo_fm = (None, s1, fm1)"
    "AddStreamFrame (fin_frame_at 5 0 ([9, 8] @ [7])) s1 fm1 = (None, s2, fm2)" by blast
  have two: "length [9, 8::byte] = 2" by simp
  have "[9, 8::byte] \<noteq> []" "[7::byte] \<noteq> []" "length [9, 8::byte] + length [7::byte] < 2 ^ 63" "length [9, 8::byte] \<le> 9"
    by simp_all
  from early_end_of_stream [OF this s, of "\<lambda>i. demo_env", unfolded two] show ?thesis by blast
qed

end
