(* ===== verification/Streams_Map.thy ===== *)
theory Streams_Map
  imports Quic_Stream
begin

text \<open>
  Model of \<^verbatim>\<open>mp-quic/streams_map.go\<close>, the streams of a session, with the creation of a stream by
  \<^verbatim>\<open>session.newStream\<close>, which registers it with the flow control manager.  Stream numbers and counters
  are \<^verbatim>\<open>uint32\<close> values with their wrap-around.  Waiting on a condition variable is the result \<open>Waits\<close>,
  after which the loop is entered again.  The lambdas of the iterations are arguments that change the
  map and a state of their own.
\<close>

definition add32 :: "nat \<Rightarrow> nat \<Rightarrow> nat" where
  "add32 a b = (a + b) mod 2 ^ 32"

definition sub32 :: "nat \<Rightarrow> nat \<Rightarrow> nat" where
  "sub32 a b = (a + 2 ^ 32 - b mod 2 ^ 32) mod 2 ^ 32"

definition MaxNewStreamIDDelta :: nat where
  "MaxNewStreamIDDelta = 4 * MaxStreamsPerConnection"

datatype streams_error =
    TooManyOpenStreams
  | InvalidStreamID StreamID
  | StreamExists StreamID
  | NoSuchStream StreamID
  | StreamsMapAccess
  | Closed stream_err

datatype 'a waiting = Returns 'a | Waits

record streamsMap =
  sm_perspective :: Perspective
  streams :: "StreamID \<rightharpoonup> stream"
  openStreams :: "StreamID list"
  roundRobinIndex :: nat
  nextStream :: StreamID
  highestStreamOpenedByPeer :: StreamID
  closeErr :: "stream_err option"
  nextStreamToAccept :: StreamID
  numOutgoingStreams :: nat
  numIncomingStreams :: nat

definition newStreamsMap :: "Perspective \<Rightarrow> streamsMap" where
  "newStreamsMap pers =
     \<lparr>sm_perspective = pers, streams = Map.empty, openStreams = [], roundRobinIndex = 0,
      nextStream = if pers = PerspectiveClient then 1 else 2, highestStreamOpenedByPeer = 0, closeErr = None,
      nextStreamToAccept = if pers = PerspectiveClient then 2 else 1,
      numOutgoingStreams = 0, numIncomingStreams = 0\<rparr>"

definition session_newStream ::
  "connectionParametersManager \<Rightarrow> StreamID \<Rightarrow> flowControlManager \<Rightarrow> stream \<times> flowControlManager" where
  "session_newStream cp sid fm =
     (newStream sid, NewStream cp sid (if sid = 1 \<or> sid = 3 then False else True) fm)"

definition putStream :: "stream \<Rightarrow> streamsMap \<Rightarrow> streams_error option \<times> streamsMap" where
  "putStream s m =
     (let sid = st_id s
      in if streams m sid \<noteq> None then (Some (StreamExists sid), m)
         else (None, m\<lparr>streams := (streams m)(sid \<mapsto> s), openStreams := openStreams m @ [sid]\<rparr>))"

section \<open>Opening streams\<close>

definition openRemoteStream ::
  "connectionParametersManager \<Rightarrow> StreamID \<Rightarrow> streamsMap \<Rightarrow> flowControlManager \<Rightarrow>
     (streams_error + stream) \<times> streamsMap \<times> flowControlManager" where
  "openRemoteStream cp sid m fm =
     (if numIncomingStreams m \<ge> GetMaxIncomingStreams cp then (Inl TooManyOpenStreams, m, fm)
      else if add32 sid MaxNewStreamIDDelta < highestStreamOpenedByPeer m then (Inl (InvalidStreamID sid), m, fm)
      else let m = (if sm_perspective m = PerspectiveServer
                    then m\<lparr>numIncomingStreams := add32 (numIncomingStreams m) 1\<rparr>
                    else m\<lparr>numOutgoingStreams := add32 (numOutgoingStreams m) 1\<rparr>);
               m = (if sid > highestStreamOpenedByPeer m then m\<lparr>highestStreamOpenedByPeer := sid\<rparr> else m);
               (s, fm) = session_newStream cp sid fm
           in (Inr s, snd (putStream s m), fm))"

text \<open>The loop that opens every stream up to the one asked for.\<close>

partial_function (option) open_up_to ::
  "connectionParametersManager \<Rightarrow> StreamID \<Rightarrow> StreamID \<Rightarrow> streamsMap \<Rightarrow> flowControlManager \<Rightarrow>
     (streams_error option \<times> streamsMap \<times> flowControlManager) option" where
  "open_up_to cp sid target m fm =
     (if sid \<le> target
      then (case openRemoteStream cp sid m fm of
              (r, m, fm) \<Rightarrow>
                (case r of Inl e \<Rightarrow> Some (Some e, m, fm) | Inr _ \<Rightarrow> open_up_to cp (add32 sid 2) target m fm))
      else Some (None, m, fm))"

text \<open>The streams that cannot be opened: they were closed, or they are not the peer's to open.\<close>

definition not_openable :: "StreamID \<Rightarrow> streamsMap \<Rightarrow> (streams_error + stream option) option" where
  "not_openable sid m =
     (let own = (if sm_perspective m = PerspectiveServer then 0 else 1)
      in if sid mod 2 = own
         then if sid \<le> nextStream m then Some (Inr None) else Some (Inl (InvalidStreamID sid))
         else if sid \<le> highestStreamOpenedByPeer m then Some (Inr None)
         else None)"

definition GetOrOpenStream ::
  "connectionParametersManager \<Rightarrow> StreamID \<Rightarrow> streamsMap \<Rightarrow> flowControlManager \<Rightarrow>
     ((streams_error + stream option) \<times> streamsMap \<times> flowControlManager) option" where
  "GetOrOpenStream cp sid m fm =
     (case streams m sid of
        Some s \<Rightarrow> Some (Inr (Some s), m, fm)
      | None \<Rightarrow>
          (case not_openable sid m of
             Some r \<Rightarrow> Some (r, m, fm)
           | None \<Rightarrow>
               let start = add32 (highestStreamOpenedByPeer m) 2;
                   start = (if start = 2 \<and> sm_perspective m = PerspectiveServer then 1 else start)
               in map_option (\<lambda>(e, m, fm). (case e of Some e \<Rightarrow> Inl e | None \<Rightarrow> Inr (streams m sid), m, fm))
                    (open_up_to cp start sid m fm)))"

definition openStreamImpl ::
  "connectionParametersManager \<Rightarrow> streamsMap \<Rightarrow> flowControlManager \<Rightarrow>
     (streams_error + stream) \<times> streamsMap \<times> flowControlManager" where
  "openStreamImpl cp m fm =
     (if numOutgoingStreams m \<ge> GetMaxOutgoingStreams cp then (Inl TooManyOpenStreams, m, fm)
      else let sid = nextStream m;
               m = (if sm_perspective m = PerspectiveServer
                    then m\<lparr>numOutgoingStreams := add32 (numOutgoingStreams m) 1\<rparr>
                    else m\<lparr>numIncomingStreams := add32 (numIncomingStreams m) 1\<rparr>);
               m = m\<lparr>nextStream := add32 (nextStream m) 2\<rparr>;
               (s, fm) = session_newStream cp sid fm
           in (Inr s, snd (putStream s m), fm))"

definition OpenStream ::
  "connectionParametersManager \<Rightarrow> streamsMap \<Rightarrow> flowControlManager \<Rightarrow>
     (streams_error + stream) \<times> streamsMap \<times> flowControlManager" where
  "OpenStream cp m fm =
     (case closeErr m of Some e \<Rightarrow> (Inl (Closed e), m, fm) | None \<Rightarrow> openStreamImpl cp m fm)"

text \<open>One round of the loop of \<^verbatim>\<open>OpenStreamSync\<close> and of \<^verbatim>\<open>AcceptStream\<close>.\<close>

definition OpenStreamSync ::
  "connectionParametersManager \<Rightarrow> streamsMap \<Rightarrow> flowControlManager \<Rightarrow>
     (streams_error + stream) waiting \<times> streamsMap \<times> flowControlManager" where
  "OpenStreamSync cp m fm =
     (case closeErr m of Some e \<Rightarrow> (Returns (Inl (Closed e)), m, fm)
      | None \<Rightarrow> (case openStreamImpl cp m fm of
                  (r, m, fm) \<Rightarrow> (if r = Inl TooManyOpenStreams then Waits else Returns r, m, fm)))"

definition AcceptStream :: "streamsMap \<Rightarrow> (streams_error + stream) waiting \<times> streamsMap" where
  "AcceptStream m =
     (case closeErr m of Some e \<Rightarrow> (Returns (Inl (Closed e)), m)
      | None \<Rightarrow> (case streams m (nextStreamToAccept m) of
                  None \<Rightarrow> (Waits, m)
                | Some s \<Rightarrow> (Returns (Inr s), m\<lparr>nextStreamToAccept := add32 (nextStreamToAccept m) 2\<rparr>)))"

section \<open>Iterating\<close>

type_synonym 'a streamLambda = "stream \<Rightarrow> streamsMap \<Rightarrow> 'a \<Rightarrow> bool \<times> streams_error option \<times> streamsMap \<times> 'a"

definition iterateFunc ::
  "StreamID \<Rightarrow> 'a streamLambda \<Rightarrow> streamsMap \<Rightarrow> 'a \<Rightarrow> bool \<times> streams_error option \<times> streamsMap \<times> 'a" where
  "iterateFunc sid fn m st =
     (case streams m sid of None \<Rightarrow> (True, Some StreamsMapAccess, m, st) | Some s \<Rightarrow> fn s m st)"

fun iterate_loop :: "'a streamLambda \<Rightarrow> StreamID list \<Rightarrow> streamsMap \<Rightarrow> 'a \<Rightarrow> streams_error option \<times> streamsMap \<times> 'a" where
  "iterate_loop fn [] m st = (None, m, st)"
| "iterate_loop fn (sid # ids) m st =
     (case iterateFunc sid fn m st of
        (cont, Some e, m, st) \<Rightarrow> (Some e, m, st)
      | (cont, None, m, st) \<Rightarrow> if \<not> cont then (None, m, st) else iterate_loop fn ids m st)"

definition Iterate :: "'a streamLambda \<Rightarrow> streamsMap \<Rightarrow> 'a \<Rightarrow> streams_error option \<times> streamsMap \<times> 'a" where
  "Iterate fn m = iterate_loop fn (openStreams m) m"

text \<open>
  The first loop of \<^verbatim>\<open>RoundRobinIterate\<close>, over the streams 1 and 3; it says whether the second
  is entered.
\<close>

fun priority_loop ::
  "'a streamLambda \<Rightarrow> StreamID list \<Rightarrow> streamsMap \<Rightarrow> 'a \<Rightarrow> bool \<times> streams_error option \<times> streamsMap \<times> 'a" where
  "priority_loop fn [] m st = (True, None, m, st)"
| "priority_loop fn (sid # ids) m st =
     (case iterateFunc sid fn m st of
        (cont, e, m, st) \<Rightarrow>
          if e \<noteq> None \<and> e \<noteq> Some StreamsMapAccess then (False, e, m, st)
          else if \<not> cont then (False, None, m, st)
          else priority_loop fn ids m st)"

fun round_robin_loop ::
  "'a streamLambda \<Rightarrow> nat \<Rightarrow> nat \<Rightarrow> nat list \<Rightarrow> streamsMap \<Rightarrow> 'a \<Rightarrow> (streams_error option \<times> streamsMap \<times> 'a) option" where
  "round_robin_loop fn numStreams startIndex [] m st = Some (None, m, st)"
| "round_robin_loop fn numStreams startIndex (i # is) m st =
     (let k = add32 i startIndex mod numStreams
      in if length (openStreams m) \<le> k then None
         else let sid = openStreams m ! k
              in if sid = 1 \<or> sid = 3 then round_robin_loop fn numStreams startIndex is m st
                 else (case iterateFunc sid fn m st of
                         (cont, Some e, m, st) \<Rightarrow> Some (Some e, m, st)
                       | (cont, None, m, st) \<Rightarrow>
                           let m = m\<lparr>roundRobinIndex := add32 (roundRobinIndex m) 1 mod numStreams\<rparr>
                           in if \<not> cont then Some (None, m, st)
                              else round_robin_loop fn numStreams startIndex is m st))"

definition numStreams :: "streamsMap \<Rightarrow> nat" where
  "numStreams m = card (dom (streams m)) mod 2 ^ 32"

definition RoundRobinIterate ::
  "'a streamLambda \<Rightarrow> streamsMap \<Rightarrow> 'a \<Rightarrow> (streams_error option \<times> streamsMap \<times> 'a) option" where
  "RoundRobinIterate fn m st =
     (let n = numStreams m; startIndex = roundRobinIndex m
      in case priority_loop fn [1, 3] m st of
           (go, e, m, st) \<Rightarrow> if \<not> go then Some (e, m, st) else round_robin_loop fn n startIndex [0..<n] m st)"

section \<open>Removing streams\<close>

text \<open>The loop that deletes a stream from \<^verbatim>\<open>openStreams\<close>; \<open>i\<close> is the position of the head.\<close>

fun remove_open :: "StreamID \<Rightarrow> nat \<Rightarrow> StreamID list \<Rightarrow> nat \<Rightarrow> StreamID list \<times> nat" where
  "remove_open sid i [] rr = ([], rr)"
| "remove_open sid i (x # xs) rr =
     (if x = sid then (xs, if i < rr then sub32 rr 1 else rr)
      else case remove_open sid (i + 1) xs rr of (ys, rr') \<Rightarrow> (x # ys, rr'))"

definition streams_RemoveStream :: "StreamID \<Rightarrow> streamsMap \<Rightarrow> streams_error option \<times> streamsMap" where
  "streams_RemoveStream sid m =
     (if streams m sid = None then (Some (NoSuchStream sid), m)
      else let m = (if sid mod 2 = 0 then m\<lparr>numOutgoingStreams := sub32 (numOutgoingStreams m) 1\<rparr>
                    else m\<lparr>numIncomingStreams := sub32 (numIncomingStreams m) 1\<rparr>)
           in case remove_open sid 0 (openStreams m) (roundRobinIndex m) of
                (os, rr) \<Rightarrow> (None, m\<lparr>openStreams := os, roundRobinIndex := rr, streams := (streams m)(sid := None)\<rparr>))"

text \<open>\<^verbatim>\<open>CloseWithError\<close> cancels every open stream; a nil entry would panic.\<close>

fun cancel_loop :: "stream_err option \<Rightarrow> StreamID list \<Rightarrow> streamsMap \<Rightarrow> streamsMap option" where
  "cancel_loop e [] m = Some m"
| "cancel_loop e (sid # ids) m =
     (case streams m sid of
        None \<Rightarrow> None
      | Some s \<Rightarrow> cancel_loop e ids (m\<lparr>streams := (streams m)(sid \<mapsto> Cancel e s)\<rparr>))"

definition streams_CloseWithError :: "stream_err option \<Rightarrow> streamsMap \<Rightarrow> streamsMap option" where
  "streams_CloseWithError e m = (let m = m\<lparr>closeErr := e\<rparr> in cancel_loop e (openStreams m) m)"

text \<open>\<^verbatim>\<open>session.garbageCollectStreams\<close>: every finished stream is removed, here and in the flow control manager.\<close>

definition garbage_lambda :: "flowControlManager streamLambda" where
  "garbage_lambda s m fm =
     (let sid = st_id s
      in if finished s
         then case streams_RemoveStream sid m of
                (Some e, m) \<Rightarrow> (False, Some e, m, fm)
              | (None, m) \<Rightarrow> (True, None, m, RemoveStream sid fm)
         else (True, None, m, fm))"

definition garbageCollectStreams :: "streamsMap \<Rightarrow> flowControlManager \<Rightarrow> streamsMap \<times> flowControlManager" where
  "garbageCollectStreams m fm = (case Iterate garbage_lambda m fm of (_, m, fm) \<Rightarrow> (m, fm))"

section \<open>The invariant\<close>

definition own :: "streamsMap \<Rightarrow> StreamID \<Rightarrow> bool" where
  "own m sid \<longleftrightarrow> even sid = (sm_perspective m = PerspectiveServer)"

text \<open>
  The list of open streams has the keys of the map, the counters count the even and the odd ones,
  every stream was opened before \<^verbatim>\<open>nextStream\<close> or up to \<^verbatim>\<open>highestStreamOpenedByPeer\<close>, and the
  flow control manager knows exactly the open streams.
\<close>

definition sm_inv :: "streamsMap \<Rightarrow> bool" where
  "sm_inv m \<longleftrightarrow> distinct (openStreams m) \<and> set (openStreams m) = dom (streams m) \<and>
     (\<forall>sid s. streams m sid = Some s \<longrightarrow> st_id s = sid) \<and>
     numOutgoingStreams m = length (filter even (openStreams m)) \<and>
     numIncomingStreams m = length (filter odd (openStreams m)) \<and>
     (\<forall>sid \<in> set (openStreams m). 0 < sid \<and>
        (if own m sid then sid < nextStream m else sid \<le> highestStreamOpenedByPeer m)) \<and>
     own m (nextStream m) \<and> 0 < nextStream m \<and> nextStream m < 2 ^ 32 \<and> highestStreamOpenedByPeer m < 2 ^ 32 \<and>
     (highestStreamOpenedByPeer m = 0 \<or> \<not> own m (highestStreamOpenedByPeer m))"

definition sm_limits :: "connectionParametersManager \<Rightarrow> streamsMap \<Rightarrow> bool" where
  "sm_limits cp m \<longleftrightarrow> (sm_perspective m = PerspectiveServer \<longrightarrow>
     numIncomingStreams m \<le> GetMaxIncomingStreams cp \<and> numOutgoingStreams m \<le> GetMaxOutgoingStreams cp)"

definition sm_ok :: "connectionParametersManager \<Rightarrow> streamsMap \<Rightarrow> flowControlManager \<Rightarrow> bool" where
  "sm_ok cp m fm \<longleftrightarrow> sm_inv m \<and> sm_limits cp m \<and> dom (streamFlowController fm) = dom (streams m)"

lemma sm_invD:
  assumes "sm_inv m"
  shows "distinct (openStreams m)" "set (openStreams m) = dom (streams m)" "streams m sid = Some s \<Longrightarrow> st_id s = sid"
    "numOutgoingStreams m = length (filter even (openStreams m))" "numIncomingStreams m = length (filter odd (openStreams m))"
    "sid \<in> set (openStreams m) \<Longrightarrow> 0 < sid \<and> sid < 2 ^ 32"
    "sid \<in> set (openStreams m) \<Longrightarrow> if own m sid then sid < nextStream m else sid \<le> highestStreamOpenedByPeer m"
    "own m (nextStream m)" "0 < nextStream m" "nextStream m < 2 ^ 32" "highestStreamOpenedByPeer m < 2 ^ 32"
    "highestStreamOpenedByPeer m = 0 \<or> \<not> own m (highestStreamOpenedByPeer m)"
proof -
  note i = assms [unfolded sm_inv_def]
  show "set (openStreams m) = dom (streams m)" "distinct (openStreams m)" "own m (nextStream m)" "0 < nextStream m"
    "nextStream m < 2 ^ 32" "highestStreamOpenedByPeer m < 2 ^ 32"
    "highestStreamOpenedByPeer m = 0 \<or> \<not> own m (highestStreamOpenedByPeer m)"
    "numOutgoingStreams m = length (filter even (openStreams m))" "numIncomingStreams m = length (filter odd (openStreams m))"
    "streams m sid = Some s \<Longrightarrow> st_id s = sid"
    using i by blast+
  show *: "if own m sid then sid < nextStream m else sid \<le> highestStreamOpenedByPeer m" if "sid \<in> set (openStreams m)" for sid
    using i that by blast
  show "0 < sid \<and> sid < 2 ^ 32" if "sid \<in> set (openStreams m)"
    using * [OF that] i that by (metis le_less_trans less_trans)
qed

lemma sm_inv_bounds:
  assumes "sm_inv m"
  shows "length (openStreams m) < 2 ^ 32" "length (filter P (openStreams m)) < 2 ^ 32"
proof -
  have "set (openStreams m) \<subseteq> {0<..<2 ^ 32}" using sm_invD(6) [OF assms] by auto
  then have "card (set (openStreams m)) \<le> card {0<..<(2 :: nat) ^ 32}" by (intro card_mono) simp_all
  moreover have "card (set (openStreams m)) = length (openStreams m)" by (rule distinct_card [OF sm_invD(1) [OF assms]])
  ultimately show l: "length (openStreams m) < 2 ^ 32" by simp
  show "length (filter P (openStreams m)) < 2 ^ 32" by (rule le_less_trans [OF length_filter_le l])
qed

lemma st_id_newStream [simp]: "st_id (newStream sid) = sid"
  by (simp add: newStream_def)

text \<open>Adding a fresh stream.\<close>

definition add_stream :: "StreamID \<Rightarrow> StreamID \<Rightarrow> StreamID \<Rightarrow> streamsMap \<Rightarrow> streamsMap" where
  "add_stream sid next high m =
     m\<lparr>streams := (streams m)(sid \<mapsto> newStream sid), openStreams := openStreams m @ [sid], nextStream := next,
       highestStreamOpenedByPeer := high,
       numOutgoingStreams := numOutgoingStreams m + (if even sid then 1 else 0),
       numIncomingStreams := numIncomingStreams m + (if even sid then 0 else 1)\<rparr>"

lemma own_add_stream [simp]: "own (add_stream sid n h m) = own m"
  by (simp add: own_def add_stream_def fun_eq_iff)

lemma sm_inv_add:
  assumes inv: "sm_inv m" and fresh: "sid \<notin> set (openStreams m)" "0 < sid"
    and n: "nextStream m \<le> n" "own m n" "n < 2 ^ 32" and h: "highestStreamOpenedByPeer m \<le> h" "h < 2 ^ 32" "h = 0 \<or> \<not> own m h"
    and sid: "if own m sid then sid < n else sid \<le> h"
  shows "sm_inv (add_stream sid n h m)"
  unfolding sm_inv_def own_add_stream
proof (intro conjI allI impI ballI)
  note i = sm_invD [OF inv]
  let ?m = "add_stream sid n h m"
  show "distinct (openStreams ?m)" "set (openStreams ?m) = dom (streams ?m)"
    using i(1,2) fresh by (auto simp: add_stream_def)
  show "st_id s = x" if "streams ?m x = Some s" for x s
    using that i(3) by (auto simp: add_stream_def split: if_splits)
  show "numOutgoingStreams ?m = length (filter even (openStreams ?m))" "numIncomingStreams ?m = length (filter odd (openStreams ?m))"
    using i(4,5) by (simp_all add: add_stream_def)
  show "0 < x" if "x \<in> set (openStreams ?m)" for x using that i(6) fresh by (auto simp: add_stream_def)
  show "if own m x then x < nextStream ?m else x \<le> highestStreamOpenedByPeer ?m" if "x \<in> set (openStreams ?m)" for x
  proof (cases "x = sid")
    case True
    then show ?thesis using sid by (simp add: add_stream_def)
  next
    case False
    then have "x \<in> set (openStreams m)" using that by (simp add: add_stream_def)
    from i(7) [OF this] show ?thesis using n(1) h(1) by (auto simp: add_stream_def split: if_splits)
  qed
qed (use n h sm_invD(9) [OF inv] in \<open>auto simp: add_stream_def\<close>)

lemma add32_count:
  assumes "sm_inv (add_stream sid n h m)"
  shows "even sid \<Longrightarrow> add32 (numOutgoingStreams m) 1 = Suc (numOutgoingStreams m)"
    "odd sid \<Longrightarrow> add32 (numIncomingStreams m) 1 = Suc (numIncomingStreams m)"
proof -
  have "numOutgoingStreams (add_stream sid n h m) < 2 ^ 32" "numIncomingStreams (add_stream sid n h m) < 2 ^ 32"
    using sm_inv_bounds(2) [OF assms] sm_invD(4,5) [OF assms] by simp_all
  then show "even sid \<Longrightarrow> add32 (numOutgoingStreams m) 1 = Suc (numOutgoingStreams m)"
    "odd sid \<Longrightarrow> add32 (numIncomingStreams m) 1 = Suc (numIncomingStreams m)"
    by (auto simp: add_stream_def add32_def)
qed

lemma dom_NewStream:
  "dom (streamFlowController (NewStream cp sid c fm)) = insert sid (dom (streamFlowController fm))"
  by (auto simp: NewStream_def put_stream_def)

lemma dom_add_stream [simp]: "dom (streams (add_stream sid n h m)) = insert sid (dom (streams m))"
  by (auto simp: add_stream_def)

lemma openRemoteStream_fresh:
  assumes ok: "sm_ok cp m fm" and sid: "\<not> own m sid" "highestStreamOpenedByPeer m < sid" "sid < 2 ^ 32"
  shows "openRemoteStream cp sid m fm =
    (if numIncomingStreams m \<ge> GetMaxIncomingStreams cp then (Inl TooManyOpenStreams, m, fm)
     else if add32 sid MaxNewStreamIDDelta < highestStreamOpenedByPeer m then (Inl (InvalidStreamID sid), m, fm)
     else (Inr (newStream sid), add_stream sid (nextStream m) sid m, snd (session_newStream cp sid fm)))"
    "sm_inv (add_stream sid (nextStream m) sid m)"
proof -
  have inv: "sm_inv m" using ok by (simp add: sm_ok_def)
  note i = sm_invD [OF inv]
  have fresh: "sid \<notin> set (openStreams m)" using i(7) [of sid] sid(1,2) by auto
  then have none: "streams m sid = None" using i(2) by (simp add: domIff)
  show inv': "sm_inv (add_stream sid (nextStream m) sid m)"
    using fresh sid i(8,10) by (intro sm_inv_add [OF inv]) auto
  have par: "odd sid = (sm_perspective m = PerspectiveServer)" using sid(1) by (auto simp: own_def)
  show "openRemoteStream cp sid m fm =
    (if numIncomingStreams m \<ge> GetMaxIncomingStreams cp then (Inl TooManyOpenStreams, m, fm)
     else if add32 sid MaxNewStreamIDDelta < highestStreamOpenedByPeer m then (Inl (InvalidStreamID sid), m, fm)
     else (Inr (newStream sid), add_stream sid (nextStream m) sid m, snd (session_newStream cp sid fm)))"
    using par sid(2) none add32_count [OF inv']
    by (cases "even sid") (auto simp: openRemoteStream_def session_newStream_def putStream_def Let_def add_stream_def)
qed

text \<open>The loop of \<^verbatim>\<open>GetOrOpenStream\<close> ends, and keeps the invariant.\<close>

lemma own_parity [simp]: "own m (Suc (Suc sid)) = own m sid"
  by (simp add: own_def)

lemma sm_ok_remote:
  assumes ok: "sm_ok cp m fm" and sid: "\<not> own m sid" "highestStreamOpenedByPeer m < sid" "sid < 2 ^ 32"
    and lim: "numIncomingStreams m < GetMaxIncomingStreams cp"
  shows "sm_ok cp (add_stream sid (nextStream m) sid m) (snd (session_newStream cp sid fm))"
proof -
  have "sm_limits cp (add_stream sid (nextStream m) sid m)"
    using ok lim sid(1) by (auto simp: sm_ok_def sm_limits_def add_stream_def own_def)
  then show ?thesis using ok openRemoteStream_fresh(2) [OF ok sid]
    by (simp add: sm_ok_def session_newStream_def dom_NewStream)
qed

lemma open_up_to_returns:
  assumes "sm_ok cp m fm" "\<not> own m sid" "highestStreamOpenedByPeer m < sid" "target + 2 < 2 ^ 32" "sid < 2 ^ 32"
  shows "\<exists>e m' fm'. open_up_to cp sid target m fm = Some (e, m', fm') \<and> sm_ok cp m' fm' \<and>
    sm_perspective m' = sm_perspective m \<and> nextStream m' = nextStream m \<and>
    (\<forall>x s. streams m x = Some s \<longrightarrow> streams m' x = Some s) \<and>
    (e = None \<longrightarrow> (\<forall>x. sid \<le> x \<and> x \<le> target \<and> \<not> own m x \<longrightarrow> streams m' x = Some (newStream x)))"
  using assms
proof (induction "target + 1 - sid" arbitrary: sid m fm rule: less_induct)
  case less
  show ?case
  proof (cases "sid \<le> target")
    case False
    then show ?thesis using less.prems(1) by (subst open_up_to.simps) auto
  next
    case True
    note r = openRemoteStream_fresh [OF less.prems(1-3,5)]
    show ?thesis
    proof (cases "numIncomingStreams m \<ge> GetMaxIncomingStreams cp \<or> add32 sid MaxNewStreamIDDelta < highestStreamOpenedByPeer m")
      case err: True
      then show ?thesis using True less.prems(1) by (subst open_up_to.simps) (auto simp: r(1))
    next
      case False
      let ?m = "add_stream sid (nextStream m) sid m" and ?fm = "snd (session_newStream cp sid fm)"
      have step: "open_up_to cp sid target m fm = open_up_to cp (sid + 2) target ?m ?fm"
        using True False less.prems(4) by (subst open_up_to.simps) (simp add: r(1) add32_def)
      have ok: "sm_ok cp ?m ?fm" using False by (intro sm_ok_remote [OF less.prems(1-3,5)]) simp
      have pre: "\<not> own ?m (sid + 2)" "highestStreamOpenedByPeer ?m < sid + 2" "sid + 2 < 2 ^ 32"
        using less.prems(2,4) True by (simp_all add: add_stream_def own_def)
      have "target + 1 - (sid + 2) < target + 1 - sid" using True by simp
      from less.hyps [OF this ok pre(1,2) less.prems(4) pre(3)]
      obtain e m' fm' where IH: "open_up_to cp (sid + 2) target ?m ?fm = Some (e, m', fm')" "sm_ok cp m' fm'"
        "sm_perspective m' = sm_perspective ?m" "nextStream m' = nextStream ?m"
        "\<forall>x s. streams ?m x = Some s \<longrightarrow> streams m' x = Some s"
        "e = None \<longrightarrow> (\<forall>x. sid + 2 \<le> x \<and> x \<le> target \<and> \<not> own ?m x \<longrightarrow> streams m' x = Some (newStream x))"
        by blast
      have none: "streams m sid = None"
      proof -
        have inv: "sm_inv m" using less.prems(1) by (simp add: sm_ok_def)
        then show ?thesis using sm_invD(7) [OF inv, of sid] sm_invD(2) [OF inv] less.prems(2,3) by (auto simp: domIff)
      qed
      have keep: "streams m' x = Some s" if "streams m x = Some s" for x s
      proof -
        have "x \<noteq> sid" using that none by auto
        then have "streams ?m x = Some s" using that by (simp add: add_stream_def)
        then show ?thesis using IH(5) by blast
      qed
      have new: "streams m' x = Some (newStream x)" if "e = None" "sid \<le> x" "x \<le> target" "\<not> own m x" for x
      proof (cases "x = sid")
        case True
        then show ?thesis using IH(5) by (simp add: add_stream_def)
      next
        case False
        have "x \<noteq> sid + 1" using that(4) less.prems(2) by (auto simp: own_def)
        then show ?thesis using IH(6) that False by simp
      qed
      show ?thesis unfolding step IH(1)
        by (intro exI [of _ e] exI [of _ m'] exI [of _ fm']) (use IH(2-4) keep new in \<open>simp add: add_stream_def\<close>)
    qed
  qed
qed

lemma GetOrOpenStream_ok:
  assumes ok: "sm_ok cp m fm" and sid: "sid + 2 < 2 ^ 32"
  shows "\<exists>r m' fm'. GetOrOpenStream cp sid m fm = Some (r, m', fm') \<and> sm_ok cp m' fm' \<and>
    sm_perspective m' = sm_perspective m \<and> (\<forall>x s. streams m x = Some s \<longrightarrow> streams m' x = Some s) \<and>
    (r = Inr None \<longrightarrow> m' = m \<and> streams m sid = None) \<and> (\<forall>s. r = Inr (Some s) \<longrightarrow> streams m' sid = Some s)"
proof (cases "streams m sid \<noteq> None \<or> not_openable sid m \<noteq> None")
  case True
  then obtain r where "GetOrOpenStream cp sid m fm = Some (r, m, fm)" "r = Inr None \<longrightarrow> streams m sid = None"
    "\<forall>s. r = Inr (Some s) \<longrightarrow> streams m sid = Some s"
    by (cases "streams m sid") (auto simp: GetOrOpenStream_def not_openable_def Let_def split: if_splits)
  then show ?thesis using ok by blast
next
  case False
  have inv: "sm_inv m" using ok by (simp add: sm_ok_def)
  note i = sm_invD [OF inv]
  have n: "\<not> own m sid" "highestStreamOpenedByPeer m < sid" "streams m sid = None" "not_openable sid m = None"
    using False by (cases "sm_perspective m";
      auto simp: not_openable_def own_def Let_def even_iff_mod_2_eq_zero odd_iff_mod_2_eq_one split: if_splits)+
  define start where "start = (if highestStreamOpenedByPeer m = 0 \<and> sm_perspective m = PerspectiveServer then 1
    else highestStreamOpenedByPeer m + 2)"
  have "add32 (highestStreamOpenedByPeer m) 2 = highestStreamOpenedByPeer m + 2" using n(2) sid by (simp add: add32_def)
  then have start: "(let start = add32 (highestStreamOpenedByPeer m) 2
      in if start = 2 \<and> sm_perspective m = PerspectiveServer then 1 else start) = start"
    by (simp add: start_def)
  have pre: "\<not> own m start" "highestStreamOpenedByPeer m < start" "start < 2 ^ 32" "start \<le> sid"
  proof -
    show s: "\<not> own m start" using i(12) n(1) by (auto simp: start_def own_def)
    show h: "highestStreamOpenedByPeer m < start" by (simp add: start_def)
    have "start = highestStreamOpenedByPeer m + 2 \<Longrightarrow> sid \<noteq> highestStreamOpenedByPeer m + 1"
      using s n(1) by (auto simp: own_def)
    then show "start \<le> sid" using n(2) by (auto simp: start_def split: if_splits)
    then show "start < 2 ^ 32" using sid by simp
  qed
  obtain e m' fm' where o: "open_up_to cp start sid m fm = Some (e, m', fm')" "sm_ok cp m' fm'"
    "sm_perspective m' = sm_perspective m" "\<forall>x s. streams m x = Some s \<longrightarrow> streams m' x = Some s"
    "e = None \<longrightarrow> (\<forall>x. start \<le> x \<and> x \<le> sid \<and> \<not> own m x \<longrightarrow> streams m' x = Some (newStream x))"
    using open_up_to_returns [OF ok pre(1,2) sid pre(3)] by blast
  have "GetOrOpenStream cp sid m fm = Some (case e of Some e \<Rightarrow> Inl e | None \<Rightarrow> Inr (streams m' sid), m', fm')"
    using n(3,4) o(1) by (simp add: GetOrOpenStream_def start [unfolded Let_def] Let_def)
  moreover have "e = None \<Longrightarrow> streams m' sid = Some (newStream sid)" using o(5) pre(4) n(1) by simp
  ultimately show ?thesis using o(2-4) by (cases e) auto
qed

lemma OpenStream_ok:
  assumes ok: "sm_ok cp m fm" and n: "nextStream m + 2 < 2 ^ 32" and o: "OpenStream cp m fm = (r, m', fm')"
  shows "sm_ok cp m' fm'"
    "r = (case closeErr m of Some e \<Rightarrow> Inl (Closed e)
          | None \<Rightarrow> if numOutgoingStreams m \<ge> GetMaxOutgoingStreams cp then Inl TooManyOpenStreams else Inr (newStream (nextStream m)))"
    "m' = (case r of Inl _ \<Rightarrow> m | Inr _ \<Rightarrow> add_stream (nextStream m) (nextStream m + 2) (highestStreamOpenedByPeer m) m)"
proof -
  have inv: "sm_inv m" using ok by (simp add: sm_ok_def)
  note i = sm_invD [OF inv]
  let ?m = "add_stream (nextStream m) (nextStream m + 2) (highestStreamOpenedByPeer m) m"
  have fresh: "nextStream m \<notin> set (openStreams m)" using i(7) [of "nextStream m"] i(8) by auto
  then have none: "streams m (nextStream m) = None" using i(2) by (simp add: domIff)
  have inv': "sm_inv ?m" using fresh i(8,9,11,12) n by (intro sm_inv_add [OF inv]) auto
  have par: "even (nextStream m) = (sm_perspective m = PerspectiveServer)" using i(8) by (simp add: own_def)
  have impl: "openStreamImpl cp m fm =
      (if numOutgoingStreams m \<ge> GetMaxOutgoingStreams cp then (Inl TooManyOpenStreams, m, fm)
       else (Inr (newStream (nextStream m)), ?m, snd (session_newStream cp (nextStream m) fm)))"
    using par none add32_count [OF inv'] n
    by (cases "even (nextStream m)")
      (auto simp: openStreamImpl_def session_newStream_def putStream_def Let_def add_stream_def, simp_all add: add32_def)
  then show "r = (case closeErr m of Some e \<Rightarrow> Inl (Closed e)
          | None \<Rightarrow> if numOutgoingStreams m \<ge> GetMaxOutgoingStreams cp then Inl TooManyOpenStreams else Inr (newStream (nextStream m)))"
    "m' = (case r of Inl _ \<Rightarrow> m | Inr _ \<Rightarrow> ?m)"
    using o by (auto simp: OpenStream_def split: option.splits if_splits)
  have "sm_ok cp ?m (snd (session_newStream cp (nextStream m) fm))" if "\<not> numOutgoingStreams m \<ge> GetMaxOutgoingStreams cp"
  proof -
    have "sm_limits cp ?m" using ok that par by (auto simp: sm_ok_def sm_limits_def add_stream_def)
    then show ?thesis using ok inv' by (simp add: sm_ok_def session_newStream_def dom_NewStream)
  qed
  then show "sm_ok cp m' fm'" using o ok impl by (auto simp: OpenStream_def split: option.splits if_splits)
qed

section \<open>Removing and iterating keep the invariant\<close>

lemma fst_remove_open: "fst (remove_open sid i xs rr) = remove1 sid xs"
  by (induction xs arbitrary: i) (auto split: prod.splits, metis fst_conv)

lemma filter_remove1:
  "sid \<in> set xs \<Longrightarrow> distinct xs \<Longrightarrow> length (filter P (remove1 sid xs)) = length (filter P xs) - (if P sid then 1 else 0)"
proof (induction xs)
  case (Cons x xs)
  show ?case
  proof (cases "x = sid")
    case False
    then have "sid \<in> set xs" using Cons.prems by simp
    moreover have "P sid \<Longrightarrow> 0 < length (filter P xs)" using calculation by (auto simp: filter_empty_conv)
    ultimately show ?thesis using Cons False by auto
  qed simp
qed simp

lemma remove_stream_ok:
  assumes ok: "sm_ok cp m fm" and s: "streams m sid = Some s"
  shows "fst (streams_RemoveStream sid m) = None" "sm_ok cp (snd (streams_RemoveStream sid m)) (RemoveStream sid fm)"
    "streams (snd (streams_RemoveStream sid m)) = (streams m)(sid := None)"
    "nextStream (snd (streams_RemoveStream sid m)) = nextStream m"
proof -
  have inv: "sm_inv m" using ok by (simp add: sm_ok_def)
  note i = sm_invD [OF inv]
  obtain os rr where os: "remove_open sid 0 (openStreams m) (roundRobinIndex m) = (os, rr)" by force
  then have os': "os = remove1 sid (openStreams m)" using fst_remove_open by (metis fst_conv)
  have mem: "sid \<in> set (openStreams m)" using i(2) s by auto
  let ?e = "if even sid then 1 else 0" and ?o = "if even sid then 0 else 1"
  define m' where "m' = m\<lparr>streams := (streams m)(sid := None), openStreams := os, roundRobinIndex := rr,
    numOutgoingStreams := numOutgoingStreams m - ?e, numIncomingStreams := numIncomingStreams m - ?o\<rparr>"
  have cnt: "even sid \<Longrightarrow> 0 < numOutgoingStreams m" "odd sid \<Longrightarrow> 0 < numIncomingStreams m"
    "numOutgoingStreams m < 2 ^ 32" "numIncomingStreams m < 2 ^ 32"
    using mem sm_inv_bounds(2) [OF inv] unfolding i(4,5) by (auto simp: filter_empty_conv)
  then have sub: "even sid \<Longrightarrow> sub32 (numOutgoingStreams m) 1 = numOutgoingStreams m - 1"
    "odd sid \<Longrightarrow> sub32 (numIncomingStreams m) 1 = numIncomingStreams m - 1"
    by (auto simp: sub32_def mod_if)
  have r: "streams_RemoveStream sid m = (None, m')"
    using s os sub by (auto simp: streams_RemoveStream_def m'_def)
  have own: "own m' x = own m x" for x by (simp add: own_def m'_def)
  have set: "set os = set (openStreams m) - {sid}" "distinct os" using os' i(1) by simp_all
  have "sm_inv m'"
    unfolding sm_inv_def own
  proof (intro conjI allI impI ballI)
    show "distinct (openStreams m')" "set (openStreams m') = dom (streams m')" using set i(2) by (auto simp: m'_def)
    show "st_id t = x" if "streams m' x = Some t" for x t using that i(3) by (auto simp: m'_def split: if_splits)
    show "numOutgoingStreams m' = length (filter even (openStreams m'))" "numIncomingStreams m' = length (filter odd (openStreams m'))"
      using i(1,4,5) mem os' by (simp_all add: m'_def filter_remove1)
    show "0 < x" "if own m x then x < nextStream m' else x \<le> highestStreamOpenedByPeer m'" if "x \<in> set (openStreams m')" for x
      using that set(1) i(6,7) [of x] by (simp_all add: m'_def)
  qed (use i(8-12) in \<open>simp_all add: m'_def\<close>)
  moreover have "sm_limits cp m'" using ok by (auto simp: sm_ok_def sm_limits_def m'_def)
  moreover have "dom (streamFlowController (RemoveStream sid fm)) = dom (streams m')"
    using ok by (auto simp: sm_ok_def RemoveStream_def m'_def)
  ultimately show "sm_ok cp (snd (streams_RemoveStream sid m)) (RemoveStream sid fm)" by (simp add: r sm_ok_def)
  show "fst (streams_RemoveStream sid m) = None" "streams (snd (streams_RemoveStream sid m)) = (streams m)(sid := None)"
    "nextStream (snd (streams_RemoveStream sid m)) = nextStream m" by (simp_all add: r m'_def)
qed

text \<open>An iteration keeps what its lambda keeps.\<close>

definition keeps :: "(streamsMap \<Rightarrow> 'a \<Rightarrow> bool) \<Rightarrow> 'a streamLambda \<Rightarrow> bool" where
  "keeps I fn \<longleftrightarrow> (\<forall>s m st c e m' st'. I m st \<longrightarrow> s \<in> ran (streams m) \<longrightarrow>
     fn s m st = (c, e, m', st') \<longrightarrow> I m' st')"

lemma keepsD: "keeps I fn \<Longrightarrow> I m st \<Longrightarrow> iterateFunc sid fn m st = (c, e, m', st') \<Longrightarrow> I m' st'"
  unfolding keeps_def iterateFunc_def by (cases "streams m sid") (auto intro: ranI, metis ranI)

lemma iterate_loop_keeps:
  "keeps I fn \<Longrightarrow> I m st \<Longrightarrow> iterate_loop fn ids m st = (e, m', st') \<Longrightarrow> I m' st'"
proof (induction ids arbitrary: m st)
  case (Cons sid ids)
  obtain c e1 m1 st1 where r: "iterateFunc sid fn m st = (c, e1, m1, st1)" by (metis prod_cases4)
  have "I m1 st1" by (rule keepsD [OF Cons.prems(1,2) r])
  then show ?case using Cons.prems(3) Cons.IH [OF Cons.prems(1)] r by (auto split: option.splits if_splits)
qed simp

lemma priority_loop_keeps:
  "keeps I fn \<Longrightarrow> I m st \<Longrightarrow> priority_loop fn ids m st = (go, e, m', st') \<Longrightarrow> I m' st'"
proof (induction ids arbitrary: m st)
  case (Cons sid ids)
  obtain c e1 m1 st1 where r: "iterateFunc sid fn m st = (c, e1, m1, st1)" by (metis prod_cases4)
  have "I m1 st1" by (rule keepsD [OF Cons.prems(1,2) r])
  then show ?case using Cons.prems(3) Cons.IH [OF Cons.prems(1)] r by (auto split: if_splits)
qed simp

lemma round_robin_loop_keeps:
  assumes "keeps I fn" "\<And>m st k. I m st \<Longrightarrow> I (m\<lparr>roundRobinIndex := k\<rparr>) st" "\<And>m st. I m st \<Longrightarrow> n \<le> length (openStreams m)" "0 < n"
  shows "I m st \<Longrightarrow> \<exists>e m' st'. round_robin_loop fn n start is m st = Some (e, m', st') \<and> I m' st'"
proof (induction "is" arbitrary: m st)
  case (Cons i "is")
  let ?k = "add32 i start mod n"
  have k: "\<not> length (openStreams m) \<le> ?k" using assms(3) [OF Cons.prems] assms(4) by (meson mod_less_divisor not_le order_less_le_trans)
  obtain c e1 m1 st1 where r: "iterateFunc (openStreams m ! ?k) fn m st = (c, e1, m1, st1)" by (metis prod_cases4)
  have I1: "I m1 st1" by (rule keepsD [OF assms(1) Cons.prems r])
  show ?case
  proof (cases "openStreams m ! ?k = 1 \<or> openStreams m ! ?k = 3")
    case True
    then show ?thesis using k Cons.IH [OF Cons.prems] by (auto simp: Let_def)
  next
    case False
    then show ?thesis using k r I1 assms(2) [OF I1] Cons.IH [OF assms(2) [OF I1]]
      by (cases e1) (auto simp: Let_def)
  qed
qed simp

lemma RoundRobinIterate_keeps:
  assumes "keeps I fn" "\<And>m st k. I m st \<Longrightarrow> I (m\<lparr>roundRobinIndex := k\<rparr>) st"
    "\<And>m' st. I m' st \<Longrightarrow> numStreams m \<le> length (openStreams m')" "I m st"
  shows "\<exists>e m' st'. RoundRobinIterate fn m st = Some (e, m', st') \<and> I m' st'"
proof -
  obtain go e1 m1 st1 where p: "priority_loop fn [1, 3] m st = (go, e1, m1, st1)" by (metis prod_cases4)
  have I1: "I m1 st1" by (rule priority_loop_keeps [OF assms(1,4) p])
  show ?thesis
  proof (cases "go \<and> 0 < numStreams m")
    case True
    then show ?thesis using round_robin_loop_keeps [OF assms(1-3) _ I1] p by (simp add: RoundRobinIterate_def Let_def)
  next
    case False
    then show ?thesis using p I1 by (auto simp: RoundRobinIterate_def Let_def)
  qed
qed

lemma numStreams_open: "sm_inv m \<Longrightarrow> numStreams m = length (openStreams m)"
  using distinct_card [of "openStreams m"] sm_invD(1,2) [of m] sm_inv_bounds(1) [of m] by (simp add: numStreams_def)

lemma garbage_keeps: "keeps (sm_ok cp) garbage_lambda"
  unfolding keeps_def
proof (intro allI impI)
  fix s m fm c e m' fm'
  assume ok: "sm_ok cp m fm" and s: "s \<in> ran (streams m)" and r: "garbage_lambda s m fm = (c, e, m', fm')"
  obtain sid where sid: "streams m sid = Some s" using s by (auto simp: ran_def)
  then have id: "st_id s = sid" using ok sm_invD(3) by (auto simp: sm_ok_def)
  show "sm_ok cp m' fm'"
    using r ok remove_stream_ok [OF ok sid] id
    by (auto simp: garbage_lambda_def split: if_splits prod.splits option.splits)
qed

lemma sm_ok_change:
  assumes "sm_ok cp m fm" "streams m sid = Some s" "st_id s' = sid"
  shows "sm_ok cp (m\<lparr>streams := (streams m)(sid \<mapsto> s')\<rparr>) fm"
proof -
  have "dom ((streams m)(sid \<mapsto> s')) = dom (streams m)" using assms(2) by auto
  then show ?thesis using assms by (auto simp: sm_ok_def sm_inv_def sm_limits_def own_def)
qed

lemma cancel_loop_ok:
  "sm_ok cp m fm \<Longrightarrow> set ids \<subseteq> dom (streams m) \<Longrightarrow>
   \<exists>m'. cancel_loop e ids m = Some m' \<and> sm_ok cp m' fm"
proof (induction ids arbitrary: m)
  case (Cons sid ids)
  obtain s where s: "streams m sid = Some s" using Cons.prems(2) by auto
  let ?m = "m\<lparr>streams := (streams m)(sid \<mapsto> Cancel e s)\<rparr>"
  have "st_id s = sid" using Cons.prems(1) s sm_invD(3) by (auto simp: sm_ok_def)
  then have "sm_ok cp ?m fm"
    by (intro sm_ok_change [OF Cons.prems(1) s]) (simp add: Cancel_def set_err_def signalRead_def signalWrite_def)
  moreover have "set ids \<subseteq> dom (streams ?m)" using Cons.prems(2) by auto
  ultimately have "\<exists>m'. cancel_loop e ids ?m = Some m' \<and> sm_ok cp m' fm" by (rule Cons.IH)
  then show ?case using s by simp
qed simp

end
