(* ===== verification/Received_Packets.thy ===== *)
theory Received_Packets
  imports Wire_Frames
begin

text \<open>
  Model of \<^verbatim>\<open>mp-quic/ackhandler/received_packet_history.go\<close> and
  \<^verbatim>\<open>received_packet_handler.go\<close>, with the acknowledgement frame of
  \<^verbatim>\<open>internal/wire/ack_frame.go\<close> as a record.  The linked list of intervals is a list from its
  front to its back; times are counted in nanoseconds, the zero \<^verbatim>\<open>time.Time\<close> is \<open>None\<close> and the
  clock is an argument.
\<close>

type_synonym PacketInterval = "PacketNumber \<times> PacketNumber"
type_synonym AckRange = "PacketNumber \<times> PacketNumber"

record AckFrame =
  PathID :: nat
  LargestAcked :: PacketNumber
  LowestAcked :: PacketNumber
  AckRanges :: "AckRange list"
  PacketReceivedTime :: "int option"
  DelayTime :: int

definition HasMissingRanges :: "AckFrame \<Rightarrow> bool" where
  "HasMissingRanges f \<longleftrightarrow> length (AckRanges f) > 0"

definition AcksPacket :: "AckFrame \<Rightarrow> PacketNumber \<Rightarrow> bool" where
  "AcksPacket f p =
     (if p < LowestAcked f \<or> p > LargestAcked f then False
      else if HasMissingRanges f
      then list_ex (\<lambda>(first, final). p \<ge> first \<and> p \<le> final) (AckRanges f)
      else p \<ge> LowestAcked f \<and> p \<le> LargestAcked f)"

fun ranges_ordered :: "AckRange list \<Rightarrow> bool" where
  "ranges_ordered ((first, final) # (first', final') # rs) =
     (\<not> first \<le> first' \<and> \<not> first \<le> add64 final' 1 \<and> ranges_ordered ((first', final') # rs))"
| "ranges_ordered rs = True"

definition validateAckRanges :: "AckFrame \<Rightarrow> bool" where
  "validateAckRanges f =
     (if length (AckRanges f) = 0 then True
      else if length (AckRanges f) = 1 then False
      else if snd (AckRanges f ! 0) \<noteq> LargestAcked f then False
      else list_all (\<lambda>(first, final). \<not> first > final) (AckRanges f) \<and> ranges_ordered (AckRanges f))"

section \<open>The packet history\<close>

record receivedPacketHistory =
  ranges :: "PacketInterval list"
  lowestInReceivedPacketNumbers :: PacketNumber

datatype received_error = errTooManyOutstandingReceivedAckRanges | errInvalidPacketNumber

definition MaxTrackedReceivedAckRanges :: nat where "MaxTrackedReceivedAckRanges = 2500"

definition newReceivedPacketHistory :: receivedPacketHistory where
  "newReceivedPacketHistory = \<lparr>ranges = [], lowestInReceivedPacketNumbers = 0\<rparr>"

text \<open>
  The loop from the back of the list: its argument is the part of the list up to the element
  looked at, last element first.  The extended interval is merged with the one before it.
\<close>

fun merge_prev :: "PacketInterval \<Rightarrow> PacketInterval list \<Rightarrow> PacketInterval list" where
  "merge_prev (start, end) [] = [(start, end)]"
| "merge_prev (start, end) ((start', end') # rs) =
     (if add64 end' 1 = start then (start', end) # rs else (start, end) # (start', end') # rs)"

fun received_loop :: "PacketNumber \<Rightarrow> PacketInterval list \<Rightarrow> PacketInterval list" where
  "received_loop p [] = [(p, p)]"
| "received_loop p ((start, end) # rs) =
     (if p \<ge> start \<and> p \<le> end then (start, end) # rs
      else if end = sub64 p 1 then merge_prev (start, p) rs
      else if start = add64 p 1 then merge_prev (p, end) rs
      else if p > end then (p, p) # (start, end) # rs
      else (start, end) # received_loop p rs)"

definition history_ReceivedPacket ::
  "PacketNumber \<Rightarrow> receivedPacketHistory \<Rightarrow> received_error option \<times> receivedPacketHistory" where
  "history_ReceivedPacket p h =
     (if length (ranges h) \<ge> MaxTrackedReceivedAckRanges then (Some errTooManyOutstandingReceivedAckRanges, h)
      else if length (ranges h) = 0 then (None, h\<lparr>ranges := [(p, p)]\<rparr>)
      else (None, h\<lparr>ranges := rev (received_loop p (rev (ranges h)))\<rparr>))"

fun delete_loop :: "PacketNumber \<Rightarrow> PacketInterval list \<Rightarrow> PacketInterval list" where
  "delete_loop p [] = []"
| "delete_loop p ((start, end) # rs) =
     (if p \<ge> start \<and> p < end then (add64 p 1, end) # delete_loop p rs
      else if end \<le> p then delete_loop p rs
      else (start, end) # rs)"

definition DeleteUpTo :: "PacketNumber \<Rightarrow> receivedPacketHistory \<Rightarrow> receivedPacketHistory" where
  "DeleteUpTo p h =
     h\<lparr>lowestInReceivedPacketNumbers := MaxPacketNumber (lowestInReceivedPacketNumbers h) (add64 p 1),
       ranges := delete_loop p (ranges h)\<rparr>"

definition GetAckRanges :: "receivedPacketHistory \<Rightarrow> AckRange list" where
  "GetAckRanges h = (if length (ranges h) = 0 then [] else rev (ranges h))"

definition GetHighestAckRange :: "receivedPacketHistory \<Rightarrow> AckRange" where
  "GetHighestAckRange h = (if length (ranges h) > 0 then last (ranges h) else (0, 0))"

section \<open>The packet handler\<close>

record receivedPacketHandler =
  largestObserved :: PacketNumber
  lowerLimit :: PacketNumber
  largestObservedReceivedTime :: "int option"
  packetHistory :: receivedPacketHistory
  ackSendDelay :: int
  packetsReceivedSinceLastAck :: nat
  retransmittablePacketsReceivedSinceLastAck :: nat
  ackQueued :: bool
  ackAlarm :: "int option"
  lastAck :: "AckFrame option"
  rph_version :: VersionNumber
  packets :: nat

definition AckSendDelay :: int where "AckSendDelay = 25 * 10 ^ 6"
definition MaxPacketsReceivedBeforeAckSend :: nat where "MaxPacketsReceivedBeforeAckSend = 20"
definition RetransmittablePacketsBeforeAck :: nat where "RetransmittablePacketsBeforeAck = 2"

definition NewReceivedPacketHandler :: "VersionNumber \<Rightarrow> receivedPacketHandler" where
  "NewReceivedPacketHandler v =
     \<lparr>largestObserved = 0, lowerLimit = 0, largestObservedReceivedTime = None,
      packetHistory = newReceivedPacketHistory, ackSendDelay = AckSendDelay,
      packetsReceivedSinceLastAck = 0, retransmittablePacketsReceivedSinceLastAck = 0,
      ackQueued = False, ackAlarm = None, lastAck = None, rph_version = v, packets = 0\<rparr>"

definition GetStatistics :: "receivedPacketHandler \<Rightarrow> nat" where
  "GetStatistics h = packets h"

text \<open>\<^verbatim>\<open>if cond { h.ackQueued = true }\<close>, and the part for packets that instigate an acknowledgement.\<close>

definition queueAckIf :: "bool \<Rightarrow> receivedPacketHandler \<Rightarrow> receivedPacketHandler" where
  "queueAckIf b h = h\<lparr>ackQueued := ackQueued h \<or> b\<rparr>"

definition queueOrArm :: "int \<Rightarrow> receivedPacketHandler \<Rightarrow> receivedPacketHandler" where
  "queueOrArm now h =
     (if retransmittablePacketsReceivedSinceLastAck h \<ge> RetransmittablePacketsBeforeAck
      then h\<lparr>ackQueued := True\<rparr>
      else if ackAlarm h = None then h\<lparr>ackAlarm := Some (now + ackSendDelay h)\<rparr> else h)"

definition maybeQueueAck :: "int \<Rightarrow> PacketNumber \<Rightarrow> bool \<Rightarrow> receivedPacketHandler \<Rightarrow> receivedPacketHandler" where
  "maybeQueueAck now packetNumber shouldInstigateAck h =
     (let h = h\<lparr>packetsReceivedSinceLastAck := packetsReceivedSinceLastAck h + 1\<rparr>;
          h = h\<lparr>retransmittablePacketsReceivedSinceLastAck :=
                  retransmittablePacketsReceivedSinceLastAck h + (if shouldInstigateAck then 1 else 0)\<rparr>;
          h = queueAckIf (lastAck h = None) h;
          h = queueAckIf (rph_version h < 39 \<and> packetsReceivedSinceLastAck h \<ge> MaxPacketsReceivedBeforeAckSend) h;
          h = queueAckIf (case lastAck h of None \<Rightarrow> False | Some ack \<Rightarrow> packetNumber < LargestAcked ack) h;
          h = queueAckIf (case lastAck h of None \<Rightarrow> False
                          | Some ack \<Rightarrow> fst (GetHighestAckRange (packetHistory h)) > LargestAcked ack) h;
          h = (if \<not> ackQueued h \<and> shouldInstigateAck then queueOrArm now h else h)
      in if ackQueued h then h\<lparr>ackAlarm := None\<rparr> else h)"

definition handler_ReceivedPacket ::
  "int \<Rightarrow> PacketNumber \<Rightarrow> bool \<Rightarrow> receivedPacketHandler \<Rightarrow> received_error option \<times> receivedPacketHandler" where
  "handler_ReceivedPacket now packetNumber shouldInstigateAck h =
     (if packetNumber = 0 then (Some errInvalidPacketNumber, h)
      else let h = h\<lparr>packets := add64 (packets h) 1\<rparr>;
               h = (if packetNumber > largestObserved h
                    then h\<lparr>largestObserved := packetNumber, largestObservedReceivedTime := Some now\<rparr> else h)
           in if packetNumber \<le> lowerLimit h then (None, h)
              else case history_ReceivedPacket packetNumber (packetHistory h) of
                     (Some e, ph) \<Rightarrow> (Some e, h\<lparr>packetHistory := ph\<rparr>)
                   | (None, ph) \<Rightarrow> (None, maybeQueueAck now packetNumber shouldInstigateAck (h\<lparr>packetHistory := ph\<rparr>)))"

definition SetLowerLimit :: "PacketNumber \<Rightarrow> receivedPacketHandler \<Rightarrow> receivedPacketHandler" where
  "SetLowerLimit p h = h\<lparr>lowerLimit := p, packetHistory := DeleteUpTo p (packetHistory h)\<rparr>"

text \<open>The outer option is the panic of the index expression, the inner one the nil frame.\<close>

definition GetAckFrame :: "int \<Rightarrow> receivedPacketHandler \<Rightarrow> (AckFrame option \<times> receivedPacketHandler) option" where
  "GetAckFrame now h =
     (if \<not> ackQueued h \<and> (case ackAlarm h of None \<Rightarrow> True | Some t \<Rightarrow> t > now) then Some (None, h)
      else let ackRanges = GetAckRanges (packetHistory h)
           in if length ackRanges = 0 then None
              else let ack = \<lparr>PathID = 0, LargestAcked = largestObserved h,
                              LowestAcked = fst (ackRanges ! (length ackRanges - 1)),
                              AckRanges = (if length ackRanges > 1 then ackRanges else []),
                              PacketReceivedTime = largestObservedReceivedTime h, DelayTime = 0\<rparr>
                   in Some (Some ack,
                        h\<lparr>lastAck := Some ack, ackAlarm := None, ackQueued := False,
                          packetsReceivedSinceLastAck := 0, retransmittablePacketsReceivedSinceLastAck := 0\<rparr>))"

text \<open>A CLOSE_PATH frame carries the same fields, without the times.\<close>

definition GetClosePathFrame :: "receivedPacketHandler \<Rightarrow> (PacketNumber \<times> PacketNumber \<times> AckRange list) option" where
  "GetClosePathFrame h =
     (let ackRanges = GetAckRanges (packetHistory h)
      in if length ackRanges = 0 then None
         else Some (largestObserved h, fst (ackRanges ! (length ackRanges - 1)),
                if length ackRanges > 1 then ackRanges else []))"

definition GetAlarmTimeout :: "receivedPacketHandler \<Rightarrow> int option" where
  "GetAlarmTimeout h = ackAlarm h"

section \<open>The history as a set\<close>

definition ranges_set :: "PacketInterval list \<Rightarrow> PacketNumber set" where
  "ranges_set rs = (\<Union>(first, final) \<in> set rs. {first..final})"

definition above :: "PacketInterval \<Rightarrow> PacketInterval \<Rightarrow> bool" where
  "above r r' \<longleftrightarrow> snd r' + 1 < fst r"

definition range_ok :: "PacketInterval \<Rightarrow> bool" where
  "range_ok r \<longleftrightarrow> 0 < fst r \<and> fst r \<le> snd r \<and> snd r < 2 ^ 64 - 1"

text \<open>The intervals from the last to the first, and from the first to the last.\<close>

definition desc_ok :: "PacketInterval list \<Rightarrow> bool" where
  "desc_ok rs \<longleftrightarrow> sorted_wrt above rs \<and> list_all range_ok rs"

definition ranges_ok :: "PacketInterval list \<Rightarrow> bool" where
  "ranges_ok rs \<longleftrightarrow> desc_ok (rev rs)"

lemma ranges_set_simps [simp]:
  "ranges_set [] = {}" "ranges_set ((first, final) # rs) = {first..final} \<union> ranges_set rs"
  "ranges_set (rev rs) = ranges_set rs" "ranges_set (rs @ rs') = ranges_set rs \<union> ranges_set rs'"
  by (auto simp: ranges_set_def)

lemma desc_ok_simps [simp]:
  "desc_ok []" "desc_ok (r # rs) \<longleftrightarrow> range_ok r \<and> list_all (above r) rs \<and> desc_ok rs"
  by (auto simp: desc_ok_def list_all_iff)

lemma range_end_in: "list_all range_ok rs \<Longrightarrow> (first, final) \<in> set rs \<Longrightarrow> final \<in> ranges_set rs"
  by (force simp: ranges_set_def list_all_iff range_ok_def)

lemma merge_prev_desc:
  assumes "range_ok (start, final)" "desc_ok rs" "list_all (\<lambda>r. snd r < start) rs"
  shows "desc_ok (merge_prev (start, final) rs)"
    "ranges_set (merge_prev (start, final) rs) = {start..final} \<union> ranges_set rs"
proof -
  show "desc_ok (merge_prev (start, final) rs)"
  proof (cases rs)
    case (Cons r rs')
    obtain a b where r: "r = (a, b)" by (cases r)
    have b: "add64 b 1 = b + 1" using assms(2) Cons r by (simp add: add64_def range_ok_def)
    show ?thesis
      using assms Cons r b by (auto simp: range_ok_def above_def list_all_iff)
  qed (use assms in simp)
  show "ranges_set (merge_prev (start, final) rs) = {start..final} \<union> ranges_set rs"
  proof (cases rs)
    case (Cons r rs')
    obtain a b where r: "r = (a, b)" by (cases r)
    have b: "add64 b 1 = b + 1" using assms(2) Cons r by (simp add: add64_def range_ok_def)
    show ?thesis
      using assms Cons r b by (auto simp: range_ok_def)
  qed simp
qed

lemma received_loop_desc:
  assumes "desc_ok rs" "0 < p" "p < 2 ^ 64 - 1"
  shows "desc_ok (received_loop p rs) \<and> ranges_set (received_loop p rs) = insert p (ranges_set rs)"
  using assms
proof (induction rs)
  case Nil
  then show ?case by (simp add: range_ok_def)
next
  case (Cons r rs)
  obtain a b where r: "r = (a, b)" by (cases r)
  have p: "sub64 p 1 = p - 1" "add64 p 1 = p + 1"
    using Cons.prems by (simp_all add: sub64_small add64_def)
  have ok: "range_ok (a, b)" "list_all (above (a, b)) rs" "desc_ok rs"
    using Cons.prems r by auto
  have below: "list_all (\<lambda>r. snd r < a) rs"
    using ok(2) by (auto simp: list_all_iff above_def)
  consider "a \<le> p \<and> p \<le> b" | "b = p - 1" "p > b" | "a = p + 1" | "p > b" "b \<noteq> p - 1" | "p < a" "a \<noteq> p + 1"
    by (metis not_le)
  then show ?case
  proof cases
    case 1
    then have "received_loop p (r # rs) = r # rs" by (simp add: r)
    moreover have "p \<in> ranges_set (r # rs)" using 1 by (simp add: r)
    ultimately show ?thesis using Cons.prems(1) by (simp add: insert_absorb)
  next
    case 2
    have eq: "received_loop p (r # rs) = merge_prev (a, p) rs" using 2 p(1) by (simp add: r)
    have "range_ok (a, p)" using ok(1) 2 Cons.prems(3) by (simp add: range_ok_def)
    note m = merge_prev_desc [OF this ok(3) below]
    have "{a..p} = insert p {a..b}" using 2 ok(1) by (auto simp: range_ok_def)
    then show ?thesis using m unfolding eq by (simp add: r)
  next
    case 3
    have "range_ok (p, b)" using ok(1) 3 Cons.prems(2) by (auto simp: range_ok_def)
    moreover have "list_all (\<lambda>r. snd r < p) rs"
      using ok(2) 3 by (auto simp: list_all_iff above_def)
    ultimately have m: "desc_ok (merge_prev (p, b) rs)" "ranges_set (merge_prev (p, b) rs) = {p..b} \<union> ranges_set rs"
      using merge_prev_desc [of p b rs] ok(3) by auto
    have "b \<noteq> p - 1" using 3 ok(1) unfolding range_ok_def by simp linarith
    then have "received_loop p (r # rs) = merge_prev (p, b) rs"
      using 3 p by (simp add: r)
    moreover have "{p..b} = insert p {a..b}" using 3 ok(1) by (auto simp: range_ok_def)
    ultimately show ?thesis using m r by simp
  next
    case 4
    have "received_loop p (r # rs) = (p, p) # (a, b) # rs"
      using 4 p ok(1) by (simp add: r range_ok_def)
    moreover have "list_all (above (p, p)) ((a, b) # rs)"
      using 4 below ok(1) by (auto simp: list_all_iff above_def range_ok_def)
    ultimately show ?thesis
      using ok Cons.prems(2,3) by (simp add: r range_ok_def)
  next
    case 5
    have IH: "desc_ok (received_loop p rs)" "ranges_set (received_loop p rs) = insert p (ranges_set rs)"
      using Cons.IH ok(3) Cons.prems by auto
    have "snd q + 1 < a" if "q \<in> set (received_loop p rs)" for q
    proof -
      obtain c d where q: "q = (c, d)" by (cases q)
      have "list_all range_ok (received_loop p rs)" using IH(1) by (simp add: desc_ok_def)
      then have "d \<in> insert p (ranges_set rs)"
        using range_end_in that q IH(2) by blast
      then show ?thesis
        using 5 q ok(2) by (auto simp: ranges_set_def list_all_iff above_def)
    qed
    then have "list_all (above (a, b)) (received_loop p rs)"
      by (simp add: list_all_iff above_def)
    moreover have "b \<noteq> p - 1" "\<not> p > b" using 5 ok(1) unfolding range_ok_def fst_conv snd_conv by linarith+
    then have "received_loop p (r # rs) = (a, b) # received_loop p rs"
      using 5 p by (simp add: r)
    ultimately show ?thesis
      using IH ok(1) by (simp add: r)
  qed
qed

lemma history_ReceivedPacket_ok:
  assumes "ranges_ok (ranges h)" "0 < p" "p < 2 ^ 64 - 1" "history_ReceivedPacket p h = (None, h')"
  shows "ranges_ok (ranges h')" "ranges_set (ranges h') = insert p (ranges_set (ranges h))"
    "length (ranges h) < MaxTrackedReceivedAckRanges"
proof -
  show "length (ranges h) < MaxTrackedReceivedAckRanges"
    using assms(4) by (simp add: history_ReceivedPacket_def split: if_splits)
  have "desc_ok (received_loop p (rev (ranges h)))"
    "ranges_set (received_loop p (rev (ranges h))) = insert p (ranges_set (ranges h))"
    using received_loop_desc [of "rev (ranges h)" p] assms(1-3) by (simp_all add: ranges_ok_def)
  moreover have "ranges h' = rev (received_loop p (rev (ranges h)))"
    using assms(4) by (cases "ranges h = []") (simp_all add: history_ReceivedPacket_def split: if_splits, auto)
  ultimately show "ranges_ok (ranges h')" "ranges_set (ranges h') = insert p (ranges_set (ranges h))"
    by (simp_all add: ranges_ok_def)
qed

lemma ranges_ok_Cons:
  "ranges_ok ((a, b) # rs) \<longleftrightarrow> range_ok (a, b) \<and> ranges_ok rs \<and> (\<forall>(c, d) \<in> set rs. b + 1 < c)"
  by (auto simp: ranges_ok_def desc_ok_def sorted_wrt_append above_def)

lemma delete_loop_ok:
  assumes "ranges_ok rs"
  shows "ranges_ok (delete_loop p rs) \<and> ranges_set (delete_loop p rs) = {x \<in> ranges_set rs. p < x}"
  using assms
proof (induction rs)
  case Nil
  then show ?case by (simp add: ranges_ok_def)
next
  case (Cons r rs)
  obtain a b where r: "r = (a, b)" by (cases r)
  have ok: "range_ok (a, b)" "ranges_ok rs" "\<forall>(c, d) \<in> set rs. b + 1 < c"
    using Cons.prems r by (auto simp: ranges_ok_Cons)
  have IH: "ranges_ok (delete_loop p rs)" "ranges_set (delete_loop p rs) = {x \<in> ranges_set rs. p < x}"
    using Cons.IH ok(2) by auto
  have high: "\<forall>x \<in> ranges_set rs. b + 1 < x"
    using ok(3) by (fastforce simp: ranges_set_def)
  consider "a \<le> p" "p < b" | "b \<le> p" | "p < a" "p < b" by (metis not_le)
  then show ?case
  proof cases
    case 1
    then have p1: "add64 p 1 = p + 1" using ok(1) by (simp add: add64_def range_ok_def)
    have "b + 1 < fst q" if "q \<in> set (delete_loop p rs)" for q
    proof -
      have "range_ok q" using IH(1) that by (auto simp: ranges_ok_def desc_ok_def list_all_iff)
      then have "fst q \<in> ranges_set (delete_loop p rs)"
        using that by (force simp: ranges_set_def range_ok_def)
      then show ?thesis using IH(2) high by simp
    qed
    then have "ranges_ok ((p + 1, b) # delete_loop p rs)"
      using 1 ok(1) IH(1) by (auto simp: ranges_ok_Cons range_ok_def)
    moreover have "delete_loop p (r # rs) = (p + 1, b) # delete_loop p rs"
      using 1 p1 by (simp add: r)
    moreover have "{x \<in> ranges_set (r # rs). p < x} = {p + 1..b} \<union> {x \<in> ranges_set rs. p < x}"
      using 1 by (auto simp: r)
    ultimately show ?thesis using IH(2) by simp
  next
    case 2
    then have "delete_loop p (r # rs) = delete_loop p rs" by (simp add: r)
    moreover have "{x \<in> ranges_set (r # rs). p < x} = {x \<in> ranges_set rs. p < x}"
      using 2 by (auto simp: r)
    ultimately show ?thesis using IH by simp
  next
    case 3
    then have "delete_loop p (r # rs) = r # rs" by (simp add: r)
    moreover have "p < x" if "x \<in> ranges_set (r # rs)" for x
      using that 3 high by (fastforce simp: r)
    ultimately show ?thesis using Cons.prems by auto
  qed
qed

section \<open>The handler\<close>

lemma queueAckIf_sel [simp]:
  "largestObserved (queueAckIf b h) = largestObserved h" "lowerLimit (queueAckIf b h) = lowerLimit h"
  "packetHistory (queueAckIf b h) = packetHistory h" "lastAck (queueAckIf b h) = lastAck h"
  "ackAlarm (queueAckIf b h) = ackAlarm h" "ackSendDelay (queueAckIf b h) = ackSendDelay h"
  "ackQueued (queueAckIf b h) = (ackQueued h \<or> b)"
  by (simp_all add: queueAckIf_def)

lemma queueOrArm_sel [simp]:
  "largestObserved (queueOrArm t h) = largestObserved h" "lowerLimit (queueOrArm t h) = lowerLimit h"
  "packetHistory (queueOrArm t h) = packetHistory h" "lastAck (queueOrArm t h) = lastAck h"
  "ackSendDelay (queueOrArm t h) = ackSendDelay h"
  by (simp_all add: queueOrArm_def)

lemma maybeQueueAck_sel [simp]:
  "largestObserved (maybeQueueAck t p i h) = largestObserved h" "lowerLimit (maybeQueueAck t p i h) = lowerLimit h"
  "packetHistory (maybeQueueAck t p i h) = packetHistory h" "lastAck (maybeQueueAck t p i h) = lastAck h"
  "ackSendDelay (maybeQueueAck t p i h) = ackSendDelay h"
  by (simp_all add: maybeQueueAck_def Let_def)

lemma maybeQueueAck_alarm:
  "ackAlarm (maybeQueueAck t p i h) \<in> {None, ackAlarm h, Some (t + ackSendDelay h)}"
  "lastAck h = None \<Longrightarrow> ackQueued (maybeQueueAck t p i h)"
  "i \<Longrightarrow> ackQueued (maybeQueueAck t p i h) \<or> ackAlarm (maybeQueueAck t p i h) \<noteq> None"
  by (simp_all add: maybeQueueAck_def Let_def) (auto simp: queueOrArm_def)

text \<open>
  The life of a handler on one path: packets arrive, possibly with a STOP_WAITING frame for an
  earlier packet or the packet itself, and acknowledgements are asked for, while the clock does
  not run backwards.  The set collects the packets recorded that the peer still waits for.
\<close>

inductive handler_reach :: "VersionNumber \<Rightarrow> receivedPacketHandler \<Rightarrow> PacketNumber set \<Rightarrow> int \<Rightarrow> bool"
  for v where
  start: "handler_reach v (NewReceivedPacketHandler v) {} t"
| packet: "\<lbrakk>handler_reach v h A t; t \<le> now; p < 2 ^ 64 - 1; handler_ReceivedPacket now p i h = (None, h')\<rbrakk> \<Longrightarrow>
     handler_reach v h' (if p > lowerLimit h then insert p A else A) now"
| stop: "\<lbrakk>handler_reach v h A t; t \<le> now; p < 2 ^ 64 - 1; handler_ReceivedPacket now p i h = (None, h');
     ParseStopWaitingFrame p len v' b = Inr (f, rest)\<rbrakk> \<Longrightarrow>
     handler_reach v (SetLowerLimit (sub64 (sw_LeastUnacked f) 1) h')
       {q \<in> (if p > lowerLimit h then insert p A else A). q \<ge> sw_LeastUnacked f} now"
| ack: "\<lbrakk>handler_reach v h A t; t \<le> now; GetAckFrame now h = Some (ack, h')\<rbrakk> \<Longrightarrow> handler_reach v h' A now"

definition handler_inv :: "receivedPacketHandler \<Rightarrow> PacketNumber set \<Rightarrow> int \<Rightarrow> bool" where
  "handler_inv h A t \<longleftrightarrow> ranges_ok (ranges (packetHistory h)) \<and> ranges_set (ranges (packetHistory h)) = A \<and>
     ackSendDelay h = AckSendDelay \<and>
     (if A = {} then largestObserved h = 0 \<and> lowerLimit h = 0 \<and> \<not> ackQueued h \<and> ackAlarm h = None
      else largestObserved h \<in> A \<and> (\<forall>q \<in> A. lowerLimit h < q \<and> q \<le> largestObserved h) \<and>
           (\<forall>a. ackAlarm h = Some a \<longrightarrow> a \<le> t + AckSendDelay))"

lemma inv_start: "handler_inv (NewReceivedPacketHandler v) {} t"
  by (simp add: handler_inv_def NewReceivedPacketHandler_def newReceivedPacketHistory_def ranges_ok_def)

lemma inv_packet:
  assumes inv: "handler_inv h A t" and t: "t \<le> now" and p: "p < 2 ^ 64 - 1"
    and r: "handler_ReceivedPacket now p i h = (None, h')"
  shows "handler_inv h' (if p > lowerLimit h then insert p A else A) now" "0 < p"
    "lowerLimit h' = lowerLimit h" "p \<le> largestObserved h'" "A \<noteq> {} \<or> p > lowerLimit h"
proof -
  show p0: "0 < p" using r by (simp add: handler_ReceivedPacket_def split: if_splits)
  define g where "g = (let h = h\<lparr>packets := add64 (packets h) 1\<rparr>
    in if p > largestObserved h then h\<lparr>largestObserved := p, largestObservedReceivedTime := Some now\<rparr> else h)"
  show ne: "A \<noteq> {} \<or> p > lowerLimit h"
    using inv p0 by (auto simp: handler_inv_def)
  have g: "largestObserved g = max p (largestObserved h)" "lowerLimit g = lowerLimit h"
    "packetHistory g = packetHistory h" "ackAlarm g = ackAlarm h" "ackSendDelay g = ackSendDelay h"
    by (auto simp: g_def Let_def)
  have ok: "ranges_ok (ranges (packetHistory h))" "ranges_set (ranges (packetHistory h)) = A"
    "ackSendDelay h = AckSendDelay"
    using inv by (auto simp: handler_inv_def)
  have alarm: "a \<le> now + AckSendDelay" if "ackAlarm h = Some a" for a
    using inv that t by (cases "A = {}") (auto simp: handler_inv_def)
  show "lowerLimit h' = lowerLimit h" "p \<le> largestObserved h'"
    "handler_inv h' (if p > lowerLimit h then insert p A else A) now"
  proof (atomize (full), cases "p \<le> lowerLimit h")
    case True
    then have h': "h' = g"
      using r p0 by (simp add: handler_ReceivedPacket_def g_def Let_def split: if_splits)
    have A: "A \<noteq> {}" "largestObserved h \<in> A" "\<forall>q \<in> A. lowerLimit h < q \<and> q \<le> largestObserved h"
      using inv ne True by (auto simp: handler_inv_def)
    then have "max p (largestObserved h) = largestObserved h" using True by fastforce
    then show "lowerLimit h' = lowerLimit h \<and> p \<le> largestObserved h' \<and>
        handler_inv h' (if p > lowerLimit h then insert p A else A) now"
      using A ok alarm True unfolding handler_inv_def h' by (auto simp: g max_def split: if_splits)
  next
    case False
    obtain ph where ph: "history_ReceivedPacket p (packetHistory h) = (None, ph)"
      and h': "h' = maybeQueueAck now p i (g\<lparr>packetHistory := ph\<rparr>)"
      using r p0 False g(2,3) unfolding handler_ReceivedPacket_def g_def [symmetric] Let_def [of _ "\<lambda>h. _ h"]
      by (auto simp: g_def Let_def split: prod.splits option.splits if_splits)
    note hp = history_ReceivedPacket_ok [OF ok(1) p0 p ph]
    have "a \<le> now + AckSendDelay" if "ackAlarm h' = Some a" for a
      using maybeQueueAck_alarm(1) [of now p i "g\<lparr>packetHistory := ph\<rparr>"] that alarm ok(3)
      by (auto simp: h' g)
    moreover have "q \<le> max p (largestObserved h) \<and> lowerLimit h < q" if "q \<in> insert p A" for q
      using that inv False by (cases "A = {}") (auto simp: handler_inv_def)
    moreover have "max p (largestObserved h) \<in> insert p A"
      using inv p0 by (cases "A = {}") (auto simp: handler_inv_def max_def)
    ultimately show "lowerLimit h' = lowerLimit h \<and> p \<le> largestObserved h' \<and>
        handler_inv h' (if p > lowerLimit h then insert p A else A) now"
      using hp ok False by (auto simp: handler_inv_def h' g)
  qed
qed

lemma inv_stop:
  assumes inv: "handler_inv h A t" and "0 < lu" "lu \<le> largestObserved h" "A \<noteq> {}" "lu < 2 ^ 64"
  shows "handler_inv (SetLowerLimit (sub64 lu 1) h) {q \<in> A. q \<ge> lu} t"
proof -
  have lu: "sub64 lu 1 = lu - 1" using assms(2,5) by (simp add: sub64_small)
  define rs where "rs = delete_loop (sub64 lu 1) (ranges (packetHistory h))"
  have r: "ranges_ok (ranges (packetHistory h))" "ranges_set (ranges (packetHistory h)) = A"
    using inv by (simp_all add: handler_inv_def)
  have "lu - 1 < q \<longleftrightarrow> lu \<le> q" for q using assms(2) by linarith
  then have d: "ranges_ok rs" "ranges_set rs = {q \<in> A. q \<ge> lu}"
    using delete_loop_ok [OF r(1), of "sub64 lu 1"] unfolding rs_def lu r(2) by simp_all
  have A: "largestObserved h \<in> A" "\<forall>q \<in> A. q \<le> largestObserved h" "ackSendDelay h = AckSendDelay"
    "\<forall>a. ackAlarm h = Some a \<longrightarrow> a \<le> t + AckSendDelay"
    using inv assms(4) by (simp_all add: handler_inv_def)
  obtain B where B: "B = {q \<in> A. q \<ge> lu}" by simp
  have B': "largestObserved h \<in> B" "B \<noteq> {}" "\<forall>q \<in> B. lu - 1 < q \<and> q \<le> largestObserved h"
    using A(1,2) assms(2,3) by (auto simp: B)
  define h' where "h' = SetLowerLimit (sub64 lu 1) h"
  have h': "ranges (packetHistory h') = rs" "lowerLimit h' = lu - 1" "largestObserved h' = largestObserved h"
    "ackSendDelay h' = ackSendDelay h" "ackAlarm h' = ackAlarm h"
    by (simp_all add: h'_def SetLowerLimit_def DeleteUpTo_def rs_def lu [unfolded One_nat_def])
  show ?thesis
    unfolding h'_def [symmetric] B [symmetric] handler_inv_def h' d [folded B] if_not_P [OF B'(2)]
    using d(1) A(3,4) B'(1,3) by blast
qed

lemma inv_ack:
  assumes "handler_inv h A t" "t \<le> now" "GetAckFrame now h = Some (ack, h')"
  shows "handler_inv h' A now"
  using assms
  by (cases "A = {}") (fastforce simp: handler_inv_def GetAckFrame_def Let_def split: if_splits)+

lemma handler_reach_inv: "handler_reach v h A t \<Longrightarrow> handler_inv h A t"
proof (induction rule: handler_reach.induct)
  case (start t)
  then show ?case by (rule inv_start)
next
  case (packet h A t now p i h')
  then show ?case using inv_packet(1) by blast
next
  case (stop h A t now p i h' len v' b f rest)
  note i = inv_packet [OF stop.IH stop.hyps(2-4)]
  have lu: "0 < sw_LeastUnacked f" "sw_LeastUnacked f \<le> p"
    using stop_waiting_bound [OF stop.hyps(5)] stop.hyps(3) by auto
  show ?case
    using i(4,5) lu stop.hyps(3) by (intro inv_stop [OF i(1)]) auto
next
  case (ack h A t now ack h')
  then show ?case using inv_ack by blast
qed

section \<open>What an acknowledgement says\<close>

lemma list_ex_ranges: "list_ex (\<lambda>(first, final). p \<ge> first \<and> p \<le> final) rs \<longleftrightarrow> p \<in> ranges_set rs"
  by (fastforce simp: list_ex_iff ranges_set_def)

lemma desc_ok_ordered: "desc_ok rs \<Longrightarrow> ranges_ordered rs"
proof (induction rs rule: ranges_ordered.induct)
  case (1 first final first' final' rs)
  then have "add64 final' 1 = final' + 1" by (simp add: range_ok_def add64_def)
  then show ?case using 1 by (simp add: range_ok_def above_def)
qed simp_all

text \<open>The largest packet is the end of the last range, and the smallest the start of the first.\<close>

lemma ranges_bounds:
  assumes ok: "ranges_ok rs" and ne: "rs \<noteq> []" and big: "big \<in> ranges_set rs" "\<forall>q \<in> ranges_set rs. q \<le> big"
  shows "snd (last rs) = big" "fst (hd rs) \<in> ranges_set rs" "\<forall>q \<in> ranges_set rs. fst (hd rs) \<le> q"
proof -
  obtain a b rs' where hd: "rs = (a, b) # rs'" using ne by (cases rs) auto
  have h: "range_ok (a, b)" "\<forall>(c, d) \<in> set rs'. b + 1 < c" using ok by (auto simp: hd ranges_ok_Cons)
  show "fst (hd rs) \<in> ranges_set rs" using h(1) by (simp add: hd range_ok_def)
  have "a \<le> q" if "q \<in> ranges_set rs'" for q
    using that h by (fastforce simp: ranges_set_def range_ok_def)
  then show "\<forall>q \<in> ranges_set rs. fst (hd rs) \<le> q" by (auto simp: hd)
  obtain c d rs'' where la: "rs = rs'' @ [(c, d)]" using ne by (cases rs rule: rev_cases) auto
  have l: "range_ok (c, d)" "\<forall>r \<in> set rs''. above (c, d) r"
    using ok by (auto simp: la ranges_ok_def list_all_iff)
  have "d \<in> ranges_set rs" using l(1) by (simp add: la range_ok_def)
  moreover have "q \<le> d" if "q \<in> ranges_set rs''" for q
    using that l by (fastforce simp: ranges_set_def above_def range_ok_def)
  then have "big \<le> d" using big(1) by (auto simp: la)
  ultimately show "snd (last rs) = big" using big(2) by (force simp: la)
qed

lemma GetAckFrame_exact:
  assumes inv: "handler_inv h A t" and g: "GetAckFrame now h = Some (Some ack, h')"
  shows "\<forall>q. AcksPacket ack q \<longleftrightarrow> q \<in> A" "validateAckRanges ack" "LargestAcked ack \<in> A"
    "\<forall>q \<in> A. q \<le> LargestAcked ack"
proof -
  let ?rs = "ranges (packetHistory h)"
  have r: "ranges_ok ?rs" "ranges_set ?rs = A" using inv by (auto simp: handler_inv_def)
  have ne: "?rs \<noteq> []" using g by (auto simp: GetAckFrame_def GetAckRanges_def Let_def split: if_splits)
  then obtain a b rs' where hd: "?rs = (a, b) # rs'" by (cases ?rs) auto
  have "A \<noteq> {}" using r hd by (auto simp: ranges_ok_Cons range_ok_def)
  then have A: "largestObserved h \<in> A" "\<forall>q \<in> A. q \<le> largestObserved h"
    using inv by (auto simp: handler_inv_def)
  note b = ranges_bounds [OF r(1) ne, unfolded r(2), OF A]
  have "rev ?rs ! (length ?rs - 1) = hd ?rs" using ne by (simp add: rev_nth hd_conv_nth)
  then have ack: "LargestAcked ack = largestObserved h" "LowestAcked ack = fst (hd ?rs)"
    "AckRanges ack = (if length ?rs > 1 then rev ?rs else [])"
    using g ne by (auto simp: GetAckFrame_def GetAckRanges_def Let_def split: if_splits)
  show "LargestAcked ack \<in> A" "\<forall>q \<in> A. q \<le> LargestAcked ack" using A ack by auto
  have single: "A = {fst (hd ?rs)..largestObserved h}" if "\<not> length ?rs > 1"
  proof -
    have "?rs = [(a, b)]" using that hd by (cases rs') auto
    then show ?thesis using b r(2) by (auto simp: hd)
  qed
  show "\<forall>q. AcksPacket ack q \<longleftrightarrow> q \<in> A"
  proof
    fix q
    have "q \<in> A \<Longrightarrow> \<not> (q < LowestAcked ack \<or> q > LargestAcked ack)" using b(3) A(2) ack by fastforce
    then show "AcksPacket ack q \<longleftrightarrow> q \<in> A"
      using single ack by (auto simp: AcksPacket_def HasMissingRanges_def list_ex_ranges r(2) ne)
  qed
  have "list_all (\<lambda>(first, final). \<not> first > final) (rev ?rs)" "ranges_ordered (rev ?rs)"
    using r(1) desc_ok_ordered by (auto simp: ranges_ok_def desc_ok_def list_all_iff range_ok_def)
  moreover have "snd (rev ?rs ! 0) = largestObserved h" using b(1) ne by (simp add: rev_nth last_conv_nth)
  ultimately show "validateAckRanges ack"
    using ack by (auto simp: validateAckRanges_def)
qed

lemma GetAckFrame_no_panic:
  assumes "handler_inv h A t"
  shows "GetAckFrame now h \<noteq> None"
proof (cases "A = {}")
  case True
  then show ?thesis using assms by (simp add: handler_inv_def GetAckFrame_def)
next
  case False
  then have "ranges (packetHistory h) \<noteq> []" using assms by (auto simp: handler_inv_def)
  then show ?thesis by (auto simp: GetAckFrame_def GetAckRanges_def Let_def)
qed

section \<open>Between an arrival and its acknowledgement\<close>

text \<open>
  \<open>awaiting_ack v p t0 h A t\<close>: packet \<open>p\<close> arrived at time \<open>t0\<close> on a path and asks for an
  acknowledgement, and since then no acknowledgement was returned.  Meanwhile, up to time \<open>t\<close>, other
  packets may arrive, asking for an acknowledgement or not, STOP_WAITING frames may be handled, and
  acknowledgements may be asked for in vain.  As in \<open>handler_reach\<close>, \<open>h\<close> is the handler and \<open>A\<close> holds
  the packets the peer still waits for.
\<close>

inductive awaiting_ack ::
  "VersionNumber \<Rightarrow> PacketNumber \<Rightarrow> int \<Rightarrow> receivedPacketHandler \<Rightarrow> PacketNumber set \<Rightarrow> int \<Rightarrow> bool"
  for v p t0 where
  arrives: "\<lbrakk>handler_reach v h A t; t \<le> t0; lowerLimit h < p; p < 2 ^ 64 - 1;
     handler_ReceivedPacket t0 p True h = (None, h')\<rbrakk> \<Longrightarrow> awaiting_ack v p t0 h' (insert p A) t0"
| arrives_stop: "\<lbrakk>handler_reach v h A t; t \<le> t0; lowerLimit h < p; p < 2 ^ 64 - 1;
     handler_ReceivedPacket t0 p True h = (None, h'); ParseStopWaitingFrame p len v' b = Inr (f, rest)\<rbrakk> \<Longrightarrow>
     awaiting_ack v p t0 (SetLowerLimit (sub64 (sw_LeastUnacked f) 1) h')
       {q \<in> insert p A. q \<ge> sw_LeastUnacked f} t0"
| packet: "\<lbrakk>awaiting_ack v p t0 h A t; t \<le> now; q < 2 ^ 64 - 1; handler_ReceivedPacket now q i h = (None, h')\<rbrakk> \<Longrightarrow>
     awaiting_ack v p t0 h' (if q > lowerLimit h then insert q A else A) now"
| stop: "\<lbrakk>awaiting_ack v p t0 h A t; t \<le> now; q < 2 ^ 64 - 1; handler_ReceivedPacket now q i h = (None, h');
     ParseStopWaitingFrame q len v' b = Inr (f, rest)\<rbrakk> \<Longrightarrow>
     awaiting_ack v p t0 (SetLowerLimit (sub64 (sw_LeastUnacked f) 1) h')
       {r \<in> (if q > lowerLimit h then insert q A else A). r \<ge> sw_LeastUnacked f} now"
| no_ack: "\<lbrakk>awaiting_ack v p t0 h A t; t \<le> now; GetAckFrame now h = Some (None, h')\<rbrakk> \<Longrightarrow>
     awaiting_ack v p t0 h' A now"

text \<open>An acknowledgement is queued, or the alarm is set for \<open>a\<close> at the latest.\<close>

definition ack_due :: "int \<Rightarrow> receivedPacketHandler \<Rightarrow> bool" where
  "ack_due a h \<longleftrightarrow> ackQueued h \<or> (\<exists>a'. ackAlarm h = Some a' \<and> a' \<le> a)"

lemma maybeQueueAck_due: "ack_due a h \<Longrightarrow> ack_due a (maybeQueueAck t q i h)"
  by (auto simp: ack_due_def maybeQueueAck_def queueOrArm_def Let_def)

lemma handler_ReceivedPacket_due:
  assumes "ack_due a h" "handler_ReceivedPacket t q i h = (None, h')"
  shows "ack_due a h'"
proof -
  have "ack_due a (maybeQueueAck t q i (h\<lparr>packets := m, largestObserved := k, largestObservedReceivedTime := l, packetHistory := ph\<rparr>))"
    "ack_due a (maybeQueueAck t q i (h\<lparr>packets := m, packetHistory := ph\<rparr>))"
    "ack_due a (h\<lparr>packets := m, largestObserved := k, largestObservedReceivedTime := l\<rparr>)"
    "ack_due a (h\<lparr>packets := m\<rparr>)" for m k l ph
    using assms(1) by (auto intro!: maybeQueueAck_due) (simp_all add: ack_due_def)
  then show ?thesis
    using assms(2)
    by (auto simp: handler_ReceivedPacket_def Let_def split: if_splits prod.splits option.splits)
qed

lemma SetLowerLimit_due [simp]: "ack_due a (SetLowerLimit q h) = ack_due a h"
  by (simp add: ack_due_def SetLowerLimit_def)

lemma arrival_due:
  assumes "handler_reach v h A t" "t \<le> t0" "lowerLimit h < p" "p < 2 ^ 64 - 1"
    and r: "handler_ReceivedPacket t0 p True h = (None, h')"
  shows "ack_due (t0 + AckSendDelay) h'"
proof -
  have "handler_inv h' (insert p A) t0"
    using inv_packet(1) [OF handler_reach_inv [OF assms(1)] assms(2,4) r] assms(3) by simp
  then have "\<forall>a. ackAlarm h' = Some a \<longrightarrow> a \<le> t0 + AckSendDelay"
    by (simp add: handler_inv_def)
  moreover have "ackQueued h' \<or> ackAlarm h' \<noteq> None"
    using r assms(3) maybeQueueAck_alarm(3) [of True]
    by (auto simp: handler_ReceivedPacket_def Let_def split: if_splits prod.splits option.splits)
  ultimately show ?thesis by (auto simp: ack_due_def)
qed

lemma GetAckFrame_due:
  assumes "handler_inv h A t" "ack_due a h" "a \<le> now"
  shows "\<exists>ack h'. GetAckFrame now h = Some (Some ack, h')"
proof -
  have "\<not> (\<not> ackQueued h \<and> (case ackAlarm h of None \<Rightarrow> True | Some t \<Rightarrow> t > now))"
    using assms(2,3) by (auto simp: ack_due_def)
  then have "GetAckFrame now h \<noteq> Some (None, h')" for h'
    by (auto simp: GetAckFrame_def Let_def)
  then show ?thesis using GetAckFrame_no_panic [OF assms(1), of now] by force
qed

lemma awaiting_ack_inv:
  "awaiting_ack v p t0 h A t \<Longrightarrow> handler_reach v h A t \<and> ack_due (t0 + AckSendDelay) h"
proof (induction rule: awaiting_ack.induct)
  case (arrives h A t h')
  then show ?case using handler_reach.packet [of v h A t t0 p True h'] arrival_due by auto
next
  case (arrives_stop h A t h' len v' b f rest)
  then show ?case using handler_reach.stop [of v h A t t0 p True h' len v' b f rest] arrival_due by auto
next
  case (packet h A t now q i h')
  then show ?case using handler_reach.packet handler_ReceivedPacket_due by blast
next
  case (stop h A t now q i h' len v' b f rest)
  then show ?case
    using handler_reach.stop [of v h A t now q i h' len v' b f rest] handler_ReceivedPacket_due by auto
next
  case (no_ack h A t now h')
  have "h' = h" using no_ack.hyps(3) by (auto simp: GetAckFrame_def Let_def split: if_splits)
  then show ?case using no_ack handler_reach.ack by blast
qed

section \<open>Corner cases\<close>

text \<open>A CLOSE_PATH frame for a path on which nothing was received panics.\<close>

lemma close_path_panics: "GetClosePathFrame (NewReceivedPacketHandler v) = None"
  by (simp add: GetClosePathFrame_def NewReceivedPacketHandler_def newReceivedPacketHistory_def GetAckRanges_def)

text \<open>A packet received again is not filtered out: it is counted and queues an acknowledgement.\<close>

lemma maybeQueueAck_reordered:
  "lastAck h = Some ack \<Longrightarrow> p < LargestAcked ack \<Longrightarrow> ackQueued (maybeQueueAck t p i h)"
  by (simp add: maybeQueueAck_def Let_def)

lemma received_loop_duplicate:
  "desc_ok rs \<Longrightarrow> p \<in> ranges_set rs \<Longrightarrow> received_loop p rs = rs"
proof (induction rs)
  case (Cons r rs)
  obtain a b where r: "r = (a, b)" by (cases r)
  show ?case
  proof (cases "a \<le> p \<and> p \<le> b")
    case True
    then show ?thesis by (simp add: r)
  next
    case False
    then have p: "p \<in> ranges_set rs" using Cons.prems by (auto simp: r)
    then obtain c d where cd: "(c, d) \<in> set rs" "p \<le> d" "c \<le> p" by (auto simp: ranges_set_def)
    have ok: "range_ok (a, b)" "list_all (above (a, b)) rs" "desc_ok rs" using Cons.prems by (auto simp: r)
    then have "d + 1 < a" "range_ok (c, d)" using cd by (auto simp: list_all_iff above_def desc_ok_def)
    then have "p + 1 < a" "0 < p" "p + 1 < 2 ^ 64" "a \<le> b"
      using cd ok(1) by (auto simp: range_ok_def)
    then have "sub64 p 1 = p - 1" "add64 p 1 = p + 1" "b \<noteq> p - 1" "a \<noteq> p + 1" "\<not> p > b"
      by (auto simp: sub64_small add64_def)
    then show ?thesis
      using Cons.IH ok(3) p False by (simp add: r)
  qed
qed simp

lemma duplicate_queues_ack:
  assumes "handler_inv h A t" "p \<in> A" "lastAck h = Some ack" "p < LargestAcked ack"
    "length (ranges (packetHistory h)) < MaxTrackedReceivedAckRanges"
  shows "\<exists>h'. handler_ReceivedPacket now p i h = (None, h') \<and> packetHistory h' = packetHistory h \<and> ackQueued h'"
proof -
  have A: "A \<noteq> {}" using assms(2) by auto
  then have o: "lowerLimit h < p" "p \<le> largestObserved h" using assms(1,2) by (auto simp: handler_inv_def)
  have "received_loop p (rev (ranges (packetHistory h))) = rev (ranges (packetHistory h))"
    using assms(1,2) by (intro received_loop_duplicate) (auto simp: handler_inv_def ranges_ok_def)
  then have "history_ReceivedPacket p (packetHistory h) = (None, packetHistory h)"
    using assms(1,2,5) by (auto simp: history_ReceivedPacket_def handler_inv_def)
  then show ?thesis
    using o assms(3,4) maybeQueueAck_reordered by (auto simp: handler_ReceivedPacket_def Let_def)
qed

section \<open>A concrete path\<close>

definition demo_handler :: receivedPacketHandler where
  "demo_handler = snd (handler_ReceivedPacket 7 3 True (snd (handler_ReceivedPacket 5 1 True (NewReceivedPacketHandler 39))))"

lemmas demo_handler_eval = handler_ReceivedPacket_def NewReceivedPacketHandler_def newReceivedPacketHistory_def
  history_ReceivedPacket_def MaxTrackedReceivedAckRanges_def maybeQueueAck_def queueAckIf_def Let_def
  add64_def sub64_def

lemma demo_handler_reach: "handler_reach 39 demo_handler {1, 3} 7"
proof -
  let ?h = "snd (handler_ReceivedPacket 5 1 True (NewReceivedPacketHandler 39))"
  have 1: "handler_ReceivedPacket 5 1 True (NewReceivedPacketHandler 39) = (None, ?h)" "lowerLimit ?h = 0"
    by (simp_all add: demo_handler_eval)
  have 2: "handler_ReceivedPacket 7 3 True ?h = (None, demo_handler)"
    unfolding demo_handler_def by (simp add: demo_handler_eval)
  have "handler_reach 39 ?h {1} 5"
    using handler_reach.packet [OF handler_reach.start [of 39 0] _ _ 1(1)] by (simp add: NewReceivedPacketHandler_def)
  from handler_reach.packet [OF this _ _ 2] 1(2) show ?thesis by (simp add: insert_commute)
qed

text \<open>The acknowledgement of packets 1 and 3 is taken; packet 4 asks for another one, packet 5 does not.\<close>

definition demo_acked :: receivedPacketHandler where
  "demo_acked = snd (the (GetAckFrame 9 demo_handler))"

definition demo_armed :: receivedPacketHandler where
  "demo_armed = snd (handler_ReceivedPacket 10 4 True demo_acked)"

lemma demo_acked_eq:
  "GetAckFrame 9 demo_handler = Some (lastAck demo_acked, demo_acked)"
  "demo_acked = \<lparr>largestObserved = 3, lowerLimit = 0, largestObservedReceivedTime = Some 7,
     packetHistory = \<lparr>ranges = [(1, 1), (3, 3)], lowestInReceivedPacketNumbers = 0\<rparr>, ackSendDelay = AckSendDelay,
     packetsReceivedSinceLastAck = 0, retransmittablePacketsReceivedSinceLastAck = 0, ackQueued = False,
     ackAlarm = None, lastAck = Some \<lparr>PathID = 0, LargestAcked = 3, LowestAcked = 1, AckRanges = [(3, 3), (1, 1)],
       PacketReceivedTime = Some 7, DelayTime = 0\<rparr>, rph_version = 39, packets = 2\<rparr>"
  by (simp_all add: demo_acked_def demo_handler_def demo_handler_eval GetAckFrame_def GetAckRanges_def)

lemma demo_armed_eq:
  "handler_ReceivedPacket 10 4 True demo_acked = (None, demo_armed)"
  "demo_armed = demo_acked\<lparr>largestObserved := 4, largestObservedReceivedTime := Some 10,
     packetHistory := \<lparr>ranges = [(1, 1), (3, 4)], lowestInReceivedPacketNumbers = 0\<rparr>,
     packetsReceivedSinceLastAck := 1, retransmittablePacketsReceivedSinceLastAck := 1,
     ackAlarm := Some (10 + AckSendDelay), packets := 3\<rparr>"
  by (simp_all add: demo_armed_def demo_acked_eq(2) demo_handler_eval queueOrArm_def
      RetransmittablePacketsBeforeAck_def GetHighestAckRange_def)

lemma demo_awaiting:
  "\<exists>h. handler_ReceivedPacket 12 5 False demo_armed = (None, h) \<and> \<not> ackQueued h \<and>
     awaiting_ack 39 4 10 h {5, 4, 1, 3} 12"
proof -
  have "handler_reach 39 demo_acked {1, 3} 9"
    using handler_reach.ack [OF demo_handler_reach _ demo_acked_eq(1)] by simp
  then have "awaiting_ack 39 4 10 demo_armed {4, 1, 3} 10"
    by (rule awaiting_ack.arrives [OF _ _ _ _ demo_armed_eq(1)]) (simp_all add: demo_acked_eq(2))
  moreover obtain h where h: "handler_ReceivedPacket 12 5 False demo_armed = (None, h)" "\<not> ackQueued h"
    by (simp add: demo_armed_eq(2) demo_acked_eq(2) demo_handler_eval GetHighestAckRange_def)
  moreover have "lowerLimit demo_armed = 0" by (simp add: demo_armed_eq(2) demo_acked_eq(2))
  ultimately show ?thesis using awaiting_ack.packet [OF _ _ _ h(1), of 39 4 10 "{4, 1, 3}" 10] by simp
qed

section \<open>Properties\<close>

text \<open>
  C26: the packet history is a set of packet numbers, kept as maximal intervals: recording a packet
  adds exactly that number, for every position relative to the intervals (inside, extending one,
  joining two, between two, before or after all), forgetting removes exactly the numbers up to
  the limit, and the intervals stay sorted, disjoint and non-adjacent.
\<close>

theorem history_refines_set:
  assumes "ranges_ok (ranges h)" "0 < p" "p < 2 ^ 64 - 1"
  shows "(case history_ReceivedPacket p h of
       (Some e, h') \<Rightarrow> h' = h \<and> MaxTrackedReceivedAckRanges \<le> length (ranges h)
     | (None, h') \<Rightarrow> ranges_ok (ranges h') \<and> ranges_set (ranges h') = insert p (ranges_set (ranges h))) \<and>
     ranges_ok (ranges (DeleteUpTo p h)) \<and>
     ranges_set (ranges (DeleteUpTo p h)) = {q \<in> ranges_set (ranges h). p < q}"
proof -
  have "case history_ReceivedPacket p h of
       (Some e, h') \<Rightarrow> h' = h \<and> MaxTrackedReceivedAckRanges \<le> length (ranges h)
     | (None, h') \<Rightarrow> ranges_ok (ranges h') \<and> ranges_set (ranges h') = insert p (ranges_set (ranges h))"
    using history_ReceivedPacket_ok [OF assms]
    by (auto split: prod.split option.split) (auto simp: history_ReceivedPacket_def split: if_splits)
  then show ?thesis
    using delete_loop_ok [OF assms(1), of p] by (simp add: DeleteUpTo_def)
qed

theorem history_refines_set_witness:
  "ranges_ok [(3, 5), (7, 9)] \<and>
   ranges_set (ranges (snd (history_ReceivedPacket 6 \<lparr>ranges = [(3, 5), (7, 9)], lowestInReceivedPacketNumbers = 0\<rparr>)))
     = insert 6 (ranges_set [(3, 5), (7, 9)])"
proof -
  let ?h = "\<lparr>ranges = [(3, 5), (7, 9)], lowestInReceivedPacketNumbers = 0\<rparr>"
  have ok: "ranges_ok (ranges ?h)"
    by (simp add: ranges_ok_def range_ok_def above_def)
  have "fst (history_ReceivedPacket 6 ?h) = None"
    by (simp add: history_ReceivedPacket_def MaxTrackedReceivedAckRanges_def)
  then show ?thesis
    using history_refines_set [OF ok, of 6] ok by (auto split: prod.splits option.splits)
qed

text \<open>
  C25: acknowledgements are exact.  Whatever packets arrive in whatever order, with STOP_WAITING
  frames that passed the parser, asking for an acknowledgement never panics, and the frame
  returned acknowledges exactly the packets recorded that the peer still waits for, names the
  largest of them and passes the validation of the peer's parser.
\<close>

theorem ack_frame_exact:
  assumes "handler_reach v h A t" "t \<le> now"
  shows "\<exists>ack h'. GetAckFrame now h = Some (ack, h') \<and>
     (case ack of None \<Rightarrow> True
      | Some f \<Rightarrow> (\<forall>q. AcksPacket f q \<longleftrightarrow> q \<in> A) \<and> validateAckRanges f \<and> LargestAcked f = Max A)"
proof -
  have inv: "handler_inv h A t" using assms(1) by (rule handler_reach_inv)
  have fin: "finite A"
    using inv by (auto simp: handler_inv_def ranges_set_def)
  obtain ack h' where g: "GetAckFrame now h = Some (ack, h')"
    using GetAckFrame_no_panic [OF inv, of now] by auto
  show ?thesis
  proof (cases ack)
    case None
    then show ?thesis using g by simp
  next
    case (Some f)
    note e = GetAckFrame_exact [OF inv g [unfolded Some]]
    have "Max A = LargestAcked f" using e(3,4) fin by (intro Max_eqI) auto
    then show ?thesis using g Some e by simp
  qed
qed

theorem ack_frame_exact_witness:
  "\<exists>f h'. GetAckFrame 9 demo_handler = Some (Some f, h') \<and> AcksPacket f 1 \<and> \<not> AcksPacket f 2 \<and> LargestAcked f = 3"
proof -
  have "ackQueued demo_handler"
    by (simp add: demo_handler_def demo_handler_eval)
  then have "\<And>h'. GetAckFrame 9 demo_handler \<noteq> Some (None, h')"
    by (auto simp: GetAckFrame_def Let_def)
  moreover obtain ack h' where "GetAckFrame 9 demo_handler = Some (ack, h')"
    "case ack of None \<Rightarrow> True
      | Some f \<Rightarrow> (\<forall>q. AcksPacket f q \<longleftrightarrow> q \<in> {1, 3}) \<and> validateAckRanges f \<and> LargestAcked f = Max {1, 3}"
    using ack_frame_exact [OF demo_handler_reach, of 9] by auto
  ultimately show ?thesis by (cases ack) auto
qed

text \<open>
  C27: acknowledgements are timely.  After a packet that asks for an acknowledgement, whatever else
  arrives in the meantime, the first acknowledgement asked for at or after \<^verbatim>\<open>AckSendDelay\<close> past its
  arrival is returned, unless one was returned before; and it acknowledges that packet, unless
  a STOP_WAITING frame said that the peer no longer waits for it.
\<close>

theorem ack_in_time:
  assumes "awaiting_ack v p t0 h A t" "t \<le> now" "t0 + AckSendDelay \<le> now"
  shows "\<exists>ack h'. GetAckFrame now h = Some (Some ack, h') \<and> (AcksPacket ack p \<longleftrightarrow> p \<in> A)"
proof -
  have inv: "handler_inv h A t" "ack_due (t0 + AckSendDelay) h"
    using awaiting_ack_inv [OF assms(1)] handler_reach_inv by auto
  from GetAckFrame_due [OF inv assms(3)] obtain ack h' where "GetAckFrame now h = Some (Some ack, h')"
    by blast
  then show ?thesis using GetAckFrame_exact(1) [OF inv(1)] by blast
qed

theorem ack_in_time_witness:
  "\<exists>h ack h'. handler_ReceivedPacket 10 4 True demo_acked = (None, demo_armed) \<and>
     handler_ReceivedPacket 12 5 False demo_armed = (None, h) \<and> \<not> ackQueued h \<and>
     GetAckFrame (10 + AckSendDelay) h = Some (Some ack, h') \<and> AcksPacket ack 4"
proof -
  obtain h where h: "handler_ReceivedPacket 12 5 False demo_armed = (None, h)" "\<not> ackQueued h"
    "awaiting_ack 39 4 10 h {5, 4, 1, 3} 12"
    using demo_awaiting by blast
  have "12 \<le> 10 + AckSendDelay" by (simp add: AckSendDelay_def)
  from ack_in_time [OF h(3) this] show ?thesis using h demo_armed_eq(1) by auto
qed

end
