(* ===== verification/Ack_Frames.thy ===== *)
theory Ack_Frames
  imports Received_Packets
begin

text \<open>
  Model of the byte formats of \<^verbatim>\<open>internal/wire/ack_frame.go\<close> and \<^verbatim>\<open>close_path_frame.go\<close>.  The two
  frames share the encoding of their ranges: the length of the first range, and for each further one
  the gap before it and its length, where a gap of more than 255 packets is cut into blocks of length
  zero.  What both files repeat for the ranges is defined once; \<open>w k n\<close> stands for the \<^verbatim>\<open>switch\<close> that
  writes \<open>n\<close> in \<open>k\<close> bytes, which masks to 48 bits in \<^verbatim>\<open>ack_frame.go\<close> only.
\<close>

section \<open>Ranges\<close>

definition range_len :: "AckRange \<Rightarrow> PacketNumber" where
  "range_len r = add64 (sub64 (snd r) (fst r)) 1"

definition range_gap :: "AckRange \<Rightarrow> AckRange \<Rightarrow> PacketNumber" where
  "range_gap prev r = sub64 (sub64 (fst prev) (snd r)) 1"

text \<open>The number of blocks a gap takes.\<close>

definition gap_blocks :: "nat \<Rightarrow> nat" where
  "gap_blocks gap = (let num = gap div 0xFF + 1 in if gap mod 0xFF = 0 then num - 1 else num)"

fun writable_loop :: "AckRange list \<Rightarrow> nat \<Rightarrow> nat" where
  "writable_loop (prev # r # rs) numRanges =
     (let rangeLength = gap_blocks (range_gap prev r)
      in if numRanges + rangeLength < 0xFF then writable_loop (r # rs) (numRanges + rangeLength)
         else numRanges)"
| "writable_loop rs numRanges = numRanges"

definition numWritableNackRanges :: "AckRange list \<Rightarrow> nat" where
  "numWritableNackRanges rs = (if length rs = 0 then 0 else writable_loop rs 0 + 1)"

definition getMissingSequenceNumberDeltaLen :: "AckRange list \<Rightarrow> PacketNumber \<Rightarrow> PacketNumber \<Rightarrow> nat" where
  "getMissingSequenceNumberDeltaLen rs largest lowest =
     (let maxRangeLength =
            (if length rs > 0
             then foldl (\<lambda>m r. if range_len r > m then range_len r else m) 0 rs
             else add64 (sub64 largest lowest) 1)
      in if maxRangeLength \<le> 0xFF then PacketNumberLen1
         else if maxRangeLength \<le> 0xFFFF then PacketNumberLen2
         else if maxRangeLength \<le> 0xFFFFFFFF then PacketNumberLen4
         else PacketNumberLen6)"

text \<open>The \<^verbatim>\<open>switch\<close> over the length of a number.\<close>

definition write_pn :: "bool \<Rightarrow> ByteOrder \<Rightarrow> nat \<Rightarrow> nat \<Rightarrow> writer" where
  "write_pn masked bo k n =
     (if k = PacketNumberLen1 then wbytes [word_of_nat n]
      else if k = PacketNumberLen2 then wbytes (WriteUint16 bo (word_of_nat n))
      else if k = PacketNumberLen4 then wbytes (WriteUint32 bo (word_of_nat n))
      else if k = PacketNumberLen6
      then wchecked (WriteUint48 bo (word_of_nat (if masked then n mod 2 ^ 48 else n)))
      else wbytes [])"

definition write_gap :: "(nat \<Rightarrow> writer) \<Rightarrow> nat \<Rightarrow> nat \<Rightarrow> writer" where
  "write_gap w gap len =
     (let num = gap_blocks gap
      in if num = 1 then wappend (wbytes [word_of_nat gap]) (w len)
         else foldr (\<lambda>i. wappend
                (if i = num - 1
                 then wappend (wbytes [word_of_nat (1 + sub64 gap 1 mod 255)]) (w len)
                 else wappend (wbytes [0xFF]) (w 0))) [0..<num] (wbytes []))"

text \<open>The loop over the ranges after the first, with the number of blocks written so far.\<close>

fun write_ranges :: "(nat \<Rightarrow> writer) \<Rightarrow> nat \<Rightarrow> AckRange list \<Rightarrow> nat \<Rightarrow> writer \<times> nat" where
  "write_ranges w numRanges (prev # r # rs) written =
     (let gap = range_gap prev r;
          out = write_gap w gap (range_len r);
          written = written + gap_blocks gap
      in if written \<ge> numRanges then (out, written)
         else case write_ranges w numRanges (r # rs) written of (out', n) \<Rightarrow> (wappend out out', n))"
| "write_ranges w numRanges rs written = (wbytes [], written)"

text \<open>The first block length and the checks before it, and the ranges.\<close>

definition write_first :: "(nat \<Rightarrow> writer) \<Rightarrow> AckRange list \<Rightarrow> PacketNumber \<Rightarrow> PacketNumber \<Rightarrow> writer" where
  "write_first w rs largest lowest =
     (if length rs = 0 then w (add64 (sub64 largest lowest) 1)
      else if largest \<noteq> snd (hd rs) then Some (Inl errInconsistentAckLargestAcked)
      else if lowest \<noteq> fst (last rs) then Some (Inl errInconsistentAckLowestAcked)
      else w (add64 (sub64 largest (fst (hd rs))) 1))"

definition write_blocks :: "(nat \<Rightarrow> writer) \<Rightarrow> AckRange list \<Rightarrow> writer" where
  "write_blocks w rs =
     (let numRanges = numWritableNackRanges rs
      in case write_ranges w numRanges rs (if length rs = 0 then 0 else 1) of (out, written) \<Rightarrow>
           wappend out (if numRanges \<noteq> written then Some (Inl errInconsistentNumberOfRanges) else wbytes []))"

text \<open>The byte with the number of blocks after the first.\<close>

definition write_num_blocks :: "AckRange list \<Rightarrow> writer" where
  "write_num_blocks rs =
     (if length rs = 0 then wbytes []
      else if numWritableNackRanges rs > 0xFF then None
      else wbytes [word_of_nat (numWritableNackRanges rs - 1)])"

text \<open>
  The loop of the parsers over the blocks: \<open>r # rs\<close> are the ranges read so far, the last one first;
  \<open>long\<close> is \<^verbatim>\<open>inLongBlock\<close>, \<open>complete\<close> is \<^verbatim>\<open>lastRangeComplete\<close>.
\<close>

fun parse_blocks :: "ByteOrder \<Rightarrow> nat \<Rightarrow> nat \<Rightarrow> AckRange \<Rightarrow> AckRange list \<Rightarrow> bool \<Rightarrow> bool \<Rightarrow> (AckRange list \<times> bool) parser" where
  "parse_blocks bo k 0 r rs long complete = pret (r # rs, complete)"
| "parse_blocks bo k (Suc n) r rs long complete =
     pbind (pread ReadByte) (\<lambda>gap.
     pbind (pread (ReadUintN bo k)) (\<lambda>ackBlockLength.
       let gap = unat gap; len = unat ackBlockLength
       in if long
          then parse_blocks bo k n (sub64 (fst r) (add64 gap len), sub64 (snd r) gap) rs (len = 0) (complete \<or> len > 0)
          else let final = sub64 (sub64 (fst r) gap) 1
               in parse_blocks bo k n (add64 (sub64 final len) 1, final) (r # rs) (len = 0) (len > 0)))"

text \<open>The ranges and the lowest packet of a frame with missing packets.\<close>

definition parse_ranges :: "ByteOrder \<Rightarrow> nat \<Rightarrow> nat \<Rightarrow> nat \<Rightarrow> nat \<Rightarrow> (AckRange list \<times> PacketNumber) parser" where
  "parse_ranges bo k numAckBlocks largest blockLen =
     pbind (parse_blocks bo k numAckBlocks (add64 (sub64 largest blockLen) 1, largest) [] False False) (\<lambda>(rs, complete).
       let rs = (if complete then rs else tl rs) in pret (rev rs, fst (hd rs)))"

definition parse_lowest :: "nat \<Rightarrow> nat \<Rightarrow> PacketNumber" where
  "parse_lowest largest blockLen = (if largest = 0 then 0 else sub64 (add64 largest 1) blockLen)"

definition parse_num_blocks :: "bool \<Rightarrow> byte parser" where
  "parse_num_blocks missing = (if missing then pread ReadByte else pret 0)"

section \<open>ACK frames\<close>

definition num_len :: "byte \<Rightarrow> nat" where
  "num_len bits = (let n = 2 * bits in if n = 0 then 1 else unat n)"

fun parse_timestamps :: "ByteOrder \<Rightarrow> nat \<Rightarrow> unit parser" where
  "parse_timestamps bo 0 = pret ()"
| "parse_timestamps bo (Suc n) =
     pbind (pread ReadByte) (\<lambda>_. pbind (pread (ReadUint16 bo)) (\<lambda>_. parse_timestamps bo n))"

definition parse_ack_tail :: "ByteOrder \<Rightarrow> AckFrame \<Rightarrow> AckFrame parser" where
  "parse_ack_tail bo frame =
     (if \<not> validateAckRanges frame then pfail ErrInvalidAckRanges
      else pbind (pread ReadByte) (\<lambda>numTimestamp.
        if numTimestamp > 0
        then pbind (pread ReadByte) (\<lambda>_.
             pbind (pread (ReadUint32 bo)) (\<lambda>_.
             pbind (parse_timestamps bo (unat numTimestamp - 1)) (\<lambda>_. pret frame)))
        else pret frame))"

definition ParseAckFrame :: "VersionNumber \<Rightarrow> AckFrame parser" where
  "ParseAckFrame v =
     (let bo = GetByteOrder v
      in pbind (pread ReadByte) (\<lambda>typeByte.
         let missing = (typeByte AND 0x20 = 0x20);
             largestAckedLen = num_len (drop_bit 2 (typeByte AND 0x0C));
             k = num_len (typeByte AND 0x03)
         in pbind (if typeByte AND 0x10 = 0x10 then pread ReadByte else pret 0) (\<lambda>pathID.
            pbind (pread (ReadUintN bo largestAckedLen)) (\<lambda>largestAcked.
            pbind (pread (readUfloat16 bo)) (\<lambda>delay.
            pbind (parse_num_blocks missing) (\<lambda>numAckBlocks.
            if missing \<and> numAckBlocks = 0 then pfail ErrInvalidAckRanges
            else pbind (pread (ReadUintN bo k)) (\<lambda>ackBlockLength.
              let largest = unat largestAcked; blockLen = unat ackBlockLength;
                  frame = \<lparr>PathID = unat pathID, LargestAcked = largest, LowestAcked = 0, AckRanges = [],
                           PacketReceivedTime = None, DelayTime = int delay * 1000\<rparr>
              in if largest > 0 \<and> blockLen < 1 then pfail ErrInvalidFirstAckRange
                 else if blockLen > largest then pfail ErrInvalidAckRanges
                 else if missing
                 then pbind (parse_ranges bo k (unat numAckBlocks) largest blockLen) (\<lambda>(rs, lowest).
                        parse_ack_tail bo (frame\<lparr>AckRanges := rs, LowestAcked := lowest\<rparr>))
                 else parse_ack_tail bo (frame\<lparr>LowestAcked := parse_lowest largest blockLen\<rparr>))))))))"

text \<open>\<^verbatim>\<open>time.Since\<close>, which saturates for the zero time, and the conversion to microseconds.\<close>

definition Since :: "int \<Rightarrow> int option \<Rightarrow> int" where
  "Since now t = (case t of None \<Rightarrow> 2 ^ 63 - 1 | Some t \<Rightarrow> now - t)"

definition microseconds :: "int \<Rightarrow> nat" where
  "microseconds d = nat ((if d \<ge> 0 then d div 1000 else - ((- d) div 1000)) mod 2 ^ 64)"

definition len_bits :: "nat \<Rightarrow> byte" where
  "len_bits k = (if k \<noteq> PacketNumberLen1 then word_of_nat (k div 2) else 0)"

definition ack_typeByte :: "AckFrame \<Rightarrow> byte" where
  "ack_typeByte f =
     (let t = 0x40 XOR push_bit 2 (len_bits (GetPacketNumberLength (LargestAcked f)));
          t = t XOR len_bits (getMissingSequenceNumberDeltaLen (AckRanges f) (LargestAcked f) (LowestAcked f));
          t = (if HasMissingRanges f then t OR 0x20 else t)
      in if PathID f \<noteq> 0 then t OR 0x10 else t)"

definition AckFrame_Write :: "VersionNumber \<Rightarrow> int \<Rightarrow> AckFrame \<Rightarrow> writer \<times> AckFrame" where
  "AckFrame_Write v now f =
     (let bo = GetByteOrder v;
          k = getMissingSequenceNumberDeltaLen (AckRanges f) (LargestAcked f) (LowestAcked f);
          w = write_pn True bo k;
          f' = f\<lparr>DelayTime := Since now (PacketReceivedTime f)\<rparr>
      in (wappend (wbytes ([ack_typeByte f] @ (if PathID f \<noteq> 0 then [word_of_nat (PathID f)] else [])))
         (wappend (write_pn True bo (GetPacketNumberLength (LargestAcked f)) (LargestAcked f))
         (wappend (wbytes (writeUfloat16 bo (microseconds (DelayTime f'))))
         (wappend (write_num_blocks (AckRanges f))
         (wappend (write_first w (AckRanges f) (LargestAcked f) (LowestAcked f))
         (wappend (write_blocks w (AckRanges f)) (wbytes [0])))))), f'))"

definition ranges_MinLength :: "nat \<Rightarrow> AckRange list \<Rightarrow> nat" where
  "ranges_MinLength k rs = (if length rs > 0 then (1 + k) * numWritableNackRanges rs else k)"

definition AckFrame_MinLength :: "AckFrame \<Rightarrow> nat" where
  "AckFrame_MinLength f =
     1 + 2 + 1 + GetPacketNumberLength (LargestAcked f)
     + ranges_MinLength (getMissingSequenceNumberDeltaLen (AckRanges f) (LargestAcked f) (LowestAcked f)) (AckRanges f)
     + (if PathID f \<noteq> 0 then 1 else 0)"

section \<open>CLOSE\_PATH frames\<close>

record ClosePathFrame =
  cp_PathID :: nat
  cp_LargestAcked :: PacketNumber
  cp_LowestAcked :: PacketNumber
  cp_AckRanges :: "AckRange list"

text \<open>\<^verbatim>\<open>validateAckRanges\<close> and \<^verbatim>\<open>AcksPacket\<close> are those of the ACK frame with the same ranges.\<close>

definition close_path_ack :: "ClosePathFrame \<Rightarrow> AckFrame" where
  "close_path_ack f =
     \<lparr>PathID = cp_PathID f, LargestAcked = cp_LargestAcked f, LowestAcked = cp_LowestAcked f,
      AckRanges = cp_AckRanges f, PacketReceivedTime = None, DelayTime = 0\<rparr>"

definition ClosePathFrame_AcksPacket :: "ClosePathFrame \<Rightarrow> PacketNumber \<Rightarrow> bool" where
  "ClosePathFrame_AcksPacket f = AcksPacket (close_path_ack f)"

definition ParseClosePathFrame :: "VersionNumber \<Rightarrow> ClosePathFrame parser" where
  "ParseClosePathFrame v =
     (let bo = GetByteOrder v
      in pbind (pread ReadByte) (\<lambda>_.
         pbind (pread ReadByte) (\<lambda>pathID.
         pbind (pread ReadByte) (\<lambda>flags.
         let missing = (flags AND 0x10 = 0x10);
             largestAckedLen = num_len (drop_bit 2 (flags AND 0x0C));
             k = num_len (flags AND 0x03)
         in pbind (parse_num_blocks missing) (\<lambda>numAckBlocks.
            if missing \<and> numAckBlocks = 0 then pfail ErrInvalidAckRanges
            else pbind (pread (ReadUintN bo largestAckedLen)) (\<lambda>largestAcked.
                 pbind (pread (ReadUintN bo k)) (\<lambda>ackBlockLength.
              let largest = unat largestAcked; blockLen = unat ackBlockLength;
                  frame = \<lparr>cp_PathID = unat pathID, cp_LargestAcked = largest, cp_LowestAcked = 0, cp_AckRanges = []\<rparr>;
                  check = (\<lambda>f. if \<not> validateAckRanges (close_path_ack f) then pfail ErrInvalidAckRanges else pret f)
              in if largest > 0 \<and> blockLen < 1 then pfail ErrInvalidFirstAckRange
                 else if blockLen > largest then pfail ErrInvalidAckRanges
                 else if missing
                 then pbind (parse_ranges bo k (unat numAckBlocks) largest blockLen) (\<lambda>(rs, lowest).
                        check (frame\<lparr>cp_AckRanges := rs, cp_LowestAcked := lowest\<rparr>))
                 else check (frame\<lparr>cp_LowestAcked := parse_lowest largest blockLen\<rparr>))))))))"

definition close_path_flags :: "ClosePathFrame \<Rightarrow> byte" where
  "close_path_flags f =
     (let t = (if length (cp_AckRanges f) > 0 then 0x10 else 0);
          t = t XOR push_bit 2 (len_bits (GetPacketNumberLength (cp_LargestAcked f)))
      in t XOR len_bits (getMissingSequenceNumberDeltaLen (cp_AckRanges f) (cp_LargestAcked f) (cp_LowestAcked f)))"

definition ClosePathFrame_Write :: "VersionNumber \<Rightarrow> ClosePathFrame \<Rightarrow> writer" where
  "ClosePathFrame_Write v f =
     (let bo = GetByteOrder v;
          k = getMissingSequenceNumberDeltaLen (cp_AckRanges f) (cp_LargestAcked f) (cp_LowestAcked f);
          w = write_pn False bo k
      in wappend (wbytes [0x11, word_of_nat (cp_PathID f), close_path_flags f])
         (wappend (write_num_blocks (cp_AckRanges f))
         (wappend (write_pn False bo (GetPacketNumberLength (cp_LargestAcked f)) (cp_LargestAcked f))
         (wappend (write_first w (cp_AckRanges f) (cp_LargestAcked f) (cp_LowestAcked f))
            (write_blocks w (cp_AckRanges f))))))"

definition ClosePathFrame_MinLength :: "ClosePathFrame \<Rightarrow> nat" where
  "ClosePathFrame_MinLength f =
     1 + 1 + 1 + GetPacketNumberLength (cp_LargestAcked f)
     + ranges_MinLength (getMissingSequenceNumberDeltaLen (cp_AckRanges f) (cp_LargestAcked f) (cp_LowestAcked f))
         (cp_AckRanges f)"

section \<open>Numbers and type bytes\<close>

lemma write_pn_bytes:
  assumes "k \<in> {1, 2, 4, 6}" "n < 2 ^ (8 * k)"
  shows "write_pn masked bo k n = wbytes (uint_bytes bo k n)"
  using assms by (auto simp: write_pn_def pn_len_defs write_uint_bytes uint_bytes_1 wchecked_def wbytes_def)

lemma GetPacketNumberLength_fits:
  "GetPacketNumberLength n \<in> {1, 2, 4, 6}" "n < 2 ^ 48 \<Longrightarrow> n < 2 ^ (8 * GetPacketNumberLength n)"
  by (auto simp: GetPacketNumberLength_def pn_len_defs)

lemma foldl_max_len:
  "(\<forall>r \<in> set rs. range_len r \<le> foldl (\<lambda>m r. if range_len r > m then range_len r else m) a rs) \<and>
   a \<le> foldl (\<lambda>m r. if range_len r > m then range_len r else m) a rs"
proof (induction rs arbitrary: a)
  case (Cons r rs)
  let ?b = "if range_len r > a then range_len r else a"
  show ?case using Cons [of ?b] by auto
qed simp

lemma foldl_max_bound:
  "a < N \<Longrightarrow> \<forall>r \<in> set rs. range_len r < N \<Longrightarrow> foldl (\<lambda>m r. if range_len r > m then range_len r else m) a rs < N"
  by (induction rs arbitrary: a) auto

lemma delta_len_fits:
  assumes "\<forall>r \<in> set rs. range_len r < 2 ^ 48" "rs = [] \<Longrightarrow> add64 (sub64 largest lowest) 1 < 2 ^ 48"
    and k: "k = getMissingSequenceNumberDeltaLen rs largest lowest"
  shows "k \<in> {1, 2, 4, 6}" "\<forall>r \<in> set rs. range_len r < 2 ^ (8 * k)"
    "rs = [] \<Longrightarrow> add64 (sub64 largest lowest) 1 < 2 ^ (8 * k)"
proof -
  show "k \<in> {1, 2, 4, 6}" by (auto simp: k getMissingSequenceNumberDeltaLen_def pn_len_defs Let_def)
  show "rs = [] \<Longrightarrow> add64 (sub64 largest lowest) 1 < 2 ^ (8 * k)"
    using assms(2) by (auto simp: k getMissingSequenceNumberDeltaLen_def pn_len_defs Let_def)
  show "\<forall>r \<in> set rs. range_len r < 2 ^ (8 * k)"
  proof
    fix r assume r: "r \<in> set rs"
    define m where "m = foldl (\<lambda>m r. if range_len r > m then range_len r else m) 0 rs"
    have m: "range_len r \<le> m" "m < 2 ^ 48" "length rs > 0"
      using r foldl_max_len [of rs 0] foldl_max_bound [of 0 "2 ^ 48" rs] assms(1) by (auto simp: m_def)
    then have "k = (if m \<le> 0xFF then 1 else if m \<le> 0xFFFF then 2 else if m \<le> 0xFFFFFFFF then 4 else 6)"
      by (simp add: k getMissingSequenceNumberDeltaLen_def pn_len_defs Let_def m_def)
    then show "range_len r < 2 ^ (8 * k)" using m(1,2) by (auto split: if_splits)
  qed
qed

lemma ack_typeByte_fields:
  assumes "l = GetPacketNumberLength (LargestAcked f)" "l \<in> {1, 2, 4, 6}"
    and "k = getMissingSequenceNumberDeltaLen (AckRanges f) (LargestAcked f) (LowestAcked f)" "k \<in> {1, 2, 4, 6}"
  shows "(ack_typeByte f AND 0x20 = 0x20) = HasMissingRanges f" "(ack_typeByte f AND 0x10 = 0x10) = (PathID f \<noteq> 0)"
    "num_len (drop_bit 2 (ack_typeByte f AND 0x0C)) = l" "num_len (ack_typeByte f AND 0x03) = k"
  using assms(2,4) unfolding ack_typeByte_def assms(1,3) [symmetric]
  by (cases "HasMissingRanges f"; cases "PathID f = 0"; auto simp: len_bits_def num_len_def pn_len_defs)+

lemma close_path_flags_fields:
  assumes "l = GetPacketNumberLength (cp_LargestAcked f)" "l \<in> {1, 2, 4, 6}"
    and "k = getMissingSequenceNumberDeltaLen (cp_AckRanges f) (cp_LargestAcked f) (cp_LowestAcked f)" "k \<in> {1, 2, 4, 6}"
  shows "(close_path_flags f AND 0x10 = 0x10) = (cp_AckRanges f \<noteq> [])"
    "num_len (drop_bit 2 (close_path_flags f AND 0x0C)) = l" "num_len (close_path_flags f AND 0x03) = k"
  using assms(2,4) unfolding close_path_flags_def assms(1,3) [symmetric]
  by (cases "cp_AckRanges f = []"; auto simp: len_bits_def num_len_def pn_len_defs)+

section \<open>One gap\<close>

lemma gap_blocks_eq: "0 < gap \<Longrightarrow> gap_blocks gap = Suc ((gap - 1) div 255)"
proof -
  assume "0 < gap"
  define q r where "q = gap div 255" and "r = gap mod 255"
  have g: "gap = 255 * q + r" "r < 255" by (simp_all add: q_def r_def)
  show ?thesis
  proof (cases "r = 0")
    case True
    then obtain q' where "q = Suc q'" using g \<open>0 < gap\<close> by (cases q) auto
    then have "(gap - 1) div 255 = q'" using g True by simp
    then show ?thesis using True \<open>q = Suc q'\<close> by (simp add: gap_blocks_def q_def r_def)
  next
    case False
    then have "gap - 1 = 255 * q + (r - 1)" "r - 1 < 255" using g by auto
    then have "(gap - 1) div 255 = q" by simp
    then show ?thesis using False by (simp add: gap_blocks_def q_def r_def)
  qed
qed

definition gap_enc :: "ByteOrder \<Rightarrow> nat \<Rightarrow> nat \<Rightarrow> nat \<Rightarrow> bytes" where
  "gap_enc bo k gap len =
     concat (replicate ((gap - 1) div 255) (0xFF # uint_bytes bo k 0))
     @ word_of_nat (1 + (gap - 1) mod 255) # uint_bytes bo k len"

lemma length_concat_replicate [simp]: "length (concat (replicate n xs)) = n * length xs"
  by (induction n) auto

lemma length_gap_enc: "0 < gap \<Longrightarrow> length (gap_enc bo k gap len) = gap_blocks gap * Suc k"
  by (simp add: gap_enc_def gap_blocks_eq)

lemma foldr_wappend:
  "\<forall>i \<in> set is. f i = wbytes x \<Longrightarrow>
   foldr (\<lambda>i. wappend (f i)) is (wbytes b) = wbytes (concat (replicate (length is) x) @ b)"
  by (induction "is") auto

lemma write_gap_bytes:
  assumes gap: "0 < gap" "gap < 2 ^ 64" and w: "w 0 = wbytes (uint_bytes bo k 0)" "w len = wbytes (uint_bytes bo k len)"
  shows "write_gap w gap len = wbytes (gap_enc bo k gap len)"
proof -
  define q where "q = (gap - 1) div 255"
  have num: "gap_blocks gap = Suc q" using gap by (simp add: gap_blocks_eq q_def)
  have sub: "sub64 gap 1 = gap - 1" using gap by (intro sub64_small) auto
  show ?thesis
  proof (cases "q = 0")
    case True
    then have "1 + (gap - 1) mod 255 = gap" using gap(1) by (simp add: q_def div_eq_0_iff)
    then show ?thesis using True num w by (simp add: write_gap_def gap_enc_def q_def)
  next
    case False
    let ?f = "\<lambda>i. if i = q then wappend (wbytes [word_of_nat (1 + (gap - 1) mod 255)]) (w len)
                 else wappend (wbytes [0xFF]) (w 0)"
    have "write_gap w gap len = foldr (\<lambda>i. wappend (?f i)) ([0..<q] @ [q]) (wbytes [])"
      using False by (simp only: write_gap_def Let_def num sub) simp
    also have "\<dots> = foldr (\<lambda>i. wappend (?f i)) [0..<q] (wbytes (word_of_nat (1 + (gap - 1) mod 255) # uint_bytes bo k len))"
      using w(2) by simp
    also have "\<dots> = wbytes (concat (replicate (length [0..<q]) (0xFF # uint_bytes bo k 0)) @
        word_of_nat (1 + (gap - 1) mod 255) # uint_bytes bo k len)"
      using w(1) by (intro foldr_wappend) simp
    finally show ?thesis by (simp add: gap_enc_def q_def)
  qed
qed

lemma pbind_uint_bytes:
  assumes "k \<le> 8" "n < 2 ^ (8 * k)"
  shows "pbind (pread (ReadUintN bo k)) f (uint_bytes bo k n @ b) = f (word_of_nat n) b"
  by (rule pbind_pread) (rule read_uint_bytes [OF assms])

lemma unat_word64_fits: "k \<le> 8 \<Longrightarrow> n < 2 ^ (8 * k) \<Longrightarrow> unat (word_of_nat n :: 64 word) = n"
proof -
  assume "k \<le> 8" "n < 2 ^ (8 * k)"
  moreover have "(2 :: nat) ^ (8 * k) \<le> 2 ^ 64" using \<open>k \<le> 8\<close> by (intro power_increasing) auto
  ultimately show ?thesis by (intro unat_word64) simp
qed

lemma parse_block:
  assumes k: "k \<le> 8" "len < 2 ^ (8 * k)"
  shows "parse_blocks bo k (Suc n) r rs True complete (g # uint_bytes bo k len @ b) =
      parse_blocks bo k n (sub64 (fst r) (add64 (unat g) len), sub64 (snd r) (unat g)) rs (len = 0) (complete \<or> len > 0) b"
    "parse_blocks bo k (Suc n) r rs False complete (g # uint_bytes bo k len @ b) =
      parse_blocks bo k n (add64 (sub64 (sub64 (sub64 (fst r) (unat g)) 1) len) 1, sub64 (sub64 (fst r) (unat g)) 1)
        (r # rs) (len = 0) (len > 0) b"
  by (simp_all only: parse_blocks.simps pbind_ReadByte pbind_uint_bytes [OF k] unat_word64_fits [OF k] Let_def if_True if_False)

text \<open>The blocks of a long gap after the first: the range moves down by 255 and stays empty.\<close>

lemma parse_long:
  assumes "k \<le> 8" "0 < len" "len < 2 ^ (8 * k)" "255 * m + g + len \<le> x + 1" "x < 2 ^ 63" "g < 256"
  shows "parse_blocks bo k (m + Suc n) (Suc x, x) rs True complete
       (concat (replicate m (0xFF # uint_bytes bo k 0)) @ word_of_nat g # uint_bytes bo k len @ b) =
     parse_blocks bo k n (x - 255 * m - g + 1 - len, x - 255 * m - g) rs False True b"
  using assms(4,5)
proof (induction m arbitrary: x complete)
  case 0
  have g: "unat (word_of_nat g :: byte) = g" using assms(6) by (simp add: unat_of_nat take_bit_nat_eq_self)
  have a: "add64 g len = g + len" using 0 assms(6) by (intro add64_small) simp
  have s: "sub64 (Suc x) (g + len) = Suc x - (g + len)" "sub64 x g = x - g" using 0 assms(2) by (auto intro!: sub64_small)
  have e: "Suc x - (g + len) = x - g + 1 - len" using 0 assms(2) by simp
  show ?case
    using parse_block(1) [OF assms(1,3), of bo n "(Suc x, x)" rs complete "word_of_nat g" b] assms(2)
    by (simp add: g a s e del: parse_blocks.simps)
next
  case (Suc m)
  have x: "255 \<le> x" using Suc.prems(1) assms(2) by simp
  have "sub64 (Suc x) 255 = Suc x - 255" "sub64 x 255 = x - 255"
    using x Suc.prems(2) by (intro sub64_small; simp)+
  then have "sub64 (Suc x) (add64 255 0) = Suc (x - 255)" "sub64 x 255 = x - 255"
    using x by (simp_all add: add64_def)
  then have "parse_blocks bo k (Suc (m + Suc n)) (Suc x, x) rs True complete
       (0xFF # uint_bytes bo k 0 @ concat (replicate m (0xFF # uint_bytes bo k 0)) @ word_of_nat g # uint_bytes bo k len @ b) =
     parse_blocks bo k (m + Suc n) (Suc (x - 255), x - 255) rs True complete
       (concat (replicate m (0xFF # uint_bytes bo k 0)) @ word_of_nat g # uint_bytes bo k len @ b)"
    using parse_block(1) [of k 0 bo "m + Suc n" "(Suc x, x)" rs complete "0xFF"] assms(1) by simp
  moreover have "255 * m + g + len \<le> (x - 255) + 1" "x - 255 < 2 ^ 63" using Suc.prems assms(2) by auto
  ultimately show ?case using Suc.IH [of "x - 255" complete] by (simp add: diff_diff_left)
qed

lemma parse_gap:
  assumes k: "k \<le> 8" "c + len = d + 1" "0 < len" "len < 2 ^ (8 * k)" and gap: "0 < gap" "d + gap + 1 = a" "a < 2 ^ 63"
  shows "parse_blocks bo k (gap_blocks gap + n) (a, e) rs False complete (gap_enc bo k gap len @ b) =
     parse_blocks bo k n (c, d) ((a, e) # rs) False True b"
proof -
  define q g where "q = (gap - 1) div 255" and "g = 1 + (gap - 1) mod 255"
  have qg: "gap = 255 * q + g" "g < 256" using gap(1) by (auto simp: q_def g_def)
  have num: "gap_blocks gap = Suc q" using gap(1) by (simp add: gap_blocks_eq q_def)
  have ug: "unat (word_of_nat g :: byte) = g" using qg(2) by (simp add: unat_of_nat take_bit_nat_eq_self)
  have enc: "gap_enc bo k gap len = concat (replicate q (0xFF # uint_bytes bo k 0)) @ word_of_nat g # uint_bytes bo k len"
    unfolding gap_enc_def q_def g_def ..
  have c: "c = d + 1 - len" using k(2) by simp
  show ?thesis
  proof (cases q)
    case 0
    then have "sub64 (sub64 a g) 1 = d" "add64 (sub64 d len) 1 = c"
    proof -
      have a: "a - g - 1 = d" "g \<le> a" using 0 qg gap(2) by auto
      then have "sub64 a g = a - g" using gap(3) by (intro sub64_small) auto
      moreover have "sub64 (a - g) 1 = a - g - 1" using 0 qg gap by (intro sub64_small) auto
      ultimately show "sub64 (sub64 a g) 1 = d" using a by simp
      show "add64 (sub64 d len) 1 = c"
      proof (cases "len \<le> d")
        case True
        then show ?thesis using k(2) gap by (simp add: sub64_small add64_def)
      next
        case False
        then have "len = d + 1" "c = 0" using k(2) by auto
        then show ?thesis using gap by (simp add: sub64_def add64_def)
      qed
    qed
    then show ?thesis
      using 0 num parse_block(2) [OF k(1,4), of bo n "(a, e)" rs complete "word_of_nat g" b] k(3)
      by (simp add: enc ug del: parse_blocks.simps)
  next
    case (Suc m)
    let ?x = "a - 256"
    have x: "255 * m + g + len \<le> ?x + 1" "?x < 2 ^ 63" "256 \<le> a" using Suc qg gap k(2) by auto
    have "sub64 (sub64 a 255) 1 = ?x" "add64 (sub64 ?x 0) 1 = Suc ?x"
      using x gap(3) by (auto simp: sub64_small add64_def)
    then have "parse_blocks bo k (gap_blocks gap + n) (a, e) rs False complete (gap_enc bo k gap len @ b) =
       parse_blocks bo k (m + Suc n) (Suc ?x, ?x) ((a, e) # rs) True False
         (concat (replicate m (0xFF # uint_bytes bo k 0)) @ word_of_nat g # uint_bytes bo k len @ b)"
      using parse_block(2) [of k 0 bo "m + Suc n" "(a, e)" rs complete "0xFF"] k(1) num Suc
      by (simp add: enc del: parse_blocks.simps)
    also have "\<dots> = parse_blocks bo k n (?x - 255 * m - g + 1 - len, ?x - 255 * m - g) ((a, e) # rs) False True b"
      by (rule parse_long [OF k(1,3,4) x(1,2) qg(2)])
    also have "?x - 255 * m - g = d" using Suc qg gap(2) by simp
    finally show ?thesis using c by simp
  qed
qed

section \<open>All ranges\<close>

fun ranges_enc :: "ByteOrder \<Rightarrow> nat \<Rightarrow> AckRange list \<Rightarrow> bytes" where
  "ranges_enc bo k (p # r # rs) = gap_enc bo k (range_gap p r) (range_len r) @ ranges_enc bo k (r # rs)"
| "ranges_enc bo k rs = []"

fun blocks :: "AckRange list \<Rightarrow> nat" where
  "blocks (p # r # rs) = gap_blocks (range_gap p r) + blocks (r # rs)"
| "blocks rs = 0"

lemma range_numbers:
  assumes "desc_ok ((a, b) # (c, d) # rs)"
  shows "range_gap (a, b) (c, d) = a - d - 1" "0 < a - d - 1" "d + (a - d - 1) + 1 = a"
    and "range_len (a, b) = b - a + 1" "0 < a" "a \<le> b"
proof -
  have o: "0 < a" "a \<le> b" "b < 2 ^ 64 - 1" "d + 1 < a" using assms by (auto simp: range_ok_def above_def)
  then have "sub64 a d = a - d" "sub64 (a - d) 1 = a - d - 1" by (intro sub64_small; simp)+
  then show "range_gap (a, b) (c, d) = a - d - 1" by (simp add: range_gap_def)
  show "0 < a - d - 1" "d + (a - d - 1) + 1 = a" "0 < a" "a \<le> b" using o by auto
  show "range_len (a, b) = b - a + 1" using o by (simp add: range_len_def sub64_small add64_def)
qed

lemma range_len_ok:
  assumes "range_ok (a, b)"
  shows "range_len (a, b) = b - a + 1" "a + range_len (a, b) = b + 1"
proof -
  have o: "a \<le> b" "b < 2 ^ 64 - 1" using assms by (auto simp: range_ok_def)
  then show "range_len (a, b) = b - a + 1" by (simp add: range_len_def sub64_small add64_def)
  then show "a + range_len (a, b) = b + 1" using o by simp
qed

lemma parse_ranges_enc:
  assumes "k \<le> 8" "desc_ok (r # xs)" "\<forall>x \<in> set xs. range_len x < 2 ^ (8 * k)" "fst r < 2 ^ 63"
  shows "parse_blocks bo k (blocks (r # xs)) r rs False complete (ranges_enc bo k (r # xs) @ b) =
     pret (rev xs @ r # rs, if xs = [] then complete else True) b"
  using assms(2-4)
proof (induction xs arbitrary: r rs complete)
  case (Cons x xs)
  obtain a e where r: "r = (a, e)" by (cases r)
  obtain c d where x: "x = (c, d)" by (cases x)
  note n = range_numbers [OF Cons.prems(1) [unfolded r x]]
  have ok: "desc_ok (x # xs)" "range_ok (c, d)" using Cons.prems(1) by (auto simp: x)
  note l = range_len_ok [OF ok(2)]
  have "c < 2 ^ 63" using n(3,5) ok(2) Cons.prems(3) by (auto simp: r range_ok_def)
  then show ?case
    using parse_gap [OF assms(1) l(2) _ _ n(2,3), where n = "blocks (x # xs)" and e = e and rs = rs] Cons.IH [OF ok(1)]
      Cons.prems(2,3) n(1) l(1)
    by (simp add: r x)
qed simp

text \<open>The ranges that are written: as many as fit in 255 blocks.\<close>

fun cut_ranges :: "AckRange list \<Rightarrow> nat \<Rightarrow> AckRange list" where
  "cut_ranges (p # r # rs) n =
     (if n + gap_blocks (range_gap p r) < 0xFF then p # cut_ranges (r # rs) (n + gap_blocks (range_gap p r)) else [p])"
| "cut_ranges rs n = rs"

lemma cut_ranges_Cons: "\<exists>ys. cut_ranges (r # rs) n = r # ys"
  by (cases rs) auto

lemma writable_cut: "writable_loop rs n = n + blocks (cut_ranges rs n)"
proof (induction rs n rule: cut_ranges.induct)
  case (1 p r rs n)
  then show ?case using cut_ranges_Cons [of r rs "n + gap_blocks (range_gap p r)"] by (auto simp: Let_def)
qed auto

lemma cut_prefix: "\<exists>ys. rs = cut_ranges rs n @ ys"
  by (induction rs n rule: cut_ranges.induct) (auto dest: sym)

lemma cut_all: "n + blocks rs < 0xFF \<Longrightarrow> cut_ranges rs n = rs"
  by (induction rs n rule: cut_ranges.induct) auto

lemma blocks_cut_bound: "n < 0xFF \<Longrightarrow> n + blocks (cut_ranges rs n) < 0xFF"
  unfolding writable_cut [symmetric] by (induction rs n rule: writable_loop.induct) (auto simp: Let_def)

lemma desc_ok_append: "desc_ok (rs @ ys) \<Longrightarrow> desc_ok rs"
  by (simp add: desc_ok_def sorted_wrt_append)

lemma desc_ok_cut: "desc_ok rs \<Longrightarrow> desc_ok (cut_ranges rs n)"
  using cut_prefix [of rs n] desc_ok_append by metis

lemma blocks_pos: "desc_ok (p # r # rs) \<Longrightarrow> 0 < blocks (p # r # rs)"
proof -
  assume ok: "desc_ok (p # r # rs)"
  obtain a b c d where pr: "p = (a, b)" "r = (c, d)" by (cases p; cases r)
  show ?thesis using range_numbers(1,2) [OF ok [unfolded pr]] by (simp add: pr gap_blocks_eq)
qed

lemma length_ranges_enc: "desc_ok rs \<Longrightarrow> length (ranges_enc bo k rs) = blocks rs * Suc k"
proof (induction rs rule: blocks.induct)
  case (1 p r rs)
  obtain a b c d where pr: "p = (a, b)" "r = (c, d)" by (cases p; cases r)
  have "desc_ok (r # rs)" using 1 by simp
  then show ?case using 1 range_numbers(1,2) [of a b c d rs] by (simp add: pr length_gap_enc add_mult_distrib)
qed auto

lemma write_ranges_bytes:
  assumes "desc_ok rs" "fst (hd rs) < 2 ^ 63"
    and "w 0 = wbytes (uint_bytes bo k 0)" "\<forall>r \<in> set rs. w (range_len r) = wbytes (uint_bytes bo k (range_len r))"
    and "2 \<le> length (cut_ranges rs n)"
  shows "write_ranges w (Suc (writable_loop rs n)) rs (Suc n) =
     (wbytes (ranges_enc bo k (cut_ranges rs n)), Suc (writable_loop rs n))"
  using assms(1,2,4,5)
proof (induction rs n rule: cut_ranges.induct)
  case (1 p r rs n)
  obtain a b c d where pr: "p = (a, b)" "r = (c, d)" by (cases p; cases r)
  let ?g = "range_gap p r"
  note num = range_numbers [OF "1.prems"(1) [unfolded pr]]
  have fits: "n + gap_blocks ?g < 0xFF" using "1.prems"(4) by (auto split: if_splits)
  have gap: "write_gap w ?g (range_len r) = wbytes (gap_enc bo k ?g (range_len r))"
    using num "1.prems"(2,3) assms(3) by (intro write_gap_bytes) (auto simp: pr)
  have ok: "desc_ok (r # rs)" "fst (hd (r # rs)) < 2 ^ 63"
    using "1.prems"(1,2) num(3) by (auto simp: pr range_ok_def)
  obtain ys where ys: "cut_ranges (r # rs) (n + gap_blocks ?g) = r # ys" using cut_ranges_Cons by blast
  show ?case
  proof (cases ys)
    case Nil
    then have "writable_loop (r # rs) (n + gap_blocks ?g) = n + gap_blocks ?g" by (simp add: writable_cut ys)
    then show ?thesis using fits gap Nil ys by (simp add: Let_def)
  next
    case (Cons y ys')
    have "desc_ok (r # y # ys')" using desc_ok_cut [OF ok(1), of "n + gap_blocks ?g"] ys Cons by simp
    then have "0 < blocks (r # ys)" using blocks_pos Cons by simp
    then have "n + gap_blocks ?g < writable_loop (r # rs) (n + gap_blocks ?g)" by (simp add: writable_cut ys)
    moreover have "write_ranges w (Suc (writable_loop (r # rs) (n + gap_blocks ?g))) (r # rs) (Suc (n + gap_blocks ?g)) =
        (wbytes (ranges_enc bo k (r # ys)), Suc (writable_loop (r # rs) (n + gap_blocks ?g)))"
      using "1.IH" [OF fits ok] "1.prems"(3) ys Cons by simp
    ultimately show ?thesis using fits gap ys by (simp add: Let_def)
  qed
qed auto

text \<open>The first gap decides whether the ranges can be written.\<close>

definition first_gap_fits :: "AckRange list \<Rightarrow> bool" where
  "first_gap_fits rs \<longleftrightarrow> (case rs of p # r # _ \<Rightarrow> gap_blocks (range_gap p r) < 0xFF | _ \<Rightarrow> True)"

lemma write_blocks_bytes:
  assumes "desc_ok rs" "fst (hd rs) < 2 ^ 63" "2 \<le> length rs"
    and "w 0 = wbytes (uint_bytes bo k 0)" "\<forall>r \<in> set rs. w (range_len r) = wbytes (uint_bytes bo k (range_len r))"
  shows "write_blocks w rs =
     (if first_gap_fits rs then wbytes (ranges_enc bo k (cut_ranges rs 0)) else Some (Inl errInconsistentNumberOfRanges))"
proof -
  obtain p r rs' where rs: "rs = p # r # rs'" using assms(3) by (cases rs; cases "tl rs") auto
  let ?g = "range_gap p r"
  show ?thesis
  proof (cases "first_gap_fits rs")
    case True
    then have "2 \<le> length (cut_ranges rs 0)"
      using cut_ranges_Cons [of r rs' "gap_blocks ?g"] by (auto simp: first_gap_fits_def rs)
    from write_ranges_bytes [OF assms(1,2,4,5) this] True show ?thesis
      by (simp add: write_blocks_def numWritableNackRanges_def rs Let_def)
  next
    case False
    obtain a b c d where pr: "p = (a, b)" "r = (c, d)" by (cases p; cases r)
    note num = range_numbers [OF assms(1) [unfolded rs pr]]
    have "write_gap w ?g (range_len r) = wbytes (gap_enc bo k ?g (range_len r))"
      using num assms(2,4,5) by (intro write_gap_bytes) (auto simp: pr rs)
    then show ?thesis
      using False by (auto simp: first_gap_fits_def write_blocks_def numWritableNackRanges_def rs Let_def wappend_def wbytes_def)
  qed
qed

section \<open>Whole frames\<close>

definition ack_ok :: "AckRange list \<Rightarrow> PacketNumber \<Rightarrow> PacketNumber \<Rightarrow> bool" where
  "ack_ok rs largest lowest \<longleftrightarrow> 0 < lowest \<and> lowest \<le> largest \<and> largest < 2 ^ 48 \<and>
     (rs \<noteq> [] \<longrightarrow> 2 \<le> length rs \<and> desc_ok rs \<and> snd (hd rs) = largest \<and> fst (last rs) = lowest)"

definition cut_lowest :: "AckRange list \<Rightarrow> PacketNumber \<Rightarrow> PacketNumber" where
  "cut_lowest rs lowest = (if rs = [] then lowest else fst (last (cut_ranges rs 0)))"

lemma desc_ok_top: "desc_ok rs \<Longrightarrow> r \<in> set rs \<Longrightarrow> 0 < fst r \<and> fst r \<le> snd r \<and> snd r \<le> snd (hd rs)"
proof (induction rs)
  case (Cons x xs)
  then show ?case by (cases x; cases r) (fastforce simp: range_ok_def above_def list_all_iff)
qed simp

lemma ack_ok_lens:
  assumes ok: "ack_ok rs largest lowest" and k: "k = getMissingSequenceNumberDeltaLen rs largest lowest"
  shows "k \<in> {1, 2, 4, 6}" "\<forall>r \<in> set rs. range_len r < 2 ^ (8 * k)"
    "first = (if rs = [] then lowest else fst (hd rs)) \<Longrightarrow> add64 (sub64 largest first) 1 = largest - first + 1"
    "first = (if rs = [] then lowest else fst (hd rs)) \<Longrightarrow> largest - first + 1 < 2 ^ (8 * k)"
    "first = (if rs = [] then lowest else fst (hd rs)) \<Longrightarrow> 0 < first \<and> first \<le> largest"
proof -
  have L: "0 < lowest" "lowest \<le> largest" "largest < 2 ^ 48" using ok by (auto simp: ack_ok_def)
  have r: "range_len r = snd r - fst r + 1" "0 < fst r" "fst r \<le> snd r" "snd r \<le> largest" if "r \<in> set rs" for r
  proof -
    have "desc_ok rs" "snd (hd rs) = largest" using ok that by (auto simp: ack_ok_def)
    then have "0 < fst r \<and> fst r \<le> snd r \<and> snd r \<le> largest" "range_ok r"
      using desc_ok_top [of rs r] that by (auto simp: desc_ok_def list_all_iff)
    then show "range_len r = snd r - fst r + 1" "0 < fst r" "fst r \<le> snd r" "snd r \<le> largest"
      using range_len_ok(1) [of "fst r" "snd r"] by auto
  qed
  have len: "\<forall>r \<in> set rs. range_len r < 2 ^ 48" using r L(3) by fastforce
  have none: "add64 (sub64 largest lowest) 1 = largest - lowest + 1"
    using L by (simp add: sub64_small add64_def)
  then have "add64 (sub64 largest lowest) 1 < 2 ^ 48" using L by simp
  note d = delta_len_fits [OF len this k]
  show "k \<in> {1, 2, 4, 6}" "\<forall>r \<in> set rs. range_len r < 2 ^ (8 * k)" by (rule d(1), rule d(2))
  show first: "0 < first \<and> first \<le> largest" if f: "first = (if rs = [] then lowest else fst (hd rs))"
    using L r [of "hd rs"] f by (cases "rs = []") auto
  then show eq: "add64 (sub64 largest first) 1 = largest - first + 1"
    if "first = (if rs = [] then lowest else fst (hd rs))"
    using that L(3) by (simp add: sub64_small add64_def)
  show "largest - first + 1 < 2 ^ (8 * k)" if f: "first = (if rs = [] then lowest else fst (hd rs))"
  proof (cases "rs = []")
    case True
    then show ?thesis using d(3) none f by simp
  next
    case False
    then have "range_len (hd rs) = largest - first + 1" using ok r(1) [of "hd rs"] f by (simp add: ack_ok_def)
    then show ?thesis using d(2) False by (metis list.set_sel(1))
  qed
qed

text \<open>What is written for the ranges after the number of blocks, and what is read.\<close>

lemma write_first_bytes:
  assumes ok: "ack_ok rs largest lowest" and k: "k = getMissingSequenceNumberDeltaLen rs largest lowest"
    and "first = (if rs = [] then lowest else fst (hd rs))"
  shows "write_first (write_pn m bo k) rs largest lowest = wbytes (uint_bytes bo k (largest - first + 1))"
proof -
  note l = ack_ok_lens [OF ok k]
  have "write_pn m bo k (largest - first + 1) = wbytes (uint_bytes bo k (largest - first + 1))"
    using l(1) l(4) [OF assms(3)] by (rule write_pn_bytes)
  then show ?thesis using ok l(3) [OF assms(3)] assms(3) by (auto simp: write_first_def ack_ok_def)
qed

lemma write_blocks_ack:
  assumes ok: "ack_ok rs largest lowest" and k: "k = getMissingSequenceNumberDeltaLen rs largest lowest"
  shows "write_blocks (write_pn m bo k) rs =
     (if first_gap_fits rs then wbytes (ranges_enc bo k (cut_ranges rs 0)) else Some (Inl errInconsistentNumberOfRanges))"
proof (cases "rs = []")
  case True
  then show ?thesis by (simp add: write_blocks_def numWritableNackRanges_def first_gap_fits_def)
next
  case False
  note l = ack_ok_lens [OF ok k]
  have ds: "2 \<le> length rs" "desc_ok rs" "largest < 2 ^ 48" "snd (hd rs) = largest" using ok False by (auto simp: ack_ok_def)
  then have "fst (hd rs) < 2 ^ 63" using desc_ok_top [OF ds(2), of "hd rs"] False by simp
  moreover have "write_pn m bo k 0 = wbytes (uint_bytes bo k 0)" using l(1) by (intro write_pn_bytes) auto
  moreover have "\<forall>r \<in> set rs. write_pn m bo k (range_len r) = wbytes (uint_bytes bo k (range_len r))"
    using l(1,2) by (auto intro!: write_pn_bytes)
  ultimately show ?thesis using write_blocks_bytes [OF ds(2) _ ds(1)] by blast
qed

lemma num_blocks:
  assumes "rs \<noteq> []"
  shows "write_num_blocks rs = wbytes [word_of_nat (blocks (cut_ranges rs 0))]"
    "blocks (cut_ranges rs 0) < 0xFF" "numWritableNackRanges rs = Suc (blocks (cut_ranges rs 0))"
  using assms blocks_cut_bound [of 0 rs] by (auto simp: write_num_blocks_def numWritableNackRanges_def writable_cut)

lemma parse_ranges_ack:
  assumes ok: "ack_ok rs largest lowest" and k: "k = getMissingSequenceNumberDeltaLen rs largest lowest"
    and ne: "rs \<noteq> []" and fits: "first_gap_fits rs"
  shows "parse_ranges bo k (blocks (cut_ranges rs 0)) largest (largest - fst (hd rs) + 1) (ranges_enc bo k (cut_ranges rs 0) @ b) =
     Inr ((cut_ranges rs 0, cut_lowest rs lowest), b)"
    "0 < blocks (cut_ranges rs 0)" "2 \<le> length (cut_ranges rs 0)" "desc_ok (cut_ranges rs 0)" "hd (cut_ranges rs 0) = hd rs"
proof -
  note l = ack_ok_lens [OF ok k]
  have ds: "2 \<le> length rs" "desc_ok rs" "largest < 2 ^ 48" "snd (hd rs) = largest" using ok ne by (auto simp: ack_ok_def)
  obtain p r rs' where rs: "rs = p # r # rs'" using ds(1) by (cases rs; cases "tl rs") auto
  obtain ys where "cut_ranges (r # rs') (gap_blocks (range_gap p r)) = r # ys" using cut_ranges_Cons by blast
  then obtain y where cut: "cut_ranges rs 0 = p # y # ys" using fits by (simp add: rs first_gap_fits_def)
  show dc: "desc_ok (cut_ranges rs 0)" using ds(2) by (rule desc_ok_cut)
  show "2 \<le> length (cut_ranges rs 0)" unfolding cut by simp
  show "hd (cut_ranges rs 0) = hd rs" unfolding cut by (simp add: rs)
  show "0 < blocks (cut_ranges rs 0)" using dc unfolding cut by (rule blocks_pos)
  obtain zs where "rs = cut_ranges rs 0 @ zs" using cut_prefix by blast
  then have sub: "set (y # ys) \<subseteq> set rs" by (metis cut set_append set_subset_Cons sup.coboundedI1)
  have top: "0 < fst p" "fst p \<le> largest" using l(5) [OF refl] by (simp_all add: rs)
  have p: "p = (fst p, largest)" using ds(4) by (simp add: rs prod_eq_iff)
  have s: "add64 (sub64 largest (largest - fst p + 1)) 1 = fst p"
    using top ds(3) by (simp add: sub64_small add64_def)
  have "parse_blocks bo k (blocks (p # y # ys)) p [] False False (ranges_enc bo k (p # y # ys) @ b) =
      pret (rev (y # ys) @ [p], True) b"
  proof -
    have "k \<le> 8" "desc_ok (p # y # ys)" "\<forall>x \<in> set (y # ys). range_len x < 2 ^ (8 * k)" "fst p < 2 ^ 63"
      using l(1,2) sub dc top ds(3) by (auto simp: cut)
    from parse_ranges_enc [OF this, of bo "[]" False b] show ?thesis by (simp only: list.distinct if_False)
  qed
  then have "parse_blocks bo k (blocks (p # y # ys)) (fst p, largest) [] False False (ranges_enc bo k (p # y # ys) @ b) =
      Inr ((rev (y # ys) @ [p], True), b)"
    using p by (simp add: pret_def)
  moreover have "fst (hd (rev (y # ys) @ [p])) = cut_lowest rs lowest"
    using ne cut by (simp add: cut_lowest_def hd_append hd_rev)
  ultimately show "parse_ranges bo k (blocks (cut_ranges rs 0)) largest (largest - fst (hd rs) + 1)
      (ranges_enc bo k (cut_ranges rs 0) @ b) = Inr ((cut_ranges rs 0, cut_lowest rs lowest), b)"
    using s unfolding cut parse_ranges_def pbind_def pret_def by (simp add: rs)
qed

lemma validate_cut:
  assumes "ack_ok rs largest lowest" "first_gap_fits rs" "AckRanges g = cut_ranges rs 0" "LargestAcked g = largest"
  shows "validateAckRanges g"
proof (cases "rs = []")
  case True
  then show ?thesis using assms(3) by (simp add: validateAckRanges_def)
next
  case False
  note p = parse_ranges_ack(3-5) [OF assms(1) refl False assms(2)]
  have "cut_ranges rs 0 \<noteq> []" "snd (hd (cut_ranges rs 0)) = largest"
    using p False assms(1) by (auto simp: ack_ok_def)
  then have "snd (cut_ranges rs 0 ! 0) = largest" by (simp add: hd_conv_nth)
  then show ?thesis
    using p desc_ok_ordered [OF p(2)] assms(3,4)
    by (auto simp: validateAckRanges_def desc_ok_def list_all_iff range_ok_def)
qed

lemma length_writeUfloat16 [simp]: "length (writeUfloat16 bo x) = 2"
  by (simp add: writeUfloat16_def)

lemma pbind_Ufloat16:
  "pbind (pread (readUfloat16 bo)) f (writeUfloat16 bo x @ b) = f (ufloat16_value (ufloat16_code x)) b"
  by (rule pbind_pread) (simp add: readUfloat16_def writeUfloat16_def rbind_def ReadUint_Write unat_ufloat16_code rret_def)

lemma pbind_parser: "m b = Inr (x, b') \<Longrightarrow> pbind m f b = f x b'"
  by (simp add: pbind_def)

lemma wappend_error [simp]:
  "wappend (Some (Inl e)) w = Some (Inl e)" "wappend (wbytes b) (Some (Inl e)) = Some (Inl e)"
  by (simp_all add: wappend_def wbytes_def)

definition ranges_bytes :: "ByteOrder \<Rightarrow> nat \<Rightarrow> AckRange list \<Rightarrow> bytes" where
  "ranges_bytes bo k rs = ranges_enc bo k (cut_ranges rs 0)"

definition num_bytes :: "AckRange list \<Rightarrow> bytes" where
  "num_bytes rs = (if rs = [] then [] else [word_of_nat (blocks (cut_ranges rs 0))])"

lemma write_num_bytes: "write_num_blocks rs = wbytes (num_bytes rs)"
  using num_blocks(1) [of rs] by (cases "rs = []") (simp_all add: num_bytes_def write_num_blocks_def)

lemma ranges_length:
  assumes "ack_ok rs largest lowest"
  shows "length (num_bytes rs) + k + length (ranges_bytes bo k rs) = ranges_MinLength k rs"
proof (cases "rs = []")
  case True
  then show ?thesis by (simp add: num_bytes_def ranges_bytes_def ranges_MinLength_def)
next
  case False
  then have "desc_ok (cut_ranges rs 0)" using assms by (intro desc_ok_cut) (simp add: ack_ok_def)
  then show ?thesis
    using False by (simp add: num_bytes_def ranges_bytes_def ranges_MinLength_def length_ranges_enc num_blocks(3))
qed

text \<open>The frame the peer reads.\<close>

definition peer_ack :: "AckFrame \<Rightarrow> int \<Rightarrow> AckFrame" where
  "peer_ack f delay = f\<lparr>AckRanges := cut_ranges (AckRanges f) 0,
     LowestAcked := cut_lowest (AckRanges f) (LowestAcked f), PacketReceivedTime := None, DelayTime := delay\<rparr>"

definition ack_bytes :: "VersionNumber \<Rightarrow> int \<Rightarrow> AckFrame \<Rightarrow> bytes" where
  "ack_bytes v now f =
     (let bo = GetByteOrder v; rs = AckRanges f; L = LargestAcked f;
          k = getMissingSequenceNumberDeltaLen rs L (LowestAcked f)
      in ack_typeByte f # (if PathID f \<noteq> 0 then [word_of_nat (PathID f)] else [])
         @ uint_bytes bo (GetPacketNumberLength L) L
         @ writeUfloat16 bo (microseconds (Since now (PacketReceivedTime f)))
         @ num_bytes rs
         @ uint_bytes bo k (L - (if rs = [] then LowestAcked f else fst (hd rs)) + 1)
         @ ranges_bytes bo k rs @ [0])"

lemma AckFrame_Write_bytes:
  assumes ok: "ack_ok (AckRanges f) (LargestAcked f) (LowestAcked f)"
  shows "fst (AckFrame_Write v now f) =
     (if first_gap_fits (AckRanges f) then wbytes (ack_bytes v now f) else Some (Inl errInconsistentNumberOfRanges))"
proof -
  have L: "LargestAcked f < 2 ^ 48" using ok by (simp add: ack_ok_def)
  have w: "write_pn m bo (GetPacketNumberLength (LargestAcked f)) (LargestAcked f) =
      wbytes (uint_bytes bo (GetPacketNumberLength (LargestAcked f)) (LargestAcked f))" for m bo
    using GetPacketNumberLength_fits L by (intro write_pn_bytes) auto
  show ?thesis
    by (simp add: AckFrame_Write_def Let_def w write_num_bytes write_first_bytes [OF ok refl refl] write_blocks_ack [OF ok refl]
        ack_bytes_def ranges_bytes_def)
qed

lemma length_ack_bytes:
  assumes ok: "ack_ok (AckRanges f) (LargestAcked f) (LowestAcked f)"
  shows "length (ack_bytes v now f) = AckFrame_MinLength f"
  using ranges_length [OF ok, of "getMissingSequenceNumberDeltaLen (AckRanges f) (LargestAcked f) (LowestAcked f)" "GetByteOrder v"]
  by (simp add: ack_bytes_def AckFrame_MinLength_def Let_def)

lemma ParseAckFrame_bytes:
  assumes ok: "ack_ok (AckRanges f) (LargestAcked f) (LowestAcked f)" "PathID f < 256" and fits: "first_gap_fits (AckRanges f)"
  shows "ParseAckFrame v (ack_bytes v now f @ rest) =
     Inr (peer_ack f (int (ufloat16_value (ufloat16_code (microseconds (Since now (PacketReceivedTime f))))) * 1000), rest)"
proof -
  define bo rs L W where "bo = GetByteOrder v" and "rs = AckRanges f" and "L = LargestAcked f" and "W = LowestAcked f"
  define k where "k = getMissingSequenceNumberDeltaLen rs L W"
  define lk where "lk = GetPacketNumberLength L"
  define first where "first = (if rs = [] then W else fst (hd rs))"
  define delay where "delay = int (ufloat16_value (ufloat16_code (microseconds (Since now (PacketReceivedTime f))))) * 1000"
  have ok': "ack_ok rs L W" using ok(1) by (simp add: rs_def L_def W_def)
  note l = ack_ok_lens [OF ok' k_def]
  define bl where "bl = L - first + 1"
  note lf = l(3-5) [OF first_def, folded bl_def]
  have L: "L < 2 ^ 48" "lk \<in> {1, 2, 4, 6}" "L < 2 ^ (8 * lk)"
    using ok' GetPacketNumberLength_fits [of L] by (simp_all add: ack_ok_def lk_def)
  note t = ack_typeByte_fields [of lk f k, unfolded lk_def L_def k_def rs_def W_def, OF refl _ refl, folded L_def rs_def W_def, folded lk_def k_def]
  have t': "(ack_typeByte f AND 0x20 = 0x20) = (rs \<noteq> [])" "(ack_typeByte f AND 0x10 = 0x10) = (PathID f \<noteq> 0)"
    "num_len (drop_bit 2 (ack_typeByte f AND 0x0C)) = lk" "num_len (ack_typeByte f AND 0x03) = k"
    using t L(2) l(1) by (simp_all add: HasMissingRanges_def rs_def)
  have path: "pbind (if PathID f \<noteq> 0 then pread ReadByte else pret 0) g ((if PathID f \<noteq> 0 then [word_of_nat (PathID f)] else []) @ b)
      = g (word_of_nat (PathID f)) b" for g :: "byte \<Rightarrow> 'a parser" and b
    by simp
  have pid: "unat (word_of_nat (PathID f) :: byte) = PathID f" using ok(2) by (simp add: unat_of_nat take_bit_nat_eq_self)
  have num: "pbind (parse_num_blocks (rs \<noteq> [])) g (num_bytes rs @ b) = g (if rs = [] then 0 else word_of_nat (blocks (cut_ranges rs 0))) b"
    for g :: "byte \<Rightarrow> 'a parser" and b
    by (simp add: parse_num_blocks_def num_bytes_def)
  have k8: "k \<le> 8" "lk \<le> 8" using l(1) L(2) by auto
  have ub: "unat (word_of_nat L :: 64 word) = L" "unat (word_of_nat bl :: 64 word) = bl"
    by (rule unat_word64_fits [OF k8(2) L(3)], rule unat_word64_fits [OF k8(1) lf(2)])
  have nz: "0 < bl" "\<not> bl > L" using lf(3) by (auto simp: bl_def)
  have tail: "parse_ack_tail bo (peer_ack f delay) (0 # rest) = Inr (peer_ack f delay, rest)"
    using validate_cut [OF ok' fits [folded rs_def], of "peer_ack f delay"]
    by (simp add: parse_ack_tail_def pret_def peer_ack_def rs_def L_def)
  show ?thesis
  proof (cases "rs = []")
    case True
    have "parse_lowest L bl = W"
      using lf(3) L(1) True by (simp add: parse_lowest_def add64_def sub64_small first_def bl_def)
    then have "\<lparr>PathID = PathID f, LargestAcked = L, LowestAcked = 0, AckRanges = [], PacketReceivedTime = None,
        DelayTime = delay\<rparr>\<lparr>LowestAcked := parse_lowest L bl\<rparr> = peer_ack f delay"
      using True by (simp add: peer_ack_def L_def W_def cut_lowest_def rs_def)
    then show ?thesis
      unfolding delay_def [symmetric] ParseAckFrame_def ack_bytes_def Let_def bo_def [symmetric] rs_def [symmetric] L_def [symmetric]
        W_def [symmetric] k_def [symmetric] lk_def [symmetric] first_def [symmetric] bl_def [symmetric] append_Cons append_assoc pbind_ReadByte t' path
        pbind_uint_bytes [OF k8(2) L(3)] pbind_Ufloat16 num ub pid
      using True nz tail ub by (simp add: ranges_bytes_def delay_def [symmetric] pbind_uint_bytes [OF k8(1) lf(2)])
  next
    case False
    note pr = parse_ranges_ack [OF ok' k_def False fits [folded rs_def]]
    have "blocks (cut_ranges rs 0) < 256" using num_blocks(2) [OF False] by simp
    then have nb: "unat (word_of_nat (blocks (cut_ranges rs 0)) :: byte) = blocks (cut_ranges rs 0)"
      by (simp add: unat_of_nat take_bit_nat_eq_self)
    then have nb0: "(word_of_nat (blocks (cut_ranges rs 0)) :: byte) \<noteq> 0" using pr(2) by (metis neq0_conv unat_0)
    have fst: "first = fst (hd rs)" using False by (simp add: first_def)
    have ranges: "pbind (parse_ranges bo k (blocks (cut_ranges rs 0)) L bl) g (ranges_enc bo k (cut_ranges rs 0) @ b) =
        g (cut_ranges rs 0, cut_lowest rs W) b" for g :: "AckRange list \<times> PacketNumber \<Rightarrow> 'a parser" and b
      by (rule pbind_parser) (rule pr(1) [folded fst, folded bl_def])
    have eq: "\<lparr>PathID = PathID f, LargestAcked = L, LowestAcked = 0, AckRanges = [], PacketReceivedTime = None,
        DelayTime = delay\<rparr>\<lparr>AckRanges := cut_ranges rs 0, LowestAcked := cut_lowest rs W\<rparr> = peer_ack f delay"
      by (simp add: peer_ack_def L_def W_def rs_def)
    show ?thesis
      unfolding delay_def [symmetric] ParseAckFrame_def ack_bytes_def Let_def bo_def [symmetric] rs_def [symmetric] L_def [symmetric]
        W_def [symmetric] k_def [symmetric] lk_def [symmetric] first_def [symmetric] bl_def [symmetric] append_Cons append_assoc pbind_ReadByte t' path
        pbind_uint_bytes [OF k8(2) L(3)] pbind_Ufloat16 num ub pid
      using False nz tail nb nb0 eq ub
      by (simp add: ranges ranges_bytes_def delay_def [symmetric] pbind_uint_bytes [OF k8(1) lf(2)])
  qed
qed

text \<open>CLOSE\_PATH frames: the same ranges after other headers.\<close>

definition close_path_bytes :: "VersionNumber \<Rightarrow> ClosePathFrame \<Rightarrow> bytes" where
  "close_path_bytes v f =
     (let bo = GetByteOrder v; rs = cp_AckRanges f; L = cp_LargestAcked f;
          k = getMissingSequenceNumberDeltaLen rs L (cp_LowestAcked f)
      in 0x11 # word_of_nat (cp_PathID f) # close_path_flags f # num_bytes rs
         @ uint_bytes bo (GetPacketNumberLength L) L
         @ uint_bytes bo k (L - (if rs = [] then cp_LowestAcked f else fst (hd rs)) + 1)
         @ ranges_bytes bo k rs)"

definition peer_close_path :: "ClosePathFrame \<Rightarrow> ClosePathFrame" where
  "peer_close_path f = f\<lparr>cp_AckRanges := cut_ranges (cp_AckRanges f) 0,
     cp_LowestAcked := cut_lowest (cp_AckRanges f) (cp_LowestAcked f)\<rparr>"

lemma ClosePathFrame_Write_bytes:
  assumes ok: "ack_ok (cp_AckRanges f) (cp_LargestAcked f) (cp_LowestAcked f)"
  shows "ClosePathFrame_Write v f =
     (if first_gap_fits (cp_AckRanges f) then wbytes (close_path_bytes v f) else Some (Inl errInconsistentNumberOfRanges))"
proof -
  have L: "cp_LargestAcked f < 2 ^ 48" using ok by (simp add: ack_ok_def)
  have w: "write_pn m bo (GetPacketNumberLength (cp_LargestAcked f)) (cp_LargestAcked f) =
      wbytes (uint_bytes bo (GetPacketNumberLength (cp_LargestAcked f)) (cp_LargestAcked f))" for m bo
    using GetPacketNumberLength_fits L by (intro write_pn_bytes) auto
  show ?thesis
    by (simp add: ClosePathFrame_Write_def Let_def w write_num_bytes write_first_bytes [OF ok refl refl]
        write_blocks_ack [OF ok refl] close_path_bytes_def ranges_bytes_def)
qed

lemma length_close_path_bytes:
  assumes ok: "ack_ok (cp_AckRanges f) (cp_LargestAcked f) (cp_LowestAcked f)"
  shows "length (close_path_bytes v f) = ClosePathFrame_MinLength f"
  using ranges_length [OF ok, of "getMissingSequenceNumberDeltaLen (cp_AckRanges f) (cp_LargestAcked f) (cp_LowestAcked f)" "GetByteOrder v"]
  by (simp add: close_path_bytes_def ClosePathFrame_MinLength_def Let_def)

lemma ParseClosePathFrame_bytes:
  assumes ok: "ack_ok (cp_AckRanges f) (cp_LargestAcked f) (cp_LowestAcked f)" "cp_PathID f < 256"
    and fits: "first_gap_fits (cp_AckRanges f)"
  shows "ParseClosePathFrame v (close_path_bytes v f @ rest) = Inr (peer_close_path f, rest)"
proof -
  define bo rs L W where "bo = GetByteOrder v" and "rs = cp_AckRanges f" and "L = cp_LargestAcked f" and "W = cp_LowestAcked f"
  define k where "k = getMissingSequenceNumberDeltaLen rs L W"
  define lk where "lk = GetPacketNumberLength L"
  define first where "first = (if rs = [] then W else fst (hd rs))"
  have ok': "ack_ok rs L W" using ok(1) by (simp add: rs_def L_def W_def)
  note l = ack_ok_lens [OF ok' k_def]
  define bl where "bl = L - first + 1"
  note lf = l(3-5) [OF first_def, folded bl_def]
  have L: "L < 2 ^ 48" "lk \<in> {1, 2, 4, 6}" "L < 2 ^ (8 * lk)"
    using ok' GetPacketNumberLength_fits [of L] by (simp_all add: ack_ok_def lk_def)
  have t: "(close_path_flags f AND 0x10 = 0x10) = (rs \<noteq> [])"
    "num_len (drop_bit 2 (close_path_flags f AND 0x0C)) = lk" "num_len (close_path_flags f AND 0x03) = k"
    using close_path_flags_fields [of lk f k] L(2) l(1) by (simp_all add: lk_def k_def L_def rs_def W_def)
  have pid: "unat (word_of_nat (cp_PathID f) :: byte) = cp_PathID f" using ok(2) by (simp add: unat_of_nat take_bit_nat_eq_self)
  have num: "pbind (parse_num_blocks (rs \<noteq> [])) g (num_bytes rs @ b) = g (if rs = [] then 0 else word_of_nat (blocks (cut_ranges rs 0))) b"
    for g :: "byte \<Rightarrow> 'a parser" and b
    by (simp add: parse_num_blocks_def num_bytes_def)
  have k8: "k \<le> 8" "lk \<le> 8" using l(1) L(2) by auto
  have ub: "unat (word_of_nat L :: 64 word) = L" "unat (word_of_nat bl :: 64 word) = bl"
    by (rule unat_word64_fits [OF k8(2) L(3)], rule unat_word64_fits [OF k8(1) lf(2)])
  have nz: "0 < bl" "\<not> bl > L" using lf(3) by (auto simp: bl_def)
  have val: "validateAckRanges (close_path_ack (peer_close_path f))"
    using validate_cut [OF ok' fits [folded rs_def]]
    by (simp add: close_path_ack_def peer_close_path_def rs_def L_def)
  note rd = pbind_uint_bytes [OF k8(2) L(3)] pbind_uint_bytes [OF k8(1) lf(2)]
  show ?thesis
  proof (cases "rs = []")
    case True
    have "parse_lowest L bl = W"
      using lf(3) L(1) True by (simp add: parse_lowest_def add64_def sub64_small first_def bl_def)
    then have "\<lparr>cp_PathID = cp_PathID f, cp_LargestAcked = L, cp_LowestAcked = parse_lowest L bl, cp_AckRanges = []\<rparr> = peer_close_path f"
      using True by (simp add: peer_close_path_def L_def W_def cut_lowest_def rs_def)
    then show ?thesis
      unfolding ParseClosePathFrame_def close_path_bytes_def Let_def bo_def [symmetric] rs_def [symmetric] L_def [symmetric]
        W_def [symmetric] k_def [symmetric] lk_def [symmetric] first_def [symmetric] bl_def [symmetric] append_Cons append_assoc
        pbind_ReadByte t num pid
      using True nz val ub by (simp add: ranges_bytes_def rd rd [where b = "[]", simplified] pret_def)
  next
    case False
    note pr = parse_ranges_ack [OF ok' k_def False fits [folded rs_def]]
    have "blocks (cut_ranges rs 0) < 256" using num_blocks(2) [OF False] by simp
    then have nb: "unat (word_of_nat (blocks (cut_ranges rs 0)) :: byte) = blocks (cut_ranges rs 0)"
      by (simp add: unat_of_nat take_bit_nat_eq_self)
    then have nb0: "(word_of_nat (blocks (cut_ranges rs 0)) :: byte) \<noteq> 0" using pr(2) by (metis neq0_conv unat_0)
    have fst: "first = fst (hd rs)" using False by (simp add: first_def)
    have ranges: "pbind (parse_ranges bo k (blocks (cut_ranges rs 0)) L bl) g (ranges_enc bo k (cut_ranges rs 0) @ b) =
        g (cut_ranges rs 0, cut_lowest rs W) b" for g :: "AckRange list \<times> PacketNumber \<Rightarrow> 'a parser" and b
      by (rule pbind_parser) (rule pr(1) [folded fst, folded bl_def])
    have eq: "\<lparr>cp_PathID = cp_PathID f, cp_LargestAcked = L, cp_LowestAcked = cut_lowest rs W, cp_AckRanges = cut_ranges rs 0\<rparr> = peer_close_path f"
      by (simp add: peer_close_path_def L_def W_def rs_def)
    show ?thesis
      unfolding ParseClosePathFrame_def close_path_bytes_def Let_def bo_def [symmetric] rs_def [symmetric] L_def [symmetric]
        W_def [symmetric] k_def [symmetric] lk_def [symmetric] first_def [symmetric] bl_def [symmetric] append_Cons append_assoc
        pbind_ReadByte t num pid
      using False nz val nb nb0 eq ub
      by (simp add: ranges ranges_bytes_def rd pret_def)
  qed
qed

section \<open>What the peer learns\<close>

lemma ranges_set_bounds:
  assumes "desc_ok rs" "q \<in> ranges_set rs"
  shows "fst (last rs) \<le> q" "q \<le> snd (hd rs)"
proof -
  have "fst (last rs) \<le> q \<and> q \<le> snd (hd rs)"
    using assms
  proof (induction rs)
    case (Cons r rs)
    obtain a b where r: "r = (a, b)" by (cases r)
    have o: "a \<le> b" "\<forall>r' \<in> set rs. snd r' + 1 < a" "desc_ok rs"
      using Cons.prems(1) by (auto simp: r range_ok_def above_def list_all_iff)
    have l: "fst (last (r # rs)) \<le> a"
    proof (cases "rs = []")
      case False
      then have "last rs \<in> set rs" by simp
      then have "fst (last rs) \<le> snd (last rs)" "snd (last rs) + 1 < a"
        using o desc_ok_top [OF o(3)] by auto
      then show ?thesis using False by simp
    qed (simp add: r)
    show ?case
    proof (cases "q \<in> ranges_set rs")
      case True
      then have "rs \<noteq> []" "fst (last rs) \<le> q" "q \<le> snd (hd rs)" using Cons.IH o(3) by auto
      moreover have "snd (hd rs) + 1 < a" using o(2) \<open>rs \<noteq> []\<close> by simp
      ultimately show ?thesis using o(1) by (simp add: r)
    next
      case False
      then have "a \<le> q" "q \<le> b" using Cons.prems(2) by (auto simp: r)
      then show ?thesis using l by (simp add: r)
    qed
  qed simp
  then show "fst (last rs) \<le> q" "q \<le> snd (hd rs)" by auto
qed

lemma AcksPacket_ranges:
  assumes "AckRanges f \<noteq> []" "desc_ok (AckRanges f)" "LargestAcked f = snd (hd (AckRanges f))" "LowestAcked f = fst (last (AckRanges f))"
  shows "AcksPacket f q \<longleftrightarrow> q \<in> ranges_set (AckRanges f)"
  using ranges_set_bounds [OF assms(2), of q] assms(1,3,4)
  by (auto simp: AcksPacket_def HasMissingRanges_def list_ex_ranges)

text \<open>The peer learns the packets acknowledged from its lowest one on; with less than 255 blocks these are all.\<close>

lemma acks_cut:
  assumes ok: "ack_ok (AckRanges f) (LargestAcked f) (LowestAcked f)" "first_gap_fits (AckRanges f)"
    and g: "AckRanges g = cut_ranges (AckRanges f) 0" "LargestAcked g = LargestAcked f"
      "LowestAcked g = cut_lowest (AckRanges f) (LowestAcked f)"
  shows "AcksPacket g q \<longleftrightarrow> AcksPacket f q \<and> LowestAcked g \<le> q"
    "blocks (AckRanges f) < 0xFF \<Longrightarrow> LowestAcked g = LowestAcked f"
proof -
  let ?rs = "AckRanges f" and ?cut = "cut_ranges (AckRanges f) 0"
  show "blocks ?rs < 0xFF \<Longrightarrow> LowestAcked g = LowestAcked f"
    using cut_all [of 0 ?rs] ok(1) g(3) by (auto simp: cut_lowest_def ack_ok_def)
  show "AcksPacket g q \<longleftrightarrow> AcksPacket f q \<and> LowestAcked g \<le> q"
  proof (cases "?rs = []")
    case True
    then show ?thesis using g by (auto simp: AcksPacket_def HasMissingRanges_def cut_lowest_def)
  next
    case False
    have rs: "desc_ok ?rs" "snd (hd ?rs) = LargestAcked f" "fst (last ?rs) = LowestAcked f"
      using ok(1) False by (auto simp: ack_ok_def)
    note c = parse_ranges_ack(3-5) [OF ok(1) refl False ok(2)]
    have ne: "?cut \<noteq> []" using c(1) by auto
    have low: "LowestAcked g = fst (last ?cut)" using False g(3) by (simp add: cut_lowest_def)
    have af: "AcksPacket f q \<longleftrightarrow> q \<in> ranges_set ?rs" using AcksPacket_ranges [of f] False rs by simp
    have ag: "AcksPacket g q \<longleftrightarrow> q \<in> ranges_set ?cut" using AcksPacket_ranges [of g] c ne rs g low by simp
    obtain ys where ys: "?rs = ?cut @ ys" using cut_prefix by blast
    have "q < fst (last ?cut)" if "q \<in> ranges_set ys"
    proof -
      have "\<forall>y \<in> set ys. above (last ?cut) y"
        using rs(1) ne unfolding desc_ok_def by (subst (asm) ys) (simp add: sorted_wrt_append)
      then show ?thesis using that by (fastforce simp: ranges_set_def above_def)
    qed
    moreover have "q \<in> ranges_set ?cut \<Longrightarrow> fst (last ?cut) \<le> q" using ranges_set_bounds(1) [OF c(2)] .
    moreover have "ranges_set ?rs = ranges_set ?cut \<union> ranges_set ys" using ys by (metis ranges_set_simps(4))
    ultimately show ?thesis using af ag low by (auto simp: not_le [symmetric])
  qed
qed

lemma ack_frame_round_trip:
  assumes "ack_ok (AckRanges f) (LargestAcked f) (LowestAcked f)" "PathID f < 256" "first_gap_fits (AckRanges f)"
  obtains b g where "fst (AckFrame_Write v now f) = Some (Inr b)" "length b = AckFrame_MinLength f"
    "ParseAckFrame v (b @ rest) = Inr (g, rest)" "PathID g = PathID f" "LargestAcked g = LargestAcked f"
    "\<forall>q. AcksPacket g q \<longleftrightarrow> AcksPacket f q \<and> LowestAcked g \<le> q"
    "blocks (AckRanges f) < 0xFF \<longrightarrow> LowestAcked g = LowestAcked f"
proof (rule that)
  let ?d = "int (ufloat16_value (ufloat16_code (microseconds (Since now (PacketReceivedTime f))))) * 1000"
  show "fst (AckFrame_Write v now f) = Some (Inr (ack_bytes v now f))"
    using AckFrame_Write_bytes [OF assms(1)] assms(3) by (simp add: wbytes_def)
  show "length (ack_bytes v now f) = AckFrame_MinLength f" by (rule length_ack_bytes [OF assms(1)])
  show "ParseAckFrame v (ack_bytes v now f @ rest) = Inr (peer_ack f ?d, rest)"
    by (rule ParseAckFrame_bytes [OF assms])
  show "\<forall>q. AcksPacket (peer_ack f ?d) q \<longleftrightarrow> AcksPacket f q \<and> LowestAcked (peer_ack f ?d) \<le> q"
    "blocks (AckRanges f) < 0xFF \<longrightarrow> LowestAcked (peer_ack f ?d) = LowestAcked f"
    using acks_cut [OF assms(1,3), of "peer_ack f ?d"] by (simp_all add: peer_ack_def)
qed (simp_all add: peer_ack_def)

text \<open>The frames of the received packet handler can be written.\<close>

lemma GetAckFrame_ok:
  assumes inv: "handler_inv h A t" and g: "GetAckFrame now h = Some (Some f, h')" and bound: "\<forall>q \<in> A. q < 2 ^ 48"
  shows "ack_ok (AckRanges f) (LargestAcked f) (LowestAcked f)"
proof -
  let ?rs = "ranges (packetHistory h)"
  note e = GetAckFrame_exact [OF inv g]
  have r: "ranges_ok ?rs" "ranges_set ?rs = A" using inv by (auto simp: handler_inv_def)
  have ne: "?rs \<noteq> []" using g by (auto simp: GetAckFrame_def GetAckRanges_def Let_def split: if_splits)
  have big: "largestObserved h \<in> A" "\<forall>q \<in> A. q \<le> largestObserved h" "LargestAcked f = largestObserved h"
    using e(3,4) g by (auto simp: GetAckFrame_def GetAckRanges_def Let_def split: if_splits)
  note b = ranges_bounds [OF r(1) ne, unfolded r(2), OF big(1,2)]
  have "rev ?rs ! (length ?rs - 1) = hd ?rs" using ne by (simp add: rev_nth hd_conv_nth)
  then have ack: "LowestAcked f = fst (hd ?rs)" "AckRanges f = (if length ?rs > 1 then rev ?rs else [])"
    using g ne by (auto simp: GetAckFrame_def GetAckRanges_def Let_def split: if_splits)
  have d: "desc_ok (rev ?rs)" using r(1) by (simp add: ranges_ok_def)
  have "0 < fst (hd ?rs)" using desc_ok_top [OF d, of "hd ?rs"] ne by simp
  moreover have "fst (hd ?rs) \<le> largestObserved h" "largestObserved h < 2 ^ 48" using b(2) big bound by auto
  ultimately show ?thesis
    using ack big(3) d b(1) ne by (auto simp: ack_ok_def hd_rev last_rev)
qed

lemma long_first_gap:
  assumes "desc_ok rs" "\<not> first_gap_fits rs"
  shows "\<exists>a \<in> ranges_set rs. \<exists>d \<in> ranges_set rs. d + 64770 < a - 1 \<and> {d<..<a} \<inter> ranges_set rs = {}"
proof -
  obtain p r rs' where rs: "rs = p # r # rs'"
    using assms(2) unfolding first_gap_fits_def by (auto split: list.splits)
  obtain a b c d where pr: "p = (a, b)" "r = (c, d)" by (cases p; cases r)
  have ok: "desc_ok ((a, b) # (c, d) # rs')" using assms(1) by (simp add: rs pr)
  note n = range_numbers [OF ok]
  have "255 \<le> gap_blocks (a - d - 1)" using assms(2) n(1) by (simp add: rs pr first_gap_fits_def)
  then have "64770 \<le> a - d - 1 - 1" using gap_blocks_eq [OF n(2)] by linarith
  then have gap: "d + 64770 < a - 1" using n(2) by linarith
  have ab: "a \<in> ranges_set rs" "d \<in> ranges_set rs"
    using ok by (auto simp: rs pr range_ok_def)
  have "q \<le> d \<or> a \<le> q" if "q \<in> ranges_set rs" for q
  proof (cases "q \<in> ranges_set ((c, d) # rs')")
    case True
    then show ?thesis using ranges_set_bounds(2) [of "(c, d) # rs'" q] ok by simp
  next
    case False
    then show ?thesis using that by (auto simp: rs pr)
  qed
  then have "{d<..<a} \<inter> ranges_set rs = {}" by fastforce
  then show ?thesis using gap ab by blast
qed

text \<open>A handler that received packets 1 and 70000.\<close>

definition gap_handler :: receivedPacketHandler where
  "gap_handler = snd (handler_ReceivedPacket 7 70000 True (snd (handler_ReceivedPacket 5 1 True (NewReceivedPacketHandler 39))))"

lemma gap_handler_reach: "handler_reach 39 gap_handler {1, 70000} 7"
proof -
  let ?h = "snd (handler_ReceivedPacket 5 1 True (NewReceivedPacketHandler 39))"
  have 1: "handler_ReceivedPacket 5 1 True (NewReceivedPacketHandler 39) = (None, ?h)" "lowerLimit ?h = 0"
    by (simp_all add: demo_handler_eval)
  have 2: "handler_ReceivedPacket 7 70000 True ?h = (None, gap_handler)"
    unfolding gap_handler_def by (simp add: demo_handler_eval)
  have "handler_reach 39 ?h {1} 5"
    using handler_reach.packet [OF handler_reach.start [of 39 0] _ _ 1(1)] by (simp add: NewReceivedPacketHandler_def)
  from handler_reach.packet [OF this _ _ 2] 1(2) show ?thesis by (simp add: insert_commute)
qed

lemma handler_frames:
  "\<exists>f h'. GetAckFrame 9 demo_handler = Some (Some f, h') \<and> first_gap_fits (AckRanges f) \<and> blocks (AckRanges f) < 0xFF"
  "\<exists>f h'. GetAckFrame 9 gap_handler = Some (Some f, h') \<and> \<not> first_gap_fits (AckRanges f)"
  by (simp_all add: demo_handler_def gap_handler_def demo_handler_eval GetAckFrame_def GetAckRanges_def first_gap_fits_def
      gap_blocks_def range_gap_def)

section \<open>Properties\<close>

text \<open>
  C28: acknowledgements reach the peer.  The frame a receiver makes of the packets \<open>A\<close> it recorded is
  written in exactly \<^verbatim>\<open>MinLength\<close> bytes, and the peer parses from them a frame for the same path that
  acknowledges the largest packet and only packets of \<open>A\<close>: all of them if the gaps take less than 255
  blocks, and otherwise those from its lowest packet on.  The exception is a gap of more than 64770
  packets directly below the topmost range, for which \<^verbatim>\<open>Write\<close> fails with an internal error.
\<close>

theorem ack_reaches_peer:
  assumes "handler_reach v h A t" "t \<le> now" "GetAckFrame now h = Some (Some f, h')" "\<forall>q \<in> A. q < 2 ^ 48" "pid < 256"
  shows "if first_gap_fits (AckRanges f)
     then \<exists>b g. fst (AckFrame_Write v' later (f\<lparr>PathID := pid\<rparr>)) = Some (Inr b) \<and>
            length b = AckFrame_MinLength (f\<lparr>PathID := pid\<rparr>) \<and> ParseAckFrame v' (b @ rest) = Inr (g, rest) \<and>
            PathID g = pid \<and> LargestAcked g = Max A \<and> (\<forall>q. AcksPacket g q \<longleftrightarrow> q \<in> A \<and> LowestAcked g \<le> q) \<and>
            (blocks (AckRanges f) < 0xFF \<longrightarrow> (\<forall>q. AcksPacket g q \<longleftrightarrow> q \<in> A))
     else fst (AckFrame_Write v' later (f\<lparr>PathID := pid\<rparr>)) = Some (Inl errInconsistentNumberOfRanges) \<and>
          (\<exists>a \<in> A. \<exists>d \<in> A. d + 64770 < a - 1 \<and> {d<..<a} \<inter> A = {})"
proof -
  have inv: "handler_inv h A t" using assms(1) by (rule handler_reach_inv)
  have fin: "finite A" using inv by (auto simp: handler_inv_def ranges_set_def)
  note e = GetAckFrame_exact [OF inv assms(3)]
  have mx: "Max A = LargestAcked f" using e(3,4) fin by (intro Max_eqI) auto
  let ?f = "f\<lparr>PathID := pid\<rparr>"
  have ok: "ack_ok (AckRanges f) (LargestAcked f) (LowestAcked f)" by (rule GetAckFrame_ok [OF inv assms(3,4)])
  then have ok': "ack_ok (AckRanges ?f) (LargestAcked ?f) (LowestAcked ?f)" by simp
  have "AcksPacket ?f q = AcksPacket f q" for q by (simp add: AcksPacket_def HasMissingRanges_def)
  then have acks: "AcksPacket ?f q \<longleftrightarrow> q \<in> A" for q using e(1) by simp
  show ?thesis
  proof (cases "first_gap_fits (AckRanges f)")
    case True
    then have fits: "PathID ?f < 256" "first_gap_fits (AckRanges ?f)" using assms(5) by simp_all
    obtain b g where b: "fst (AckFrame_Write v' later ?f) = Some (Inr b)" "length b = AckFrame_MinLength ?f"
      "ParseAckFrame v' (b @ rest) = Inr (g, rest)" "PathID g = PathID ?f" "LargestAcked g = LargestAcked ?f"
      and q: "\<forall>q. AcksPacket g q \<longleftrightarrow> AcksPacket ?f q \<and> LowestAcked g \<le> q"
      and l: "blocks (AckRanges ?f) < 0xFF \<longrightarrow> LowestAcked g = LowestAcked ?f"
      by (rule ack_frame_round_trip [OF ok' fits, where v = v' and now = later and rest = rest])
    have all: "AcksPacket g q \<longleftrightarrow> q \<in> A" if "blocks (AckRanges f) < 0xFF" for q
    proof -
      have "AcksPacket f q \<Longrightarrow> LowestAcked f \<le> q" by (auto simp: AcksPacket_def split: if_splits)
      then show ?thesis using q l that acks e(1) by auto
    qed
    have "PathID g = pid" "LargestAcked g = Max A" using b(4,5) mx by simp_all
    moreover have "\<forall>q. AcksPacket g q \<longleftrightarrow> q \<in> A \<and> LowestAcked g \<le> q" using q acks by simp
    ultimately show ?thesis unfolding if_P [OF True] using b(1-3) all by blast
  next
    case False
    then have ne: "AckRanges f \<noteq> []" by (auto simp: first_gap_fits_def)
    then have d: "desc_ok (AckRanges f)" "LargestAcked f = snd (hd (AckRanges f))" "LowestAcked f = fst (last (AckRanges f))"
      using ok by (auto simp: ack_ok_def)
    have "ranges_set (AckRanges f) = A" using AcksPacket_ranges [OF ne d] e(1) by blast
    then show ?thesis
      using False AckFrame_Write_bytes [OF ok', of v' later] long_first_gap [OF d(1) False] by simp
  qed
qed

theorem ack_reaches_peer_witness:
  "(\<exists>f h' b g. GetAckFrame 9 demo_handler = Some (Some f, h') \<and>
      fst (AckFrame_Write 39 9 (f\<lparr>PathID := 1\<rparr>)) = Some (Inr b) \<and> ParseAckFrame 39 b = Inr (g, []) \<and> AcksPacket g 3) \<and>
   (\<exists>f h'. GetAckFrame 9 gap_handler = Some (Some f, h') \<and>
      fst (AckFrame_Write 39 9 (f\<lparr>PathID := 1\<rparr>)) = Some (Inl errInconsistentNumberOfRanges))"
proof
  obtain f h' where f: "GetAckFrame 9 demo_handler = Some (Some f, h')" "first_gap_fits (AckRanges f)" "blocks (AckRanges f) < 0xFF"
    using handler_frames(1) by blast
  have "(7 :: int) \<le> 9" "\<forall>q \<in> {1, 3}. q < (2 :: nat) ^ 48" "(1 :: nat) < 256" by auto
  from ack_reaches_peer [OF demo_handler_reach this(1) f(1) this(2,3), of 39 9 "[]"]
  have "\<exists>b g. fst (AckFrame_Write 39 9 (f\<lparr>PathID := 1\<rparr>)) = Some (Inr b) \<and> ParseAckFrame 39 (b @ []) = Inr (g, []) \<and>
      (\<forall>q. AcksPacket g q \<longleftrightarrow> q \<in> {1, 3})"
    unfolding if_P [OF f(2)] using f(3) by blast
  then show "\<exists>f h' b g. GetAckFrame 9 demo_handler = Some (Some f, h') \<and>
      fst (AckFrame_Write 39 9 (f\<lparr>PathID := 1\<rparr>)) = Some (Inr b) \<and> ParseAckFrame 39 b = Inr (g, []) \<and> AcksPacket g 3"
    using f(1) by (auto simp del: One_nat_def)
next
  obtain f h' where f: "GetAckFrame 9 gap_handler = Some (Some f, h')" "\<not> first_gap_fits (AckRanges f)"
    using handler_frames(2) by blast
  have "(7 :: int) \<le> 9" "\<forall>q \<in> {1, 70000}. q < (2 :: nat) ^ 48" "(1 :: nat) < 256" by auto
  from ack_reaches_peer [OF gap_handler_reach this(1) f(1) this(2,3), of 39 9 "[]"] f
  show "\<exists>f h'. GetAckFrame 9 gap_handler = Some (Some f, h') \<and>
      fst (AckFrame_Write 39 9 (f\<lparr>PathID := 1\<rparr>)) = Some (Inl errInconsistentNumberOfRanges)"
    by auto
qed

end
