(* ===== verification/Packet_Frames.thy ===== *)
theory Packet_Frames
  imports Ack_Frames
begin

text \<open>
  Model of the frames of the multipath extension (\<^verbatim>\<open>internal/wire/add_address_frame.go\<close>,
  \<^verbatim>\<open>paths_frame.go\<close>) and of the type \<^verbatim>\<open>wire.Frame\<close> of all frames (\<^verbatim>\<open>frame.go\<close>).  A \<^verbatim>\<open>net.IP\<close> is the list of its
  bytes, \<^verbatim>\<open>To4\<close> and \<^verbatim>\<open>To16\<close> are its conversions in the standard library.
\<close>

section \<open>ADD\_ADDRESS frames\<close>

definition v4InV6Prefix :: bytes where
  "v4InV6Prefix = replicate 10 0 @ [0xFF, 0xFF]"

definition To4 :: "bytes \<Rightarrow> bytes option" where
  "To4 ip =
     (if length ip = 4 then Some ip
      else if length ip = 16 \<and> take 12 ip = v4InV6Prefix then Some (drop 12 ip)
      else None)"

definition To16 :: "bytes \<Rightarrow> bytes option" where
  "To16 ip = (if length ip = 4 then Some (v4InV6Prefix @ ip) else if length ip = 16 then Some ip else None)"

record AddAddressFrame =
  aa_IPVersion :: byte
  aa_IP :: bytes
  aa_Port :: int

text \<open>The loop that reads an address byte by byte.\<close>

fun read_ip :: "nat \<Rightarrow> bytes parser" where
  "read_ip 0 = pret []"
| "read_ip (Suc n) = pbind (pread ReadByte) (\<lambda>x. pbind (read_ip n) (\<lambda>ip. pret (x # ip)))"

definition AddAddressFrame_Write :: "VersionNumber \<Rightarrow> AddAddressFrame \<Rightarrow> writer" where
  "AddAddressFrame_Write v f =
     (let port = WriteUint16 (GetByteOrder v) (word_of_int (aa_Port f));
          with_ip = (\<lambda>ip. case ip of None \<Rightarrow> Some (Inl errInconsistentAddrIPVersion)
                          | Some ip \<Rightarrow> wbytes ([0x10, aa_IPVersion f] @ ip @ port))
      in if aa_IPVersion f = 4 then with_ip (To4 (aa_IP f))
         else if aa_IPVersion f = 6 then with_ip (To16 (aa_IP f))
         else Some (Inl ErrUnknownIPVersion))"

definition ParseAddAddressFrame :: "VersionNumber \<Rightarrow> AddAddressFrame parser" where
  "ParseAddAddressFrame v =
     pbind (pread ReadByte) (\<lambda>_.
     pbind (pread ReadByte) (\<lambda>ipv.
     pbind (if ipv = 4 then pbind (read_ip 4) (\<lambda>ip. pret (v4InV6Prefix @ ip))
            else if ipv = 6 then read_ip 16
            else pfail ErrUnknownIPVersion) (\<lambda>ip.
     pbind (pread (ReadUint16 (GetByteOrder v))) (\<lambda>port.
       pret \<lparr>aa_IPVersion = ipv, aa_IP = ip, aa_Port = uint port\<rparr>))))"

definition AddAddressFrame_MinLength :: "AddAddressFrame \<Rightarrow> wire_error + nat" where
  "AddAddressFrame_MinLength f =
     (if aa_IPVersion f = 4 then Inr (1 + 1 + 4 + 2)
      else if aa_IPVersion f = 6 then Inr (1 + 1 + 16 + 2)
      else Inl ErrUnknownIPVersion)"

section \<open>PATHS frames\<close>

record PathsFrame =
  MaxNumPaths :: byte
  NumPaths :: byte
  PathIDs :: "nat list"
  RemoteRTTs :: "int list"

definition PathsFrame_Write :: "VersionNumber \<Rightarrow> PathsFrame \<Rightarrow> writer" where
  "PathsFrame_Write v f =
     (if unat (NumPaths f) \<noteq> length (PathIDs f) then Some (Inl ErrPathsNumber)
      else if length (PathIDs f) \<noteq> length (RemoteRTTs f) then Some (Inl ErrMissingRTT)
      else wbytes ([0x12, MaxNumPaths f, NumPaths f] @
        concat (map (\<lambda>(p, t). word_of_nat p # writeUfloat16 (GetByteOrder v) (microseconds t))
                  (zip (PathIDs f) (RemoteRTTs f)))))"

fun parse_paths :: "ByteOrder \<Rightarrow> nat \<Rightarrow> (nat \<times> int) list parser" where
  "parse_paths bo 0 = pret []"
| "parse_paths bo (Suc n) =
     pbind (pread ReadByte) (\<lambda>pathID.
     pbind (pread (readUfloat16 bo)) (\<lambda>remoteRTT.
     pbind (parse_paths bo n) (\<lambda>ps. pret ((unat pathID, int remoteRTT * 1000) # ps))))"

definition ParsePathsFrame :: "VersionNumber \<Rightarrow> PathsFrame parser" where
  "ParsePathsFrame v =
     pbind (pread ReadByte) (\<lambda>_.
     pbind (pread ReadByte) (\<lambda>maxNum.
     pbind (pread ReadByte) (\<lambda>num.
     if num > maxNum then pfail ErrTooManyPaths
     else pbind (parse_paths (GetByteOrder v) (unat num)) (\<lambda>ps.
       pret \<lparr>MaxNumPaths = maxNum, NumPaths = num, PathIDs = map fst ps, RemoteRTTs = map snd ps\<rparr>))))"

text \<open>The sum is computed in the type of \<^verbatim>\<open>NumPaths\<close>, a byte.\<close>

definition PathsFrame_MinLength :: "PathsFrame \<Rightarrow> nat" where
  "PathsFrame_MinLength f = unat (1 + 1 + 1 + 3 * NumPaths f)"

section \<open>All frames\<close>

datatype Frame =
    Stream StreamFrame
  | Ack AckFrame
  | RstStream RstStreamFrame
  | ConnectionClose ConnectionCloseFrame
  | Goaway GoawayFrame
  | WindowUpdate WindowUpdateFrame
  | Blocked BlockedFrame
  | StopWaiting StopWaitingFrame
  | Ping
  | AddAddress AddAddressFrame
  | ClosePath ClosePathFrame
  | Paths PathsFrame

text \<open>The call of \<^verbatim>\<open>Write\<close> through the interface; \<open>now\<close> is the clock.\<close>

primrec Frame_Write :: "VersionNumber \<Rightarrow> int \<Rightarrow> Frame \<Rightarrow> writer" where
  "Frame_Write v now (Stream f) = StreamFrame_Write v f"
| "Frame_Write v now (Ack f) = fst (AckFrame_Write v now f)"
| "Frame_Write v now (RstStream f) = wbytes (RstStreamFrame_Write v f)"
| "Frame_Write v now (ConnectionClose f) = ConnectionCloseFrame_Write v f"
| "Frame_Write v now (Goaway f) = wbytes (GoawayFrame_Write v f)"
| "Frame_Write v now (WindowUpdate f) = wbytes (WindowUpdateFrame_Write v f)"
| "Frame_Write v now (Blocked f) = wbytes (BlockedFrame_Write v f)"
| "Frame_Write v now (StopWaiting f) = StopWaitingFrame_Write v f"
| "Frame_Write v now Ping = wbytes (PingFrame_Write v)"
| "Frame_Write v now (AddAddress f) = AddAddressFrame_Write v f"
| "Frame_Write v now (ClosePath f) = ClosePathFrame_Write v f"
| "Frame_Write v now (Paths f) = PathsFrame_Write v f"

section \<open>Round trips\<close>

definition add_address_ok :: "AddAddressFrame \<Rightarrow> bool" where
  "add_address_ok f \<longleftrightarrow> 0 \<le> aa_Port f \<and> aa_Port f < 2 ^ 16 \<and>
     (aa_IPVersion f = 4 \<and> To4 (aa_IP f) \<noteq> None \<or> aa_IPVersion f = 6 \<and> To16 (aa_IP f) \<noteq> None)"

text \<open>The peer has the address in its 16 byte form.\<close>

definition peer_add_address :: "AddAddressFrame \<Rightarrow> AddAddressFrame" where
  "peer_add_address f = f\<lparr>aa_IP := the (To16 (aa_IP f))\<rparr>"

lemma pbind_read_ip [simp]: "length ip = n \<Longrightarrow> pbind (read_ip n) f (ip @ b) = f ip b"
  by (induction n arbitrary: ip f) (auto simp: length_Suc_conv pbind_assoc)

lemma To4_Some: "To4 ip = Some a \<Longrightarrow> length a = 4 \<and> To16 ip = Some (v4InV6Prefix @ a)"
  by (auto simp: To4_def To16_def split: if_splits) (metis append_take_drop_id)

lemma To16_Some: "To16 ip = Some a \<Longrightarrow> length a = 16"
  by (auto simp: To16_def v4InV6Prefix_def split: if_splits)

lemma add_address_round_trip:
  assumes "add_address_ok f"
  obtains b where "AddAddressFrame_Write v f = Some (Inr (0x10 # b))"
    "AddAddressFrame_MinLength f = Inr (length (0x10 # b))"
    "\<And>rest. ParseAddAddressFrame v (0x10 # b @ rest) = Inr (peer_add_address f, rest)"
proof -
  obtain a where a: "(if aa_IPVersion f = 4 then To4 (aa_IP f) else To16 (aa_IP f)) = Some a"
    and ver: "aa_IPVersion f = 4 \<or> aa_IPVersion f = 6"
    using assms by (auto simp: add_address_ok_def)
  have port: "uint (word_of_int (aa_Port f) :: 16 word) = aa_Port f"
    using assms by (simp add: add_address_ok_def uint_word_of_int)
  let ?b = "aa_IPVersion f # a @ WriteUint16 (GetByteOrder v) (word_of_int (aa_Port f))"
  have "AddAddressFrame_Write v f = Some (Inr (0x10 # ?b))"
    using a ver by (auto simp: AddAddressFrame_Write_def Let_def wbytes_def)
  moreover have "AddAddressFrame_MinLength f = Inr (length (0x10 # ?b))"
    using a ver by (auto simp: AddAddressFrame_MinLength_def dest: To4_Some To16_Some)
  moreover have "ParseAddAddressFrame v (0x10 # ?b @ rest) = Inr (peer_add_address f, rest)" for rest
  proof (cases "aa_IPVersion f = 4")
    case True
    then have l: "length a = 4" "To16 (aa_IP f) = Some (v4InV6Prefix @ a)" using a To4_Some by auto
    have eq: "\<lparr>aa_IPVersion = 4, aa_IP = v4InV6Prefix @ a, aa_Port = aa_Port f\<rparr> = peer_add_address f"
      using True l(2) by (simp add: peer_add_address_def)
    show ?thesis using True l(1) port eq by (simp add: ParseAddAddressFrame_def pbind_assoc pret_def)
  next
    case False
    then have l: "length a = 16" "To16 (aa_IP f) = Some a" "aa_IPVersion f = 6" using a ver To16_Some by auto
    have eq: "\<lparr>aa_IPVersion = 6, aa_IP = a, aa_Port = aa_Port f\<rparr> = peer_add_address f"
      using l by (simp add: peer_add_address_def)
    show ?thesis using l port eq by (simp add: ParseAddAddressFrame_def pret_def)
  qed
  ultimately show thesis by (rule that)
qed

definition paths_ok :: "PathsFrame \<Rightarrow> bool" where
  "paths_ok f \<longleftrightarrow> unat (NumPaths f) = length (PathIDs f) \<and> length (RemoteRTTs f) = length (PathIDs f) \<and>
     NumPaths f \<le> MaxNumPaths f \<and> (\<forall>p \<in> set (PathIDs f). p < 256)"

text \<open>A duration as the 16-bit float carries it.\<close>

definition peer_duration :: "int \<Rightarrow> int" where
  "peer_duration t = int (ufloat16_value (ufloat16_code (microseconds t))) * 1000"

definition peer_paths :: "PathsFrame \<Rightarrow> PathsFrame" where
  "peer_paths f = f\<lparr>RemoteRTTs := map peer_duration (RemoteRTTs f)\<rparr>"

lemma parse_paths_bytes:
  "\<forall>(p, t) \<in> set ps. p < 256 \<Longrightarrow>
   parse_paths bo (length ps) (concat (map (\<lambda>(p, t). word_of_nat p # writeUfloat16 bo (microseconds t)) ps) @ rest) =
     Inr (map (\<lambda>(p, t). (p, peer_duration t)) ps, rest)"
proof (induction ps)
  case (Cons x ps)
  obtain p t where x: "x = (p, t)" by (cases x)
  have "unat (word_of_nat p :: byte) = p" using Cons.prems x by (simp add: unat_of_nat take_bit_nat_eq_self)
  then show ?case using Cons x by (simp add: pbind_Ufloat16 pbind_parser pret_def peer_duration_def)
qed (simp add: pret_def)

lemma paths_round_trip:
  assumes "paths_ok f"
  obtains b where "PathsFrame_Write v f = Some (Inr (0x12 # b))" "length (0x12 # b) = 3 + 3 * unat (NumPaths f)"
    "\<And>rest. ParsePathsFrame v (0x12 # b @ rest) = Inr (peer_paths f, rest)"
proof -
  let ?z = "zip (PathIDs f) (RemoteRTTs f)"
  let ?c = "concat (map (\<lambda>(p, t). word_of_nat p # writeUfloat16 (GetByteOrder v) (microseconds t)) ?z)"
  let ?b = "MaxNumPaths f # NumPaths f # ?c"
  have l: "length ?z = unat (NumPaths f)" "unat (NumPaths f) = length (PathIDs f)" "length (PathIDs f) = length (RemoteRTTs f)"
    "\<not> NumPaths f > MaxNumPaths f" "\<forall>(p, t) \<in> set ?z. p < 256"
    using assms by (auto simp: paths_ok_def dest: set_zip_leftD)
  have "length ?c = 3 * length ?z"
    by (simp add: length_concat comp_def split_def sum_list_triv)
  then have n: "length (0x12 # ?b) = 3 + 3 * unat (NumPaths f)" using l(1) by simp
  have w: "PathsFrame_Write v f = Some (Inr (0x12 # ?b))" using l(2,3) by (simp add: PathsFrame_Write_def wbytes_def)
  have "map (\<lambda>x. peer_duration (snd x)) ?z = map peer_duration (map snd ?z)" by (simp add: comp_def)
  then have ps: "map fst (map (\<lambda>(p, t). (p, peer_duration t)) ?z) = PathIDs f"
    "map snd (map (\<lambda>(p, t). (p, peer_duration t)) ?z) = map peer_duration (RemoteRTTs f)"
    using l(3) by (simp_all add: comp_def split_def)
  have pp: "pbind (parse_paths (GetByteOrder v) (unat (NumPaths f))) g (?c @ rest) =
      g (map (\<lambda>(p, t). (p, peer_duration t)) ?z) rest" for g :: "_ \<Rightarrow> PathsFrame parser" and rest
    by (rule pbind_parser, rule parse_paths_bytes [OF l(5), unfolded l(1)])
  have "ParsePathsFrame v (0x12 # ?b @ rest) = Inr (peer_paths f, rest)" for rest
    using l(4) ps
    by (simp add: ParsePathsFrame_def pp pret_def peer_paths_def)
  with w n show thesis by (rule that)
qed

text \<open>The length the packet packer counts for a PATHS frame wraps around in a byte.\<close>

lemma paths_MinLength:
  "PathsFrame_MinLength f = (3 + 3 * unat (NumPaths f)) mod 256"
  by (simp add: PathsFrame_MinLength_def unat_word_ariths) presburger

end
