(* ===== verification/Stream_Framer.thy ===== *)
theory Stream_Framer
  imports Streams_Map Packet_Frames
begin

text \<open>
  Model of \<^verbatim>\<open>mp-quic/stream_framer.go\<close>, which cuts the data of the streams into STREAM frames and keeps
  the queues of frames that wait for a packet.  The framer holds the map of streams and the flow
  control manager; the connection parameters are an argument.  A frame object that a loop changes
  is the element of its list.
\<close>

record streamFramer =
  sf_streams :: streamsMap
  sf_flow :: flowControlManager
  retransmissionQueue :: "StreamFrame list"
  blockedFrameQueue :: "BlockedFrame list"
  addAddressFrameQueue :: "AddAddressFrame list"
  closePathFrameQueue :: "ClosePathFrame list"
  sf_pathsFrame :: "PathsFrame option"

definition newStreamFramer :: "streamsMap \<Rightarrow> flowControlManager \<Rightarrow> streamFramer" where
  "newStreamFramer m fm =
     \<lparr>sf_streams = m, sf_flow = fm, retransmissionQueue = [], blockedFrameQueue = [], addAddressFrameQueue = [],
      closePathFrameQueue = [], sf_pathsFrame = None\<rparr>"

section \<open>Queues\<close>

definition AddFrameForRetransmission :: "StreamFrame \<Rightarrow> streamFramer \<Rightarrow> streamFramer" where
  "AddFrameForRetransmission frame f = f\<lparr>retransmissionQueue := retransmissionQueue f @ [frame]\<rparr>"

definition PopBlockedFrame :: "streamFramer \<Rightarrow> BlockedFrame option \<times> streamFramer" where
  "PopBlockedFrame f =
     (case blockedFrameQueue f of [] \<Rightarrow> (None, f) | b # q \<Rightarrow> (Some b, f\<lparr>blockedFrameQueue := q\<rparr>))"

definition AddAddressForTransmission :: "byte \<Rightarrow> bytes \<Rightarrow> int \<Rightarrow> streamFramer \<Rightarrow> streamFramer" where
  "AddAddressForTransmission ipVersion ip port f =
     f\<lparr>addAddressFrameQueue := addAddressFrameQueue f @ [\<lparr>aa_IPVersion = ipVersion, aa_IP = ip, aa_Port = port\<rparr>]\<rparr>"

definition PopAddAddressFrame :: "streamFramer \<Rightarrow> AddAddressFrame option \<times> streamFramer" where
  "PopAddAddressFrame f =
     (case addAddressFrameQueue f of [] \<Rightarrow> (None, f) | a # q \<Rightarrow> (Some a, f\<lparr>addAddressFrameQueue := q\<rparr>))"

text \<open>
  \<open>paths\<close> lists the paths of the session in the order of the range over its map, each with its
  flag \<^verbatim>\<open>potentiallyFailed\<close> and its smoothed round-trip time; times are in nanoseconds.
\<close>

definition AddPathsFrameForTransmission :: "(nat \<times> bool \<times> int) list \<Rightarrow> streamFramer \<Rightarrow> streamFramer" where
  "AddPathsFrameForTransmission paths f =
     f\<lparr>sf_pathsFrame := Some
        \<lparr>MaxNumPaths = 255, NumPaths = word_of_nat (length paths), PathIDs = map fst paths,
         RemoteRTTs = map (\<lambda>(_, failed, rtt). if failed then 3600 * 1000000000 else rtt) paths\<rparr>\<rparr>"

definition PopPathsFrame :: "streamFramer \<Rightarrow> PathsFrame option \<times> streamFramer" where
  "PopPathsFrame f = (case sf_pathsFrame f of None \<Rightarrow> (None, f) | Some p \<Rightarrow> (Some p, f\<lparr>sf_pathsFrame := None\<rparr>))"

definition AddClosePathFrameForTransmission :: "ClosePathFrame \<Rightarrow> streamFramer \<Rightarrow> streamFramer" where
  "AddClosePathFrameForTransmission c f = f\<lparr>closePathFrameQueue := closePathFrameQueue f @ [c]\<rparr>"

definition PopClosePathFrame :: "streamFramer \<Rightarrow> ClosePathFrame option \<times> streamFramer" where
  "PopClosePathFrame f =
     (case closePathFrameQueue f of [] \<Rightarrow> (None, f) | c # q \<Rightarrow> (Some c, f\<lparr>closePathFrameQueue := q\<rparr>))"

definition HasFramesForRetransmission :: "streamFramer \<Rightarrow> bool" where
  "HasFramesForRetransmission f \<longleftrightarrow> length (retransmissionQueue f) > 0"

section \<open>The crypto stream\<close>

text \<open>\<^verbatim>\<open>cs, _ := f.streamsMap.GetOrOpenStream(1)\<close>; using a nil stream panics.\<close>

definition crypto_stream :: "connectionParametersManager \<Rightarrow> streamFramer \<Rightarrow> (stream \<times> streamFramer) option" where
  "crypto_stream cp f =
     (case GetOrOpenStream cp 1 (sf_streams f) (sf_flow f) of
        Some (Inr (Some s), m, fm) \<Rightarrow> Some (s, f\<lparr>sf_streams := m, sf_flow := fm\<rparr>)
      | _ \<Rightarrow> None)"

definition put_back :: "stream \<Rightarrow> streamsMap \<Rightarrow> streamsMap" where
  "put_back s m = m\<lparr>streams := (streams m)(st_id s \<mapsto> s)\<rparr>"

definition HasCryptoStreamFrame :: "connectionParametersManager \<Rightarrow> streamFramer \<Rightarrow> (bool \<times> streamFramer) option" where
  "HasCryptoStreamFrame cp f =
     map_option (\<lambda>(cs, f). (lenOfDataForWriting cs > 0, f)) (crypto_stream cp f)"

definition PopCryptoStreamFrame ::
  "connectionParametersManager \<Rightarrow> ByteCount \<Rightarrow> streamFramer \<Rightarrow> (StreamFrame option \<times> streamFramer) option" where
  "PopCryptoStreamFrame cp maxLen f =
     Option.bind (HasCryptoStreamFrame cp f) (\<lambda>(has, f).
       if \<not> has then Some (None, f)
       else map_option (\<lambda>(cs, f).
              let frame = \<lparr>StreamID = 1, FinBit = False, DataLenPresent = False, Offset = writeOffset cs, Data = []\<rparr>;
                  (data, cs) = getDataForWriting (sub64 maxLen (StreamFrame_MinLength frame)) cs
              in (Some (frame\<lparr>Data := (case data of None \<Rightarrow> [] | Some d \<Rightarrow> d)\<rparr>),
                  f\<lparr>sf_streams := put_back cs (sf_streams f)\<rparr>)) (crypto_stream cp f))"

section \<open>Retransmissions\<close>

text \<open>The frame split off and what is left of the frame.\<close>

definition maybeSplitOffFrame :: "StreamFrame \<Rightarrow> ByteCount \<Rightarrow> (StreamFrame \<times> StreamFrame) option" where
  "maybeSplitOffFrame frame n =
     (if n \<ge> DataLen frame then None
      else Some (\<lparr>StreamID = StreamID frame, FinBit = False, DataLenPresent = DataLenPresent frame,
                  Offset = Offset frame, Data = take n (Data frame)\<rparr>,
                 frame\<lparr>Data := drop n (Data frame), Offset := add64 (Offset frame) n\<rparr>))"

fun retransmission_loop ::
  "ByteCount \<Rightarrow> ByteCount \<Rightarrow> StreamFrame list \<Rightarrow> flowControlManager \<Rightarrow>
     StreamFrame list \<times> ByteCount \<times> StreamFrame list \<times> flowControlManager" where
  "retransmission_loop maxLen currentLen [] fm = ([], currentLen, [], fm)"
| "retransmission_loop maxLen currentLen (frame # queue) fm =
     (let frame = frame\<lparr>DataLenPresent := True\<rparr>;
          currentLen' = add64 currentLen (StreamFrame_MinLength frame)
      in if currentLen' \<ge> maxLen then ([], currentLen, frame # queue, fm)
         else case maybeSplitOffFrame frame (sub64 maxLen currentLen') of
                Some (splitFrame, rest) \<Rightarrow>
                  ([splitFrame], add64 currentLen' (DataLen splitFrame), rest # queue,
                   snd (AddBytesRetrans (StreamID splitFrame) (DataLen splitFrame) fm))
              | None \<Rightarrow>
                  (case retransmission_loop maxLen (add64 currentLen' (DataLen frame)) queue
                          (snd (AddBytesRetrans (StreamID frame) (DataLen frame) fm)) of
                     (res, len, queue, fm) \<Rightarrow> (frame # res, len, queue, fm)))"

definition maybePopFramesForRetransmission ::
  "ByteCount \<Rightarrow> streamFramer \<Rightarrow> StreamFrame list \<times> ByteCount \<times> streamFramer" where
  "maybePopFramesForRetransmission maxLen f =
     (case retransmission_loop maxLen 0 (retransmissionQueue f) (sf_flow f) of
        (res, len, queue, fm) \<Rightarrow> (res, len, f\<lparr>retransmissionQueue := queue, sf_flow := fm\<rparr>))"

section \<open>New data\<close>

record pop_state =
  ps_len :: ByteCount
  ps_res :: "StreamFrame list"
  ps_blocked :: "BlockedFrame list"
  ps_flow :: flowControlManager

text \<open>
  The lambda of \<^verbatim>\<open>maybePopNormalFrames\<close> in three parts.  The variable \<^verbatim>\<open>frame\<close> that it shares between its
  calls is a new frame with \<^verbatim>\<open>DataLenPresent\<close> at the start of each call, but for the stream and the
  offset, which every call sets.
\<close>

definition pop_frame :: "stream \<Rightarrow> StreamFrame" where
  "pop_frame s = \<lparr>StreamID = st_id s, FinBit = False, DataLenPresent = True, Offset = writeOffset s, Data = []\<rparr>"

text \<open>From the call of \<^verbatim>\<open>shouldSendFin\<close> on; \<open>s\<close> is the stream after its data was taken.\<close>

definition pop_emit ::
  "connectionParametersManager \<Rightarrow> ByteCount \<Rightarrow> StreamFrame \<Rightarrow> ByteCount \<Rightarrow> bytes option \<Rightarrow> pop_state streamLambda" where
  "pop_emit cp maxBytes frame sendWindowSize data s m st =
     (let fin = shouldSendFin s
      in if data = None \<and> \<not> fin then (True, None, put_back s m, st)
         else
           let frameHeaderBytes = StreamFrame_MinLength frame;
               s = (if fin then sentFin s else s);
               frame = frame\<lparr>FinBit := fin, Data := (case data of None \<Rightarrow> [] | Some d \<Rightarrow> d)\<rparr>;
               fm = snd (AddBytesSent (st_id s) (DataLen frame) (ps_flow st));
               blocked = (if RemainingConnectionWindowSize cp fm = 0 then [\<lparr>blocked_StreamID = 0\<rparr>]
                          else if \<not> FinBit frame \<and> sub64 sendWindowSize (DataLen frame) = 0
                          then [\<lparr>blocked_StreamID = st_id s\<rparr>] else []);
               len = add64 (ps_len st) (add64 frameHeaderBytes (DataLen frame))
           in (len \<noteq> maxBytes, None, put_back s m,
               \<lparr>ps_len = len, ps_res = ps_res st @ [frame], ps_blocked = ps_blocked st @ blocked, ps_flow = fm\<rparr>))"

text \<open>From the first use of \<^verbatim>\<open>maxLen\<close> on.\<close>

definition pop_data :: "connectionParametersManager \<Rightarrow> ByteCount \<Rightarrow> ByteCount \<Rightarrow> pop_state streamLambda" where
  "pop_data cp maxBytes maxLen s m st =
     (let lenStreamData = lenOfDataForWriting s;
          sendWindowSize = (if lenStreamData \<noteq> 0
            then case SendWindowSize cp (st_id s) (ps_flow st) of Inl _ \<Rightarrow> 0 | Inr w \<Rightarrow> w else 0);
          maxLen = (if lenStreamData \<noteq> 0 then MinByteCount maxLen sendWindowSize else maxLen)
      in if maxLen = 0 then (True, None, m, st)
         else case (if lenStreamData \<noteq> 0 then getDataForWriting maxLen s else (None, s)) of
                (data, s') \<Rightarrow> pop_emit cp maxBytes (pop_frame s) sendWindowSize data s' m st)"

definition pop_lambda :: "connectionParametersManager \<Rightarrow> ByteCount \<Rightarrow> pop_state streamLambda" where
  "pop_lambda cp maxBytes s m st =
     (if st_id s = 1 then (True, None, m, st)
      else let frameHeaderBytes = StreamFrame_MinLength (pop_frame s)
           in if add64 (ps_len st) frameHeaderBytes > maxBytes then (False, None, m, st)
              else pop_data cp maxBytes (sub64 (sub64 maxBytes (ps_len st)) frameHeaderBytes) s m st)"

definition maybePopNormalFrames ::
  "connectionParametersManager \<Rightarrow> ByteCount \<Rightarrow> streamFramer \<Rightarrow> (StreamFrame list \<times> streamFramer) option" where
  "maybePopNormalFrames cp maxBytes f =
     map_option (\<lambda>(_, m, st).
         (ps_res st, f\<lparr>sf_streams := m, sf_flow := ps_flow st, blockedFrameQueue := ps_blocked st\<rparr>))
       (RoundRobinIterate (pop_lambda cp maxBytes) (sf_streams f)
          \<lparr>ps_len = 0, ps_res = [], ps_blocked = blockedFrameQueue f, ps_flow = sf_flow f\<rparr>)"

definition PopStreamFrames ::
  "connectionParametersManager \<Rightarrow> ByteCount \<Rightarrow> streamFramer \<Rightarrow> (StreamFrame list \<times> streamFramer) option" where
  "PopStreamFrames cp maxLen f =
     (case maybePopFramesForRetransmission maxLen f of
        (fs, currentLen, f) \<Rightarrow>
          map_option (\<lambda>(gs, f). (fs @ gs, f)) (maybePopNormalFrames cp (sub64 maxLen currentLen) f))"

section \<open>Sizes and well-formedness\<close>

text \<open>The bytes a list of frames takes, and the frames the framer may return.\<close>

definition frames_size :: "StreamFrame list \<Rightarrow> nat" where
  "frames_size fs = (\<Sum>f\<leftarrow>fs. StreamFrame_MinLength f + DataLen f)"

lemma frames_size_simps [simp]:
  "frames_size [] = 0" "frames_size (f # fs) = StreamFrame_MinLength f + DataLen f + frames_size fs"
  "frames_size (fs @ gs) = frames_size fs + frames_size gs"
  by (simp_all add: frames_size_def)

definition stream_wf :: "stream \<Rightarrow> bool" where
  "stream_wf s \<longleftrightarrow> st_id s < 2 ^ 32 \<and>
     (case dataForWriting s of None \<Rightarrow> writeOffset s < 2 ^ 64 | Some d \<Rightarrow> d \<noteq> [] \<and> writeOffset s + length d < 2 ^ 64)"

definition framer_wf :: "streamFramer \<Rightarrow> bool" where
  "framer_wf f \<longleftrightarrow> sm_inv (sf_streams f) \<and> (\<forall>s \<in> ran (streams (sf_streams f)). stream_wf s) \<and>
     (\<forall>r \<in> set (retransmissionQueue f). stream_ok r) \<and> (\<forall>b \<in> set (blockedFrameQueue f). blocked_StreamID b < 2 ^ 32)"

lemma MinLength_fields:
  "StreamFrame_MinLength (f\<lparr>Data := d\<rparr>) = StreamFrame_MinLength f" "StreamFrame_MinLength (f\<lparr>FinBit := b\<rparr>) = StreamFrame_MinLength f"
  "0 < StreamFrame_MinLength f" "StreamFrame_MinLength f \<le> 15"
  "DataLenPresent f \<Longrightarrow> StreamFrame_MinLength (f\<lparr>DataLenPresent := False\<rparr>) + 2 = StreamFrame_MinLength f"
  by (simp_all add: StreamFrame_MinLength_def calculateStreamIDLength_def getOffsetLength_def)

lemma split_frame:
  assumes ok: "stream_ok frame" and n: "0 < n" and s: "maybeSplitOffFrame frame n = Some (a, r)"
  shows "stream_ok a" "stream_ok r" "DataLen a = n" "StreamFrame_MinLength a = StreamFrame_MinLength frame"
    "DataLenPresent a = DataLenPresent frame" "Data frame = Data a @ Data r" "StreamID a = StreamID frame"
proof -
  have n': "n < DataLen frame" and a: "a = \<lparr>StreamID = StreamID frame, FinBit = False, DataLenPresent = DataLenPresent frame,
      Offset = Offset frame, Data = take n (Data frame)\<rparr>"
    and r: "r = frame\<lparr>Data := drop n (Data frame), Offset := add64 (Offset frame) n\<rparr>"
    using s by (auto simp: maybeSplitOffFrame_def split: if_splits)
  have o: "add64 (Offset frame) n = Offset frame + n" using ok n' by (simp add: stream_ok_def add64_small)
  show "DataLen a = n" "StreamFrame_MinLength a = StreamFrame_MinLength frame" "DataLenPresent a = DataLenPresent frame"
    "Data frame = Data a @ Data r" "StreamID a = StreamID frame"
    using n' unfolding a r by (simp_all add: DataLen_def StreamFrame_MinLength_def calculateStreamIDLength_def getOffsetLength_def)
  show "stream_ok a" "stream_ok r" using ok n n' unfolding a r o by (auto simp: stream_ok_def DataLen_def)
qed

lemma retransmission_loop_ok:
  assumes "\<forall>r \<in> set q. stream_ok r" "len \<le> maxLen" "maxLen < 2 ^ 60" "retransmission_loop maxLen len q fm = (res, len', q', fm')"
  shows "len' = len + frames_size res \<and> len' \<le> maxLen \<and> (\<forall>f \<in> set res. stream_ok f \<and> DataLenPresent f) \<and>
    (\<forall>r \<in> set q'. stream_ok r)"
  using assms
proof (induction q arbitrary: len fm res len' q' fm')
  case (Cons frame q)
  define f where "f = frame\<lparr>DataLenPresent := True\<rparr>"
  define h where "h = len + StreamFrame_MinLength f"
  have ok: "stream_ok f" using Cons.prems(1) by (simp add: f_def stream_ok_def DataLen_def)
  have h: "add64 len (StreamFrame_MinLength f) = h" "h < 2 ^ 61"
    using Cons.prems(2,3) MinLength_fields(4) [of f] by (simp_all add: add64_small h_def)
  note r = Cons.prems(4) [unfolded retransmission_loop.simps Let_def f_def [symmetric] h(1)]
  show ?case
  proof (cases "h \<ge> maxLen")
    case True
    then show ?thesis using r Cons.prems(1,2) ok by auto
  next
    case False
    have n: "sub64 maxLen h = maxLen - h" "0 < maxLen - h" using False Cons.prems(3) by (simp_all add: sub64_small)
    show ?thesis
    proof (cases "maybeSplitOffFrame f (maxLen - h)")
      case (Some ar)
      then obtain a rest where ar: "maybeSplitOffFrame f (maxLen - h) = Some (a, rest)" by (cases ar) auto
      note sp = split_frame [OF ok n(2) ar]
      have "add64 h (DataLen a) = h + DataLen a" using sp(3) h(2) Cons.prems(3) by (intro add64_small) simp
      then show ?thesis using r False n(1) ar sp Cons.prems(1) by (auto simp: h_def f_def)
    next
      case None
      then have d: "DataLen f \<le> maxLen - h" by (auto simp: maybeSplitOffFrame_def split: if_splits)
      have a: "add64 h (DataLen f) = h + DataLen f" using d h(2) Cons.prems(3) by (intro add64_small) simp
      obtain res1 where rec: "retransmission_loop maxLen (h + DataLen f) q (snd (AddBytesRetrans (StreamID f) (DataLen f) fm)) = (res1, len', q', fm')"
        and res: "res = f # res1"
        using r False n(1) None a by (auto split: prod.splits)
      have "h + DataLen f \<le> maxLen" using d False by simp
      from Cons.IH [OF _ this Cons.prems(3) rec] show ?thesis using Cons.prems(1) res ok
        by (auto simp: h_def f_def)
    qed
  qed
qed simp

lemma getDataForWriting_wf:
  assumes "stream_wf s" "0 < n" "getDataForWriting n s = (d, s')"
  shows "stream_wf s'" "st_id s' = st_id s"
    "d = Some x \<Longrightarrow> 0 < length x \<and> length x \<le> n \<and> writeOffset s + length x < 2 ^ 64"
    "d = None \<Longrightarrow> s' = s"
proof -
  have "stream_wf s' \<and> st_id s' = st_id s \<and> (\<forall>x. d = Some x \<longrightarrow> 0 < length x \<and> length x \<le> n \<and> writeOffset s + length x < 2 ^ 64)
    \<and> (d = None \<longrightarrow> s' = s)"
  proof (cases "dataForWriting s")
    case None
    then show ?thesis using assms by (auto simp: getDataForWriting_def)
  next
    case (Some x)
    then have x: "x \<noteq> []" "writeOffset s + length x < 2 ^ 64" "st_id s < 2 ^ 32" using assms(1) by (auto simp: stream_wf_def)
    have o: "add64 (writeOffset s) (length x) = writeOffset s + length x"
      "length x > n \<Longrightarrow> add64 (writeOffset s) n = writeOffset s + n"
      using x(2) by (simp_all add: add64_small)
    consider "st_err s \<noteq> None" | "st_err s = None" "length x > n" | "st_err s = None" "length x \<le> n" by linarith
    then show ?thesis
    proof cases
      case 1
      then have "d = None" "s' = s" using assms(3) Some by (simp_all add: getDataForWriting_def)
      then show ?thesis using assms(1) by simp
    next
      case 2
      then have "d = Some (take n x)" "s' = s\<lparr>dataForWriting := Some (drop n x), writeOffset := writeOffset s + n\<rparr>"
        using assms(3) Some o(2) by (simp_all add: getDataForWriting_def)
      then show ?thesis using x assms(2) 2 by (simp add: stream_wf_def)
    next
      case 3
      then have "d = Some x" "s' = signalWrite (s\<lparr>dataForWriting := None\<rparr>)\<lparr>writeOffset := writeOffset s + length x\<rparr>"
        using assms(3) Some o(1) by (simp_all add: getDataForWriting_def)
      then show ?thesis using x 3 by (simp add: stream_wf_def signalWrite_def)
    qed
  qed
  then show "stream_wf s'" "st_id s' = st_id s"
    "d = Some x \<Longrightarrow> 0 < length x \<and> length x \<le> n \<and> writeOffset s + length x < 2 ^ 64" "d = None \<Longrightarrow> s' = s" by auto
qed

definition streams_wf :: "StreamID list \<Rightarrow> streamsMap \<Rightarrow> bool" where
  "streams_wf os m \<longleftrightarrow> openStreams m = os \<and> sm_inv m \<and> (\<forall>s \<in> ran (streams m). stream_wf s)"

lemma sm_inv_put_back:
  assumes "sm_inv m" "streams m (st_id s) \<noteq> None"
  shows "sm_inv (put_back s m)"
proof -
  have "dom ((streams m)(st_id s \<mapsto> s)) = dom (streams m)" using assms(2) by auto
  then show ?thesis using assms(1) unfolding sm_inv_def put_back_def by (auto simp: own_def)
qed

lemma sm_inv_index [simp]: "sm_inv (m\<lparr>roundRobinIndex := k\<rparr>) = sm_inv m"
  by (simp add: sm_inv_def own_def)

lemma streams_wf_put_back:
  assumes "streams_wf os m" "stream_wf s" "streams m (st_id s) \<noteq> None"
  shows "streams_wf os (put_back s m)"
proof -
  have "ran (streams (put_back s m)) \<subseteq> insert s (ran (streams m))" by (auto simp: put_back_def ran_def split: if_splits)
  then show ?thesis using assms sm_inv_put_back [of m s] by (auto simp: streams_wf_def) (simp add: put_back_def)
qed

text \<open>What holds while the lambda of \<^verbatim>\<open>maybePopNormalFrames\<close> collects frames.\<close>

definition pop_inv :: "StreamID list \<Rightarrow> ByteCount \<Rightarrow> streamsMap \<Rightarrow> pop_state \<Rightarrow> bool" where
  "pop_inv os maxBytes m st \<longleftrightarrow> streams_wf os m \<and> ps_len st = frames_size (ps_res st) \<and> ps_len st \<le> maxBytes \<and>
     (\<forall>f \<in> set (ps_res st). stream_ok f \<and> DataLenPresent f) \<and> (\<forall>b \<in> set (ps_blocked st). blocked_StreamID b < 2 ^ 32)"

lemma pop_emit_inv:
  assumes I: "pop_inv os maxBytes m st" and s: "stream_wf s" "streams m (st_id s) \<noteq> None"
    and f: "frame = pop_frame s0" "st_id s0 = st_id s" "writeOffset s0 < 2 ^ 64"
    and d: "\<And>x. d = Some x \<Longrightarrow> 0 < length x \<and> ps_len st + StreamFrame_MinLength frame + length x \<le> maxBytes \<and>
        writeOffset s0 + length x < 2 ^ 64"
    and fit: "ps_len st + StreamFrame_MinLength frame \<le> maxBytes" "maxBytes \<le> MaxPacketSize + 4"
    and r: "pop_emit cp maxBytes frame w d s m st = (c, e, m', st')"
  shows "pop_inv os maxBytes m' st'"
proof -
  define fin where "fin = shouldSendFin s"
  define s2 where "s2 = (if fin then sentFin s else s)"
  have s2: "stream_wf s2" "st_id s2 = st_id s" using s(1) by (auto simp: s2_def sentFin_def stream_wf_def split: option.splits)
  have wf: "streams_wf os m" "st_id s < 2 ^ 32" using I s by (auto simp: pop_inv_def stream_wf_def)
  have pb: "streams_wf os (put_back s m)" "streams_wf os (put_back s2 m)"
    using streams_wf_put_back [OF wf(1)] s s2 by auto
  show ?thesis
  proof (cases "d = None \<and> \<not> fin")
    case True
    then have "m' = put_back s m" "st' = st" using r by (auto simp: pop_emit_def fin_def [symmetric])
    then show ?thesis using I pb(1) by (simp add: pop_inv_def)
  next
    case False
    define g where "g = frame\<lparr>FinBit := fin, Data := (case d of None \<Rightarrow> [] | Some d \<Rightarrow> d)\<rparr>"
    define h where "h = StreamFrame_MinLength frame"
    define n where "n = DataLen g"
    have h: "4 \<le> h" by (simp add: h_def f(1) StreamFrame_MinLength_def pop_frame_def calculateStreamIDLength_def)
    have n: "ps_len st + h + n \<le> maxBytes" "writeOffset s0 + n < 2 ^ 64" "fin \<or> 0 < n"
      using d fit(1) False f(3) by (cases d; auto simp: n_def g_def DataLen_def h_def)+
    have "n \<le> MaxPacketSize" using n(1) fit(2) h by simp
    then have g: "stream_ok g" "DataLenPresent g" "StreamFrame_MinLength g = h"
      using n(2,3) wf(2) f(2) by (simp_all add: stream_ok_def n_def [symmetric])
        (simp_all add: g_def f(1) pop_frame_def h_def MinLength_fields StreamFrame_MinLength_def calculateStreamIDLength_def getOffsetLength_def)
    have "add64 (ps_len st) (add64 h n) = ps_len st + h + n"
      using n(1) fit(2) by (simp add: add64_def MaxPacketSize_def)
    then have "m' = put_back s2 m" "ps_len st' = ps_len st + h + n" "ps_res st' = ps_res st @ [g]"
      "\<forall>b \<in> set (ps_blocked st'). b \<in> set (ps_blocked st) \<or> blocked_StreamID b = 0 \<or> blocked_StreamID b = st_id s"
      using r False s2(2)
      by (auto simp: pop_emit_def fin_def [symmetric] s2_def [symmetric] g_def [symmetric] h_def [symmetric] n_def [symmetric] Let_def
          split: if_splits)
    then show ?thesis using I pb(2) g n(1) wf(2) by (auto simp: pop_inv_def n_def)
  qed
qed

lemma pop_lambda_keeps:
  assumes mx: "maxBytes \<le> MaxPacketSize + 4"
  shows "keeps (pop_inv os maxBytes) (pop_lambda cp maxBytes)"
  unfolding keeps_def
proof (intro allI impI)
  fix s m st c e m' st'
  assume I: "pop_inv os maxBytes m st" and s: "s \<in> ran (streams m)" and r: "pop_lambda cp maxBytes s m st = (c, e, m', st')"
  have wf: "streams_wf os m" "stream_wf s" "st_id s < 2 ^ 32" "writeOffset s < 2 ^ 64"
    using I s by (auto simp: pop_inv_def streams_wf_def stream_wf_def split: option.splits)
  have mem: "streams m (st_id s) \<noteq> None" using wf(1) s sm_invD(3) by (fastforce simp: streams_wf_def ran_def)
  define h where "h = StreamFrame_MinLength (pop_frame s)"
  have h: "h \<le> 15" using MinLength_fields(4) by (simp add: h_def)
  have len: "ps_len st \<le> maxBytes" "maxBytes < 2 ^ 60" using I mx by (simp_all add: pop_inv_def MaxPacketSize_def)
  have a: "add64 (ps_len st) h = ps_len st + h" using len h by (simp add: add64_small)
  show "pop_inv os maxBytes m' st'"
  proof (cases "st_id s = 1 \<or> ps_len st + h > maxBytes")
    case True
    then have "m' = m" "st' = st" using r a by (auto simp: pop_lambda_def h_def [symmetric] split: if_splits)
    then show ?thesis using I by simp
  next
    case False
    then have ne: "st_id s \<noteq> 1" "ps_len st + h \<le> maxBytes" by auto
    have "sub64 maxBytes (ps_len st) = maxBytes - ps_len st" using len by (intro sub64_small) simp_all
    moreover have "sub64 (maxBytes - ps_len st) h = maxBytes - ps_len st - h" using ne(2) len by (intro sub64_small) simp_all
    ultimately have r': "pop_data cp maxBytes (maxBytes - ps_len st - h) s m st = (c, e, m', st')"
      using r ne a by (simp add: pop_lambda_def h_def [symmetric])
    define lenD where "lenD = lenOfDataForWriting s"
    define w where "w = (if lenD \<noteq> 0 then case SendWindowSize cp (st_id s) (ps_flow st) of Inl _ \<Rightarrow> 0 | Inr w \<Rightarrow> w else 0)"
    define maxLen where "maxLen = (if lenD \<noteq> 0 then MinByteCount (maxBytes - ps_len st - h) w else maxBytes - ps_len st - h)"
    obtain d s1 where ds: "(if lenD \<noteq> 0 then getDataForWriting maxLen s else (None, s)) = (d, s1)" by force
    note rr = r' [unfolded pop_data_def Let_def, folded lenD_def, folded w_def, folded maxLen_def, unfolded ds]
    have mxl: "maxLen \<le> maxBytes - ps_len st - h" by (auto simp: maxLen_def MinByteCount_def)
    show ?thesis
    proof (cases "maxLen = 0")
      case True
      then have "m' = m" "st' = st" using rr by simp_all
      then show ?thesis using I by simp
    next
      case pos: False
      have s1: "stream_wf s1 \<and> st_id s1 = st_id s \<and>
        (\<forall>x. d = Some x \<longrightarrow> 0 < length x \<and> length x \<le> maxLen \<and> writeOffset s + length x < 2 ^ 64)"
      proof (cases "lenD \<noteq> 0")
        case True
        then have "getDataForWriting maxLen s = (d, s1)" using ds by simp
        from getDataForWriting_wf [OF wf(2) _ this] show ?thesis using pos by blast
      next
        case False
        then show ?thesis using ds wf(2) by simp
      qed
      have emit: "pop_emit cp maxBytes (pop_frame s) w d s1 m st = (c, e, m', st')"
        using rr pos by simp
      show ?thesis
      proof (rule pop_emit_inv [OF I _ _ refl _ wf(4) _ _ mx emit])
        show "stream_wf s1" "streams m (st_id s1) \<noteq> None" "st_id s = st_id s1" using s1 mem by simp_all
        show "ps_len st + StreamFrame_MinLength (pop_frame s) \<le> maxBytes" using ne(2) by (simp add: h_def)
        show "0 < length x \<and> ps_len st + StreamFrame_MinLength (pop_frame s) + length x \<le> maxBytes \<and>
          writeOffset s + length x < 2 ^ 64" if "d = Some x" for x
          using s1 that mxl ne(2) unfolding h_def [symmetric] by auto
      qed
    qed
  qed
qed

text \<open>\<^verbatim>\<open>PopStreamFrames\<close> never panics, fills at most \<open>maxLen\<close> bytes and returns well-formed frames.\<close>

lemma PopStreamFrames_ok:
  assumes wf: "framer_wf f" and mx: "maxLen \<le> MaxPacketSize + 4"
  obtains fs f' where "PopStreamFrames cp maxLen f = Some (fs, f')" "framer_wf f'" "frames_size fs \<le> maxLen"
    "\<forall>g \<in> set fs. stream_ok g \<and> DataLenPresent g"
    "addAddressFrameQueue f' = addAddressFrameQueue f" "openStreams (sf_streams f') = openStreams (sf_streams f)"
proof -
  obtain fs len q fm where r: "retransmission_loop maxLen 0 (retransmissionQueue f) (sf_flow f) = (fs, len, q, fm)"
    by (metis prod_cases4)
  have r': "len = frames_size fs" "len \<le> maxLen" "\<forall>g \<in> set fs. stream_ok g \<and> DataLenPresent g" "\<forall>r \<in> set q. stream_ok r"
  proof -
    have "\<forall>r \<in> set (retransmissionQueue f). stream_ok r" "maxLen < 2 ^ 60" using wf mx by (simp_all add: framer_wf_def MaxPacketSize_def)
    from retransmission_loop_ok [OF this(1) le0 this(2) r] show "len = frames_size fs" "len \<le> maxLen"
      "\<forall>g \<in> set fs. stream_ok g \<and> DataLenPresent g" "\<forall>r \<in> set q. stream_ok r" by simp_all
  qed
  define f1 where "f1 = f\<lparr>retransmissionQueue := q, sf_flow := fm\<rparr>"
  let ?n = "maxLen - len" and ?os = "openStreams (sf_streams f)"
  have sub: "sub64 maxLen len = ?n" using r'(2) mx by (simp add: sub64_small MaxPacketSize_def)
  let ?st = "\<lparr>ps_len = 0, ps_res = [], ps_blocked = blockedFrameQueue f1, ps_flow = sf_flow f1\<rparr>"
  have I: "pop_inv ?os ?n (sf_streams f1) ?st"
    using wf by (auto simp: pop_inv_def streams_wf_def framer_wf_def f1_def)
  have keep: "keeps (pop_inv ?os ?n) (pop_lambda cp ?n)" using mx by (intro pop_lambda_keeps) simp
  have rr: "pop_inv ?os ?n m st \<Longrightarrow> pop_inv ?os ?n (m\<lparr>roundRobinIndex := k\<rparr>) st" for m st k
    by (simp add: pop_inv_def streams_wf_def)
  have ns: "numStreams (sf_streams f1) \<le> length (openStreams m')" if "pop_inv ?os ?n m' st" for m' st
    using that numStreams_open [of "sf_streams f"] wf by (simp add: pop_inv_def streams_wf_def framer_wf_def f1_def)
  have "\<exists>e m' st'. RoundRobinIterate (pop_lambda cp ?n) (sf_streams f1) ?st = Some (e, m', st') \<and> pop_inv ?os ?n m' st'"
    by (rule RoundRobinIterate_keeps [OF keep]) (erule rr, erule ns, rule I)
  then obtain e m' st' where R: "RoundRobinIterate (pop_lambda cp ?n) (sf_streams f1) ?st = Some (e, m', st')" "pop_inv ?os ?n m' st'"
    by blast
  let ?f = "f1\<lparr>sf_streams := m', sf_flow := ps_flow st', blockedFrameQueue := ps_blocked st'\<rparr>"
  have "PopStreamFrames cp maxLen f = Some (fs @ ps_res st', ?f)"
    by (simp add: PopStreamFrames_def maybePopFramesForRetransmission_def r f1_def [symmetric] sub maybePopNormalFrames_def R(1))
  moreover have "framer_wf ?f" using R(2) r'(4) by (auto simp: framer_wf_def pop_inv_def streams_wf_def f1_def)
  moreover have "frames_size (fs @ ps_res st') \<le> maxLen" using R(2) r'(1,2) unfolding pop_inv_def frames_size_simps by linarith
  moreover have "\<forall>g \<in> set (fs @ ps_res st'). stream_ok g \<and> DataLenPresent g" using R(2) r'(3) by (auto simp: pop_inv_def)
  moreover have "addAddressFrameQueue ?f = addAddressFrameQueue f" "openStreams (sf_streams ?f) = ?os"
    using R(2) by (simp_all add: f1_def pop_inv_def streams_wf_def)
  ultimately show thesis by (rule that)
qed

text \<open>The frame of the crypto stream, when there is one, fits too.\<close>

lemma stream_wf_new: "sid < 2 ^ 32 \<Longrightarrow> stream_wf (newStream sid)"
  by (simp add: stream_wf_def newStream_def)

definition crypto_ready :: "streamFramer \<Rightarrow> bool" where
  "crypto_ready f \<longleftrightarrow> streams (sf_streams f) 1 \<noteq> None"

lemma crypto_stream_ready:
  assumes "framer_wf f" "crypto_ready f"
  obtains s where "crypto_stream cp f = Some (s, f)" "streams (sf_streams f) 1 = Some s" "stream_wf s" "st_id s = 1"
proof -
  obtain s where s: "streams (sf_streams f) 1 = Some s" using assms(2) by (auto simp: crypto_ready_def)
  have "crypto_stream cp f = Some (s, f)" using s by (simp add: crypto_stream_def GetOrOpenStream_def)
  moreover have "stream_wf s" "st_id s = 1" using assms(1) s sm_invD(3) by (auto simp: framer_wf_def intro: ranI)
  ultimately show thesis using s that by blast
qed

lemma PopCryptoStreamFrame_ok:
  assumes wf: "framer_wf f" "crypto_ready f" and mx: "15 < maxLen" "maxLen \<le> MaxPacketSize"
    and has: "HasCryptoStreamFrame cp f = Some (True, f)"
  obtains g f' where "PopCryptoStreamFrame cp maxLen f = Some (Some g, f')" "framer_wf f'" "stream_ok g"
    "frames_size [g] \<le> maxLen" "StreamID g = 1" "\<not> DataLenPresent g"
proof -
  obtain s where s: "crypto_stream cp f = Some (s, f)" "streams (sf_streams f) 1 = Some s" "stream_wf s" "st_id s = 1"
    by (rule crypto_stream_ready [OF wf])
  define fr where "fr = \<lparr>StreamID = 1, FinBit = False, DataLenPresent = False, Offset = writeOffset s, Data = []\<rparr>"
  define h where "h = StreamFrame_MinLength fr"
  have h: "h \<le> 15" "0 < h" using MinLength_fields(3,4) by (auto simp: h_def)
  then have n: "sub64 maxLen h = maxLen - h" "0 < maxLen - h" using mx by (simp_all add: sub64_small MaxPacketSize_def)
  obtain d s' where g: "getDataForWriting (maxLen - h) s = (d, s')" by force
  have "lenOfDataForWriting s > 0" using has s(1) by (simp add: HasCryptoStreamFrame_def)
  then have "d \<noteq> None" using g
    by (cases "dataForWriting s") (auto simp: lenOfDataForWriting_def getDataForWriting_def split: if_splits, metis)
  then obtain x where x: "d = Some x" by blast
  note w = getDataForWriting_wf [OF s(3) n(2) g]
  let ?g = "fr\<lparr>Data := x\<rparr>" and ?f = "f\<lparr>sf_streams := put_back s' (sf_streams f)\<rparr>"
  have "PopCryptoStreamFrame cp maxLen f = Some (Some ?g, ?f)"
    using has s(1) g x n(1) [unfolded h_def fr_def] by (simp add: PopCryptoStreamFrame_def fr_def h_def)
  moreover have "streams_wf (openStreams (sf_streams f)) (put_back s' (sf_streams f))"
    using wf(1) w(1,2) s(2,4) by (intro streams_wf_put_back) (auto simp: streams_wf_def framer_wf_def)
  then have "framer_wf ?f" using wf(1) by (simp add: framer_wf_def streams_wf_def)
  moreover have "stream_ok ?g" using w(3) [OF x] mx(2) by (auto simp: stream_ok_def DataLen_def fr_def)
  moreover have "StreamFrame_MinLength ?g = h" by (simp add: MinLength_fields h_def)
  then have "frames_size [?g] \<le> maxLen" using w(3) [OF x] n(2) by (auto simp: DataLen_def)
  moreover have "StreamID ?g = 1" "\<not> DataLenPresent ?g" by (simp_all add: fr_def)
  ultimately show thesis by (rule that)
qed

end
