(* ===== verification/Session_Streams.thy ===== *)
theory Session_Streams
  imports Stream_Framer
begin

text \<open>
  The streams of a session over its life: the map of streams (\<^verbatim>\<open>streams_map.go\<close>) together with the flow
  control manager and the stream framer (\<^verbatim>\<open>stream_framer.go\<close>), the only user of the round robin.
\<close>

section \<open>Popping frames keeps the invariant of the map\<close>

lemma dom_count_bytes [simp]:
  "dom (streamFlowController (snd (count_bytes op sid fm))) = dom (streamFlowController fm)"
  using count_bytes_whole(2) [of fm sid]
  by (cases "streamFlowController fm sid") (auto simp: count_bytes_def getFlowController_def)

lemma retransmission_loop_dom:
  "retransmission_loop maxLen n q fm = (fs, len, q', fm') \<Longrightarrow>
     dom (streamFlowController fm') = dom (streamFlowController fm)"
proof (induction q arbitrary: n fm fs len q' fm')
  case (Cons g q)
  let ?g = "g\<lparr>DataLenPresent := True\<rparr>"
  let ?n = "add64 n (StreamFrame_MinLength ?g)"
  show ?case
  proof (cases "?n \<ge> maxLen")
    case True
    then show ?thesis using Cons.prems by (simp add: Let_def)
  next
    case False
    show ?thesis
    proof (cases "maybeSplitOffFrame ?g (sub64 maxLen ?n)")
      case None
      obtain fs1 l1 q1 fm1 where l: "retransmission_loop maxLen (add64 ?n (DataLen ?g)) q
          (snd (AddBytesRetrans (StreamID ?g) (DataLen ?g) fm)) = (fs1, l1, q1, fm1)" by (metis prod_cases4)
      have "fm' = fm1" using Cons.prems False None l by (simp add: Let_def)
      then show ?thesis using Cons.IH [OF l] unfolding AddBytesRetrans_def dom_count_bytes by simp
    next
      case (Some p)
      then have "fm' = snd (AddBytesRetrans (StreamID (fst p)) (DataLen (fst p)) fm)"
        using Cons.prems False by (simp add: Let_def split: prod.splits)
      then show ?thesis unfolding AddBytesRetrans_def by (metis dom_count_bytes)
    qed
  qed
qed simp

definition session_inv ::
  "connectionParametersManager \<Rightarrow> Perspective \<Rightarrow> StreamID list \<Rightarrow> streamsMap \<Rightarrow> pop_state \<Rightarrow> bool" where
  "session_inv cp pers os m st \<longleftrightarrow> sm_ok cp m (ps_flow st) \<and> sm_perspective m = pers \<and> openStreams m = os"

lemma session_inv_put_back:
  assumes "session_inv cp pers os m st" "s \<in> ran (streams m)" "st_id s' = st_id s"
  shows "session_inv cp pers os (put_back s' m) st"
proof -
  obtain sid where "streams m sid = Some s" using assms(2) by (auto simp: ran_def)
  moreover from this have "st_id s = sid" using assms(1) sm_invD(3) by (auto simp: session_inv_def sm_ok_def)
  ultimately show ?thesis
    using assms(1,3) sm_ok_change [of cp m "ps_flow st" sid s s'] by (simp add: session_inv_def put_back_def)
qed

lemma getDataForWriting_id: "getDataForWriting n s = (d, s') \<Longrightarrow> st_id s' = st_id s"
  by (auto simp: getDataForWriting_def signalWrite_def split: option.splits if_splits)

lemma session_inv_flow:
  "dom (streamFlowController (ps_flow st')) = dom (streamFlowController (ps_flow st)) \<Longrightarrow>
     session_inv cp pers os m st' = session_inv cp pers os m st"
  by (simp add: session_inv_def sm_ok_def)

lemma pop_emit_session:
  assumes I: "session_inv cp pers os m st" and s: "s0 \<in> ran (streams m)" "st_id s = st_id s0"
    and r: "pop_emit cp maxBytes frame w d s m st = (c, e, m', st')"
  shows "session_inv cp pers os m' st'"
proof -
  have "\<exists>s'. m' = put_back s' m \<and> st_id s' = st_id s"
    using r by (auto simp: pop_emit_def Let_def sentFin_def split: if_splits)
  moreover have "ps_flow st' = ps_flow st \<or> (\<exists>n. ps_flow st' = snd (AddBytesSent (st_id s) n (ps_flow st)))"
    using r by (auto simp: pop_emit_def Let_def sentFin_def split: if_splits)
  then have "dom (streamFlowController (ps_flow st')) = dom (streamFlowController (ps_flow st))"
    unfolding AddBytesSent_def by (metis dom_count_bytes)
  ultimately show ?thesis
    using session_inv_put_back [OF I s(1)] s(2) session_inv_flow [of st' st cp pers os m'] by auto
qed

lemma pop_lambda_session: "keeps (session_inv cp pers os) (pop_lambda cp maxBytes)"
  unfolding keeps_def
proof (intro allI impI)
  fix s m st c e m' st'
  assume I: "session_inv cp pers os m st" and s: "s \<in> ran (streams m)" and r: "pop_lambda cp maxBytes s m st = (c, e, m', st')"
  have same: "m' = m \<Longrightarrow> st' = st \<Longrightarrow> session_inv cp pers os m' st'" using I by simp
  have emit: "session_inv cp pers os m' st'"
    if "pop_emit cp maxBytes frame w d s' m st = (c, e, m', st')" "s' = s \<or> getDataForWriting n s = (d, s')" for frame w d s' n
    using pop_emit_session [OF I s _ that(1)] that(2) getDataForWriting_id by metis
  show "session_inv cp pers os m' st'"
    using r unfolding pop_lambda_def pop_data_def Let_def
    by (auto intro: same emit split: if_splits prod.splits)
qed

lemma PopStreamFrames_sm_ok:
  assumes ok: "sm_ok cp (sf_streams f) (sf_flow f)"
  shows "\<exists>fs f'. PopStreamFrames cp maxLen f = Some (fs, f') \<and> sm_ok cp (sf_streams f') (sf_flow f') \<and>
     sm_perspective (sf_streams f') = sm_perspective (sf_streams f) \<and> openStreams (sf_streams f') = openStreams (sf_streams f)"
proof -
  obtain fs len q fm where r: "retransmission_loop maxLen 0 (retransmissionQueue f) (sf_flow f) = (fs, len, q, fm)"
    by (metis prod_cases4)
  let ?m = "sf_streams f"
  let ?I = "session_inv cp (sm_perspective ?m) (openStreams ?m)"
  let ?st = "\<lparr>ps_len = 0, ps_res = [], ps_blocked = blockedFrameQueue f, ps_flow = fm\<rparr>"
  have I: "?I ?m ?st" using ok retransmission_loop_dom [OF r] by (simp add: session_inv_def sm_ok_def)
  have "\<exists>e m' st'. RoundRobinIterate (pop_lambda cp (sub64 maxLen len)) ?m ?st = Some (e, m', st') \<and> ?I m' st'"
  proof (rule RoundRobinIterate_keeps [OF pop_lambda_session _ _ I])
    show "?I (m\<lparr>roundRobinIndex := k\<rparr>) st" if "?I m st" for m st k
      using that by (simp add: session_inv_def sm_ok_def sm_limits_def)
    show "numStreams ?m \<le> length (openStreams m')" if "?I m' st" for m' st
      using that numStreams_open [of ?m] ok by (simp add: session_inv_def sm_ok_def)
  qed
  then show ?thesis
    by (auto simp: PopStreamFrames_def maybePopFramesForRetransmission_def r maybePopNormalFrames_def session_inv_def)
qed

section \<open>The round robin visits every stream\<close>

text \<open>A lambda that lists the streams it is called with, in order.\<close>

definition visit_lambda :: "StreamID list streamLambda" where
  "visit_lambda s m st = (True, None, m, st @ [st_id s])"

lemma visit_iterate:
  assumes "sm_inv m" "sid \<in> set (openStreams m)"
  shows "iterateFunc sid visit_lambda m st = (True, None, m, st @ [sid])"
proof -
  obtain s where "streams m sid = Some s" using assms sm_invD(2) by (metis domD)
  then show ?thesis using sm_invD(3) [OF assms(1)] by (simp add: iterateFunc_def visit_lambda_def)
qed

lemma round_robin_visits:
  assumes "sm_inv m" "openStreams m = os" "0 < length os"
  shows "\<exists>m'. round_robin_loop visit_lambda (length os) start is m st =
     Some (None, m', st @ filter (\<lambda>sid. sid \<noteq> 1 \<and> sid \<noteq> 3) (map (\<lambda>i. os ! (add32 i start mod length os)) is))"
  using assms(1,2)
proof (induction "is" arbitrary: m st)
  case (Cons i "is")
  let ?k = "add32 i start mod length os"
  have k: "?k < length os" using assms(3) by simp
  have v: "iterateFunc (os ! ?k) visit_lambda m st = (True, None, m, st @ [os ! ?k])"
    using Cons.prems k by (intro visit_iterate) auto
  have "sm_inv (m\<lparr>roundRobinIndex := add32 (roundRobinIndex m) 1 mod length os\<rparr>)" using Cons.prems(1) by simp
  from Cons.IH [OF this, of "st @ [os ! ?k]"] Cons.IH [OF Cons.prems(1), of st] show ?case
    using k v Cons.prems(2) by (cases "os ! ?k = 1 \<or> os ! ?k = 3") (auto simp: Let_def)
qed simp

lemma rotated:
  assumes "length os + start < 2 ^ 32"
  shows "map (\<lambda>i. os ! (add32 i start mod length os)) [0..<length os] = rotate start os"
proof (rule nth_equalityI)
  fix i assume "i < length (map (\<lambda>i. os ! (add32 i start mod length os)) [0..<length os])"
  then have i: "i < length os" by simp
  then have "add32 i start = start + i" using assms by (simp add: add32_def)
  then show "map (\<lambda>i. os ! (add32 i start mod length os)) [0..<length os] ! i = rotate start os ! i"
    using i by (simp add: nth_rotate)
qed simp

lemma RoundRobinIterate_visits:
  assumes inv: "sm_inv m" and n: "length (openStreams m) + roundRobinIndex m < 2 ^ 32"
  shows "\<exists>m' ids. RoundRobinIterate visit_lambda m [] = Some (None, m', ids) \<and> distinct ids \<and> set ids = set (openStreams m)"
proof -
  let ?os = "openStreams m" and ?start = "roundRobinIndex m"
  define first where "first = filter (\<lambda>sid. sid \<in> set ?os) [1, 3 :: StreamID]"
  define others where "others = filter (\<lambda>sid. sid \<noteq> 1 \<and> sid \<noteq> 3) (rotate ?start ?os)"
  have "iterateFunc sid visit_lambda m st = (if sid \<in> set ?os then (True, None, m, st @ [sid]) else (True, Some StreamsMapAccess, m, st))"
    for sid st
    using visit_iterate [OF inv, of sid st] sm_invD(2) [OF inv] by (auto simp: iterateFunc_def split: option.split)
  then have p: "priority_loop visit_lambda [1, 3] m [] = (True, None, m, first)"
    by (simp add: first_def)
  have "\<exists>m'. round_robin_loop visit_lambda (length ?os) ?start [0..<length ?os] m first = Some (None, m', first @ others)"
  proof (cases "?os = []")
    case False
    then show ?thesis
      using round_robin_visits [OF inv refl, of ?start "[0..<length ?os]" first] rotated [OF n] by (simp add: others_def)
  qed (simp add: others_def)
  then have "\<exists>m'. RoundRobinIterate visit_lambda m [] = Some (None, m', first @ others)"
    using p numStreams_open [OF inv] by (simp add: RoundRobinIterate_def Let_def)
  moreover have "distinct (first @ others)" "set (first @ others) = set ?os"
    using sm_invD(1) [OF inv] by (auto simp: first_def others_def)
  ultimately show ?thesis by blast
qed

section \<open>The states of a session\<close>

text \<open>
  The states of the streams of one session and of its flow control manager: streams are opened from both
  sides, accepted, changed by their own operations, polled for frames by \<^verbatim>\<open>PopStreamFrames\<close>, which moves
  the round robin index, collected when they are finished, and cancelled.
\<close>

inductive sm_reach :: "connectionParametersManager \<Rightarrow> Perspective \<Rightarrow> streamsMap \<Rightarrow> flowControlManager \<Rightarrow> bool"
  for cp pers where
  init: "sm_reach cp pers (newStreamsMap pers) (NewFlowControlManager cp)"
| get_or_open: "sm_reach cp pers m fm \<Longrightarrow> GetOrOpenStream cp sid m fm = Some (r, m', fm') \<Longrightarrow> sid + 2 < 2 ^ 32 \<Longrightarrow>
    sm_reach cp pers m' fm'"
| opens: "sm_reach cp pers m fm \<Longrightarrow> OpenStream cp m fm = (r, m', fm') \<Longrightarrow> nextStream m + 2 < 2 ^ 32 \<Longrightarrow>
    sm_reach cp pers m' fm'"
| accept: "sm_reach cp pers m fm \<Longrightarrow> AcceptStream m = (w, m') \<Longrightarrow> sm_reach cp pers m' fm"
| change: "sm_reach cp pers m fm \<Longrightarrow> streams m sid = Some s \<Longrightarrow> st_id s' = sid \<Longrightarrow>
    sm_reach cp pers (m\<lparr>streams := (streams m)(sid \<mapsto> s')\<rparr>) fm"
| flow: "sm_reach cp pers m fm \<Longrightarrow> dom (streamFlowController fm') = dom (streamFlowController fm) \<Longrightarrow>
    sm_reach cp pers m fm'"
| collect: "sm_reach cp pers m fm \<Longrightarrow> garbageCollectStreams m fm = (m', fm') \<Longrightarrow> sm_reach cp pers m' fm'"
| close: "sm_reach cp pers m fm \<Longrightarrow> streams_CloseWithError e m = Some m' \<Longrightarrow> sm_reach cp pers m' fm"
| pop: "sm_reach cp pers (sf_streams f) (sf_flow f) \<Longrightarrow> PopStreamFrames cp maxLen f = Some (fs, f') \<Longrightarrow>
    sm_reach cp pers (sf_streams f') (sf_flow f')"

lemma sm_reach_ok:
  assumes "sm_reach cp pers m fm"
  shows "sm_ok cp m fm"
  using assms
proof induction
  case init
  show ?case
    by (auto simp: sm_ok_def sm_inv_def sm_limits_def newStreamsMap_def NewFlowControlManager_def own_def) (cases pers, auto)
next
  case (get_or_open m fm sid r m' fm')
  then show ?case using GetOrOpenStream_ok [of cp m fm sid] by auto
next
  case (opens m fm r m' fm')
  then show ?case using OpenStream_ok(1) by blast
next
  case (accept m fm w m')
  have "sm_inv m \<Longrightarrow> sm_inv (m\<lparr>nextStreamToAccept := k\<rparr>)" for k by (simp add: sm_inv_def own_def)
  then show ?case using accept
    by (auto simp: AcceptStream_def sm_ok_def sm_limits_def split: option.splits)
next
  case (change m fm sid s s')
  then show ?case by (intro sm_ok_change) auto
next
  case (flow m fm fm')
  then show ?case by (simp add: sm_ok_def)
next
  case (collect m fm m' fm')
  then show ?case using iterate_loop_keeps [OF garbage_keeps [of cp]]
    by (auto simp: garbageCollectStreams_def Iterate_def split: prod.splits)
next
  case (close m fm e m')
  have "sm_ok cp (m\<lparr>closeErr := e\<rparr>) fm" using close.IH by (auto simp: sm_ok_def sm_inv_def own_def sm_limits_def)
  from cancel_loop_ok [OF this, of "openStreams m" e] show ?case
    using close sm_invD(2) [of m] by (auto simp: streams_CloseWithError_def sm_ok_def)
next
  case (pop f maxLen fs f')
  then show ?case using PopStreamFrames_sm_ok [of cp f maxLen] by auto
qed

lemma putStream_perspective: "sm_perspective (snd (putStream s m)) = sm_perspective m"
  by (simp add: putStream_def Let_def)

lemma sm_reach_perspective: "sm_reach cp pers m fm \<Longrightarrow> sm_perspective m = pers"
proof (induction rule: sm_reach.induct)
  case (get_or_open m fm sid r m' fm')
  then show ?case using GetOrOpenStream_ok [OF sm_reach_ok [OF get_or_open.hyps(1)] get_or_open.hyps(3)] by auto
next
  case (opens m fm r m' fm')
  then show ?case
    by (auto simp: OpenStream_def openStreamImpl_def Let_def session_newStream_def putStream_perspective
        split: option.splits if_splits)
next
  case (collect m fm m' fm')
  have "keeps (\<lambda>m _. sm_perspective m = pers) garbage_lambda"
    by (auto simp: keeps_def garbage_lambda_def streams_RemoveStream_def Let_def split: if_splits prod.splits)
  from iterate_loop_keeps [OF this] show ?case using collect
    by (auto simp: garbageCollectStreams_def Iterate_def split: prod.splits)
next
  case (close m fm e m')
  have "cancel_loop e ids m = Some m' \<Longrightarrow> sm_perspective m' = sm_perspective m" for ids m
  proof (induction ids arbitrary: m)
    case (Cons sid ids)
    then show ?case by (cases "streams m sid") fastforce+
  qed simp
  then show ?case using close by (fastforce simp: streams_CloseWithError_def)
next
  case (pop f maxLen fs f')
  then show ?case using PopStreamFrames_sm_ok [OF sm_reach_ok [OF pop.hyps(1)], of maxLen] by auto
qed (auto simp: newStreamsMap_def AcceptStream_def split: option.splits)

section \<open>Properties\<close>

text \<open>
  C36: in every state of the streams of a session the list of open streams has no repetition and names
  exactly the streams of the map and of the flow control manager; the counters count the streams of even
  and odd number.  On a server these are its own and the peer's streams, and neither exceeds its limit.
  Neither opening a stream for the peer, nor closing, nor popping frames panics.  The round robin,
  wherever earlier rounds left its index, visits every open stream exactly once if the lambda lets it go on,
  provided that the index and the number of streams do not overflow 32 bits together.
\<close>

theorem streams_map_invariant:
  assumes "sm_reach cp pers m fm"
  shows "distinct (openStreams m) \<and> set (openStreams m) = dom (streams m) \<and>
     dom (streamFlowController fm) = dom (streams m) \<and>
     numOutgoingStreams m = length (filter even (openStreams m)) \<and>
     numIncomingStreams m = length (filter odd (openStreams m)) \<and>
     (pers = PerspectiveServer \<longrightarrow> length (filter odd (openStreams m)) \<le> GetMaxIncomingStreams cp \<and>
        length (filter even (openStreams m)) \<le> GetMaxOutgoingStreams cp) \<and>
     (\<forall>sid. sid + 2 < 2 ^ 32 \<longrightarrow> (\<exists>r. GetOrOpenStream cp sid m fm = Some r)) \<and>
     (\<forall>e. \<exists>m'. streams_CloseWithError e m = Some m') \<and>
     (\<forall>f maxLen. sf_streams f = m \<longrightarrow> sf_flow f = fm \<longrightarrow> (\<exists>r. PopStreamFrames cp maxLen f = Some r)) \<and>
     (length (openStreams m) + roundRobinIndex m < 2 ^ 32 \<longrightarrow>
        (\<exists>m' ids. RoundRobinIterate visit_lambda m [] = Some (None, m', ids) \<and> distinct ids \<and> set ids = set (openStreams m)))"
proof -
  have ok: "sm_ok cp m fm" by (rule sm_reach_ok [OF assms])
  then have inv: "sm_inv m" by (simp add: sm_ok_def)
  note i = sm_invD [OF inv]
  have pers: "sm_perspective m = pers" by (rule sm_reach_perspective [OF assms])
  have "\<exists>m'. streams_CloseWithError e m = Some m'" for e
  proof -
    have "sm_ok cp (m\<lparr>closeErr := e\<rparr>) fm" using ok by (auto simp: sm_ok_def sm_inv_def own_def sm_limits_def)
    from cancel_loop_ok [OF this, of "openStreams m" e] show ?thesis using i(2) by (auto simp: streams_CloseWithError_def)
  qed
  moreover have "\<exists>r. PopStreamFrames cp maxLen f = Some r" if "sf_streams f = m" "sf_flow f = fm" for f maxLen
    using PopStreamFrames_sm_ok [of cp f maxLen] ok that by auto
  moreover have "\<exists>r. GetOrOpenStream cp sid m fm = Some r" if "sid + 2 < 2 ^ 32" for sid
    using GetOrOpenStream_ok [OF ok that] by blast
  ultimately show ?thesis
    using ok i(1,2,4,5) pers RoundRobinIterate_visits [OF inv] by (simp add: sm_ok_def sm_limits_def)
qed

text \<open>Three streams of the peer, after one round of the round robin.\<close>

lemma demo_round:
  "\<exists>m fm. sm_reach demo_rcp PerspectiveServer m fm \<and> openStreams m = [1, 3, 5] \<and> roundRobinIndex m = 1"
proof -
  let ?m = "newStreamsMap PerspectiveServer" and ?fm = "NewFlowControlManager demo_rcp"
  have r: "sm_reach demo_rcp PerspectiveServer ?m ?fm" by (rule sm_reach.init)
  obtain x m fm where g: "GetOrOpenStream demo_rcp 5 ?m ?fm = Some (x, m, fm)"
    using GetOrOpenStream_ok [OF sm_reach_ok [OF r], of 5] by auto
  have m: "openStreams m = [1, 3, 5]" "roundRobinIndex m = 0"
    "streams m 1 = Some (newStream 1)" "streams m 3 = Some (newStream 3)" "streams m 5 = Some (newStream 5)"
    using g
    by (auto simp: GetOrOpenStream_def not_openable_def newStreamsMap_def open_up_to.simps [of _ 1]
        open_up_to.simps [of _ "Suc 0"] open_up_to.simps [of _ 3] open_up_to.simps [of _ 5] open_up_to.simps [of _ 7]
        openRemoteStream_def session_newStream_def putStream_def add32_def MaxNewStreamIDDelta_def MaxStreamsPerConnection_def
        GetMaxIncomingStreams_def MaxIncomingDynamicStreamsPerConnection_def MaxStreamsMinimumIncrement_def Let_def)
  have reach: "sm_reach demo_rcp PerspectiveServer m fm" by (rule sm_reach.get_or_open [OF r g]) simp
  let ?st = "\<lparr>ps_len = 0, ps_res = [], ps_blocked = [], ps_flow = fm\<rparr>"
  have n: "numStreams m = 3" using numStreams_open [of m] sm_reach_ok [OF reach] m(1) by (simp add: sm_ok_def)
  have idle: "iterateFunc sid (pop_lambda demo_rcp 100) m ?st = (True, None, m, ?st)" if "sid \<in> {1, 3, 5}" for sid
    using that m(3-5)
    by (auto simp: iterateFunc_def pop_lambda_def pop_data_def pop_emit_def pop_frame_def newStream_def put_back_def
        StreamFrame_MinLength_def calculateStreamIDLength_def getOffsetLength_def lenOfDataForWriting_def shouldSendFin_def
        add64_def sub64_def fun_upd_idem)
  have "RoundRobinIterate (pop_lambda demo_rcp 100) m ?st = Some (None, m\<lparr>roundRobinIndex := 1\<rparr>, ?st)"
    using m(1,2) n idle by (simp add: RoundRobinIterate_def upt_rec add32_def Let_def)
  then have "PopStreamFrames demo_rcp 100 (newStreamFramer m fm) =
      Some ([], newStreamFramer (m\<lparr>roundRobinIndex := 1\<rparr>) fm)"
    by (simp add: PopStreamFrames_def maybePopFramesForRetransmission_def maybePopNormalFrames_def newStreamFramer_def sub64_def)
  from sm_reach.pop [OF _ this] reach m(1) show ?thesis
    by (intro exI [of _ "m\<lparr>roundRobinIndex := 1\<rparr>"] exI [of _ fm]) (simp add: newStreamFramer_def)
qed

theorem streams_map_invariant_witness:
  "\<exists>m fm m' ids. sm_reach demo_rcp PerspectiveServer m fm \<and> openStreams m = [1, 3, 5] \<and> roundRobinIndex m = 1 \<and>
     RoundRobinIterate visit_lambda m [] = Some (None, m', ids) \<and> distinct ids \<and> set ids = {1, 3, 5}"
proof -
  obtain m fm where m: "sm_reach demo_rcp PerspectiveServer m fm" "openStreams m = [1, 3, 5]" "roundRobinIndex m = 1"
    using demo_round by blast
  have "length (openStreams m) + roundRobinIndex m < 2 ^ 32" by (simp add: m(2,3))
  then show ?thesis using streams_map_invariant [OF m(1)] m by auto
qed

text \<open>
  C37: the limit on the streams a client opens is not enforced: however small it is, a client that
  has no streams of the peer opens any number of streams, because \<^verbatim>\<open>openStreamImpl\<close> tests the counter
  of the peer's streams and raises the other one.
\<close>

theorem client_limit_not_enforced:
  assumes "0 < GetMaxOutgoingStreams cp" "n < 2 ^ 31 - 1"
  shows "\<exists>m fm. sm_reach cp PerspectiveClient m fm \<and> openStreams m = map (\<lambda>i. 2 * i + 1) [0..<n] \<and>
     fst (OpenStream cp m fm) = Inr (newStream (2 * n + 1))"
proof -
  have "\<exists>m fm. sm_reach cp PerspectiveClient m fm \<and> openStreams m = map (\<lambda>i. 2 * i + 1) [0..<n] \<and>
     nextStream m = 2 * n + 1 \<and> closeErr m = None" if "n < 2 ^ 31 - 1" for n
    using that
  proof (induction n)
    case 0
    show ?case by (intro exI [of _ "newStreamsMap PerspectiveClient"] exI [of _ "NewFlowControlManager cp"])
        (simp add: sm_reach.init, simp add: newStreamsMap_def)
  next
    case (Suc n)
    then obtain m fm where m: "sm_reach cp PerspectiveClient m fm" "openStreams m = map (\<lambda>i. 2 * i + 1) [0..<n]"
      "nextStream m = 2 * n + 1" "closeErr m = None" by auto
    obtain r m' fm' where o: "OpenStream cp m fm = (r, m', fm')" by (metis prod_cases3)
    note ok = sm_reach_ok [OF m(1)]
    have n: "nextStream m + 2 < 2 ^ 32" using m(3) Suc.prems by simp
    have "numOutgoingStreams m = 0"
      using ok sm_invD(4) [of m] m(2) by (simp add: sm_ok_def filter_map comp_def)
    then have r: "r = Inr (newStream (2 * n + 1))" using OpenStream_ok(2) [OF ok n o] m(3,4) assms(1) by simp
    then have "m' = add_stream (2 * n + 1) (2 * n + 1 + 2) (highestStreamOpenedByPeer m) m"
      using OpenStream_ok(3) [OF ok n o] m(3) by simp
    then show ?case using sm_reach.opens [OF m(1) o n] m
      by (intro exI [of _ m'] exI [of _ fm']) (simp add: add_stream_def)
  qed
  from this [OF assms(2)] obtain m fm where m: "sm_reach cp PerspectiveClient m fm"
    "openStreams m = map (\<lambda>i. 2 * i + 1) [0..<n]" "nextStream m = 2 * n + 1" "closeErr m = None" by blast
  obtain r m' fm' where o: "OpenStream cp m fm = (r, m', fm')" by (metis prod_cases3)
  note ok = sm_reach_ok [OF m(1)]
  have "numOutgoingStreams m = 0" using ok sm_invD(4) [of m] m(2) by (simp add: sm_ok_def filter_map comp_def)
  then have "r = Inr (newStream (2 * n + 1))"
    using OpenStream_ok(2) [OF ok _ o] m(3,4) assms by simp
  then have "fst (OpenStream cp m fm) = Inr (newStream (2 * n + 1))" using o by simp
  then show ?thesis using m(1,2) by blast
qed

theorem client_limit_not_enforced_witness:
  "GetMaxOutgoingStreams demo_rcp < 1000 \<and>
   (\<exists>m fm. sm_reach demo_rcp PerspectiveClient m fm \<and> length (openStreams m) = 1000)"
proof -
  have "0 < GetMaxOutgoingStreams demo_rcp" "GetMaxOutgoingStreams demo_rcp < 1000"
    by (simp_all add: demo_rcp_def GetMaxOutgoingStreams_def NewConnectionParamatersManager_def MaxStreamsPerConnection_def)
  moreover from this(1) obtain m fm where m: "sm_reach demo_rcp PerspectiveClient m fm"
    "openStreams m = map (\<lambda>i. 2 * i + 1) [0..<1000]"
    using client_limit_not_enforced [of demo_rcp 1000] by auto
  moreover have "length (openStreams m) = 1000" unfolding m(2) length_map length_upt by simp
  ultimately show ?thesis by blast
qed

end
