(* ===== verification/Public_Header.thy ===== *)
theory Public_Header
  imports Ack_Frames Connection_Parameters
begin

text \<open>
  Model of the public header of a packet (\<^verbatim>\<open>internal/wire/public_header.go\<close>), of the version numbers and
  their tags (\<^verbatim>\<open>internal/protocol/version.go\<close>) and of the version negotiation packet
  (\<^verbatim>\<open>internal/wire/version_negotiation.go\<close>).  The lemmas show that the peer parses the header a side
  writes, with the packet number truncated to its length.
\<close>

section \<open>Versions\<close>

definition VersionUnsupported :: VersionNumber where "VersionUnsupported = -1"
definition VersionUnknown :: VersionNumber where "VersionUnknown = -2"
definition VersionWhatever :: VersionNumber where "VersionWhatever = 0"
definition VersionMP :: VersionNumber where "VersionMP = 512"

definition protocol_SupportedVersions :: "VersionNumber list" where
  "protocol_SupportedVersions = [VersionMP, 39, 38, 37]"

text \<open>\<^verbatim>\<open>'Q'\<close> is 81 and \<^verbatim>\<open>'0'\<close> is 48.\<close>

definition VersionNumberToTag :: "VersionNumber \<Rightarrow> 32 word" where
  "VersionNumberToTag vn =
     (let v = word_of_int vn
      in 81 + push_bit 8 (v div 100 mod 10 + 48) + push_bit 16 (v div 10 mod 10 + 48) + push_bit 24 (v mod 10 + 48))"

definition VersionTagToNumber :: "32 word \<Rightarrow> VersionNumber" where
  "VersionTagToNumber v =
     uint (((drop_bit 8 v AND 0xFF) - 48) * 100 + ((drop_bit 16 v AND 0xFF) - 48) * 10 + ((drop_bit 24 v AND 0xFF) - 48))"

primrec IsSupportedVersion :: "VersionNumber list \<Rightarrow> VersionNumber \<Rightarrow> bool" where
  "IsSupportedVersion [] v = False"
| "IsSupportedVersion (t # supported) v = (if t = v then True else IsSupportedVersion supported v)"

text \<open>The inner loop over the versions of the peer is a search for \<open>ourVer\<close>.\<close>

primrec ChooseSupportedVersion :: "VersionNumber list \<Rightarrow> VersionNumber list \<Rightarrow> VersionNumber" where
  "ChooseSupportedVersion [] theirs = VersionUnsupported"
| "ChooseSupportedVersion (ourVer # ours) theirs =
     (if IsSupportedVersion theirs ourVer then ourVer else ChooseSupportedVersion ours theirs)"

section \<open>The header\<close>

record PublicHeader =
  Raw :: bytes
  ConnectionID :: nat
  ph_PathID :: nat
  VersionFlag :: bool
  ResetFlag :: bool
  ph_TruncateConnectionID :: bool
  MultipathFlag :: bool
  ph_PacketNumberLen :: nat
  ph_PacketNumber :: PacketNumber
  ph_VersionNumber :: VersionNumber
  SupportedVersions :: "VersionNumber list"
  DiversificationNonce :: bytes

definition empty_header :: PublicHeader where
  "empty_header = \<lparr>Raw = [], ConnectionID = 0, ph_PathID = 0, VersionFlag = False, ResetFlag = False,
     ph_TruncateConnectionID = False, MultipathFlag = False, ph_PacketNumberLen = 0, ph_PacketNumber = 0,
     ph_VersionNumber = 0, SupportedVersions = [], DiversificationNonce = []\<rparr>"

definition hasPacketNumber :: "PublicHeader \<Rightarrow> Perspective \<Rightarrow> bool" where
  "hasPacketNumber h packetSentBy =
     (if ResetFlag h then False
      else if VersionFlag h \<and> packetSentBy = PerspectiveServer then False
      else True)"

definition pn_len_flag :: "nat \<Rightarrow> byte" where
  "pn_len_flag k =
     (if k = PacketNumberLen2 then 0x10 else if k = PacketNumberLen4 then 0x20
      else if k = PacketNumberLen6 then 0x30 else 0)"

definition publicFlagByte :: "PublicHeader \<Rightarrow> Perspective \<Rightarrow> byte" where
  "publicFlagByte h pers =
     (if VersionFlag h then 0x01 else 0) OR (if ResetFlag h then 0x02 else 0)
     OR (if \<not> ph_TruncateConnectionID h then 0x08 else 0) OR (if length (DiversificationNonce h) > 0 then 0x04 else 0)
     OR (if hasPacketNumber h pers then pn_len_flag (ph_PacketNumberLen h) else 0)
     OR (if MultipathFlag h then 0x40 else 0)"

definition write_header_pn :: "ByteOrder \<Rightarrow> nat \<Rightarrow> PacketNumber \<Rightarrow> writer" where
  "write_header_pn bo k n =
     (if k = PacketNumberLen1 then wbytes [word_of_nat n]
      else if k = PacketNumberLen2 then wbytes (WriteUint16 bo (word_of_nat n))
      else if k = PacketNumberLen4 then wbytes (WriteUint32 bo (word_of_nat n))
      else if k = PacketNumberLen6 then wchecked (WriteUint48 bo (word_of_nat (n mod 2 ^ 48)))
      else Some (Inl errPacketNumberLenNotSet))"

definition PublicHeader_Write :: "VersionNumber \<Rightarrow> Perspective \<Rightarrow> PublicHeader \<Rightarrow> writer" where
  "PublicHeader_Write v pers h =
     (if VersionFlag h \<and> ResetFlag h then Some (Inl errResetAndVersionFlagSet)
      else if length (DiversificationNonce h) > 0 \<and> length (DiversificationNonce h) \<noteq> 32
      then Some (Inl errInvalidNonceLength)
      else wappend (wbytes ([publicFlagByte h pers]
               @ (if \<not> ph_TruncateConnectionID h then littleEndian_WriteUint64 (word_of_nat (ConnectionID h)) else [])
               @ (if VersionFlag h \<and> pers = PerspectiveClient
                  then littleEndian_WriteUint32 (VersionNumberToTag (ph_VersionNumber h)) else [])
               @ DiversificationNonce h
               @ (if MultipathFlag h then [word_of_nat (ph_PathID h)] else [])))
             (if \<not> hasPacketNumber h pers then wbytes []
              else write_header_pn (GetByteOrder v) (ph_PacketNumberLen h) (ph_PacketNumber h)))"

text \<open>\<^verbatim>\<open>PeekConnectionID\<close> leaves the reader where it was.\<close>

definition PeekConnectionID :: "Perspective \<Rightarrow> bytes \<Rightarrow> wire_error + nat" where
  "PeekConnectionID packetSentBy b =
     map_sum id fst (pbind (pread ReadByte) (\<lambda>flags.
       let truncateConnectionID = (flags AND 0x08 = 0)
       in if truncateConnectionID \<and> packetSentBy = PerspectiveClient then pfail errReceivedTruncatedConnectionID
          else if \<not> truncateConnectionID
          then pbind (pread littleEndian_ReadUint64) (\<lambda>connID. pret (unat connID))
          else pret 0) b)"

text \<open>The loop over the tags of a version negotiation packet ends when a tag cannot be read.\<close>

fun read_versions :: "bytes \<Rightarrow> VersionNumber list" where
  "read_versions (b1 # b2 # b3 # b4 # b) =
     (case littleEndian_ReadUint32 [b1, b2, b3, b4] of
        Inl e \<Rightarrow> [] | Inr (versionTag, _) \<Rightarrow> VersionTagToNumber versionTag # read_versions b)"
| "read_versions b = []"

definition parse_versions :: "PublicHeader \<Rightarrow> PublicHeader parser" where
  "parse_versions h b =
     (if length b mod 4 \<noteq> 0 then Inl InvalidVersionNegotiationPacket
      else Inr (h\<lparr>SupportedVersions := read_versions b\<rparr>, []))"

definition parse_pn_len :: "byte \<Rightarrow> nat" where
  "parse_pn_len flags =
     (let bits = flags AND 0x30
      in if bits = 0x30 then PacketNumberLen6 else if bits = 0x20 then PacketNumberLen4
         else if bits = 0x10 then PacketNumberLen2 else PacketNumberLen1)"

text \<open>The path and the packet number, read in the byte order of \<open>version\<close>.\<close>

definition parse_path_and_pn :: "Perspective \<Rightarrow> VersionNumber \<Rightarrow> PublicHeader \<Rightarrow> PublicHeader parser" where
  "parse_path_and_pn packetSentBy version h =
     pbind (if MultipathFlag h then pread ReadByte else pret 0) (\<lambda>pathID.
       let h = h\<lparr>ph_PathID := unat pathID\<rparr>
       in if hasPacketNumber h packetSentBy
          then pbind (pread (ReadUintN (GetByteOrder version) (ph_PacketNumberLen h))) (\<lambda>packetNumber.
                 pret (h\<lparr>ph_PacketNumber := unat packetNumber\<rparr>))
          else pret h)"

definition parse_version :: "Perspective \<Rightarrow> VersionNumber \<Rightarrow> PublicHeader \<Rightarrow> PublicHeader parser" where
  "parse_version packetSentBy version h =
     (if \<not> ResetFlag h \<and> VersionFlag h
      then if packetSentBy = PerspectiveServer then parse_versions h
           else pbind (pread littleEndian_ReadUint32) (\<lambda>versionTag.
                  let h = h\<lparr>ph_VersionNumber := VersionTagToNumber versionTag\<rparr>
                  in parse_path_and_pn packetSentBy (ph_VersionNumber h) h)
      else parse_path_and_pn packetSentBy version h)"

definition ParsePublicHeader :: "Perspective \<Rightarrow> VersionNumber \<Rightarrow> PublicHeader parser" where
  "ParsePublicHeader packetSentBy version =
     pbind (pread ReadByte) (\<lambda>flags.
       let h = empty_header\<lparr>ResetFlag := (flags AND 0x02 > 0), VersionFlag := (flags AND 0x01 > 0)\<rparr>
       in if version = VersionUnknown \<and> \<not> (VersionFlag h \<or> ResetFlag h) then pfail ErrPacketWithUnknownVersion
          else let h = h\<lparr>ph_TruncateConnectionID := (flags AND 0x08 = 0)\<rparr>
          in if ph_TruncateConnectionID h \<and> packetSentBy = PerspectiveClient then pfail errReceivedTruncatedConnectionID
             else let h = (if hasPacketNumber h packetSentBy then h\<lparr>ph_PacketNumberLen := parse_pn_len flags\<rparr> else h);
                      h = h\<lparr>MultipathFlag := (flags AND 0x40 > 0)\<rparr>
             in pbind (if \<not> ph_TruncateConnectionID h
                       then pbind (pread littleEndian_ReadUint64) (\<lambda>connID.
                              if connID = 0 then pfail errInvalidConnectionID
                              else pret (h\<lparr>ConnectionID := unat connID\<rparr>))
                       else pret h) (\<lambda>h.
                pbind (if packetSentBy = PerspectiveServer \<and> flags AND 0x04 > 0 \<and> \<not> VersionFlag h \<and> \<not> ResetFlag h
                       then pbind (ReadFull 32) (\<lambda>nonce. pret (h\<lparr>DiversificationNonce := nonce\<rparr>))
                       else pret h)
                  (parse_version packetSentBy version)))"

definition GetLength :: "PublicHeader \<Rightarrow> Perspective \<Rightarrow> wire_error + nat" where
  "GetLength h pers =
     (if VersionFlag h \<and> ResetFlag h then Inl errResetAndVersionFlagSet
      else if VersionFlag h \<and> pers = PerspectiveServer then Inl errGetLengthNotForVersionNegotiation
      else if hasPacketNumber h pers \<and>
              ph_PacketNumberLen h \<notin> {PacketNumberLen1, PacketNumberLen2, PacketNumberLen4, PacketNumberLen6}
      then Inl errPacketNumberLenNotSet
      else Inr (1 + (if hasPacketNumber h pers then ph_PacketNumberLen h else 0)
                  + (if \<not> ph_TruncateConnectionID h then 8 else 0) + (if VersionFlag h then 4 else 0)
                  + length (DiversificationNonce h) + (if MultipathFlag h then 1 else 0)))"

definition ComposeVersionNegotiation :: "nat \<Rightarrow> VersionNumber list \<Rightarrow> bytes" where
  "ComposeVersionNegotiation connectionID versions =
     (case PublicHeader_Write VersionWhatever PerspectiveServer
             (empty_header\<lparr>ConnectionID := connectionID, ph_PacketNumber := 1, VersionFlag := True\<rparr>) of
        Some (Inr b) \<Rightarrow> b | _ \<Rightarrow> [])
     @ concat (map (\<lambda>v. littleEndian_WriteUint32 (VersionNumberToTag v)) versions)"

section \<open>Round trips\<close>

lemma tag_byte:
  assumes "N < 2 ^ 32"
  shows "drop_bit k (word_of_nat N :: 32 word) AND 0xFF = word_of_nat (N div 2 ^ k mod 256)"
proof -
  have m: "(0xFF :: 32 word) = mask 8" by (simp add: mask_eq_decr_exp)
  have u: "unat (word_of_nat N :: 32 word) = N" using assms by (rule unat_word32)
  have "N div 2 ^ k mod 256 < 2 ^ 32" by (rule less_le_trans [of _ 256]) simp_all
  then have "unat (word_of_nat (N div 2 ^ k mod 256) :: 32 word) = N div 2 ^ k mod 256" by (rule unat_word32)
  moreover have "unat (take_bit 8 (drop_bit k (word_of_nat N :: 32 word))) = N div 2 ^ k mod 256"
    unfolding unsigned_take_bit_eq unat_drop_bit_eq u by (simp add: drop_bit_eq_div take_bit_eq_mod)
  ultimately show ?thesis unfolding m take_bit_eq_mask [symmetric] by (simp add: word_unat_eq_iff)
qed

lemma VersionTag_round_trip:
  assumes "0 \<le> v" "v < 1000"
  shows "VersionTagToNumber (VersionNumberToTag v) = v"
proof -
  define n where "n = nat v"
  have n: "v = int n" "n < 1000" using assms by (simp_all add: n_def)
  define a b c where "a = n div 100 mod 10" and "b = n div 10 mod 10" and "c = n mod 10"
  have abc: "a < 10" "b < 10" "c < 10" by (simp_all add: a_def b_def c_def)
  have "n div 100 mod 10 = n div 100" using n(2) by simp
  moreover have "n div 10 = 10 * (n div 100) + n div 10 mod 10" using div_mult_mod_eq [of "n div 10" 10] by (simp add: div_mult2_eq [symmetric])
  moreover have "n = 10 * (n div 10) + n mod 10" by simp
  ultimately have digits: "n = 100 * a + 10 * b + c" unfolding a_def b_def c_def by linarith
  define M2 M1 N where "M2 = b + 48 + 256 * (c + 48)" and "M1 = a + 48 + 256 * M2" and "N = 81 + 256 * M1"
  have M: "N div 256 = M1" "M1 mod 256 = a + 48" "M1 div 256 = M2" "M2 mod 256 = b + 48" "M2 div 256 = c + 48"
    "c + 48 < 256"
    using abc unfolding N_def M1_def M2_def
    by (simp_all only: div_mult_self2 div_mult_self3 mod_mult_self2 mod_less div_less)
  have "N div 2 ^ 16 = N div 256 div 256" "N div 2 ^ 24 = N div 256 div 256 div 256"
    by (simp_all add: div_mult2_eq [symmetric])
  then have D: "N div 2 ^ 8 mod 256 = a + 48" "N div 2 ^ 16 mod 256 = b + 48" "N div 2 ^ 24 mod 256 = c + 48"
    using M by simp_all
  have N: "N < 2 ^ 32" using abc by (simp add: N_def M1_def M2_def)
  have w: "(word_of_int v :: 32 word) = word_of_nat n" by (simp add: n(1))
  have d: "(word_of_nat n :: 32 word) div 100 mod 10 = word_of_nat a" "(word_of_nat n :: 32 word) div 10 mod 10 = word_of_nat b"
    "(word_of_nat n :: 32 word) mod 10 = word_of_nat c"
    using n(2) by (simp_all add: word_unat_eq_iff unat_div unat_mod unat_word32 a_def b_def c_def)
  have "VersionNumberToTag v = word_of_nat N"
    unfolding VersionNumberToTag_def Let_def w d N_def M1_def M2_def by (simp add: push_bit_eq_mult algebra_simps)
  then have "VersionTagToNumber (VersionNumberToTag v) = uint (word_of_nat (100 * a + 10 * b + c) :: 32 word)"
    by (simp only: VersionTagToNumber_def tag_byte [OF N] D) (simp add: algebra_simps)
  also have "\<dots> = int (unat (word_of_nat n :: 32 word))" by (simp add: digits)
  also have "\<dots> = v" using n by (simp add: unat_word32)
  finally show ?thesis .
qed

text \<open>The headers of regular packets, and what the peer reads.\<close>

definition header_ok :: "Perspective \<Rightarrow> PublicHeader \<Rightarrow> bool" where
  "header_ok pers h \<longleftrightarrow> \<not> ResetFlag h \<and> ph_PacketNumberLen h \<in> {1, 2, 4, 6} \<and>
     (if ph_TruncateConnectionID h then pers = PerspectiveServer else 0 < ConnectionID h \<and> ConnectionID h < 2 ^ 64) \<and>
     (VersionFlag h \<longrightarrow> pers = PerspectiveClient \<and> 0 \<le> ph_VersionNumber h \<and> ph_VersionNumber h < 1000) \<and>
     (DiversificationNonce h = [] \<or> length (DiversificationNonce h) = 32 \<and> pers = PerspectiveServer) \<and>
     (MultipathFlag h \<longrightarrow> ph_PathID h < 256)"

definition peer_header :: "PublicHeader \<Rightarrow> PublicHeader" where
  "peer_header h =
     \<lparr>Raw = [], ConnectionID = if ph_TruncateConnectionID h then 0 else ConnectionID h,
      ph_PathID = if MultipathFlag h then ph_PathID h else 0, VersionFlag = VersionFlag h, ResetFlag = False,
      ph_TruncateConnectionID = ph_TruncateConnectionID h, MultipathFlag = MultipathFlag h,
      ph_PacketNumberLen = ph_PacketNumberLen h,
      ph_PacketNumber = ph_PacketNumber h mod 2 ^ (ph_PacketNumberLen h * 8),
      ph_VersionNumber = if VersionFlag h then ph_VersionNumber h else 0, SupportedVersions = [],
      DiversificationNonce = DiversificationNonce h\<rparr>"

lemma header_ok_pn: "header_ok pers h \<Longrightarrow> hasPacketNumber h pers"
  by (auto simp: header_ok_def hasPacketNumber_def)

lemma flag_fields:
  assumes "header_ok pers h"
  shows "(publicFlagByte h pers AND 0x01 > 0) = VersionFlag h" "(publicFlagByte h pers AND 0x02 > 0) = False"
    "(publicFlagByte h pers AND 0x08 = 0) = ph_TruncateConnectionID h" "(publicFlagByte h pers AND 0x40 > 0) = MultipathFlag h"
    "(publicFlagByte h pers AND 0x04 > 0) = (DiversificationNonce h \<noteq> [])"
    "parse_pn_len (publicFlagByte h pers) = ph_PacketNumberLen h"
proof -
  have r: "\<not> ResetFlag h" "hasPacketNumber h pers" and k: "ph_PacketNumberLen h \<in> {1, 2, 4, 6}"
    using assms header_ok_pn by (auto simp: header_ok_def)
  have flags: "publicFlagByte h pers =
      (if VersionFlag h then 0x01 else 0) OR (if \<not> ph_TruncateConnectionID h then 0x08 else 0)
      OR (if DiversificationNonce h \<noteq> [] then 0x04 else 0)
      OR pn_len_flag (ph_PacketNumberLen h) OR (if MultipathFlag h then 0x40 else 0)"
    using r by (simp add: publicFlagByte_def)
  show "(publicFlagByte h pers AND 0x01 > 0) = VersionFlag h" "(publicFlagByte h pers AND 0x02 > 0) = False"
    "(publicFlagByte h pers AND 0x08 = 0) = ph_TruncateConnectionID h" "(publicFlagByte h pers AND 0x40 > 0) = MultipathFlag h"
    "(publicFlagByte h pers AND 0x04 > 0) = (DiversificationNonce h \<noteq> [])"
    "parse_pn_len (publicFlagByte h pers) = ph_PacketNumberLen h"
    using k unfolding flags
    by (cases "VersionFlag h"; cases "ph_TruncateConnectionID h"; cases "MultipathFlag h"; cases "DiversificationNonce h = []";
        auto simp: pn_len_flag_def parse_pn_len_def pn_len_defs)+
qed

lemma write_header_pn_bytes:
  assumes "k \<in> {1, 2, 4, 6}"
  shows "write_header_pn bo k n = wbytes (uint_bytes bo k (n mod 2 ^ (8 * k)))"
proof -
  have w: "(word_of_nat (n mod 2 ^ 8) :: byte) = word_of_nat n" "(word_of_nat (n mod 2 ^ 16) :: 16 word) = word_of_nat n"
    "(word_of_nat (n mod 2 ^ 32) :: 32 word) = word_of_nat n"
    by (simp_all add: word_of_nat_eq_iff take_bit_eq_mod)
  have "write_header_pn bo k n = write_pn True bo k (n mod 2 ^ (8 * k))"
    using assms w by (auto simp: write_header_pn_def write_pn_def pn_len_defs)
  also have "\<dots> = wbytes (uint_bytes bo k (n mod 2 ^ (8 * k)))" using assms by (intro write_pn_bytes) auto
  finally show ?thesis .
qed

lemma littleEndian_eqs:
  "littleEndian_WriteUint64 = WriteUint64 LittleEndian" "littleEndian_WriteUint32 = WriteUint32 LittleEndian"
  "littleEndian_ReadUint64 = ReadUint64 LittleEndian" "littleEndian_ReadUint32 = ReadUint32 LittleEndian"
  by (simp_all add: fun_eq_iff)

definition header_bytes :: "VersionNumber \<Rightarrow> Perspective \<Rightarrow> PublicHeader \<Rightarrow> bytes" where
  "header_bytes v pers h =
     publicFlagByte h pers
     # (if ph_TruncateConnectionID h then [] else WriteUint64 LittleEndian (word_of_nat (ConnectionID h)))
     @ (if VersionFlag h then WriteUint32 LittleEndian (VersionNumberToTag (ph_VersionNumber h)) else [])
     @ DiversificationNonce h @ (if MultipathFlag h then [word_of_nat (ph_PathID h)] else [])
     @ uint_bytes (GetByteOrder v) (ph_PacketNumberLen h) (ph_PacketNumber h mod 2 ^ (8 * ph_PacketNumberLen h))"

lemma PublicHeader_Write_bytes:
  assumes "header_ok pers h"
  shows "PublicHeader_Write v pers h = wbytes (header_bytes v pers h)"
    "GetLength h pers = Inr (length (header_bytes v pers h))"
proof -
  have pn: "hasPacketNumber h pers" "ph_PacketNumberLen h \<in> {1, 2, 4, 6}" and ok: "\<not> ResetFlag h"
    "VersionFlag h \<Longrightarrow> pers = PerspectiveClient" "DiversificationNonce h = [] \<or> length (DiversificationNonce h) = 32"
    using assms header_ok_pn by (auto simp: header_ok_def)
  show "PublicHeader_Write v pers h = wbytes (header_bytes v pers h)"
    using pn ok by (auto simp: PublicHeader_Write_def header_bytes_def write_header_pn_bytes littleEndian_eqs
        simp del: WriteUint64.simps WriteUint32.simps)
  show "GetLength h pers = Inr (length (header_bytes v pers h))"
    using pn ok(1,2) by (auto simp: GetLength_def header_bytes_def pn_len_defs simp del: WriteUint64.simps WriteUint32.simps)
qed

lemma parse_path_and_pn_bytes:
  assumes "hasPacketNumber h pers" "ph_PacketNumberLen h \<in> {1, 2, 4, 6}" "MultipathFlag h \<Longrightarrow> p < 256" "GetByteOrder rv = bo"
  shows "parse_path_and_pn pers rv h ((if MultipathFlag h then [word_of_nat p] else []) @
      uint_bytes bo (ph_PacketNumberLen h) (n mod 2 ^ (8 * ph_PacketNumberLen h)) @ rest) =
    Inr (h\<lparr>ph_PathID := if MultipathFlag h then p else 0, ph_PacketNumber := n mod 2 ^ (ph_PacketNumberLen h * 8)\<rparr>, rest)"
proof -
  let ?k = "ph_PacketNumberLen h"
  have k: "?k \<le> 8" "n mod 2 ^ (8 * ?k) < 2 ^ (8 * ?k)" using assms(2) by auto
  have p: "MultipathFlag h \<Longrightarrow> unat (word_of_nat p :: byte) = p" using assms(3) by (simp add: unat_of_nat take_bit_nat_eq_self)
  have pn: "hasPacketNumber (h\<lparr>ph_PathID := x\<rparr>) pers" for x
    using assms(1) by (auto simp: hasPacketNumber_def split: if_splits)
  have "pbind (pread (ReadUintN bo ?k)) f (uint_bytes bo ?k (n mod 2 ^ (8 * ?k)) @ rest) =
      f (word_of_nat (n mod 2 ^ (8 * ?k))) rest" for f :: "64 word \<Rightarrow> PublicHeader parser"
    by (rule pbind_uint_bytes [OF k])
  then show ?thesis
    using p pn unat_word64_fits [OF k] assms(4)
    by (cases "MultipathFlag h") (simp_all add: parse_path_and_pn_def pret_def mult.commute)
qed

lemma ParsePublicHeader_bytes:
  assumes ok: "header_ok pers h"
    and rv: "VersionFlag h \<Longrightarrow> GetByteOrder (ph_VersionNumber h) = GetByteOrder v"
      "\<not> VersionFlag h \<Longrightarrow> rv \<noteq> VersionUnknown \<and> GetByteOrder rv = GetByteOrder v"
  shows "ParsePublicHeader pers rv (header_bytes v pers h @ rest) = Inr (peer_header h, rest)"
proof -
  define tb where "tb = (if MultipathFlag h then [word_of_nat (ph_PathID h)] else []) @
    uint_bytes (GetByteOrder v) (ph_PacketNumberLen h) (ph_PacketNumber h mod 2 ^ (8 * ph_PacketNumberLen h)) @ rest"
  define g where "g = empty_header\<lparr>ResetFlag := False, VersionFlag := VersionFlag h, ph_TruncateConnectionID := ph_TruncateConnectionID h,
    ph_PacketNumberLen := ph_PacketNumberLen h, MultipathFlag := MultipathFlag h\<rparr>"
  let ?g1 = "g\<lparr>ConnectionID := if ph_TruncateConnectionID h then 0 else ConnectionID h\<rparr>"
  let ?g2 = "?g1\<lparr>DiversificationNonce := DiversificationNonce h\<rparr>"
  have k: "ph_PacketNumberLen h \<in> {1, 2, 4, 6}" "\<not> ResetFlag h" "MultipathFlag h \<Longrightarrow> ph_PathID h < 256"
    "VersionFlag h \<Longrightarrow> pers \<noteq> PerspectiveServer" using ok by (auto simp: header_ok_def)
  have tail: "parse_path_and_pn pers w x tb =
      Inr (x\<lparr>ph_PathID := if MultipathFlag h then ph_PathID h else 0,
             ph_PacketNumber := ph_PacketNumber h mod 2 ^ (ph_PacketNumberLen h * 8)\<rparr>, rest)"
    if "MultipathFlag x = MultipathFlag h" "ph_PacketNumberLen x = ph_PacketNumberLen h" "hasPacketNumber x pers"
      "GetByteOrder w = GetByteOrder v" for x w
    using parse_path_and_pn_bytes [OF that(3) _ _ that(4), of "ph_PathID h" "ph_PacketNumber h" rest] k(1,3) that(1,2)
    by (simp add: tb_def)
  have version: "parse_version pers rv ?g2
      ((if VersionFlag h then WriteUint32 LittleEndian (VersionNumberToTag (ph_VersionNumber h)) else []) @ tb) =
      Inr (peer_header h, rest)"
  proof (cases "VersionFlag h")
    case True
    have ver: "VersionTagToNumber (VersionNumberToTag (ph_VersionNumber h)) = ph_VersionNumber h"
      using ok True by (intro VersionTag_round_trip) (auto simp: header_ok_def)
    show ?thesis
      using True k(4) rv(1) ver
      by (simp add: parse_version_def littleEndian_eqs tail hasPacketNumber_def g_def peer_header_def empty_header_def
          del: WriteUint32.simps ReadUint32.simps)
  next
    case False
    then show ?thesis using rv(2)
      by (simp add: parse_version_def tail hasPacketNumber_def g_def peer_header_def empty_header_def)
  qed
  have conn: "\<not> ph_TruncateConnectionID h \<Longrightarrow> unat (word_of_nat (ConnectionID h) :: 64 word) = ConnectionID h"
    "\<not> ph_TruncateConnectionID h \<Longrightarrow> (word_of_nat (ConnectionID h) :: 64 word) \<noteq> 0"
    using ok by (auto simp: header_ok_def unat_word64 word_unat_eq_iff)
  have nonce: "DiversificationNonce h \<noteq> [] \<Longrightarrow> length (DiversificationNonce h) = 32 \<and> pers = PerspectiveServer"
    using ok by (auto simp: header_ok_def)
  have unknown: "\<not> (rv = VersionUnknown \<and> \<not> VersionFlag h)" using rv(2) by auto
  have trunc: "\<not> (ph_TruncateConnectionID h \<and> pers = PerspectiveClient)" using ok by (auto simp: header_ok_def)
  have bytes: "header_bytes v pers h @ rest = publicFlagByte h pers
     # (if ph_TruncateConnectionID h then [] else WriteUint64 LittleEndian (word_of_nat (ConnectionID h)))
     @ DiversificationNonce h
     @ (if VersionFlag h then WriteUint32 LittleEndian (VersionNumberToTag (ph_VersionNumber h)) else []) @ tb"
    using nonce k(4) by (cases "DiversificationNonce h = []")
      (auto simp: header_bytes_def tb_def simp del: WriteUint64.simps WriteUint32.simps)
  define vb where "vb = (if VersionFlag h then WriteUint32 LittleEndian (VersionNumberToTag (ph_VersionNumber h)) else []) @ tb"
  have step: "pbind (if pers = PerspectiveServer \<and> DiversificationNonce h \<noteq> [] \<and> \<not> VersionFlag h \<and> True
        then pbind (ReadFull 32) (\<lambda>nonce. pret (?g1\<lparr>DiversificationNonce := nonce\<rparr>)) else pret ?g1)
        (parse_version pers rv) (DiversificationNonce h @ vb) = Inr (peer_header h, rest)"
    using version nonce k(4) unfolding vb_def [symmetric]
    by (cases "DiversificationNonce h = []") (auto simp: pbind_assoc g_def empty_header_def)
  show ?thesis
    unfolding bytes vb_def [symmetric] ParsePublicHeader_def pbind_ReadByte flag_fields [OF ok] Let_def
    using step unknown trunc conn k(4)
    by (cases "ph_TruncateConnectionID h")
      (auto simp: littleEndian_eqs pbind_assoc g_def empty_header_def hasPacketNumber_def
        simp del: WriteUint64.simps ReadUint64.simps)
qed

section \<open>Version negotiation\<close>

lemma read_versions_bytes:
  "\<forall>v \<in> set vs. 0 \<le> v \<and> v < 1000 \<Longrightarrow>
   read_versions (concat (map (\<lambda>v. littleEndian_WriteUint32 (VersionNumberToTag v)) vs)) = vs"
proof (induction vs)
  case (Cons v vs)
  obtain b1 b2 b3 b4 where b: "littleEndian_WriteUint32 (VersionNumberToTag v) = [b1, b2, b3, b4]"
    by (simp add: littleEndian_WriteUint32_def)
  have "littleEndian_ReadUint32 [b1, b2, b3, b4] = Inr (VersionNumberToTag v, [])"
    using ReadUint_Write(2) [of LittleEndian "VersionNumberToTag v" "[]"] b by simp
  then show ?case using Cons b by (simp add: VersionTag_round_trip)
qed simp

lemma length_versions:
  "length (concat (map (\<lambda>v. littleEndian_WriteUint32 (VersionNumberToTag v)) vs)) = 4 * length vs"
  by (induction vs) (simp_all add: littleEndian_WriteUint32_def)

text \<open>The client reads the versions a server offers.\<close>

theorem version_negotiation_round_trip:
  assumes "0 < c" "c < 2 ^ 64" "\<forall>v \<in> set vs. 0 \<le> v \<and> v < 1000"
  shows "ParsePublicHeader PerspectiveServer rv (ComposeVersionNegotiation c vs) =
    Inr (empty_header\<lparr>ConnectionID := c, VersionFlag := True, SupportedVersions := vs\<rparr>, [])"
proof -
  let ?vs = "concat (map (\<lambda>v. littleEndian_WriteUint32 (VersionNumberToTag v)) vs)"
  have "ComposeVersionNegotiation c vs = 0x09 # WriteUint64 LittleEndian (word_of_nat c) @ ?vs"
    by (simp add: ComposeVersionNegotiation_def PublicHeader_Write_def publicFlagByte_def hasPacketNumber_def
        empty_header_def wbytes_def wappend_def)
  moreover have "unat (word_of_nat c :: 64 word) = c" "(word_of_nat c :: 64 word) \<noteq> 0"
    using assms(1,2) by (auto simp: unat_word64 word_unat_eq_iff)
  moreover have "parse_versions h ?vs = Inr (h\<lparr>SupportedVersions := vs\<rparr>, [])" for h
    using assms(3) by (simp add: parse_versions_def length_versions read_versions_bytes)
  ultimately show ?thesis
    by (simp add: ParsePublicHeader_def Let_def littleEndian_eqs(3) empty_header_def pbind_assoc hasPacketNumber_def
        parse_version_def del: WriteUint64.simps ReadUint64.simps)
qed

text \<open>The version chosen is the one this side prefers among the common ones.\<close>

lemma IsSupportedVersion_iff: "IsSupportedVersion vs v \<longleftrightarrow> v \<in> set vs"
  by (induction vs) auto

theorem ChooseSupportedVersion_best:
  "if set ours \<inter> set theirs = {} then ChooseSupportedVersion ours theirs = VersionUnsupported
   else \<exists>i < length ours. ChooseSupportedVersion ours theirs = ours ! i \<and> ours ! i \<in> set theirs \<and>
          (\<forall>j < i. ours ! j \<notin> set theirs)"
proof (induction ours)
  case (Cons v ours)
  show ?case
  proof (cases "v \<in> set theirs")
    case True
    then show ?thesis by (auto simp: IsSupportedVersion_iff intro!: exI [of _ 0])
  next
    case False
    show ?thesis
    proof (cases "set ours \<inter> set theirs = {}")
      case True
      then show ?thesis using Cons False by (simp add: IsSupportedVersion_iff)
    next
      case no: False
      then obtain i where i: "i < length ours" "ChooseSupportedVersion ours theirs = ours ! i" "ours ! i \<in> set theirs"
        "\<forall>j < i. ours ! j \<notin> set theirs" using Cons by auto
      then have "\<forall>j < Suc i. (v # ours) ! j \<notin> set theirs" using False by (auto simp: less_Suc_eq_0_disj)
      then show ?thesis using i(1-3) False no
        by (auto simp: IsSupportedVersion_iff intro!: exI [of _ "Suc i"])
    qed
  qed
qed simp

end
