(* ===== verification/Packet_Unpacker.thy ===== *)
theory Packet_Unpacker
  imports Packet_Frames
begin

text \<open>
  Model of \<^verbatim>\<open>packet_unpacker.go\<close>, which decrypts a packet and reads its frames, and of the encryption
  levels (\<^verbatim>\<open>internal/protocol/encryption_level.go\<close>).  The AEAD of the session is an argument.  The lemmas
  show that the loop over the frames ends on every input and that it reads back what the frames of
  a packet write.
\<close>

section \<open>Unpacking\<close>

datatype EncryptionLevel = EncryptionUnspecified | EncryptionUnencrypted | EncryptionSecure | EncryptionForwardSecure

primrec level_num :: "EncryptionLevel \<Rightarrow> nat" where
  "level_num EncryptionUnspecified = 0"
| "level_num EncryptionUnencrypted = 1"
| "level_num EncryptionSecure = 2"
| "level_num EncryptionForwardSecure = 3"

instantiation EncryptionLevel :: linorder
begin

definition less_eq_EncryptionLevel :: "EncryptionLevel \<Rightarrow> EncryptionLevel \<Rightarrow> bool" where
  "less_eq_EncryptionLevel a b \<longleftrightarrow> level_num a \<le> level_num b"

definition less_EncryptionLevel :: "EncryptionLevel \<Rightarrow> EncryptionLevel \<Rightarrow> bool" where
  "less_EncryptionLevel a b \<longleftrightarrow> level_num a < level_num b"

instance
proof
  fix a b :: EncryptionLevel
  show "a \<le> b \<Longrightarrow> b \<le> a \<Longrightarrow> a = b"
    by (cases a; cases b) (simp_all add: less_eq_EncryptionLevel_def)
qed (auto simp: less_eq_EncryptionLevel_def less_EncryptionLevel_def)

end

datatype unpack_error =
    DecryptionFailure
  | MissingPayload
  | UnpackInvalidStreamData wire_error
  | UnencryptedStreamData nat
  | InvalidAckData wire_error
  | UnimplementedCongestionFeedback
  | InvalidRstStreamData wire_error
  | UnpackInvalidConnectionCloseData wire_error
  | UnpackInvalidGoawayData wire_error
  | InvalidWindowUpdateData wire_error
  | InvalidBlockedData wire_error
  | UnpackInvalidStopWaitingData wire_error
  | FrameError wire_error
  | InvalidFrameData byte

definition lift_parse :: "(wire_error \<Rightarrow> unpack_error) \<Rightarrow> ('a \<Rightarrow> Frame) \<Rightarrow> 'a parser \<Rightarrow> bytes \<Rightarrow> unpack_error + Frame \<times> bytes" where
  "lift_parse err con p b = (case p b of Inl e \<Rightarrow> Inl (err e) | Inr (f, b') \<Rightarrow> Inr (con f, b'))"

definition check_level :: "EncryptionLevel \<Rightarrow> unpack_error + Frame \<times> bytes \<Rightarrow> unpack_error + Frame \<times> bytes" where
  "check_level level r =
     (case r of Inr (Stream f, b) \<Rightarrow>
        if StreamID f \<noteq> 1 \<and> level \<le> EncryptionUnencrypted then Inl (UnencryptedStreamData (StreamID f)) else r
      | _ \<Rightarrow> r)"

definition parse_frame ::
  "VersionNumber \<Rightarrow> PacketNumber \<Rightarrow> nat \<Rightarrow> EncryptionLevel \<Rightarrow> byte \<Rightarrow> bytes \<Rightarrow> unpack_error + Frame \<times> bytes" where
  "parse_frame v pn pnLen level typeByte =
     (if typeByte AND 0x80 = 0x80
      then \<lambda>b. check_level level (lift_parse UnpackInvalidStreamData Stream (ParseStreamFrame v) b)
      else if typeByte AND 0xC0 = 0x40 then lift_parse InvalidAckData Ack (ParseAckFrame v)
      else if typeByte AND 0xE0 = 0x20 then \<lambda>b. Inl UnimplementedCongestionFeedback
      else if typeByte = 0x01 then lift_parse InvalidRstStreamData RstStream (ParseRstStreamFrame v)
      else if typeByte = 0x02 then lift_parse UnpackInvalidConnectionCloseData ConnectionClose (ParseConnectionCloseFrame v)
      else if typeByte = 0x03 then lift_parse UnpackInvalidGoawayData Goaway (ParseGoawayFrame v)
      else if typeByte = 0x04 then lift_parse InvalidWindowUpdateData WindowUpdate (ParseWindowUpdateFrame v)
      else if typeByte = 0x05 then lift_parse InvalidBlockedData Blocked (ParseBlockedFrame v)
      else if typeByte = 0x06 then lift_parse UnpackInvalidStopWaitingData StopWaiting (ParseStopWaitingFrame pn pnLen v)
      else if typeByte = 0x07 then lift_parse FrameError (\<lambda>_. Ping) (ParsePingFrame v)
      else if typeByte = 0x10 then lift_parse FrameError AddAddress (ParseAddAddressFrame v)
      else if typeByte = 0x11 then lift_parse FrameError ClosePath (ParseClosePathFrame v)
      else if typeByte = 0x12 then lift_parse FrameError Paths (ParsePathsFrame v)
      else (\<lambda>b. Inl (InvalidFrameData typeByte)))"

text \<open>Every parser reads the type byte and never gives bytes back.\<close>

definition shrinks :: "'a parser \<Rightarrow> bool" where
  "shrinks p \<longleftrightarrow> (\<forall>b x b'. p b = Inr (x, b') \<longrightarrow> length b' \<le> length b)"

lemma shrinksD: "shrinks p \<Longrightarrow> p b = Inr (x, b') \<Longrightarrow> length b' \<le> length b"
  by (simp add: shrinks_def)

lemma shrinks_basic [intro]: "shrinks (pret x)" "shrinks (pfail e)" "shrinks (ReadFull n)" "shrinks ReaderLen"
  by (auto simp: shrinks_def pret_def pfail_def ReadFull_def ReaderLen_def split: if_splits)

lemma shrinks_pbind [intro]: "shrinks m \<Longrightarrow> (\<And>x. shrinks (f x)) \<Longrightarrow> shrinks (pbind m f)"
  unfolding shrinks_def pbind_Inr by (meson order_trans)

lemma shrinks_if [intro]: "(c \<Longrightarrow> shrinks p) \<Longrightarrow> (\<not> c \<Longrightarrow> shrinks q) \<Longrightarrow> shrinks (if c then p else q)"
  by auto

definition rshrinks :: "'a reader \<Rightarrow> bool" where
  "rshrinks r \<longleftrightarrow> (\<forall>b x b'. r b = Inr (x, b') \<longrightarrow> length b' \<le> length b)"

lemma rshrinks_basic [intro]: "rshrinks (rret x)" "rshrinks ReadByte"
proof -
  show "rshrinks (rret x)" by (simp add: rshrinks_def rret_def)
  show "rshrinks ReadByte" unfolding rshrinks_def
  proof (intro allI impI)
    fix b x b' assume "ReadByte b = Inr (x, b')"
    then show "length b' \<le> length b" by (cases b) auto
  qed
qed

lemma rshrinks_rbind [intro]: "rshrinks m \<Longrightarrow> (\<And>x. rshrinks (f x)) \<Longrightarrow> rshrinks (rbind m f)"
  unfolding rshrinks_def rbind_def by (fastforce split: sum.splits prod.splits dest: order_trans)

lemma shrinks_pread [intro]: "rshrinks r \<Longrightarrow> shrinks (pread r)"
  unfolding shrinks_def rshrinks_def pread_def by (auto split: sum.splits)

lemma rshrinks_loop [intro]: "rshrinks (littleEndian_loop n i res)" "rshrinks (bigEndian_loop n len i res)"
  by (induction n arbitrary: i res) auto

lemma rshrinks_readers [intro]:
  "rshrinks (ReadUintN bo n)" "rshrinks (ReadUint64 bo)" "rshrinks (ReadUint32 bo)" "rshrinks (ReadUint16 bo)"
  "rshrinks (readUfloat16 bo)"
proof -
  show u: "rshrinks (ReadUint16 bo)"
    by (cases bo) (auto simp: littleEndian_ReadUint16_def bigEndian_ReadUint16_def)
  show "rshrinks (ReadUintN bo n)"
    by (cases bo) (auto simp: littleEndian_ReadUintN_def bigEndian_ReadUintN_def)
  show "rshrinks (ReadUint64 bo)"
    by (cases bo) (simp_all only: ReadUint64.simps littleEndian_ReadUint64_def bigEndian_ReadUint64_def, (rule rshrinks_rbind rshrinks_basic)+)
  show "rshrinks (ReadUint32 bo)"
    by (cases bo) (simp_all only: ReadUint32.simps littleEndian_ReadUint32_def bigEndian_ReadUint32_def, (rule rshrinks_rbind rshrinks_basic)+)
  show "rshrinks (readUfloat16 bo)" unfolding readUfloat16_def using u by (intro rshrinks_rbind rshrinks_basic)
qed

lemma shrinks_case_prod [intro]: "(\<And>x y. shrinks (f x y)) \<Longrightarrow> shrinks (case p of (x, y) \<Rightarrow> f x y)"
  by (cases p) simp

lemma shrinks_loops [intro]:
  "shrinks (read_ip n)" "shrinks (parse_paths bo n)" "shrinks (parse_timestamps bo n)"
  "shrinks (parse_blocks bo k n r rs long complete)"
proof -
  show "shrinks (read_ip n)" by (induction n) auto
  show "shrinks (parse_paths bo n)" by (induction n) auto
  show "shrinks (parse_timestamps bo n)" by (induction n) auto
  show "shrinks (parse_blocks bo k n r rs long complete)"
  proof (induction n arbitrary: r rs long complete)
    case (Suc n)
    show ?case unfolding parse_blocks.simps Let_def
      by (intro shrinks_pbind shrinks_if shrinks_pread rshrinks_basic rshrinks_readers Suc.IH)
  qed auto
qed

lemma shrinks_parse_ranges [intro]: "shrinks (parse_ranges bo k n largest len)" "shrinks (parse_num_blocks m)"
  "shrinks (parse_ack_tail bo f)" "shrinks (parse_stream_body bo fin dlp ol sl)"
  unfolding parse_ranges_def parse_num_blocks_def parse_ack_tail_def parse_stream_body_def Let_def by (safe intro!: shrinks_pbind shrinks_if) auto

text \<open>A parser that starts by reading a byte takes at least one.\<close>

definition consumes :: "'a parser \<Rightarrow> bool" where
  "consumes p \<longleftrightarrow> (\<forall>b x b'. p b = Inr (x, b') \<longrightarrow> length b' < length b)"

lemma consumes_ReadByte: "(\<And>x. shrinks (f x)) \<Longrightarrow> consumes (pbind (pread ReadByte) f)"
  unfolding consumes_def
proof (intro allI impI)
  fix b x b'
  assume f: "\<And>x. shrinks (f x)" and p: "pbind (pread ReadByte) f b = Inr (x, b')"
  obtain y bs where "b = y # bs" using p by (cases b) (auto simp: pbind_def pread_def)
  then show "length b' < length b" using p shrinksD [OF f] by fastforce
qed

lemma consumes_parsers:
  "consumes (ParseStreamFrame v)" "consumes (ParseAckFrame v)" "consumes (ParseRstStreamFrame v)"
  "consumes (ParseConnectionCloseFrame v)" "consumes (ParseGoawayFrame v)" "consumes (ParseWindowUpdateFrame v)"
  "consumes (ParseBlockedFrame v)" "consumes (ParseStopWaitingFrame pn len v)" "consumes (ParsePingFrame v)"
  "consumes (ParseAddAddressFrame v)" "consumes (ParseClosePathFrame v)" "consumes (ParsePathsFrame v)"
  unfolding ParseStreamFrame_def ParseAckFrame_def ParseRstStreamFrame_def ParseConnectionCloseFrame_def
    ParseGoawayFrame_def ParseWindowUpdateFrame_def ParseBlockedFrame_def ParseStopWaitingFrame_def ParsePingFrame_def
    ParseAddAddressFrame_def ParseClosePathFrame_def ParsePathsFrame_def Let_def
  by (rule consumes_ReadByte; (rule shrinks_basic shrinks_pbind shrinks_if shrinks_pread shrinks_parse_ranges shrinks_loops
        shrinks_case_prod rshrinks_readers rshrinks_basic)+)+

lemma lift_parse_consumes:
  "consumes p \<Longrightarrow> lift_parse err con p b = Inr (f, b') \<Longrightarrow> length b' < length b"
  by (auto simp: lift_parse_def consumes_def split: sum.splits)

lemma parse_frame_consumes: "parse_frame v pn len level t b = Inr (f, b') \<Longrightarrow> length b' < length b"
  by (auto simp: parse_frame_def check_level_def consumes_parsers dest!: lift_parse_consumes [rotated]
      split: if_splits sum.splits Frame.splits)

text \<open>The loop of \<^verbatim>\<open>Unpack\<close> over the frames of a packet.\<close>

function (sequential) unpack_loop ::
  "VersionNumber \<Rightarrow> PacketNumber \<Rightarrow> nat \<Rightarrow> EncryptionLevel \<Rightarrow> bytes \<Rightarrow> unpack_error + Frame list" where
  "unpack_loop v pn pnLen level [] = Inr []"
| "unpack_loop v pn pnLen level (typeByte # b) =
     (if typeByte = 0 then unpack_loop v pn pnLen level b
      else case parse_frame v pn pnLen level typeByte (typeByte # b) of
             Inl e \<Rightarrow> Inl e
           | Inr (f, b') \<Rightarrow> map_sum id (\<lambda>fs. f # fs) (unpack_loop v pn pnLen level b'))"
  by pat_completeness auto
termination
  by (relation "measure (\<lambda>(v, pn, pnLen, level, b). length b)") (auto dest: parse_frame_consumes)

text \<open>
  \<open>aead_open\<close> is \<^verbatim>\<open>Open\<close> of the AEAD: from the ciphertext, the packet number and the header it
  gives the payload and the encryption level, or an error.
\<close>

type_synonym opener = "bytes \<Rightarrow> PacketNumber \<Rightarrow> bytes \<Rightarrow> (bytes \<times> EncryptionLevel) option"

record unpackedPacket =
  up_encryptionLevel :: EncryptionLevel
  up_frames :: "Frame list"

definition Unpack ::
  "opener \<Rightarrow> VersionNumber \<Rightarrow> bytes \<Rightarrow> PacketNumber \<Rightarrow> nat \<Rightarrow> bytes \<Rightarrow> unpack_error + unpackedPacket" where
  "Unpack aead_open v publicHeaderBinary pn pnLen data =
     (case aead_open data pn publicHeaderBinary of
        None \<Rightarrow> Inl DecryptionFailure
      | Some (decrypted, level) \<Rightarrow>
          if length decrypted = 0 then Inl MissingPayload
          else map_sum id (\<lambda>fs. \<lparr>up_encryptionLevel = level, up_frames = fs\<rparr>) (unpack_loop v pn pnLen level decrypted))"

section \<open>The interface of a frame format\<close>

text \<open>
  What the reader of a packet relies on: a well-formed frame is written with a type byte other than
  the padding, and the parser gives the frame back as the peer sees it, with the bytes after it, if
  the frame says where it ends or nothing follows.
\<close>

locale frame_codec =
  fixes enc :: "'f \<Rightarrow> writer" and dec :: "bytes \<Rightarrow> 'e + 'f \<times> bytes" and ok :: "'f \<Rightarrow> bool" and delimited :: "'f \<Rightarrow> bool"
    and peer :: "'f \<Rightarrow> 'f" and loop :: "bytes \<Rightarrow> 'e + 'f list"
  assumes codec: "ok f \<Longrightarrow> \<exists>t b. enc f = Some (Inr (t # b)) \<and> t \<noteq> 0 \<and>
      (\<forall>rest. delimited f \<or> rest = [] \<longrightarrow> dec (t # b @ rest) = Inr (peer f, rest))"
    and loop_Nil: "loop [] = Inr []"
    and loop_Cons: "t \<noteq> 0 \<Longrightarrow> dec (t # b) = Inr (f, b') \<Longrightarrow> loop b' = Inr fs \<Longrightarrow> loop (t # b) = Inr (f # fs)"
begin

lemma payload_read_back:
  assumes "\<forall>f \<in> set fs. ok f" "\<forall>f \<in> set (butlast fs). delimited f"
  shows "\<exists>b. foldr (\<lambda>f. wappend (enc f)) fs (wbytes []) = wbytes b \<and> loop b = Inr (map peer fs) \<and>
    (fs \<noteq> [] \<longrightarrow> b \<noteq> [])"
  using assms
proof (induction fs)
  case Nil
  then show ?case using loop_Nil by (auto simp: wbytes_def)
next
  case (Cons f fs)
  obtain c where c: "foldr (\<lambda>f. wappend (enc f)) fs (wbytes []) = wbytes c" "loop c = Inr (map peer fs)"
    using Cons by (auto split: if_splits)
  obtain t b where tb: "enc f = wbytes (t # b)" "t \<noteq> 0"
    "\<forall>rest. delimited f \<or> rest = [] \<longrightarrow> dec (t # b @ rest) = Inr (peer f, rest)"
    using codec [of f] Cons.prems by (auto simp: wbytes_def)
  have "delimited f \<or> c = []" using Cons.prems(2) c(1) by (cases "fs = []") (auto simp: wbytes_def)
  then have "loop (t # b @ c) = Inr (peer f # map peer fs)" using tb c(2) by (intro loop_Cons) auto
  then show ?case using tb(1) c(1) by (intro exI [of _ "t # b @ c"]) simp
qed

end

section \<open>The frames of this protocol\<close>

text \<open>
  The well-formed frames of a packet with number \<open>pn\<close>, written in \<open>pnLen\<close> bytes, on encryption
  level \<open>level\<close>, and the same frames as the peer sees them.
\<close>

primrec packet_frame_ok :: "PacketNumber \<Rightarrow> nat \<Rightarrow> EncryptionLevel \<Rightarrow> Frame \<Rightarrow> bool" where
  "packet_frame_ok pn pnLen level (Stream f) \<longleftrightarrow> stream_ok f \<and> (StreamID f = 1 \<or> level > EncryptionUnencrypted)"
| "packet_frame_ok pn pnLen level (Ack f) \<longleftrightarrow>
     ack_ok (AckRanges f) (LargestAcked f) (LowestAcked f) \<and> PathID f < 256 \<and> first_gap_fits (AckRanges f)"
| "packet_frame_ok pn pnLen level (RstStream f) \<longleftrightarrow>
     rst_StreamID f < 2 ^ 32 \<and> rst_ErrorCode f < 2 ^ 32 \<and> rst_ByteOffset f < 2 ^ 64"
| "packet_frame_ok pn pnLen level (ConnectionClose f) \<longleftrightarrow> cc_ErrorCode f < 2 ^ 32 \<and> length (cc_ReasonPhrase f) \<le> MaxPacketSize"
| "packet_frame_ok pn pnLen level (Goaway f) \<longleftrightarrow>
     ga_ErrorCode f < 2 ^ 32 \<and> ga_LastGoodStream f < 2 ^ 32 \<and> length (ga_ReasonPhrase f) \<le> MaxPacketSize"
| "packet_frame_ok pn pnLen level (WindowUpdate f) \<longleftrightarrow> wu_StreamID f < 2 ^ 32 \<and> wu_ByteOffset f < 2 ^ 64"
| "packet_frame_ok pn pnLen level (Blocked f) \<longleftrightarrow> blocked_StreamID f < 2 ^ 32"
| "packet_frame_ok pn pnLen level (StopWaiting f) \<longleftrightarrow>
     0 < sw_LeastUnacked f \<and> sw_LeastUnacked f \<le> pn \<and> pn < 2 ^ 64 \<and> sw_PacketNumber f = pn \<and> sw_PacketNumberLen f = pnLen \<and>
     pnLen \<in> {PacketNumberLen1, PacketNumberLen2, PacketNumberLen4, PacketNumberLen6} \<and>
     pn - sw_LeastUnacked f < 2 ^ (8 * pnLen)"
| "packet_frame_ok pn pnLen level Ping \<longleftrightarrow> True"
| "packet_frame_ok pn pnLen level (AddAddress f) \<longleftrightarrow> add_address_ok f"
| "packet_frame_ok pn pnLen level (ClosePath f) \<longleftrightarrow>
     ack_ok (cp_AckRanges f) (cp_LargestAcked f) (cp_LowestAcked f) \<and> cp_PathID f < 256 \<and> first_gap_fits (cp_AckRanges f)"
| "packet_frame_ok pn pnLen level (Paths f) \<longleftrightarrow> paths_ok f"

primrec peer_frame :: "int \<Rightarrow> Frame \<Rightarrow> Frame" where
  "peer_frame now (Stream f) = Stream f"
| "peer_frame now (Ack f) = Ack (peer_ack f (peer_duration (Since now (PacketReceivedTime f))))"
| "peer_frame now (RstStream f) = RstStream f"
| "peer_frame now (ConnectionClose f) = ConnectionClose f"
| "peer_frame now (Goaway f) = Goaway f"
| "peer_frame now (WindowUpdate f) = WindowUpdate f"
| "peer_frame now (Blocked f) = Blocked f"
| "peer_frame now (StopWaiting f) = StopWaiting (f\<lparr>sw_PacketNumberLen := 0, sw_PacketNumber := 0\<rparr>)"
| "peer_frame now Ping = Ping"
| "peer_frame now (AddAddress f) = AddAddress (peer_add_address f)"
| "peer_frame now (ClosePath f) = ClosePath (peer_close_path f)"
| "peer_frame now (Paths f) = Paths (peer_paths f)"

text \<open>Only a STREAM frame without its data length takes all that follows.\<close>

fun delimited :: "Frame \<Rightarrow> bool" where
  "delimited (Stream f) = DataLenPresent f"
| "delimited f = True"

lemma stream_type: "stream_ok f \<Longrightarrow> stream_typeByte f AND 0x80 = 0x80 \<and> stream_typeByte f \<noteq> 0"
  using stream_lengths(3,6) [of f] unfolding stream_typeByte_def
  by (cases "FinBit f"; cases "DataLenPresent f") auto

lemma ack_type:
  assumes "ack_ok (AckRanges f) (LargestAcked f) (LowestAcked f)"
  shows "ack_typeByte f AND 0x80 = 0" "ack_typeByte f AND 0xC0 = 0x40" "ack_typeByte f \<noteq> 0"
proof -
  define k l where "k = getMissingSequenceNumberDeltaLen (AckRanges f) (LargestAcked f) (LowestAcked f)"
    and "l = GetPacketNumberLength (LargestAcked f)"
  have kl: "k \<in> {1, 2, 4, 6}" "l \<in> {1, 2, 4, 6}"
    using ack_ok_lens(1) [OF assms refl] GetPacketNumberLength_fits(1) by (auto simp: k_def l_def)
  then show "ack_typeByte f AND 0x80 = 0" "ack_typeByte f AND 0xC0 = 0x40" "ack_typeByte f \<noteq> 0"
    unfolding ack_typeByte_def k_def [symmetric] l_def [symmetric]
    by (cases "HasMissingRanges f"; cases "PathID f = 0"; auto simp: len_bits_def pn_len_defs)+
qed

text \<open>One frame of each kind.\<close>

definition reads_back :: "VersionNumber \<Rightarrow> int \<Rightarrow> PacketNumber \<Rightarrow> nat \<Rightarrow> EncryptionLevel \<Rightarrow> Frame \<Rightarrow> bool" where
  "reads_back v now pn pnLen level f \<longleftrightarrow> (\<exists>t b. Frame_Write v now f = Some (Inr (t # b)) \<and> t \<noteq> 0 \<and>
     (\<forall>rest. delimited f \<or> rest = [] \<longrightarrow>
        parse_frame v pn pnLen level t (t # b @ rest) = Inr (peer_frame now f, rest)))"

lemma reads_backI:
  assumes "Frame_Write v now f = wbytes (t # b)" "t \<noteq> 0"
    "\<And>rest. delimited f \<or> rest = [] \<Longrightarrow> parse_frame v pn pnLen level t (t # b @ rest) = Inr (peer_frame now f, rest)"
  shows "reads_back v now pn pnLen level f"
  unfolding reads_back_def
proof (intro exI conjI allI impI)
  show "Frame_Write v now f = Some (Inr (t # b))" using assms(1) by (simp add: wbytes_def)
qed (use assms(2,3) in auto)

lemma lift_parse_ok: "p b = Inr (f, b') \<Longrightarrow> lift_parse err con p b = Inr (con f, b')"
  by (simp add: lift_parse_def)

lemma stream_reads_back:
  assumes "packet_frame_ok pn pnLen level (Stream f)"
  shows "reads_back v now pn pnLen level (Stream f)"
proof -
  have ok: "stream_ok f" "\<not> (StreamID f \<noteq> 1 \<and> level \<le> EncryptionUnencrypted)" using assms by auto
  obtain b where b: "stream_bytes v f = stream_typeByte f # b" by (simp add: stream_bytes_def)
  show ?thesis
  proof (rule reads_backI [where t = "stream_typeByte f" and b = b])
    show "Frame_Write v now (Stream f) = wbytes (stream_typeByte f # b)"
      using StreamFrame_Write_bytes [OF ok(1)] b by (simp add: wbytes_def)
    show "stream_typeByte f \<noteq> 0" using stream_type [OF ok(1)] by simp
    fix rest :: bytes
    assume "delimited (Stream f) \<or> rest = []"
    then have "ParseStreamFrame v (stream_typeByte f # b @ rest) = Inr (f, rest)"
      using ParseStreamFrame_bytes [OF ok(1), of rest v] b by simp
    then show "parse_frame v pn pnLen level (stream_typeByte f) (stream_typeByte f # b @ rest) = Inr (peer_frame now (Stream f), rest)"
      using stream_type [OF ok(1)] ok(2) by (auto simp: parse_frame_def lift_parse_ok check_level_def)
  qed
qed

lemma ack_reads_back:
  assumes "packet_frame_ok pn pnLen level (Ack f)"
  shows "reads_back v now pn pnLen level (Ack f)"
proof -
  have ok: "ack_ok (AckRanges f) (LargestAcked f) (LowestAcked f)" "PathID f < 256" "first_gap_fits (AckRanges f)"
    using assms by auto
  obtain b where b: "ack_bytes v now f = ack_typeByte f # b" by (simp add: ack_bytes_def Let_def)
  show ?thesis
  proof (rule reads_backI [where t = "ack_typeByte f" and b = b])
    show "Frame_Write v now (Ack f) = wbytes (ack_typeByte f # b)"
      using AckFrame_Write_bytes [OF ok(1), of v now] ok(3) b by simp
    fix rest :: bytes
    have "ParseAckFrame v (ack_typeByte f # b @ rest) = Inr (peer_ack f (peer_duration (Since now (PacketReceivedTime f))), rest)"
      using ParseAckFrame_bytes [OF ok, of v now rest] b by (simp add: peer_duration_def)
    then show "parse_frame v pn pnLen level (ack_typeByte f) (ack_typeByte f # b @ rest) = Inr (peer_frame now (Ack f), rest)"
      using ack_type [OF ok(1)] by (simp add: parse_frame_def lift_parse_ok)
  qed (rule ack_type(3) [OF ok(1)])
qed

lemma reads_back_parser:
  assumes "Frame_Write v now f = wbytes (t # b)" "\<And>rest. p (t # b @ rest) = Inr (x, rest)" "t \<noteq> 0"
    "parse_frame v pn pnLen level t = lift_parse err con p" "con x = peer_frame now f"
  shows "reads_back v now pn pnLen level f"
  by (rule reads_backI [OF assms(1,3)]) (simp add: assms(2,4,5) lift_parse_ok)

lemma parse_frame_types:
  "parse_frame v pn pnLen level 1 = lift_parse InvalidRstStreamData RstStream (ParseRstStreamFrame v)"
  "parse_frame v pn pnLen level 2 = lift_parse UnpackInvalidConnectionCloseData ConnectionClose (ParseConnectionCloseFrame v)"
  "parse_frame v pn pnLen level 3 = lift_parse UnpackInvalidGoawayData Goaway (ParseGoawayFrame v)"
  "parse_frame v pn pnLen level 4 = lift_parse InvalidWindowUpdateData WindowUpdate (ParseWindowUpdateFrame v)"
  "parse_frame v pn pnLen level 5 = lift_parse InvalidBlockedData Blocked (ParseBlockedFrame v)"
  "parse_frame v pn pnLen level 6 = lift_parse UnpackInvalidStopWaitingData StopWaiting (ParseStopWaitingFrame pn pnLen v)"
  "parse_frame v pn pnLen level 7 = lift_parse FrameError (\<lambda>_. Ping) (ParsePingFrame v)"
  "parse_frame v pn pnLen level 0x10 = lift_parse FrameError AddAddress (ParseAddAddressFrame v)"
  "parse_frame v pn pnLen level 0x11 = lift_parse FrameError ClosePath (ParseClosePathFrame v)"
  "parse_frame v pn pnLen level 0x12 = lift_parse FrameError Paths (ParsePathsFrame v)"
  unfolding parse_frame_def by simp_all

text \<open>The control frames.\<close>

lemma control_reads_back:
  "packet_frame_ok pn pnLen level (RstStream rst) \<Longrightarrow> reads_back v now pn pnLen level (RstStream rst)"
  "packet_frame_ok pn pnLen level (Blocked bl) \<Longrightarrow> reads_back v now pn pnLen level (Blocked bl)"
  "packet_frame_ok pn pnLen level (WindowUpdate wu) \<Longrightarrow> reads_back v now pn pnLen level (WindowUpdate wu)"
  "packet_frame_ok pn pnLen level (Goaway ga) \<Longrightarrow> reads_back v now pn pnLen level (Goaway ga)"
  "packet_frame_ok pn pnLen level (ConnectionClose cc) \<Longrightarrow> reads_back v now pn pnLen level (ConnectionClose cc)"
  "reads_back v now pn pnLen level Ping"
proof -
  show "reads_back v now pn pnLen level (RstStream rst)" if "packet_frame_ok pn pnLen level (RstStream rst)"
    using that control_parse(1) [of rst v]
    by (intro reads_back_parser [OF _ _ _ parse_frame_types(1)]) (auto simp: RstStreamFrame_Write_def)
  show "reads_back v now pn pnLen level (Blocked bl)" if "packet_frame_ok pn pnLen level (Blocked bl)"
    using that control_parse(2) [of bl v]
    by (intro reads_back_parser [OF _ _ _ parse_frame_types(5)]) (auto simp: BlockedFrame_Write_def)
  show "reads_back v now pn pnLen level (WindowUpdate wu)" if "packet_frame_ok pn pnLen level (WindowUpdate wu)"
    using that control_parse(3) [of wu v]
    by (intro reads_back_parser [OF _ _ _ parse_frame_types(4)]) (auto simp: WindowUpdateFrame_Write_def)
  show "reads_back v now pn pnLen level (Goaway ga)" if "packet_frame_ok pn pnLen level (Goaway ga)"
    using that reason_parse(1) [of ga v]
    by (intro reads_back_parser [OF _ _ _ parse_frame_types(3)]) (auto simp: GoawayFrame_Write_def)
  show "reads_back v now pn pnLen level (ConnectionClose cc)" if "packet_frame_ok pn pnLen level (ConnectionClose cc)"
    using that reason_parse(2) [of cc v]
    by (intro reads_back_parser [OF _ _ _ parse_frame_types(2)])
      (auto simp: ConnectionCloseFrame_Write_def MaxPacketSize_def)
  show "reads_back v now pn pnLen level Ping"
    using control_parse(4) [of v]
    by (intro reads_back_parser [OF _ _ _ parse_frame_types(7)]) (auto simp: PingFrame_Write_def)
qed

lemma other_reads_back:
  "packet_frame_ok pn pnLen level (StopWaiting sw) \<Longrightarrow> reads_back v now pn pnLen level (StopWaiting sw)"
  "packet_frame_ok pn pnLen level (AddAddress aa) \<Longrightarrow> reads_back v now pn pnLen level (AddAddress aa)"
  "packet_frame_ok pn pnLen level (ClosePath cp) \<Longrightarrow> reads_back v now pn pnLen level (ClosePath cp)"
  "packet_frame_ok pn pnLen level (Paths ps) \<Longrightarrow> reads_back v now pn pnLen level (Paths ps)"
proof -
  show "reads_back v now pn pnLen level (StopWaiting sw)" if "packet_frame_ok pn pnLen level (StopWaiting sw)"
  proof -
    have sw: "sw_PacketNumber sw = pn" "sw_PacketNumberLen sw = pnLen" using that by simp_all
    show ?thesis
    proof (rule stop_waiting_bytes [of sw v])
      fix b assume "StopWaitingFrame_Write v sw = wbytes (6 # b)"
        "\<And>rest. ParseStopWaitingFrame (sw_PacketNumber sw) (sw_PacketNumberLen sw) v (6 # b @ rest) =
           Inr (sw\<lparr>sw_PacketNumberLen := 0, sw_PacketNumber := 0\<rparr>, rest)"
      then show ?thesis using sw by (intro reads_back_parser [OF _ _ _ parse_frame_types(6)]) simp_all
    qed (use that in auto)
  qed
  show "reads_back v now pn pnLen level (AddAddress aa)" if ok: "packet_frame_ok pn pnLen level (AddAddress aa)"
  proof (rule add_address_round_trip [of aa v])
    show "add_address_ok aa" using ok by simp
  qed (rule reads_back_parser [OF _ _ _ parse_frame_types(8)], simp_all add: wbytes_def)
  show "reads_back v now pn pnLen level (Paths ps)" if ok: "packet_frame_ok pn pnLen level (Paths ps)"
  proof (rule paths_round_trip [of ps v])
    show "paths_ok ps" using ok by simp
  qed (rule reads_back_parser [OF _ _ _ parse_frame_types(10)], simp_all add: wbytes_def)
  show "reads_back v now pn pnLen level (ClosePath cp)" if "packet_frame_ok pn pnLen level (ClosePath cp)"
  proof -
    have ok: "ack_ok (cp_AckRanges cp) (cp_LargestAcked cp) (cp_LowestAcked cp)" "cp_PathID cp < 256"
      "first_gap_fits (cp_AckRanges cp)" using that by auto
    obtain b where b: "close_path_bytes v cp = 0x11 # b" by (simp add: close_path_bytes_def Let_def)
    show ?thesis
      using ClosePathFrame_Write_bytes [OF ok(1), of v] ok(3) b ParseClosePathFrame_bytes [OF ok, of v]
      by (intro reads_back_parser [OF _ _ _ parse_frame_types(9)]) auto
  qed
qed

lemma frame_reads_back: "packet_frame_ok pn pnLen level f \<Longrightarrow> reads_back v now pn pnLen level f"
  by (cases f) (simp_all only: stream_reads_back ack_reads_back control_reads_back other_reads_back)

interpretation frames: frame_codec "Frame_Write v now" "\<lambda>b. parse_frame v pn pnLen level (hd b) b"
  "packet_frame_ok pn pnLen level" delimited "peer_frame now" "unpack_loop v pn pnLen level"
  for v now pn pnLen level
proof
  fix f :: Frame
  assume "packet_frame_ok pn pnLen level f"
  then show "\<exists>t b. Frame_Write v now f = Some (Inr (t # b)) \<and> t \<noteq> 0 \<and>
      (\<forall>rest. delimited f \<or> rest = [] \<longrightarrow>
         parse_frame v pn pnLen level (hd (t # b @ rest)) (t # b @ rest) = Inr (peer_frame now f, rest))"
    using frame_reads_back [of pn pnLen level f v now] by (simp add: reads_back_def)
qed simp_all

end
