(* ===== verification/Packet_Protection.thy ===== *)
theory Packet_Protection
  imports Public_Header Packet_Unpacker
begin

text \<open>
  Model of the protection of packets: the AEAD interface and the null AEADs of \<^verbatim>\<open>internal/crypto\<close>,
  and the choice of the AEAD for sealing and opening in \<^verbatim>\<open>internal/handshake/crypto_setup_client.go\<close>
  and \<^verbatim>\<open>crypto_setup_server.go\<close>.  The hash of the package fnv128a is an argument; the AEADs of the
  encrypted levels, thin layers over the cryptography of the Go library, are values of the
  interface.
\<close>

unbundle bit_operations_syntax

section \<open>The AEADs\<close>

text \<open>The interface \<^verbatim>\<open>crypto.AEAD\<close>: ciphertext or payload, packet number, associated data.\<close>

record AEAD =
  aead_Open :: "bytes \<Rightarrow> PacketNumber \<Rightarrow> bytes \<Rightarrow> bytes option"
  aead_Seal :: "bytes \<Rightarrow> PacketNumber \<Rightarrow> bytes \<Rightarrow> bytes"
  Overhead :: nat

definition read_word :: "'a :: len word reader \<Rightarrow> bytes \<Rightarrow> 'a word" where
  "read_word r b = (case r b of Inr (w, _) \<Rightarrow> w | Inl _ \<Rightarrow> 0)"

definition client_label :: bytes where "client_label = [0x43, 0x6C, 0x69, 0x65, 0x6E, 0x74]"
definition server_label :: bytes where "server_label = [0x53, 0x65, 0x72, 0x76, 0x65, 0x72]"

definition nullAEADFNV128a_Open ::
  "(bytes \<Rightarrow> 64 word \<times> 64 word) \<Rightarrow> Perspective \<Rightarrow> bytes \<Rightarrow> PacketNumber \<Rightarrow> bytes \<Rightarrow> bytes option" where
  "nullAEADFNV128a_Open sum128 pers src packetNumber associatedData =
     (if length src < 12 then None
      else let (testHigh, testLow) =
                 sum128 (associatedData @ drop 12 src @ (if pers = PerspectiveServer then client_label else server_label));
               low = read_word littleEndian_ReadUint64 src;
               high = read_word littleEndian_ReadUint32 (drop 8 src)
           in if (ucast (testHigh AND 0xFFFFFFFF) :: 32 word) \<noteq> high \<or> testLow \<noteq> low then None
              else Some (drop 12 src))"

definition nullAEADFNV128a_Seal ::
  "(bytes \<Rightarrow> 64 word \<times> 64 word) \<Rightarrow> Perspective \<Rightarrow> bytes \<Rightarrow> PacketNumber \<Rightarrow> bytes \<Rightarrow> bytes" where
  "nullAEADFNV128a_Seal sum128 pers src packetNumber associatedData =
     (let (high, low) =
            sum128 (associatedData @ src @ (if pers = PerspectiveServer then server_label else client_label))
      in littleEndian_WriteUint64 low @ littleEndian_WriteUint32 (ucast high) @ src)"

text \<open>The hash of the Go package \<^verbatim>\<open>hash/fnv\<close>.\<close>

definition fnv64a :: "bytes \<Rightarrow> 64 word" where
  "fnv64a = foldl (\<lambda>h b. (h XOR ucast b) * 1099511628211) 14695981039346656037"

definition nullAEADFNV64a_Open :: "bytes \<Rightarrow> PacketNumber \<Rightarrow> bytes \<Rightarrow> bytes option" where
  "nullAEADFNV64a_Open src packetNumber associatedData =
     (if length src < 8 then None
      else let data = take (length src - 8) src
           in if fnv64a (associatedData @ data) \<noteq> read_word bigEndian_ReadUint64 (drop (length src - 8) src) then None
              else Some data)"

definition nullAEADFNV64a_Seal :: "bytes \<Rightarrow> PacketNumber \<Rightarrow> bytes \<Rightarrow> bytes" where
  "nullAEADFNV64a_Seal src packetNumber associatedData =
     src @ bigEndian_WriteUint64 (fnv64a (associatedData @ src))"

definition VersionTLS :: VersionNumber where "VersionTLS = 101"

definition UsesTLS :: "VersionNumber \<Rightarrow> bool" where "UsesTLS vn \<longleftrightarrow> vn = VersionTLS"

definition NewNullAEAD :: "(bytes \<Rightarrow> 64 word \<times> 64 word) \<Rightarrow> Perspective \<Rightarrow> VersionNumber \<Rightarrow> AEAD" where
  "NewNullAEAD sum128 p v =
     (if UsesTLS v then \<lparr>aead_Open = nullAEADFNV64a_Open, aead_Seal = nullAEADFNV64a_Seal, Overhead = 8\<rparr>
      else \<lparr>aead_Open = nullAEADFNV128a_Open sum128 p, aead_Seal = nullAEADFNV128a_Seal sum128 p, Overhead = 12\<rparr>)"

section \<open>The crypto setup\<close>

text \<open>
  The fields of both crypto setups that decide on the AEAD; \<open>cs_perspective\<close> tells the two types
  apart.  The keys appear when the handshake sets an AEAD.
\<close>

record cryptoSetup =
  cs_perspective :: Perspective
  nullAEAD :: AEAD
  secureAEAD :: "AEAD option"
  forwardSecureAEAD :: "AEAD option"
  receivedSecurePacket :: bool
  receivedForwardSecurePacket :: bool
  diversificationNonce :: bytes

definition NewCryptoSetup :: "(bytes \<Rightarrow> 64 word \<times> 64 word) \<Rightarrow> Perspective \<Rightarrow> VersionNumber \<Rightarrow> cryptoSetup" where
  "NewCryptoSetup sum128 pers v =
     \<lparr>cs_perspective = pers, nullAEAD = NewNullAEAD sum128 pers v, secureAEAD = None, forwardSecureAEAD = None,
      receivedSecurePacket = False, receivedForwardSecurePacket = False, diversificationNonce = []\<rparr>"

definition open_null ::
  "cryptoSetup \<Rightarrow> bytes \<Rightarrow> PacketNumber \<Rightarrow> bytes \<Rightarrow> (bytes \<times> EncryptionLevel) option \<times> cryptoSetup" where
  "open_null h src pn ad = (map_option (\<lambda>d. (d, EncryptionUnencrypted)) (aead_Open (nullAEAD h) src pn ad), h)"

definition open_secure ::
  "cryptoSetup \<Rightarrow> bytes \<Rightarrow> PacketNumber \<Rightarrow> bytes \<Rightarrow> (bytes \<times> EncryptionLevel) option \<times> cryptoSetup" where
  "open_secure h src pn ad =
     (case secureAEAD h of
        None \<Rightarrow> open_null h src pn ad
      | Some a \<Rightarrow>
          (case aead_Open a src pn ad of
             Some d \<Rightarrow> (Some (d, EncryptionSecure), h\<lparr>receivedSecurePacket := True\<rparr>)
           | None \<Rightarrow> if receivedSecurePacket h then (None, h) else open_null h src pn ad))"

definition cryptoSetupClient_Open ::
  "cryptoSetup \<Rightarrow> bytes \<Rightarrow> PacketNumber \<Rightarrow> bytes \<Rightarrow> (bytes \<times> EncryptionLevel) option \<times> cryptoSetup" where
  "cryptoSetupClient_Open h src pn ad =
     (case forwardSecureAEAD h of
        Some a \<Rightarrow> (map_option (\<lambda>d. (d, EncryptionForwardSecure)) (aead_Open a src pn ad), h)
      | None \<Rightarrow> open_secure h src pn ad)"

text \<open>
  The first forward-secure packet makes the server wait for the goroutine that writes the SHLO; the
  model is the state after that.
\<close>

definition cryptoSetupServer_Open ::
  "cryptoSetup \<Rightarrow> bytes \<Rightarrow> PacketNumber \<Rightarrow> bytes \<Rightarrow> (bytes \<times> EncryptionLevel) option \<times> cryptoSetup" where
  "cryptoSetupServer_Open h src pn ad =
     (case forwardSecureAEAD h of
        None \<Rightarrow> open_secure h src pn ad
      | Some a \<Rightarrow>
          (case aead_Open a src pn ad of
             Some d \<Rightarrow> (Some (d, EncryptionForwardSecure), h\<lparr>receivedForwardSecurePacket := True\<rparr>)
           | None \<Rightarrow> if receivedForwardSecurePacket h then (None, h) else open_secure h src pn ad))"

definition CryptoSetup_Open ::
  "cryptoSetup \<Rightarrow> bytes \<Rightarrow> PacketNumber \<Rightarrow> bytes \<Rightarrow> (bytes \<times> EncryptionLevel) option \<times> cryptoSetup" where
  "CryptoSetup_Open h =
     (if cs_perspective h = PerspectiveClient then cryptoSetupClient_Open h else cryptoSetupServer_Open h)"

definition GetSealer :: "cryptoSetup \<Rightarrow> EncryptionLevel \<times> AEAD" where
  "GetSealer h =
     (case forwardSecureAEAD h of
        Some a \<Rightarrow> (EncryptionForwardSecure, a)
      | None \<Rightarrow>
          (case (if cs_perspective h = PerspectiveClient then secureAEAD h else None) of
             Some a \<Rightarrow> (EncryptionSecure, a)
           | None \<Rightarrow> (EncryptionUnencrypted, nullAEAD h)))"

definition GetSealerForCryptoStream :: "cryptoSetup \<Rightarrow> EncryptionLevel \<times> AEAD" where
  "GetSealerForCryptoStream h =
     (case (if cs_perspective h = PerspectiveClient then None else secureAEAD h) of
        Some a \<Rightarrow> (EncryptionSecure, a)
      | None \<Rightarrow> (EncryptionUnencrypted, nullAEAD h))"

definition GetSealerWithEncryptionLevel :: "EncryptionLevel \<Rightarrow> cryptoSetup \<Rightarrow> AEAD option" where
  "GetSealerWithEncryptionLevel encLevel h =
     (case encLevel of
        EncryptionUnencrypted \<Rightarrow> Some (nullAEAD h)
      | EncryptionSecure \<Rightarrow> secureAEAD h
      | EncryptionForwardSecure \<Rightarrow> forwardSecureAEAD h
      | EncryptionUnspecified \<Rightarrow> None)"

section \<open>The interface of an AEAD\<close>

text \<open>
  What sender and receiver of a packet rely on: the receiver's AEAD opens what the sender's AEAD
  sealed for the same packet number and header, and sealing adds the overhead.
\<close>

locale packet_protection =
  fixes sealer :: AEAD and opener :: AEAD
  assumes opens: "aead_Open opener (aead_Seal sealer data pn ad) pn ad = Some data"
    and overhead: "length (aead_Seal sealer data pn ad) = length data + Overhead sealer"
begin

text \<open>
  A receiver that has the AEAD of the sender's level, and that has seen no packet of a higher level,
  opens the packet on that level if its AEADs of the higher levels do not authenticate it.
\<close>

lemma opened_on_level:
  assumes key: "GetSealerWithEncryptionLevel level r = Some opener"
    and reject: "\<And>a. secureAEAD r = Some a \<Longrightarrow> level = EncryptionUnencrypted \<Longrightarrow>
        \<not> receivedSecurePacket r \<and> aead_Open a (aead_Seal sealer data pn ad) pn ad = None"
      "\<And>a. forwardSecureAEAD r = Some a \<Longrightarrow> level \<noteq> EncryptionForwardSecure \<Longrightarrow>
        cs_perspective r = PerspectiveServer \<and> \<not> receivedForwardSecurePacket r \<and>
        aead_Open a (aead_Seal sealer data pn ad) pn ad = None"
  shows "fst (CryptoSetup_Open r (aead_Seal sealer data pn ad) pn ad) = Some (data, level)"
proof (cases level)
  case EncryptionForwardSecure
  then show ?thesis using key opens [of data pn ad]
    by (simp add: GetSealerWithEncryptionLevel_def CryptoSetup_Open_def cryptoSetupClient_Open_def cryptoSetupServer_Open_def)
next
  case EncryptionUnspecified
  then show ?thesis using key by (simp add: GetSealerWithEncryptionLevel_def)
next
  case EncryptionSecure
  then have "fst (open_secure r (aead_Seal sealer data pn ad) pn ad) = Some (data, level)"
    using key opens [of data pn ad] by (simp add: GetSealerWithEncryptionLevel_def open_secure_def)
  then show ?thesis using reject(2) EncryptionSecure
    by (cases "forwardSecureAEAD r") (auto simp: CryptoSetup_Open_def cryptoSetupClient_Open_def cryptoSetupServer_Open_def)
next
  case EncryptionUnencrypted
  then have "fst (open_secure r (aead_Seal sealer data pn ad) pn ad) = Some (data, level)"
    using key opens [of data pn ad] reject(1)
    by (cases "secureAEAD r") (auto simp: GetSealerWithEncryptionLevel_def open_secure_def open_null_def)
  then show ?thesis using reject(2) EncryptionUnencrypted
    by (cases "forwardSecureAEAD r") (auto simp: CryptoSetup_Open_def cryptoSetupClient_Open_def cryptoSetupServer_Open_def)
qed

end

lemma read_word_write:
  "read_word littleEndian_ReadUint64 (littleEndian_WriteUint64 w @ b) = w"
  "read_word littleEndian_ReadUint32 (littleEndian_WriteUint32 x @ b) = x"
  "read_word bigEndian_ReadUint64 (bigEndian_WriteUint64 w) = w"
  using ReadUint_Write(1) [of LittleEndian w b] ReadUint_Write(2) [of LittleEndian x b]
    ReadUint_Write(1) [of BigEndian w "[]"]
  by (simp_all add: read_word_def)

lemma write_lengths:
  "length (littleEndian_WriteUint64 w) = 8" "length (littleEndian_WriteUint32 x) = 4" "length (bigEndian_WriteUint64 w) = 8"
  by (simp_all add: littleEndian_WriteUint64_def littleEndian_WriteUint32_def bigEndian_WriteUint64_def)

definition peer_of :: "Perspective \<Rightarrow> Perspective" where
  "peer_of pers = (if pers = PerspectiveServer then PerspectiveClient else PerspectiveServer)"

lemma low_word: "(ucast (h AND 0xFFFFFFFF :: 64 word) :: 32 word) = ucast h"
proof -
  have m: "(0xFFFFFFFF :: 64 word) = mask 32" by (simp add: mask_eq_exp_minus_1)
  show ?thesis unfolding m by (intro bit_word_eqI) (auto simp: bit_and_iff bit_ucast_iff bit_mask_iff)
qed

lemma nullAEADFNV128a_opens:
  "nullAEADFNV128a_Open sum128 (peer_of pers) (nullAEADFNV128a_Seal sum128 pers data pn ad) pn ad = Some data"
proof -
  define label where "label = (if pers = PerspectiveServer then server_label else client_label)"
  obtain high low where sum: "sum128 (ad @ data @ label) = (high, low)" by fastforce
  define tag where "tag = littleEndian_WriteUint32 (ucast high :: 32 word)"
  define src where "src = littleEndian_WriteUint64 low @ tag @ data"
  have label: "(if peer_of pers = PerspectiveServer then client_label else server_label) = label"
    by (cases pers) (simp_all add: peer_of_def label_def)
  have src: "nullAEADFNV128a_Seal sum128 pers data pn ad = src"
    unfolding nullAEADFNV128a_Seal_def label_def [symmetric] sum by (simp add: src_def tag_def)
  have d: "drop 8 src = tag @ data" "drop 12 src = data" "\<not> length src < 12"
    by (simp_all add: src_def tag_def write_lengths)
  have "read_word littleEndian_ReadUint64 src = low" by (simp only: src_def read_word_write)
  moreover have "read_word littleEndian_ReadUint32 (drop 8 src) = ucast high" unfolding d tag_def by (rule read_word_write)
  ultimately show ?thesis
    unfolding src nullAEADFNV128a_Open_def label d(2) sum using d(3) by (simp add: low_word)
qed

lemma nullAEADFNV64a_opens: "nullAEADFNV64a_Open (nullAEADFNV64a_Seal data pn ad) pn ad = Some data"
  by (simp add: nullAEADFNV64a_Open_def nullAEADFNV64a_Seal_def write_lengths read_word_write)

lemma null_overhead:
  "length (nullAEADFNV64a_Seal data pn ad) = length data + 8" "length (nullAEADFNV128a_Seal sum128 pers data pn ad) = length data + 12"
  by (simp_all add: nullAEADFNV64a_Seal_def nullAEADFNV128a_Seal_def write_lengths split_beta)

interpretation null: packet_protection "NewNullAEAD sum128 pers v" "NewNullAEAD sum128 (peer_of pers) v"
  for sum128 pers v
  by unfold_locales (simp_all add: NewNullAEAD_def nullAEADFNV128a_opens nullAEADFNV64a_opens null_overhead)

section \<open>No downgrade\<close>

text \<open>
  A run of a crypto setup: packets arrive, from anyone, and the handshake derives the keys of the
  secure level (\<^verbatim>\<open>maybeUpgradeCrypto\<close>, \<^verbatim>\<open>handleCHLO\<close>) and of the forward-secure level (\<^verbatim>\<open>handleSHLOMessage\<close>,
  \<^verbatim>\<open>handleCHLO\<close>).  The list has the encryption levels of the packets that were opened.
\<close>

inductive crypto_run :: "cryptoSetup \<Rightarrow> EncryptionLevel list \<Rightarrow> cryptoSetup \<Rightarrow> bool" for h where
  run_start: "crypto_run h [] h"
| run_open: "crypto_run h ls h' \<Longrightarrow> CryptoSetup_Open h' src pn ad = (Some (data, level), h'') \<Longrightarrow> crypto_run h (ls @ [level]) h''"
| run_reject: "crypto_run h ls h' \<Longrightarrow> CryptoSetup_Open h' src pn ad = (None, h'') \<Longrightarrow> crypto_run h ls h''"
| run_secure: "crypto_run h ls h' \<Longrightarrow> crypto_run h ls (h'\<lparr>secureAEAD := Some a\<rparr>)"
| run_forward: "crypto_run h ls h' \<Longrightarrow> crypto_run h ls (h'\<lparr>forwardSecureAEAD := Some a\<rparr>)"

text \<open>The lowest level a setup still accepts.\<close>

definition level_floor :: "cryptoSetup \<Rightarrow> EncryptionLevel" where
  "level_floor h =
     (if forwardSecureAEAD h \<noteq> None \<and> (cs_perspective h = PerspectiveClient \<or> receivedForwardSecurePacket h)
      then EncryptionForwardSecure
      else if secureAEAD h \<noteq> None \<and> receivedSecurePacket h then EncryptionSecure
      else EncryptionUnencrypted)"

lemma level_order [simp]:
  "l \<le> EncryptionForwardSecure" "EncryptionUnencrypted \<le> EncryptionSecure" "EncryptionUnencrypted \<le> EncryptionForwardSecure"
  "\<not> EncryptionSecure \<le> EncryptionUnencrypted"
  by (cases l; simp add: less_eq_EncryptionLevel_def)+

lemma open_secure_levels:
  "open_secure h src pn ad = (Some (data, level), h') \<Longrightarrow>
     (secureAEAD h \<noteq> None \<and> receivedSecurePacket h \<longrightarrow> level = EncryptionSecure) \<and>
     (level = EncryptionSecure \<and> secureAEAD h \<noteq> None \<and> h' = h\<lparr>receivedSecurePacket := True\<rparr> \<or>
      level = EncryptionUnencrypted \<and> h' = h)"
  "open_secure h src pn ad = (None, h') \<Longrightarrow> h' = h"
  by (auto simp: open_secure_def open_null_def split: option.splits if_splits)

lemma open_secure_floor:
  assumes o: "open_secure h src pn ad = (r, h')"
    and low: "forwardSecureAEAD h = None \<or> cs_perspective h \<noteq> PerspectiveClient \<and> \<not> receivedForwardSecurePacket h"
  shows "level_floor h \<le> level_floor h' \<and> (\<forall>d l. r = Some (d, l) \<longrightarrow> level_floor h \<le> l \<and> l \<le> level_floor h')"
proof (cases r)
  case None
  then have "h' = h" using open_secure_levels(2) o by blast
  then show ?thesis using None by simp
next
  case (Some dl)
  obtain d l where dl: "dl = (d, l)" by fastforce
  note lv = open_secure_levels(1) [OF o [unfolded Some dl]]
  have floor: "level_floor h = (if secureAEAD h \<noteq> None \<and> receivedSecurePacket h then EncryptionSecure else EncryptionUnencrypted)"
    using low by (auto simp: level_floor_def)
  consider "l = EncryptionSecure" "secureAEAD h \<noteq> None" "h' = h\<lparr>receivedSecurePacket := True\<rparr>"
    | "l = EncryptionUnencrypted" "h' = h" using lv by blast
  then show ?thesis
  proof cases
    case 1
    have "level_floor h' = EncryptionSecure" using low 1 by (auto simp: level_floor_def)
    then show ?thesis using Some dl 1(1) by (simp add: floor)
  next
    case 2
    then show ?thesis using Some dl lv by (simp add: floor)
  qed
qed

lemma open_floor:
  assumes "CryptoSetup_Open h src pn ad = (r, h')"
  shows "level_floor h \<le> level_floor h' \<and> (\<forall>d l. r = Some (d, l) \<longrightarrow> level_floor h \<le> l \<and> l \<le> level_floor h')"
proof (cases "forwardSecureAEAD h = None \<or> cs_perspective h \<noteq> PerspectiveClient \<and> \<not> receivedForwardSecurePacket h \<and>
    aead_Open (the (forwardSecureAEAD h)) src pn ad = None")
  case True
  then have "open_secure h src pn ad = (r, h')"
    using assms by (auto simp: CryptoSetup_Open_def cryptoSetupClient_Open_def cryptoSetupServer_Open_def
        split: if_splits option.splits)
  then show ?thesis using open_secure_floor True by blast
next
  case False
  then obtain a where a: "forwardSecureAEAD h = Some a" by auto
  have "r = map_option (\<lambda>d. (d, EncryptionForwardSecure)) (aead_Open a src pn ad) \<and>
      (h' = h \<and> r = None \<or> h' = h \<and> cs_perspective h = PerspectiveClient \<or> h' = h\<lparr>receivedForwardSecurePacket := True\<rparr>)"
    using assms False a by (auto simp: CryptoSetup_Open_def cryptoSetupClient_Open_def cryptoSetupServer_Open_def split: if_splits option.splits)
  then show ?thesis using a by (auto simp: level_floor_def)
qed

lemma floor_keys: "level_floor h \<le> level_floor (h\<lparr>secureAEAD := Some a\<rparr>)" "level_floor h \<le> level_floor (h\<lparr>forwardSecureAEAD := Some a\<rparr>)"
  by (auto simp: level_floor_def)

lemma crypto_run_sorted: "crypto_run h ls h' \<Longrightarrow> sorted ls \<and> (\<forall>l \<in> set ls. l \<le> level_floor h')"
proof (induction rule: crypto_run.induct)
  case (run_open ls h' src pn ad data level h'')
  then have "level_floor h' \<le> level" "level \<le> level_floor h''" "level_floor h' \<le> level_floor h''"
    using open_floor by blast+
  then show ?case using run_open.IH by (auto simp: sorted_append intro: order_trans)
next
  case (run_reject ls h' src pn ad h'')
  then have "level_floor h' \<le> level_floor h''" using open_floor by blast
  then show ?case using run_reject.IH by (auto intro: order_trans)
next
  case (run_secure ls h' a)
  then show ?case using floor_keys(1) by (blast intro: order_trans)
next
  case (run_forward ls h' a)
  then show ?case using floor_keys(2) by (blast intro: order_trans)
qed simp

text \<open>
  C38: the encryption level of a connection never falls.  Whatever packets arrive and whenever the
  handshake derives its keys, each packet that client or server accepts has at least the level of
  every packet accepted before it.
\<close>

theorem encryption_never_downgraded:
  assumes "crypto_run (NewCryptoSetup sum128 pers v) levels h"
  shows "sorted levels \<and> (\<forall>src pn ad data level h'.
    CryptoSetup_Open h src pn ad = (Some (data, level), h') \<longrightarrow> (\<forall>l \<in> set levels. l \<le> level))"
  using crypto_run_sorted [OF assms] open_floor by (blast intro: order_trans)

theorem encryption_never_downgraded_witness:
  "let xor = \<lparr>aead_Open = \<lambda>c pn ad. if c = [] \<or> hd c \<noteq> 7 then None else Some (tl c), aead_Seal = \<lambda>d pn ad. 7 # d, Overhead = 1\<rparr>;
       h = NewCryptoSetup (\<lambda>b. (0, 0)) PerspectiveServer 512\<lparr>secureAEAD := Some xor, receivedSecurePacket := True\<rparr>
   in crypto_run (NewCryptoSetup (\<lambda>b. (0, 0)) PerspectiveServer 512) [EncryptionUnencrypted, EncryptionSecure] h \<and>
      sorted [EncryptionUnencrypted, EncryptionSecure] \<and> fst (CryptoSetup_Open h (nullAEADFNV128a_Seal (\<lambda>b. (0, 0)) PerspectiveClient [1] 3 []) 3 []) = None"
proof -
  let ?xor = "\<lparr>aead_Open = \<lambda>c pn ad. if c = [] \<or> hd c \<noteq> 7 then None else Some (tl c), aead_Seal = \<lambda>d pn ad. 7 # d, Overhead = 1\<rparr> :: AEAD"
  let ?n = "NewCryptoSetup (\<lambda>b. (0, 0)) PerspectiveServer 512"
  let ?h = "?n\<lparr>secureAEAD := Some ?xor, receivedSecurePacket := True\<rparr>"
  have null: "nullAEADFNV128a_Open (\<lambda>b. (0, 0)) PerspectiveServer (nullAEADFNV128a_Seal (\<lambda>b. (0, 0)) PerspectiveClient [1] pn []) pn [] = Some [1]" for pn
    using nullAEADFNV128a_opens [of "\<lambda>b. (0, 0)" PerspectiveClient "[1]" pn "[]"] by (simp add: peer_of_def)
  note defs = CryptoSetup_Open_def cryptoSetupServer_Open_def open_secure_def open_null_def NewCryptoSetup_def NewNullAEAD_def
    UsesTLS_def VersionTLS_def
  have one: "CryptoSetup_Open ?n (nullAEADFNV128a_Seal (\<lambda>b. (0, 0)) PerspectiveClient [1] 1 []) 1 [] = (Some ([1], EncryptionUnencrypted), ?n)"
    by (simp add: defs null)
  have two: "CryptoSetup_Open (?n\<lparr>secureAEAD := Some ?xor\<rparr>) [7, 1] 2 [] = (Some ([1], EncryptionSecure), ?h)"
    by (simp add: defs)
  have "crypto_run ?n ([] @ [EncryptionUnencrypted]) ?n" by (rule run_open [OF run_start one])
  from run_open [OF run_secure [OF this] two]
  have run: "crypto_run ?n [EncryptionUnencrypted, EncryptionSecure] ?h" by simp
  have "fst (CryptoSetup_Open ?h (nullAEADFNV128a_Seal (\<lambda>b. (0, 0)) PerspectiveClient [1] 3 []) 3 []) = None"
    by (simp add: defs nullAEADFNV128a_Seal_def littleEndian_WriteUint64_def)
  then show ?thesis using run encryption_never_downgraded [OF run] by (simp add: Let_def)
qed

end
