(* ===== verification/Packet_Packer.thy ===== *)
theory Packet_Packer
  imports Stream_Framer Packet_Protection
begin

text \<open>
  Model of the packets of a path: \<^verbatim>\<open>mp-quic/packet_number_generator.go\<close>, \<^verbatim>\<open>mp-quic/packet_packer.go\<close>, and
  the receiving side up to the frames (\<^verbatim>\<open>handlePacket\<close> of \<^verbatim>\<open>client.go\<close> and \<^verbatim>\<open>server.go\<close>, \<^verbatim>\<open>handlePacketImpl\<close> of
  \<^verbatim>\<open>path.go\<close>, \<^verbatim>\<open>ackhandler/retransmittable.go\<close>).  The properties follow a packet from the packer of
  one side to the frames the other side gets out of it.
\<close>

section \<open>Packet numbers\<close>

record packetNumberGenerator =
  averagePeriod :: PacketNumber
  png_next :: PacketNumber
  nextToSkip :: PacketNumber

definition SkipPacketAveragePeriodLength :: PacketNumber where "SkipPacketAveragePeriodLength = 500"

definition newPacketNumberGenerator :: "PacketNumber \<Rightarrow> packetNumberGenerator" where
  "newPacketNumberGenerator period = \<lparr>averagePeriod = period, png_next = 1, nextToSkip = 0\<rparr>"

definition Peek :: "packetNumberGenerator \<Rightarrow> PacketNumber" where
  "Peek p = png_next p"

text \<open>The two random bytes are an argument; \<open>None\<close> when the random source fails.\<close>

definition getRandomNumber :: "(byte \<times> byte) option \<Rightarrow> 16 word option" where
  "getRandomNumber rnd = map_option (\<lambda>(b0, b1). push_bit 8 (ucast b0) + ucast b1) rnd"

definition generateNewSkip :: "(byte \<times> byte) option \<Rightarrow> packetNumberGenerator \<Rightarrow> packetNumberGenerator" where
  "generateNewSkip rnd p =
     (case getRandomNumber rnd of
        None \<Rightarrow> p
      | Some num \<Rightarrow>
          let skip = (unat num * sub64 (averagePeriod p) 1) mod 2 ^ 64 div (65535 div 2)
          in p\<lparr>nextToSkip := add64 (add64 (png_next p) 2) skip\<rparr>)"

definition generator_Pop :: "(byte \<times> byte) option \<Rightarrow> packetNumberGenerator \<Rightarrow> PacketNumber \<times> packetNumberGenerator" where
  "generator_Pop rnd p =
     (let nxt = png_next p;
          p = p\<lparr>png_next := add64 (png_next p) 1\<rparr>;
          p = (if png_next p = nextToSkip p
               then generateNewSkip rnd (p\<lparr>png_next := add64 (png_next p) 1\<rparr>) else p)
      in (nxt, p))"

section \<open>State\<close>

text \<open>
  The fields of \<^verbatim>\<open>path\<close> that sending and receiving a packet use; the address is the current one of the
  connection of the path, as text.
\<close>

record path =
  pth_pathID :: nat
  pth_open :: bool
  pth_generator :: packetNumberGenerator
  lastRcvdPacketNumber :: PacketNumber
  largestRcvdPacketNumber :: PacketNumber
  pth_leastUnacked :: PacketNumber
  lastNetworkActivityTime :: int
  potentiallyFailed :: bool
  pth_receivedPacketHandler :: receivedPacketHandler
  pth_remoteAddr :: string

record packedPacket =
  pkt_number :: PacketNumber
  pkt_raw :: bytes
  pkt_frames :: "Frame list"
  pkt_encryptionLevel :: EncryptionLevel

record packetPacker =
  pp_connectionID :: nat
  pp_perspective :: Perspective
  pp_version :: VersionNumber
  pp_streamFramer :: streamFramer
  controlFrames :: "Frame list"
  pp_stopWaiting :: "nat \<Rightarrow> StopWaitingFrame option"
  pp_ackFrame :: "nat \<Rightarrow> AckFrame option"

definition newPacketPacker :: "nat \<Rightarrow> streamFramer \<Rightarrow> Perspective \<Rightarrow> VersionNumber \<Rightarrow> packetPacker" where
  "newPacketPacker connID framer pers v =
     \<lparr>pp_connectionID = connID, pp_perspective = pers, pp_version = v, pp_streamFramer = framer, controlFrames = [],
      pp_stopWaiting = \<lambda>_. None, pp_ackFrame = \<lambda>_. None\<rparr>"

text \<open>
  What the packer reads of its surroundings: the connection parameters, the crypto setup, whether the
  handshake is complete, the clock and the random source.
\<close>

record pack_env =
  pe_params :: connectionParametersManager
  pe_crypto :: cryptoSetup
  handshakeComplete :: bool
  pe_now :: int
  pe_random :: "(byte \<times> byte) option"

datatype pack_error =
    PackWriteError wire_error
  | PacketTooLarge
  | PacketNumbersDoNotMatch
  | PayloadTooLarge
  | NoAckFrameQueued
  | ForwardSecureRetransmission
  | NoSealerForLevel
  | NoStopWaitingQueued

section \<open>Frames through their interface\<close>

primrec Frame_MinLength :: "Frame \<Rightarrow> wire_error + nat" where
  "Frame_MinLength (Stream f) = Inr (StreamFrame_MinLength f)"
| "Frame_MinLength (Ack f) = Inr (AckFrame_MinLength f)"
| "Frame_MinLength (RstStream f) = Inr RstStreamFrame_MinLength"
| "Frame_MinLength (ConnectionClose f) = Inr (ConnectionCloseFrame_MinLength f)"
| "Frame_MinLength (Goaway f) = Inr (GoawayFrame_MinLength f)"
| "Frame_MinLength (WindowUpdate f) = Inr WindowUpdateFrame_MinLength"
| "Frame_MinLength (Blocked f) = Inr BlockedFrame_MinLength"
| "Frame_MinLength (StopWaiting f) = StopWaitingFrame_MinLength f"
| "Frame_MinLength Ping = Inr PingFrame_MinLength"
| "Frame_MinLength (AddAddress f) = AddAddressFrame_MinLength f"
| "Frame_MinLength (ClosePath f) = Inr (ClosePathFrame_MinLength f)"
| "Frame_MinLength (Paths f) = Inr (PathsFrame_MinLength f)"

definition write_frames :: "VersionNumber \<Rightarrow> int \<Rightarrow> Frame list \<Rightarrow> writer" where
  "write_frames v clock fs = foldr (\<lambda>f. wappend (Frame_Write v clock f)) fs (wbytes [])"

primrec IsFrameRetransmittable :: "Frame \<Rightarrow> bool" where
  "IsFrameRetransmittable (Stream f) = True"
| "IsFrameRetransmittable (Ack f) = False"
| "IsFrameRetransmittable (RstStream f) = True"
| "IsFrameRetransmittable (ConnectionClose f) = True"
| "IsFrameRetransmittable (Goaway f) = True"
| "IsFrameRetransmittable (WindowUpdate f) = True"
| "IsFrameRetransmittable (Blocked f) = True"
| "IsFrameRetransmittable (StopWaiting f) = False"
| "IsFrameRetransmittable Ping = True"
| "IsFrameRetransmittable (AddAddress f) = True"
| "IsFrameRetransmittable (ClosePath f) = True"
| "IsFrameRetransmittable (Paths f) = True"

primrec stripNonRetransmittableFrames :: "Frame list \<Rightarrow> Frame list" where
  "stripNonRetransmittableFrames [] = []"
| "stripNonRetransmittableFrames (f # fs) =
     (if IsFrameRetransmittable f then f # stripNonRetransmittableFrames fs else stripNonRetransmittableFrames fs)"

primrec HasRetransmittableFrames :: "Frame list \<Rightarrow> bool" where
  "HasRetransmittableFrames [] = False"
| "HasRetransmittableFrames (f # fs) = (if IsFrameRetransmittable f then True else HasRetransmittableFrames fs)"

section \<open>Packing\<close>

definition NonForwardSecurePacketSizeReduction :: nat where "NonForwardSecurePacketSizeReduction = 50"

definition getPublicHeader :: "pack_env \<Rightarrow> EncryptionLevel \<Rightarrow> path \<Rightarrow> packetPacker \<Rightarrow> PublicHeader" where
  "getPublicHeader e encLevel pth p =
     (let pnum = Peek (pth_generator pth);
          h = empty_header\<lparr>ConnectionID := pp_connectionID p, ph_PacketNumber := pnum,
                ph_PacketNumberLen := GetPacketNumberLengthForPublicHeader pnum (pth_leastUnacked pth),
                ph_TruncateConnectionID := TruncateConnectionID (pe_params e)\<rparr>;
          h = (if pp_perspective p = PerspectiveServer \<and> encLevel = EncryptionSecure
               then h\<lparr>DiversificationNonce := diversificationNonce (pe_crypto e)\<rparr> else h);
          h = (if pp_perspective p = PerspectiveClient \<and> encLevel \<noteq> EncryptionForwardSecure
               then h\<lparr>VersionFlag := True, ph_VersionNumber := pp_version p\<rparr> else h)
      in if handshakeComplete e \<and> pp_version p \<ge> VersionMP
         then h\<lparr>MultipathFlag := True, ph_PathID := pth_pathID pth, ph_TruncateConnectionID := False\<rparr> else h)"

definition writeAndSealPacket ::
  "pack_env \<Rightarrow> PublicHeader \<Rightarrow> Frame list \<Rightarrow> AEAD \<Rightarrow> path \<Rightarrow> packetPacker \<Rightarrow> ((pack_error + bytes) \<times> path) option" where
  "writeAndSealPacket e h payloadFrames sealer pth p =
     (case PublicHeader_Write (pp_version p) (pp_perspective p) h of
        None \<Rightarrow> None
      | Some (Inl er) \<Rightarrow> Some (Inl (PackWriteError er), pth)
      | Some (Inr header) \<Rightarrow>
          (case write_frames (pp_version p) (pe_now e) payloadFrames of
             None \<Rightarrow> None
           | Some (Inl er) \<Rightarrow> Some (Inl (PackWriteError er), pth)
           | Some (Inr payload) \<Rightarrow>
               if length header + length payload + Overhead sealer > MaxPacketSize then Some (Inl PacketTooLarge, pth)
               else let raw = header @ take (length payload + Overhead sealer)
                                         (aead_Seal sealer payload (ph_PacketNumber h) header);
                        (num, g) = generator_Pop (pe_random e) (pth_generator pth)
                    in Some (if num \<noteq> ph_PacketNumber h then Inl PacketNumbersDoNotMatch else Inr raw,
                             pth\<lparr>pth_generator := g\<rparr>)))"

definition packed :: "PublicHeader \<Rightarrow> Frame list \<Rightarrow> EncryptionLevel \<Rightarrow> bytes \<Rightarrow> packedPacket" where
  "packed h frames encLevel raw =
     \<lparr>pkt_number = ph_PacketNumber h, pkt_raw = raw, pkt_frames = frames, pkt_encryptionLevel = encLevel\<rparr>"

definition canSendData :: "EncryptionLevel \<Rightarrow> packetPacker \<Rightarrow> bool" where
  "canSendData encLevel p =
     (if pp_perspective p = PerspectiveClient then encLevel \<ge> EncryptionSecure else encLevel = EncryptionForwardSecure)"

definition QueueControlFrame :: "Frame \<Rightarrow> path \<Rightarrow> packetPacker \<Rightarrow> packetPacker" where
  "QueueControlFrame frame pth p =
     (case frame of
        StopWaiting f \<Rightarrow> p\<lparr>pp_stopWaiting := (pp_stopWaiting p)(pth_pathID pth \<mapsto> f)\<rparr>
      | Ack f \<Rightarrow> p\<lparr>pp_ackFrame := (pp_ackFrame p)(pth_pathID pth \<mapsto> f)\<rparr>
      | _ \<Rightarrow> p\<lparr>controlFrames := controlFrames p @ [frame]\<rparr>)"

text \<open>The STOP_WAITING frame of a path gets the number of the packet it is sent in.\<close>

definition number_stop_waiting :: "PublicHeader \<Rightarrow> path \<Rightarrow> packetPacker \<Rightarrow> packetPacker" where
  "number_stop_waiting h pth p =
     p\<lparr>pp_stopWaiting := (pp_stopWaiting p)(pth_pathID pth :=
         map_option (\<lambda>f. f\<lparr>sw_PacketNumber := ph_PacketNumber h, sw_PacketNumberLen := ph_PacketNumberLen h\<rparr>)
           (pp_stopWaiting p (pth_pathID pth)))\<rparr>"

text \<open>The control frames are taken from the end of their list.\<close>

fun control_loop :: "ByteCount \<Rightarrow> ByteCount \<Rightarrow> Frame list \<Rightarrow> (wire_error + Frame list) \<times> ByteCount \<times> Frame list" where
  "control_loop maxFrameSize payloadLength [] = (Inr [], payloadLength, [])"
| "control_loop maxFrameSize payloadLength (frame # fs) =
     (case Frame_MinLength frame of
        Inl er \<Rightarrow> (Inl er, payloadLength, frame # fs)
      | Inr minLength \<Rightarrow>
          if add64 payloadLength minLength > maxFrameSize then (Inr [], payloadLength, frame # fs)
          else case control_loop maxFrameSize (add64 payloadLength minLength) fs of
                 (r, len, rest) \<Rightarrow> (map_sum id (\<lambda>cs. frame # cs) r, len, rest))"

lemma PopBlockedFrame_shrinks:
  "PopBlockedFrame f = (Some b, f') \<Longrightarrow> length (blockedFrameQueue f') < length (blockedFrameQueue f)"
  by (auto simp: PopBlockedFrame_def split: list.splits)

function drain_blocked :: "streamFramer \<Rightarrow> Frame list \<times> streamFramer" where
  "drain_blocked f =
     (case PopBlockedFrame f of
        (None, f) \<Rightarrow> ([], f)
      | (Some b, f) \<Rightarrow> (case drain_blocked f of (bs, f) \<Rightarrow> (Blocked b # bs, f)))"
  by pat_completeness auto
termination
  by (relation "measure (\<lambda>f. length (blockedFrameQueue f))") (auto dest: PopBlockedFrame_shrinks [OF sym])

declare drain_blocked.simps [simp del]

definition clear_last :: "StreamFrame list \<Rightarrow> StreamFrame list" where
  "clear_last fs =
     (if length fs \<noteq> 0 then fs[length fs - 1 := (fs ! (length fs - 1))\<lparr>DataLenPresent := False\<rparr>] else fs)"

definition stop_and_ack :: "path \<Rightarrow> packetPacker \<Rightarrow> wire_error + Frame list \<times> ByteCount" where
  "stop_and_ack pth p =
     map_sum id (\<lambda>(fs, len).
         case pp_ackFrame p (pth_pathID pth) of
           None \<Rightarrow> (fs, len)
         | Some f \<Rightarrow> (fs @ [Ack f], add64 len (AckFrame_MinLength f)))
       (case pp_stopWaiting p (pth_pathID pth) of
          None \<Rightarrow> Inr ([], 0)
        | Some f \<Rightarrow> map_sum id (\<lambda>len. ([StopWaiting f], len)) (StopWaitingFrame_MinLength f))"

definition composeNextPacket ::
  "pack_env \<Rightarrow> ByteCount \<Rightarrow> bool \<Rightarrow> path \<Rightarrow> packetPacker \<Rightarrow> ((pack_error + Frame list) \<times> packetPacker) option" where
  "composeNextPacket e maxFrameSize canSendStreamFrames pth p =
     (case stop_and_ack pth p of
        Inl er \<Rightarrow> Some (Inl (PackWriteError er), p)
      | Inr (fs, len) \<Rightarrow>
          (case control_loop maxFrameSize len (rev (controlFrames p)) of
             (r, payloadLength, rest) \<Rightarrow>
               let p = p\<lparr>controlFrames := rev rest\<rparr>
               in case r of
                    Inl er \<Rightarrow> Some (Inl (PackWriteError er), p)
                  | Inr cs \<Rightarrow>
                      if payloadLength > maxFrameSize then Some (Inl PayloadTooLarge, p)
                      else if \<not> canSendStreamFrames then Some (Inr (fs @ cs), p)
                      else map_option (\<lambda>(ss, framer).
                             case drain_blocked framer of
                               (bs, framer) \<Rightarrow>
                                 (Inr (fs @ cs @ map Stream (clear_last ss)),
                                  p\<lparr>pp_streamFramer := framer, controlFrames := controlFrames p @ bs\<rparr>))
                           (PopStreamFrames (pe_params e) (sub64 (add64 maxFrameSize 2) payloadLength) (pp_streamFramer p))))"

type_synonym 'a packing = "((pack_error + 'a) \<times> path \<times> packetPacker) option"

definition sealed_as ::
  "pack_env \<Rightarrow> PublicHeader \<Rightarrow> Frame list \<Rightarrow> EncryptionLevel \<Rightarrow> AEAD \<Rightarrow> path \<Rightarrow> packetPacker \<Rightarrow> packedPacket packing" where
  "sealed_as e h frames encLevel sealer pth p =
     map_option (\<lambda>(r, pth). (map_sum id (packed h frames encLevel) r, pth, p)) (writeAndSealPacket e h frames sealer pth p)"

definition packCryptoPacket :: "pack_env \<Rightarrow> path \<Rightarrow> packetPacker \<Rightarrow> packedPacket option packing" where
  "packCryptoPacket e pth p =
     (case GetSealerForCryptoStream (pe_crypto e) of
        (encLevel, sealer) \<Rightarrow>
          let h = getPublicHeader e encLevel pth p
          in case GetLength h (pp_perspective p) of
               Inl er \<Rightarrow> Some (Inl (PackWriteError er), pth, p)
             | Inr publicHeaderLength \<Rightarrow>
                 let maxLen = sub64 (sub64 (sub64 MaxPacketSize (Overhead sealer)) NonForwardSecurePacketSizeReduction)
                                publicHeaderLength
                 in case PopCryptoStreamFrame (pe_params e) maxLen (pp_streamFramer p) of
                      Some (Some f, framer) \<Rightarrow>
                        map_option (\<lambda>(r, pth, p). (map_sum id Some r, pth, p))
                          (sealed_as e h [Stream f] encLevel sealer pth (p\<lparr>pp_streamFramer := framer\<rparr>))
                    | _ \<Rightarrow> None)"

definition is_ping :: "Frame list \<Rightarrow> bool" where
  "is_ping fs \<longleftrightarrow> length fs > 0 \<and> hd fs = Ping"

text \<open>The frames of the next packet: a PING alone, or what fits.\<close>

definition payload_frames ::
  "pack_env \<Rightarrow> ByteCount \<Rightarrow> bool \<Rightarrow> path \<Rightarrow> packetPacker \<Rightarrow> ((pack_error + Frame list) \<times> packetPacker) option" where
  "payload_frames e maxSize canSend pth p =
     (if is_ping (controlFrames p) then Some (Inr [hd (controlFrames p)], p\<lparr>controlFrames := tl (controlFrames p)\<rparr>)
      else composeNextPacket e maxSize canSend pth p)"

definition pack_data :: "pack_env \<Rightarrow> path \<Rightarrow> packetPacker \<Rightarrow> packedPacket option packing" where
  "pack_data e pth p =
     (case GetSealer (pe_crypto e) of
        (encLevel, sealer) \<Rightarrow>
          let h = getPublicHeader e encLevel pth p; pid = pth_pathID pth
          in case GetLength h (pp_perspective p) of
               Inl er \<Rightarrow> Some (Inl (PackWriteError er), pth, p)
             | Inr publicHeaderLength \<Rightarrow>
                 (case payload_frames e (sub64 (sub64 MaxPacketSize (Overhead sealer)) publicHeaderLength)
                         (canSendData encLevel p) pth (number_stop_waiting h pth p) of
                    None \<Rightarrow> None
                  | Some (Inl er, p) \<Rightarrow> Some (Inl er, pth, p)
                  | Some (Inr fs, p) \<Rightarrow>
                      if length fs = 0 then Some (Inr None, pth, p)
                      else if length fs = 1 \<and> pp_stopWaiting p pid \<noteq> None then Some (Inr None, pth, p)
                      else map_option (\<lambda>(r, pth, p). (map_sum id Some r, pth, p))
                             (sealed_as e h fs encLevel sealer pth
                                (p\<lparr>pp_stopWaiting := (pp_stopWaiting p)(pid := None),
                                   pp_ackFrame := (pp_ackFrame p)(pid := None)\<rparr>))))"

definition PackPacket :: "pack_env \<Rightarrow> path \<Rightarrow> packetPacker \<Rightarrow> packedPacket option packing" where
  "PackPacket e pth p =
     Option.bind (HasCryptoStreamFrame (pe_params e) (pp_streamFramer p)) (\<lambda>(has, framer).
       let p = p\<lparr>pp_streamFramer := framer\<rparr>
       in if has then packCryptoPacket e pth p else pack_data e pth p)"

definition PackConnectionClose ::
  "pack_env \<Rightarrow> ConnectionCloseFrame \<Rightarrow> path \<Rightarrow> packetPacker \<Rightarrow> packedPacket packing" where
  "PackConnectionClose e ccf pth p =
     (case GetSealer (pe_crypto e) of
        (encLevel, sealer) \<Rightarrow>
          sealed_as e (getPublicHeader e encLevel pth p) [ConnectionClose ccf] encLevel sealer pth p)"

text \<open>\<open>leastUnacked\<close> is what the handler of the sent packets returns.\<close>

definition PackPing :: "pack_env \<Rightarrow> PacketNumber \<Rightarrow> path \<Rightarrow> packetPacker \<Rightarrow> packedPacket option packing" where
  "PackPing e leastUnacked pth p =
     PackPacket e (pth\<lparr>pth_leastUnacked := leastUnacked\<rparr>) (p\<lparr>controlFrames := Ping # controlFrames p\<rparr>)"

definition PackAckPacket :: "pack_env \<Rightarrow> path \<Rightarrow> packetPacker \<Rightarrow> packedPacket packing" where
  "PackAckPacket e pth p =
     (case pp_ackFrame p (pth_pathID pth) of
        None \<Rightarrow> Some (Inl NoAckFrameQueued, pth, p)
      | Some ack \<Rightarrow>
          (case GetSealer (pe_crypto e) of
             (encLevel, sealer) \<Rightarrow>
               let h = getPublicHeader e encLevel pth p; pid = pth_pathID pth; q = number_stop_waiting h pth p
               in sealed_as e h (Ack ack # (case pp_stopWaiting q pid of None \<Rightarrow> [] | Some f \<Rightarrow> [StopWaiting f]))
                    encLevel sealer pth
                    (q\<lparr>pp_stopWaiting := (pp_stopWaiting q)(pid := None), pp_ackFrame := (pp_ackFrame q)(pid := None)\<rparr>)))"

definition PackHandshakeRetransmission ::
  "pack_env \<Rightarrow> EncryptionLevel \<Rightarrow> Frame list \<Rightarrow> path \<Rightarrow> packetPacker \<Rightarrow> packedPacket packing" where
  "PackHandshakeRetransmission e encLevel frames pth p =
     (if encLevel = EncryptionForwardSecure then Some (Inl ForwardSecureRetransmission, pth, p)
      else case GetSealerWithEncryptionLevel encLevel (pe_crypto e) of
             None \<Rightarrow> Some (Inl NoSealerForLevel, pth, p)
           | Some sealer \<Rightarrow>
               let h = getPublicHeader e encLevel pth p; pid = pth_pathID pth; q = number_stop_waiting h pth p
               in case pp_stopWaiting q pid of
                    None \<Rightarrow> Some (Inl NoStopWaitingQueued, pth, p)
                  | Some f \<Rightarrow>
                      sealed_as e h (StopWaiting f # frames) encLevel sealer pth
                        (q\<lparr>pp_stopWaiting := (pp_stopWaiting q)(pid := None)\<rparr>))"

section \<open>Receiving\<close>

text \<open>
  The server and the client read the header of a packet and hand it to a session.  A session is what
  receiving a packet uses of it; the nonces it hands to its handshake through a channel are a list.
  The zero time is 0.
\<close>

record receivedPacket =
  rp_remoteAddr :: string
  rp_publicHeader :: PublicHeader
  rp_data :: bytes
  rp_rcvTime :: int

record session =
  ses_perspective :: Perspective
  ses_version :: VersionNumber
  ses_paths :: "nat \<Rightarrow> path option"
  ses_cryptoSetup :: cryptoSetup
  ses_lastNetworkActivityTime :: int
  keepAlivePingSent :: bool
  divNonceChan :: "bytes list"

definition split_packet :: "Perspective \<Rightarrow> VersionNumber \<Rightarrow> bytes \<Rightarrow> wire_error + PublicHeader \<times> bytes" where
  "split_packet packetSentBy version packet =
     map_sum id (\<lambda>(h, rest). (h\<lparr>Raw := take (length packet - length rest) packet\<rparr>, rest))
       (ParsePublicHeader packetSentBy version packet)"

subsection \<open>The server\<close>

text \<open>
  The sessions by connection ID; a closed session stays in the table as \<^verbatim>\<open>nil\<close>, here \<open>Some None\<close>.  The
  result is what the handler does: it returns an error, ignores the packet, answers it, creates a
  session for it or gives it to the session of the connection.
\<close>

record server =
  srv_versions :: "VersionNumber list"
  srv_sessions :: "nat \<Rightarrow> session option option"

datatype server_action =
    ServerInvalidHeader wire_error
  | ServerIgnore
  | SendPublicReset nat
  | DropSmallPacket
  | SendVersionNegotiation nat
  | VersionNotSupported
  | NewSession nat VersionNumber PublicHeader bytes
  | ToSession nat session PublicHeader bytes

definition ClientHelloMinimumSize :: nat where "ClientHelloMinimumSize = 1024"

definition server_handlePacket :: "server \<Rightarrow> bytes \<Rightarrow> server_action" where
  "server_handlePacket s packet =
     (case PeekConnectionID PerspectiveClient packet of
        Inl er \<Rightarrow> ServerInvalidHeader er
      | Inr connID \<Rightarrow>
          (case srv_sessions s connID of
             Some None \<Rightarrow> ServerIgnore
           | known \<Rightarrow>
               let version = (case known of Some (Some ses) \<Rightarrow> ses_version ses | _ \<Rightarrow> VersionUnknown)
               in case split_packet PerspectiveClient version packet of
                    Inl er \<Rightarrow> if er = ErrPacketWithUnknownVersion then SendPublicReset connID else ServerInvalidHeader er
                  | Inr (hdr, data) \<Rightarrow>
                      let unsupported = (\<not> IsSupportedVersion (srv_versions s) (ph_VersionNumber hdr))
                      in if ResetFlag hdr then ServerIgnore
                         else case known of
                                Some (Some ses) \<Rightarrow>
                                  if VersionFlag hdr \<and> unsupported then ServerIgnore else ToSession connID ses hdr data
                              | _ \<Rightarrow>
                                  if VersionFlag hdr \<and> unsupported
                                  then if length packet < ClientHelloMinimumSize + length (Raw hdr) then DropSmallPacket
                                       else SendVersionNegotiation (ConnectionID hdr)
                                  else if unsupported then VersionNotSupported
                                  else NewSession connID (ph_VersionNumber hdr) hdr data))"

subsection \<open>The client\<close>

record client =
  cl_connectionID :: nat
  cl_requestTruncation :: bool
  cl_versions :: "VersionNumber list"
  cl_version :: VersionNumber
  versionNegotiated :: bool
  receivedVersionNegotiationPacket :: bool
  cl_remoteAddr :: string

datatype client_action =
    ClientDrop
  | ClientPublicReset bytes
  | ClientVersionFlag PublicHeader
  | ToClientSession PublicHeader bytes

definition client_handlePacket :: "string \<Rightarrow> bytes \<Rightarrow> client \<Rightarrow> client_action \<times> client" where
  "client_handlePacket addr packet c =
     (case split_packet PerspectiveServer (cl_version c) packet of
        Inl er \<Rightarrow> (ClientDrop, c)
      | Inr (h, data) \<Rightarrow>
          if ph_TruncateConnectionID h \<and> \<not> cl_requestTruncation c then (ClientDrop, c)
          else if \<not> ph_TruncateConnectionID h \<and> ConnectionID h \<noteq> cl_connectionID c then (ClientDrop, c)
          else if ResetFlag h
          then (if cl_remoteAddr c \<noteq> addr \<or> ConnectionID h \<noteq> cl_connectionID c then ClientDrop else ClientPublicReset data, c)
          else if (receivedVersionNegotiationPacket c \<or> versionNegotiated c) \<and> VersionFlag h then (ClientDrop, c)
          else if VersionFlag h then (ClientVersionFlag h, c)
          else (ToClientSession h data, c\<lparr>versionNegotiated := True\<rparr>))"

text \<open>
  A version negotiation packet; \<open>newID\<close> is the connection ID drawn, \<open>None\<close> when the random source
  fails.  A new session replaces the old one when the version is switched.
\<close>

datatype version_flag_result = VersionOffered | InvalidVersion | NoConnectionID | SwitchVersion

definition handlePacketWithVersionFlag :: "nat option \<Rightarrow> PublicHeader \<Rightarrow> client \<Rightarrow> version_flag_result \<times> client" where
  "handlePacketWithVersionFlag newID hdr c =
     (if list_ex (\<lambda>v. v = cl_version c) (SupportedVersions hdr) then (VersionOffered, c)
      else let c = c\<lparr>receivedVersionNegotiationPacket := True\<rparr>;
               newVersion = ChooseSupportedVersion (cl_versions c) (SupportedVersions hdr)
           in if newVersion = VersionUnsupported then (InvalidVersion, c)
              else let c = c\<lparr>cl_version := newVersion\<rparr>
                   in case newID of
                        None \<Rightarrow> (NoConnectionID, c\<lparr>cl_connectionID := 0\<rparr>)
                      | Some connID \<Rightarrow> (SwitchVersion, c\<lparr>cl_connectionID := connID\<rparr>))"

subsection \<open>The session and the path\<close>

datatype handle_error =
    PacketUnpackError unpack_error
  | PacketReceivedError received_error

text \<open>Up to the frames, which the session handles next.\<close>

definition handlePacketImpl ::
  "Perspective \<Rightarrow> VersionNumber \<Rightarrow> int \<Rightarrow> receivedPacket \<Rightarrow> path \<Rightarrow> cryptoSetup \<Rightarrow>
     (handle_error + unpackedPacket option) \<times> path \<times> cryptoSetup" where
  "handlePacketImpl pers version clock pkt p cs =
     (if \<not> pth_open p then (Inr None, p, cs)
      else let p = (if rp_rcvTime pkt \<noteq> 0 then p\<lparr>lastNetworkActivityTime := rp_rcvTime pkt\<rparr> else p);
               hdr = rp_publicHeader pkt; data = rp_data pkt;
               p = p\<lparr>potentiallyFailed := False\<rparr>;
               pn = InferPacketNumber (ph_PacketNumberLen hdr) (largestRcvdPacketNumber p) (ph_PacketNumber hdr);
               r = Unpack (\<lambda>src n ad. fst (CryptoSetup_Open cs src n ad)) version (Raw hdr) pn (ph_PacketNumberLen hdr) data;
               cs = snd (CryptoSetup_Open cs data pn (Raw hdr))
           in if r = Inl DecryptionFailure then (Inl (PacketUnpackError DecryptionFailure), p, cs)
              else let p = (if pers = PerspectiveServer then p\<lparr>pth_remoteAddr := rp_remoteAddr pkt\<rparr> else p)
              in case r of
                Inl er \<Rightarrow> (Inl (PacketUnpackError er), p, cs)
              | Inr packet \<Rightarrow>
                  let p = p\<lparr>lastRcvdPacketNumber := pn,
                            largestRcvdPacketNumber := MaxPacketNumber (largestRcvdPacketNumber p) pn\<rparr>
                  in case handler_ReceivedPacket clock pn (HasRetransmittableFrames (up_frames packet))
                            (pth_receivedPacketHandler p) of
                       (Some er, h) \<Rightarrow> (Inl (PacketReceivedError er), p\<lparr>pth_receivedPacketHandler := h\<rparr>, cs)
                     | (None, h) \<Rightarrow> (Inr (Some packet), p\<lparr>pth_receivedPacketHandler := h\<rparr>, cs))"

text \<open>
  \<open>None\<close> is a path id the session does not know, for which the path manager creates a path; this is
  left open here.
\<close>

definition session_handlePacketImpl ::
  "int \<Rightarrow> receivedPacket \<Rightarrow> session \<Rightarrow> ((handle_error + unpackedPacket option) \<times> session) option" where
  "session_handlePacketImpl clock pkt s =
     (let nonce = DiversificationNonce (rp_publicHeader pkt);
          s = (if ses_perspective s = PerspectiveClient \<and> length nonce > 0
               then s\<lparr>divNonceChan := divNonceChan s @ [nonce]\<rparr> else s);
          pkt = (if rp_rcvTime pkt = 0 then pkt\<lparr>rp_rcvTime := clock\<rparr> else pkt);
          s = s\<lparr>ses_lastNetworkActivityTime := rp_rcvTime pkt, keepAlivePingSent := False\<rparr>;
          pid = ph_PathID (rp_publicHeader pkt)
      in case ses_paths s pid of
           None \<Rightarrow> None
         | Some p \<Rightarrow>
             (case handlePacketImpl (ses_perspective s) (ses_version s) clock pkt p (ses_cryptoSetup s) of
                (r, p, cs) \<Rightarrow> Some (r, s\<lparr>ses_paths := (ses_paths s)(pid \<mapsto> p), ses_cryptoSetup := cs\<rparr>)))"

text \<open>One packet on the side that receives it; \<open>None\<close> when no path of a session gets it.\<close>

datatype endpoint = ServerEnd server | ClientEnd client session

primrec receive_packet ::
  "string \<Rightarrow> int \<Rightarrow> int \<Rightarrow> bytes \<Rightarrow> endpoint \<Rightarrow> ((handle_error + unpackedPacket option) \<times> endpoint) option" where
  "receive_packet addr rcvTime clock packet (ServerEnd srv) =
     (case server_handlePacket srv packet of
        ToSession connID ses h data \<Rightarrow>
          map_option (\<lambda>(r, ses). (r, ServerEnd (srv\<lparr>srv_sessions := (srv_sessions srv)(connID \<mapsto> Some ses)\<rparr>)))
            (session_handlePacketImpl clock
               \<lparr>rp_remoteAddr = addr, rp_publicHeader = h, rp_data = data, rp_rcvTime = rcvTime\<rparr> ses)
      | _ \<Rightarrow> None)"
| "receive_packet addr rcvTime clock packet (ClientEnd c ses) =
     (case client_handlePacket addr packet c of
        (ToClientSession h data, c) \<Rightarrow>
          map_option (\<lambda>(r, ses). (r, ClientEnd c ses))
            (session_handlePacketImpl clock
               \<lparr>rp_remoteAddr = addr, rp_publicHeader = h, rp_data = data, rp_rcvTime = rcvTime\<rparr> ses)
      | _ \<Rightarrow> None)"

section \<open>Sizes\<close>

text \<open>The bytes a frame takes, and the control frames that report this size as their \<^verbatim>\<open>MinLength\<close>.\<close>

fun frame_size :: "Frame \<Rightarrow> nat" where
  "frame_size (Stream f) = StreamFrame_MinLength f + DataLen f"
| "frame_size f = (case Frame_MinLength f of Inr n \<Rightarrow> n | Inl _ \<Rightarrow> 0)"

definition small_paths :: "Frame \<Rightarrow> bool" where
  "small_paths f \<longleftrightarrow> (\<forall>ps. f = Paths ps \<longrightarrow> NumPaths ps < 85)"

text \<open>
  An ACK or CLOSE_PATH frame counts on its first gap to fit the blocks it announces; otherwise it
  cannot be written.  All the other conditions on a frame are those of the frames of a packet.
\<close>

fun gap_fits :: "Frame \<Rightarrow> bool" where
  "gap_fits (Ack a) = first_gap_fits (AckRanges a)"
| "gap_fits (ClosePath a) = first_gap_fits (cp_AckRanges a)"
| "gap_fits f = True"

fun frame_wf :: "PacketNumber \<Rightarrow> nat \<Rightarrow> EncryptionLevel \<Rightarrow> Frame \<Rightarrow> bool" where
  "frame_wf pn k level (Ack a) \<longleftrightarrow> ack_ok (AckRanges a) (LargestAcked a) (LowestAcked a) \<and> PathID a < 256"
| "frame_wf pn k level (ClosePath a) \<longleftrightarrow> ack_ok (cp_AckRanges a) (cp_LargestAcked a) (cp_LowestAcked a) \<and> cp_PathID a < 256"
| "frame_wf pn k level f \<longleftrightarrow> packet_frame_ok pn k level f"

lemma frame_wf_fits: "packet_frame_ok pn k level f \<longleftrightarrow> frame_wf pn k level f \<and> gap_fits f"
  by (cases f) auto

definition control_ok :: "Frame \<Rightarrow> bool" where
  "control_ok f \<longleftrightarrow> frame_wf 0 0 EncryptionUnspecified f \<and> small_paths f \<and>
     (case f of Stream _ \<Rightarrow> False | StopWaiting _ \<Rightarrow> False | _ \<Rightarrow> True)"

lemma control_ok_packet: "control_ok f \<Longrightarrow> frame_wf pn k level f \<and> delimited f \<and> small_paths f"
  by (cases f) (auto simp: control_ok_def)

lemma paths_size:
  assumes "paths_ok ps" "NumPaths ps < 85" "PathsFrame_Write v ps = wbytes b"
  shows "length b = PathsFrame_MinLength ps"
proof -
  have n: "unat (NumPaths ps) < 85" using assms(2) by (simp add: word_less_nat_alt)
  obtain c where "PathsFrame_Write v ps = Some (Inr (0x12 # c))" "length (0x12 # c) = 3 + 3 * unat (NumPaths ps)"
    by (rule paths_round_trip [OF assms(1), of v])
  then show ?thesis using assms(3) n by (auto simp: paths_MinLength wbytes_def)
qed

lemma control_sizes:
  "length (RstStreamFrame_Write v rst) = RstStreamFrame_MinLength" "length (BlockedFrame_Write v bl) = BlockedFrame_MinLength"
  "length (WindowUpdateFrame_Write v wu) = WindowUpdateFrame_MinLength" "length (PingFrame_Write v) = PingFrame_MinLength"
  "length (GoawayFrame_Write v ga) = GoawayFrame_MinLength ga"
  by (simp_all add: RstStreamFrame_Write_def RstStreamFrame_MinLength_def BlockedFrame_Write_def
      BlockedFrame_MinLength_def WindowUpdateFrame_Write_def WindowUpdateFrame_MinLength_def PingFrame_Write_def
      PingFrame_MinLength_def GoawayFrame_Write_def GoawayFrame_MinLength_def)

lemma close_size:
  "length (cc_ReasonPhrase cc) \<le> MaxPacketSize \<Longrightarrow>
   \<exists>b. ConnectionCloseFrame_Write v cc = wbytes b \<and> length b = ConnectionCloseFrame_MinLength cc"
  by (auto simp: ConnectionCloseFrame_Write_def ConnectionCloseFrame_MinLength_def MaxPacketSize_def)

lemma stop_waiting_size:
  assumes "packet_frame_ok pn k level (StopWaiting sw)"
  shows "\<exists>b. StopWaitingFrame_Write v sw = wbytes b \<and> StopWaitingFrame_MinLength sw = Inr (length b)"
  using assms stop_waiting_write [of sw "sw_PacketNumber sw - sw_LeastUnacked sw" v]
  by (auto simp: StopWaitingFrame_MinLength_def pn_len_defs)

lemma frame_written:
  assumes ok: "packet_frame_ok pn k level f" and small: "small_paths f"
  shows "\<exists>b. Frame_Write v clock f = wbytes b \<and> length b = frame_size f"
proof (cases f)
  case (Stream g)
  then have "stream_ok g" using ok by simp
  then show ?thesis using StreamFrame_Write_bytes [of g v] length_stream_bytes [of v g] Stream by (simp add: wbytes_def)
next
  case (Ack a)
  then have a: "ack_ok (AckRanges a) (LargestAcked a) (LowestAcked a)" "first_gap_fits (AckRanges a)" using ok by simp_all
  show ?thesis using AckFrame_Write_bytes [OF a(1), of v clock] a(2) length_ack_bytes [OF a(1), of v clock] Ack by auto
next
  case (ClosePath a)
  then have a: "ack_ok (cp_AckRanges a) (cp_LargestAcked a) (cp_LowestAcked a)" "first_gap_fits (cp_AckRanges a)" using ok by simp_all
  show ?thesis using ClosePathFrame_Write_bytes [OF a(1), of v] a(2) length_close_path_bytes [OF a(1), of v] ClosePath by auto
next
  case (StopWaiting sw)
  show ?thesis using stop_waiting_size [OF ok [unfolded StopWaiting], of v] StopWaiting by auto
next
  case (ConnectionClose cc)
  then show ?thesis using close_size [of cc v] ok by simp
next
  case (AddAddress a)
  then have "add_address_ok a" using ok by simp
  then obtain b where "AddAddressFrame_Write v a = Some (Inr (0x10 # b))" "AddAddressFrame_MinLength a = Inr (length (0x10 # b))"
    by (rule add_address_round_trip [of a v])
  then show ?thesis using AddAddress by (simp add: wbytes_def)
next
  case (Paths ps)
  then have ps: "paths_ok ps" "NumPaths ps < 85" using ok small by (simp_all add: small_paths_def)
  obtain b where "PathsFrame_Write v ps = Some (Inr (0x12 # b))" by (rule paths_round_trip [OF ps(1), of v])
  then have b: "PathsFrame_Write v ps = wbytes (0x12 # b)" by (simp add: wbytes_def)
  show ?thesis using b paths_size [OF ps b] Paths by (intro exI [of _ "0x12 # b"]) simp
qed (simp_all add: control_sizes wbytes_def)


section \<open>The payload\<close>

abbreviation payload_size :: "Frame list \<Rightarrow> nat" where
  "payload_size fs \<equiv> (\<Sum>f\<leftarrow>fs. frame_size f)"

lemma write_frames_size:
  assumes "\<forall>f \<in> set fs. packet_frame_ok pn k level f \<and> small_paths f" "write_frames v clock fs = wbytes b"
  shows "length b = payload_size fs"
  using assms
proof (induction fs arbitrary: b)
  case Nil
  then show ?case by (simp add: write_frames_def wbytes_def)
next
  case (Cons f fs)
  obtain c where c: "Frame_Write v clock f = wbytes c" "length c = frame_size f"
    using frame_written Cons.prems(1) by (metis list.set_intros(1))
  have w: "wappend (wbytes c) (write_frames v clock fs) = wbytes b"
    using Cons.prems(2) c(1) by (simp add: write_frames_def)
  then obtain d where d: "write_frames v clock fs = wbytes d" "b = c @ d"
    by (cases "write_frames v clock fs") (auto simp: wappend_def wbytes_def split: sum.splits)
  show ?case using Cons.IH [OF _ d(1)] Cons.prems(1) c(2) d(2) by simp
qed

lemma payload_written:
  assumes "\<forall>f \<in> set fs. packet_frame_ok pn k level f \<and> small_paths f" "\<forall>f \<in> set (butlast fs). delimited f" "fs \<noteq> []"
  obtains b where "write_frames v clock fs = wbytes b" "unpack_loop v pn k level b = Inr (map (peer_frame clock) fs)"
    "b \<noteq> []" "length b = payload_size fs"
proof -
  obtain b where b: "write_frames v clock fs = wbytes b" "unpack_loop v pn k level b = Inr (map (peer_frame clock) fs)" "b \<noteq> []"
    using frames.payload_read_back [of fs pn k level v clock] assms by (auto simp: write_frames_def)
  show thesis by (rule that [OF b write_frames_size [OF assms(1) b(1)]])
qed

lemma writeAndSealPacket_ok:
  assumes h: "header_ok (pp_perspective p) h" and pn: "ph_PacketNumber h = Peek (pth_generator pth)"
    and fs: "\<forall>f \<in> set fs. packet_frame_ok (ph_PacketNumber h) (ph_PacketNumberLen h) level f \<and> small_paths f"
      "\<forall>f \<in> set (butlast fs). delimited f" "fs \<noteq> []"
    and len: "length (header_bytes (pp_version p) (pp_perspective p) h) + payload_size fs + Overhead sealer \<le> MaxPacketSize"
    and seal: "\<And>b ad. length (aead_Seal sealer b (ph_PacketNumber h) ad) = length b + Overhead sealer"
  obtains b where
    "writeAndSealPacket e h fs sealer pth p =
       Some (Inr (header_bytes (pp_version p) (pp_perspective p) h @
                  aead_Seal sealer b (ph_PacketNumber h) (header_bytes (pp_version p) (pp_perspective p) h)),
             pth\<lparr>pth_generator := snd (generator_Pop (pe_random e) (pth_generator pth))\<rparr>)"
    "unpack_loop (pp_version p) (ph_PacketNumber h) (ph_PacketNumberLen h) level b = Inr (map (peer_frame (pe_now e)) fs)"
    "b \<noteq> []" "length b = payload_size fs"
proof -
  obtain b where b: "write_frames (pp_version p) (pe_now e) fs = wbytes b"
    "unpack_loop (pp_version p) (ph_PacketNumber h) (ph_PacketNumberLen h) level b = Inr (map (peer_frame (pe_now e)) fs)"
    "b \<noteq> []" "length b = payload_size fs" by (rule payload_written [OF fs])
  have pop: "fst (generator_Pop (pe_random e) (pth_generator pth)) = ph_PacketNumber h"
    by (simp add: generator_Pop_def Let_def pn Peek_def)
  show thesis
  proof (rule that [OF _ b(2-4)])
    show "writeAndSealPacket e h fs sealer pth p =
       Some (Inr (header_bytes (pp_version p) (pp_perspective p) h @
                  aead_Seal sealer b (ph_PacketNumber h) (header_bytes (pp_version p) (pp_perspective p) h)),
             pth\<lparr>pth_generator := snd (generator_Pop (pe_random e) (pth_generator pth))\<rparr>)"
      unfolding writeAndSealPacket_def PublicHeader_Write_bytes(1) [OF h] b(1)
      using len b(4) pop by (simp add: wbytes_def seal split_beta Let_def)
  qed
qed






lemma numWritableNackRanges_bound: "numWritableNackRanges rs \<le> 255"
  using num_blocks(2,3) [of rs] by (cases "rs = []") (simp_all add: numWritableNackRanges_def)

lemma ranges_MinLength_bound:
  assumes "k \<le> 6"
  shows "ranges_MinLength k rs \<le> 2000"
proof -
  have "(1 + k) * numWritableNackRanges rs \<le> 7 * 255" using assms numWritableNackRanges_bound by (intro mult_mono) auto
  then show ?thesis using assms by (simp add: ranges_MinLength_def)
qed

lemma ack_lens_bound:
  assumes "ack_ok rs largest lowest"
  shows "ranges_MinLength (getMissingSequenceNumberDeltaLen rs largest lowest) rs \<le> 2000" "GetPacketNumberLength largest \<le> 6"
  using ranges_MinLength_bound ack_ok_lens(1) [OF assms refl] GetPacketNumberLength_fits(1) [of largest] by auto

lemma control_size_bound:
  assumes "control_ok f"
  shows "frame_size f \<le> 3000"
proof (cases f)
  case (Ack a)
  then show ?thesis using assms ack_lens_bound [of "AckRanges a" "LargestAcked a" "LowestAcked a"]
    by (simp add: control_ok_def AckFrame_MinLength_def)
next
  case (ClosePath a)
  then show ?thesis using assms ack_lens_bound [of "cp_AckRanges a" "cp_LargestAcked a" "cp_LowestAcked a"]
    by (simp add: control_ok_def ClosePathFrame_MinLength_def)
next
  case (Paths ps)
  have "(3 + 3 * unat (NumPaths ps)) mod 256 < 256" by simp
  then show ?thesis unfolding Paths by (simp add: paths_MinLength)
qed (use assms in \<open>auto simp: control_ok_def MaxPacketSize_def RstStreamFrame_MinLength_def BlockedFrame_MinLength_def
  WindowUpdateFrame_MinLength_def PingFrame_MinLength_def GoawayFrame_MinLength_def ConnectionCloseFrame_MinLength_def
  AddAddressFrame_MinLength_def\<close>)

section \<open>Well-formed packers\<close>

definition packer_wf :: "packetPacker \<Rightarrow> bool" where
  "packer_wf p \<longleftrightarrow> framer_wf (pp_streamFramer p) \<and> crypto_ready (pp_streamFramer p) \<and>
     (\<forall>f \<in> set (controlFrames p). control_ok f) \<and> (\<forall>pid a. pp_ackFrame p pid = Some a \<longrightarrow> control_ok (Ack a))"

text \<open>The STOP_WAITING and the ACK frame a packet on a path starts with.\<close>

definition pending :: "path \<Rightarrow> packetPacker \<Rightarrow> Frame list" where
  "pending pth p =
     (case pp_stopWaiting p (pth_pathID pth) of None \<Rightarrow> [] | Some f \<Rightarrow> [StopWaiting f])
     @ (case pp_ackFrame p (pth_pathID pth) of None \<Rightarrow> [] | Some a \<Rightarrow> [Ack a])"

definition frames_ok :: "PacketNumber \<Rightarrow> nat \<Rightarrow> EncryptionLevel \<Rightarrow> Frame list \<Rightarrow> bool" where
  "frames_ok pn k level fs \<longleftrightarrow>
     (\<forall>f \<in> set fs. frame_wf pn k level f \<and> small_paths f) \<and> (\<forall>f \<in> set (butlast fs). delimited f)"

definition stop_ok :: "PacketNumber \<Rightarrow> nat \<Rightarrow> path \<Rightarrow> packetPacker \<Rightarrow> bool" where
  "stop_ok pn k pth p \<longleftrightarrow>
     (\<forall>f level. pp_stopWaiting p (pth_pathID pth) = Some f \<longrightarrow> packet_frame_ok pn k level (StopWaiting f))"

lemma pending_ok:
  assumes "packer_wf p" "stop_ok pn k pth p" "f \<in> set (pending pth p)"
  shows "frame_wf pn k level f" "small_paths f" "delimited f" "frame_size f \<le> 3000"
proof -
  consider s where "f = StopWaiting s" "pp_stopWaiting p (pth_pathID pth) = Some s"
    | a where "f = Ack a" "control_ok (Ack a)"
    using assms(1,3) by (auto simp: pending_def packer_wf_def split: option.splits)
  then have "frame_wf pn k level f \<and> small_paths f \<and> delimited f \<and> frame_size f \<le> 3000"
  proof cases
    case 1
    then have ok: "frame_wf pn k level f" using assms(2) by (simp add: stop_ok_def)
    then show ?thesis using 1 by (auto simp: small_paths_def StopWaitingFrame_MinLength_def pn_len_defs)
  next
    case 2
    then show ?thesis using control_ok_packet [of f pn k level] control_size_bound [of f] by simp
  qed
  then show "frame_wf pn k level f" "small_paths f" "delimited f" "frame_size f \<le> 3000" by blast+
qed

lemma pending_stop:
  assumes "stop_ok pn k pth p" "pp_stopWaiting p (pth_pathID pth) = Some s"
  shows "StopWaitingFrame_MinLength s = Inr (Suc k)"
  using assms by (auto simp: stop_ok_def StopWaitingFrame_MinLength_def pn_len_defs)









section \<open>The header\<close>

definition send_ok :: "pack_env \<Rightarrow> path \<Rightarrow> packetPacker \<Rightarrow> bool" where
  "send_ok e pth p \<longleftrightarrow>
     0 < pp_connectionID p \<and> pp_connectionID p < 2 ^ 64 \<and> 0 \<le> pp_version p \<and> pp_version p < 1000 \<and> pth_pathID pth < 256 \<and>
     perspective (pe_params e) = pp_perspective p \<and>
     (diversificationNonce (pe_crypto e) = [] \<or> length (diversificationNonce (pe_crypto e)) = 32) \<and>
     0 < Peek (pth_generator pth) \<and> Peek (pth_generator pth) < 2 ^ 62 \<and> pth_leastUnacked pth \<le> Peek (pth_generator pth) \<and>
     Peek (pth_generator pth) < pth_leastUnacked pth + 2 ^ 47 \<and>
     (\<forall>s. pp_stopWaiting p (pth_pathID pth) = Some s \<longrightarrow> 0 < sw_LeastUnacked s \<and>
        pth_leastUnacked pth \<le> sw_LeastUnacked s \<and> sw_LeastUnacked s \<le> Peek (pth_generator pth))"

definition on_path :: "pack_env \<Rightarrow> path \<Rightarrow> packetPacker \<Rightarrow> nat" where
  "on_path e pth p = (if handshakeComplete e \<and> pp_version p \<ge> VersionMP then pth_pathID pth else 0)"

lemma packet_header_fields:
  "ph_PacketNumber (getPublicHeader e level pth p) = Peek (pth_generator pth)"
  "ph_PacketNumberLen (getPublicHeader e level pth p) =
     GetPacketNumberLengthForPublicHeader (Peek (pth_generator pth)) (pth_leastUnacked pth)"
  "VersionFlag (getPublicHeader e level pth p) \<Longrightarrow> ph_VersionNumber (getPublicHeader e level pth p) = pp_version p"
  "ph_PathID (peer_header (getPublicHeader e level pth p)) = on_path e pth p"
  "ph_TruncateConnectionID (getPublicHeader e level pth p) \<Longrightarrow> TruncateConnectionID (pe_params e)"
  "ConnectionID (getPublicHeader e level pth p) = pp_connectionID p"
  by (auto simp: getPublicHeader_def Let_def empty_header_def on_path_def peer_header_def split: if_splits)

lemma header_len:
  assumes "pn < 2 ^ 62" "least \<le> pn" "pn < least + 2 ^ 47" "k = GetPacketNumberLengthForPublicHeader pn least"
  shows "k \<in> {2, 4, 6}" "pn - least < 2 ^ (8 * k)"
proof -
  have "sub64 pn least = pn - least" using assms(1,2) by (simp add: sub64_small)
  moreover have "pn - least < 2 ^ 47" using assms(2,3) by (simp add: less_diff_conv2)
  ultimately show "k \<in> {2, 4, 6}" "pn - least < 2 ^ (8 * k)"
    unfolding assms(4) GetPacketNumberLengthForPublicHeader_def by (auto simp: pn_len_defs Let_def)
qed

lemma public_header_ok:
  assumes "send_ok e pth p"
  shows "header_ok (pp_perspective p) (getPublicHeader e level pth p)"
    "length (header_bytes (pp_version p) (pp_perspective p) (getPublicHeader e level pth p)) \<le> 52"
proof -
  let ?h = "getPublicHeader e level pth p"
  have k: "ph_PacketNumberLen ?h \<in> {1, 2, 4, 6}"
    using header_len(1) [OF _ _ _ packet_header_fields(2)] assms by (auto simp: send_ok_def)
  have t: "TruncateConnectionID (pe_params e) \<Longrightarrow> pp_perspective p = PerspectiveServer"
    using assms by (cases "pp_perspective p") (auto simp: TruncateConnectionID_def send_ok_def split: if_splits)
  show ok: "header_ok (pp_perspective p) ?h"
    unfolding header_ok_def using k assms t
    by (auto simp: getPublicHeader_def Let_def empty_header_def send_ok_def split: if_splits)
  have "length (DiversificationNonce ?h) \<le> 32" "ph_PacketNumberLen ?h \<le> 6" using ok k by (auto simp: header_ok_def)
  then have "GetLength ?h (pp_perspective p) = Inr n \<Longrightarrow> n \<le> 52" for n
    by (auto simp: GetLength_def split: if_splits)
  then show "length (header_bytes (pp_version p) (pp_perspective p) ?h) \<le> 52" using PublicHeader_Write_bytes(2) [OF ok] by blast
qed

lemma numbered_stop_ok:
  assumes "send_ok e pth p" "h = getPublicHeader e level pth p"
  shows "stop_ok (ph_PacketNumber h) (ph_PacketNumberLen h) pth (number_stop_waiting h pth p)"
proof -
  note l = header_len [OF _ _ _ packet_header_fields(2) [of e level pth p], folded assms(2)]
  have l: "ph_PacketNumberLen h \<in> {2, 4, 6}" "Peek (pth_generator pth) - pth_leastUnacked pth < 2 ^ (8 * ph_PacketNumberLen h)"
    using l assms(1) by (simp_all add: send_ok_def)
  have "packet_frame_ok (ph_PacketNumber h) (ph_PacketNumberLen h) lv
      (StopWaiting (s\<lparr>sw_PacketNumber := ph_PacketNumber h, sw_PacketNumberLen := ph_PacketNumberLen h\<rparr>))"
    if s: "pp_stopWaiting p (pth_pathID pth) = Some s" for s lv
  proof -
    have "Peek (pth_generator pth) - sw_LeastUnacked s < 2 ^ (8 * ph_PacketNumberLen h)"
      using assms(1) s l(2) by (auto simp: send_ok_def intro: le_less_trans [OF diff_le_mono2])
    then show ?thesis using assms s l(1) packet_header_fields(1) [of e level pth p] by (auto simp: send_ok_def pn_len_defs)
  qed
  then show ?thesis by (auto simp: stop_ok_def number_stop_waiting_def)
qed

section \<open>Delivery\<close>

text \<open>
  The receiver has the key: it opens, on the right level, whatever the sealer of the sender seals
  for this packet number, and sealing adds a bounded overhead.
\<close>

definition opens_level :: "cryptoSetup \<Rightarrow> PacketNumber \<Rightarrow> EncryptionLevel \<times> AEAD \<Rightarrow> bool" where
  "opens_level cs pn ls \<longleftrightarrow> Overhead (snd ls) \<le> 64 \<and>
     (\<forall>data ad. length (aead_Seal (snd ls) data pn ad) = length data + Overhead (snd ls) \<and>
        fst (CryptoSetup_Open cs (aead_Seal (snd ls) data pn ad) pn ad) = Some (data, fst ls))"

text \<open>
  The receiver's path is open and has seen the packets the sender knows to be received.  It may have
  seen later ones, less than \<open>2 ^ 15\<close> ahead, and the packet itself is not refused as a duplicate.
\<close>

definition receive_ok :: "int \<Rightarrow> PacketNumber \<Rightarrow> PacketNumber \<Rightarrow> path \<Rightarrow> bool" where
  "receive_ok clock pn leastUnacked r \<longleftrightarrow> pth_open r \<and> leastUnacked \<le> Suc (largestRcvdPacketNumber r) \<and>
     largestRcvdPacketNumber r < 2 ^ 62 \<and> Suc (largestRcvdPacketNumber r) < pn + 2 ^ 15 \<and>
     (\<forall>x. fst (handler_ReceivedPacket clock pn x (pth_receivedPacketHandler r)) = None)"

text \<open>
  The peer has a session of the connection, with the version of the sender and the path of the
  packet.  A server supports the version; a client with another session than the server's would
  drop the packet, as it would drop a truncated connection ID it did not ask for.
\<close>

primrec peer_session :: "nat \<Rightarrow> endpoint \<Rightarrow> session option" where
  "peer_session connID (ServerEnd srv) = (case srv_sessions srv connID of None \<Rightarrow> None | Some ses \<Rightarrow> ses)"
| "peer_session connID (ClientEnd c ses) = (if cl_connectionID c = connID then Some ses else None)"

primrec accepts :: "pack_env \<Rightarrow> packetPacker \<Rightarrow> endpoint \<Rightarrow> bool" where
  "accepts e p (ServerEnd srv) \<longleftrightarrow> pp_perspective p = PerspectiveClient \<and> IsSupportedVersion (srv_versions srv) (pp_version p)"
| "accepts e p (ClientEnd c ses) \<longleftrightarrow> pp_perspective p = PerspectiveServer \<and> cl_version c = pp_version p \<and>
     (TruncateConnectionID (pe_params e) \<longrightarrow> cl_requestTruncation c)"

definition peer_ready :: "pack_env \<Rightarrow> path \<Rightarrow> packetPacker \<Rightarrow> int \<Rightarrow> endpoint \<Rightarrow> session \<Rightarrow> bool" where
  "peer_ready e pth p clock peer ses \<longleftrightarrow> peer_session (pp_connectionID p) peer = Some ses \<and> accepts e p peer \<and>
     ses_version ses = pp_version p \<and>
     (\<exists>r. ses_paths ses (on_path e pth p) = Some r \<and> receive_ok clock (Peek (pth_generator pth)) (pth_leastUnacked pth) r)"

lemma handlePacketImpl_frames:
  assumes "pth_open r" "rp_publicHeader pkt = h" "rp_data pkt = data"
    and "InferPacketNumber (ph_PacketNumberLen h) (largestRcvdPacketNumber r) (ph_PacketNumber h) = pn"
    and "fst (CryptoSetup_Open cs data pn (Raw h)) = Some (b, level)"
    and "unpack_loop v pn (ph_PacketNumberLen h) level b = Inr fs" "b \<noteq> []"
    and "\<forall>x. fst (handler_ReceivedPacket clock pn x (pth_receivedPacketHandler r)) = None"
  shows "fst (handlePacketImpl pers v clock pkt r cs) = Inr (Some \<lparr>up_encryptionLevel = level, up_frames = fs\<rparr>)"
proof -
  define u where "u = \<lparr>up_encryptionLevel = level, up_frames = fs\<rparr>"
  have u: "Unpack (\<lambda>src n ad. fst (CryptoSetup_Open cs src n ad)) v (Raw h) pn (ph_PacketNumberLen h) data = Inr u"
    using assms(5-7) by (simp add: Unpack_def u_def)
  obtain g where g: "handler_ReceivedPacket clock pn (HasRetransmittableFrames (up_frames u)) (pth_receivedPacketHandler r) = (None, g)"
    using assms(8) by (metis prod.collapse)
  show ?thesis
    unfolding u_def [symmetric] using assms(1-4) u g by (simp add: handlePacketImpl_def Let_def)
qed

lemma session_frames:
  assumes "ses_paths ses (ph_PathID (rp_publicHeader pkt)) = Some r"
    and "\<And>t. fst (handlePacketImpl (ses_perspective ses) (ses_version ses) clock (pkt\<lparr>rp_rcvTime := t\<rparr>) r (ses_cryptoSetup ses)) = x"
  shows "\<exists>ses'. session_handlePacketImpl clock pkt ses = Some (x, ses')"
proof -
  define t where "t = (if rp_rcvTime pkt = 0 then clock else rp_rcvTime pkt)"
  have t: "(if rp_rcvTime pkt = 0 then pkt\<lparr>rp_rcvTime := clock\<rparr> else pkt) = pkt\<lparr>rp_rcvTime := t\<rparr>" by (simp add: t_def)
  obtain q cs where "handlePacketImpl (ses_perspective ses) (ses_version ses) clock (pkt\<lparr>rp_rcvTime := t\<rparr>) r (ses_cryptoSetup ses) = (x, q, cs)"
    using assms(2) [of t] by (metis prod.collapse)
  then show ?thesis using assms(1)
    by (cases "ses_perspective ses = PerspectiveClient \<and> 0 < length (DiversificationNonce (rp_publicHeader pkt))")
      (simp_all only: session_handlePacketImpl_def Let_def t if_True if_False, auto)
qed

lemma split_packet_bytes:
  assumes h: "header_ok pers h" and v: "VersionFlag h \<Longrightarrow> ph_VersionNumber h = v" "0 \<le> v"
  shows "split_packet pers v (header_bytes v pers h @ ct) = Inr ((peer_header h)\<lparr>Raw := header_bytes v pers h\<rparr>, ct)"
proof -
  have "ParsePublicHeader pers v (header_bytes v pers h @ ct) = Inr (peer_header h, ct)"
    using v by (intro ParsePublicHeader_bytes [OF h]) (auto simp: VersionUnknown_def)
  then show ?thesis by (simp add: split_packet_def)
qed

lemma PeekConnectionID_bytes:
  assumes h: "header_ok PerspectiveClient h"
  shows "PeekConnectionID PerspectiveClient (header_bytes v PerspectiveClient h @ ct) = Inr (ConnectionID h)"
proof -
  let ?w = "word_of_nat (ConnectionID h) :: 64 word"
  have c: "unat ?w = ConnectionID h" "\<not> ph_TruncateConnectionID h"
    using h by (auto simp: header_ok_def unat_word64 split: if_splits)
  then obtain rest where b: "header_bytes v PerspectiveClient h @ ct =
      publicFlagByte h PerspectiveClient # WriteUint64 LittleEndian ?w @ rest"
    by (simp add: header_bytes_def del: WriteUint64.simps)
  show ?thesis
    unfolding b PeekConnectionID_def pbind_ReadByte flag_fields(3) [OF h] Let_def
    using c by (simp add: littleEndian_eqs pret_def del: WriteUint64.simps ReadUint64.simps)
qed

lemma to_session:
  assumes h: "header_ok PerspectiveClient h" and v: "VersionFlag h \<Longrightarrow> ph_VersionNumber h = v" "0 \<le> v"
    and s: "srv_sessions srv (ConnectionID h) = Some (Some ses)" "ses_version ses = v" "IsSupportedVersion (srv_versions srv) v"
  shows "server_handlePacket srv (header_bytes v PerspectiveClient h @ ct) =
    ToSession (ConnectionID h) ses ((peer_header h)\<lparr>Raw := header_bytes v PerspectiveClient h\<rparr>) ct"
proof -
  have f: "\<not> ResetFlag h" using h by (simp add: header_ok_def)
  have "split_packet PerspectiveClient v (header_bytes v PerspectiveClient h @ ct) =
      Inr ((peer_header h)\<lparr>Raw := header_bytes v PerspectiveClient h\<rparr>, ct)" by (rule split_packet_bytes [OF h v])
  then show ?thesis
    using s v(1) f by (auto simp: server_handlePacket_def PeekConnectionID_bytes [OF h] peer_header_def Let_def)
qed

lemma to_client_session:
  assumes h: "header_ok PerspectiveServer h" and v: "0 \<le> cl_version c"
    and c: "ConnectionID h = cl_connectionID c" "ph_TruncateConnectionID h \<longrightarrow> cl_requestTruncation c"
  shows "client_handlePacket addr (header_bytes (cl_version c) PerspectiveServer h @ ct) c =
    (ToClientSession ((peer_header h)\<lparr>Raw := header_bytes (cl_version c) PerspectiveServer h\<rparr>) ct, c\<lparr>versionNegotiated := True\<rparr>)"
proof -
  have f: "\<not> ResetFlag h" "\<not> VersionFlag h" using h by (auto simp: header_ok_def)
  have "split_packet PerspectiveServer (cl_version c) (header_bytes (cl_version c) PerspectiveServer h @ ct) =
      Inr ((peer_header h)\<lparr>Raw := header_bytes (cl_version c) PerspectiveServer h\<rparr>, ct)"
    by (rule split_packet_bytes [OF h]) (use f v in simp_all)
  then show ?thesis using c f by (auto simp: client_handlePacket_def peer_header_def)
qed

text \<open>
  A client that offered a version the server does not support switches to one both support, once: it
  ignores the version negotiation packets that follow.
\<close>

lemma client_switches_version:
  assumes c: "0 < cl_connectionID c" "cl_connectionID c < 2 ^ 64" "\<not> versionNegotiated c" "\<not> receivedVersionNegotiationPacket c"
    and vs: "\<forall>v \<in> set vs. 0 \<le> v \<and> v < 1000" "cl_version c \<notin> set vs" "set (cl_versions c) \<inter> set vs \<noteq> {}"
    and new: "0 < newID" "newID < 2 ^ 64"
  obtains h c' where "client_handlePacket addr (ComposeVersionNegotiation (cl_connectionID c) vs) c = (ClientVersionFlag h, c)"
    "handlePacketWithVersionFlag (Some newID) h c = (SwitchVersion, c')" "cl_connectionID c' = newID"
    "cl_version c' \<in> set (cl_versions c) \<inter> set vs"
    "client_handlePacket addr (ComposeVersionNegotiation newID vs) c' = (ClientDrop, c')"
proof -
  let ?v = "ChooseSupportedVersion (cl_versions c) vs"
  let ?h = "empty_header\<lparr>ConnectionID := cl_connectionID c, VersionFlag := True, SupportedVersions := vs,
    Raw := ComposeVersionNegotiation (cl_connectionID c) vs\<rparr>"
  let ?c = "c\<lparr>receivedVersionNegotiationPacket := True, cl_version := ?v, cl_connectionID := newID\<rparr>"
  have v: "?v \<in> set (cl_versions c) \<inter> set vs"
    using ChooseSupportedVersion_best [of "cl_versions c" vs] vs(3) by (auto split: if_splits)
  then have "?v \<noteq> VersionUnsupported" using vs(1) by (auto simp: VersionUnsupported_def)
  then have "handlePacketWithVersionFlag (Some newID) ?h c = (SwitchVersion, ?c)"
    using vs(2) by (auto simp: handlePacketWithVersionFlag_def list_ex_iff Let_def empty_header_def)
  moreover have "client_handlePacket addr (ComposeVersionNegotiation (cl_connectionID c) vs) c = (ClientVersionFlag ?h, c)"
    using version_negotiation_round_trip [OF c(1,2) vs(1), of "cl_version c"] c(3,4)
    by (simp add: client_handlePacket_def split_packet_def empty_header_def)
  moreover have "client_handlePacket addr (ComposeVersionNegotiation newID vs) ?c = (ClientDrop, ?c)"
    using version_negotiation_round_trip [OF new vs(1), of ?v]
    by (simp add: client_handlePacket_def split_packet_def empty_header_def)
  ultimately show thesis using v by (intro that [of ?h ?c]) simp_all
qed

lemma received_by_peer:
  assumes snd: "send_ok e pth p" and h: "h = getPublicHeader e level pth p" and hb: "hb = header_bytes (pp_version p) (pp_perspective p) h"
    and key: "opens_level (ses_cryptoSetup ses) (Peek (pth_generator pth)) (level, sealer)"
    and b: "unpack_loop (pp_version p) (ph_PacketNumber h) (ph_PacketNumberLen h) level b = Inr fs" "b \<noteq> []"
    and peer: "peer_ready e pth p clock peer ses"
  shows "\<exists>peer'. receive_packet addr t clock (hb @ aead_Seal sealer b (ph_PacketNumber h) hb) peer =
    Some (Inr (Some \<lparr>up_encryptionLevel = level, up_frames = fs\<rparr>), peer')"
proof -
  let ?pn = "Peek (pth_generator pth)" and ?k = "ph_PacketNumberLen h" and ?ct = "aead_Seal sealer b (ph_PacketNumber h) hb"
  let ?g = "(peer_header h)\<lparr>Raw := hb\<rparr>"
  let ?pkt = "\<lparr>rp_remoteAddr = addr, rp_publicHeader = ?g, rp_data = ?ct, rp_rcvTime = t\<rparr>"
  obtain r where r: "ses_paths ses (on_path e pth p) = Some r" "receive_ok clock ?pn (pth_leastUnacked pth) r"
    and ses: "peer_session (pp_connectionID p) peer = Some ses" "accepts e p peer" "ses_version ses = pp_version p"
    using peer by (auto simp: peer_ready_def)
  note fields = packet_header_fields [of e level pth p, folded h]
  have ok: "header_ok (pp_perspective p) h" by (simp add: h public_header_ok [OF snd])
  have v: "0 \<le> pp_version p" using snd by (simp add: send_ok_def)
  have infer: "InferPacketNumber ?k (largestRcvdPacketNumber r) (?pn mod 2 ^ (?k * 8)) = ?pn"
    using snd r(2) by (intro packet_number_window [of _ _ "pth_leastUnacked pth"]) (auto simp: send_ok_def receive_ok_def fields(2))
  have "fst (handlePacketImpl (ses_perspective ses) (ses_version ses) clock (?pkt\<lparr>rp_rcvTime := t'\<rparr>) r (ses_cryptoSetup ses)) =
      Inr (Some \<lparr>up_encryptionLevel = level, up_frames = fs\<rparr>)" for t'
    using r(2) infer key b fields(1) ses(3)
    by (intro handlePacketImpl_frames [where pn = ?pn and b = b and h = ?g and data = ?ct])
      (auto simp: receive_ok_def opens_level_def peer_header_def)
  then obtain ses' where s: "session_handlePacketImpl clock ?pkt ses =
      Some (Inr (Some \<lparr>up_encryptionLevel = level, up_frames = fs\<rparr>), ses')"
    using session_frames [of ses ?pkt r clock] r(1) fields(4) by auto
  show ?thesis
  proof (cases peer)
    case (ServerEnd srv)
    then have pc: "pp_perspective p = PerspectiveClient" using ses(2) by simp
    have "server_handlePacket srv (hb @ ?ct) = ToSession (ConnectionID h) ses ?g ?ct"
      unfolding hb pc using ServerEnd ses fields(3,6) v ok pc
      by (intro to_session) (auto split: option.splits)
    then show ?thesis using ServerEnd s by simp
  next
    case (ClientEnd c s')
    then have pc: "pp_perspective p = PerspectiveServer" and c: "cl_version c = pp_version p" "s' = ses"
      "ConnectionID h = cl_connectionID c" "ph_TruncateConnectionID h \<longrightarrow> cl_requestTruncation c"
      using ses(1,2) fields(5,6) by (auto split: if_splits)
    have "client_handlePacket addr (hb @ ?ct) c = (ToClientSession ?g ?ct, c\<lparr>versionNegotiated := True\<rparr>)"
      using to_client_session [of h c addr ?ct] ok pc c v by (simp add: hb)
    then show ?thesis using ClientEnd s c(2) by simp
  qed
qed

text \<open>Sealing the frames of a packet gives a packet the peer reads.\<close>

lemma sealed_as_delivered:
  assumes snd: "send_ok e pth p" and h: "h = getPublicHeader e level pth p"
    and q: "pp_version q = pp_version p" "pp_perspective q = pp_perspective p"
    and key: "opens_level (ses_cryptoSetup ses) (Peek (pth_generator pth)) (level, sealer)"
    and fs: "frames_ok (ph_PacketNumber h) (ph_PacketNumberLen h) level fs" "\<forall>f \<in> set fs. gap_fits f" "fs \<noteq> []"
    and len: "length (header_bytes (pp_version p) (pp_perspective p) h) + payload_size fs + Overhead sealer \<le> MaxPacketSize"
    and peer: "peer_ready e pth p clock peer ses"
  obtains pkt where "sealed_as e h fs level sealer pth q =
      Some (Inr pkt, pth\<lparr>pth_generator := snd (generator_Pop (pe_random e) (pth_generator pth))\<rparr>, q)"
    "pkt_frames pkt = fs" "pkt_number pkt = Peek (pth_generator pth)" "pkt_encryptionLevel pkt = level"
    "length (pkt_raw pkt) \<le> MaxPacketSize"
    "\<exists>peer'. receive_packet addr t clock (pkt_raw pkt) peer =
       Some (Inr (Some \<lparr>up_encryptionLevel = level, up_frames = map (peer_frame (pe_now e)) fs\<rparr>), peer')"
proof -
  define hb where "hb = header_bytes (pp_version p) (pp_perspective p) h"
  have pn: "ph_PacketNumber h = Peek (pth_generator pth)" by (simp add: h packet_header_fields)
  have seal: "length (aead_Seal sealer b (ph_PacketNumber h) ad) = length b + Overhead sealer" for b ad
    using key pn by (simp add: opens_level_def)
  have ok: "header_ok (pp_perspective q) h" by (simp add: h q public_header_ok [OF snd])
  obtain b where b: "writeAndSealPacket e h fs sealer pth q =
       Some (Inr (hb @ aead_Seal sealer b (ph_PacketNumber h) hb),
             pth\<lparr>pth_generator := snd (generator_Pop (pe_random e) (pth_generator pth))\<rparr>)"
    "unpack_loop (pp_version p) (ph_PacketNumber h) (ph_PacketNumberLen h) level b = Inr (map (peer_frame (pe_now e)) fs)"
    "b \<noteq> []" "length b = payload_size fs"
    using fs by (rule_tac writeAndSealPacket_ok [OF ok pn, unfolded q, of fs level sealer e, OF _ _ _ len seal])
      (auto simp: frames_ok_def hb_def frame_wf_fits)
  show thesis
  proof (rule that)
    show "sealed_as e h fs level sealer pth q =
        Some (Inr (packed h fs level (hb @ aead_Seal sealer b (ph_PacketNumber h) hb)),
              pth\<lparr>pth_generator := snd (generator_Pop (pe_random e) (pth_generator pth))\<rparr>, q)"
      by (simp add: sealed_as_def b(1))
    show "length (pkt_raw (packed h fs level (hb @ aead_Seal sealer b (ph_PacketNumber h) hb))) \<le> MaxPacketSize"
      using len b(4) by (simp add: packed_def seal hb_def)
  qed (use received_by_peer [OF snd h hb_def key b(2,3) peer, of addr t] pn in \<open>simp_all add: packed_def\<close>)
qed


text \<open>
  A packet reached the peer: it has the next packet number, fits, and the peer, in its session, gets
  the frames in it out of the bytes.
\<close>

definition delivered :: "pack_env \<Rightarrow> path \<Rightarrow> string \<Rightarrow> int \<Rightarrow> int \<Rightarrow> endpoint \<Rightarrow> packedPacket \<Rightarrow> bool" where
  "delivered e pth addr rcvTime clock peer pkt \<longleftrightarrow>
     pkt_number pkt = Peek (pth_generator pth) \<and> length (pkt_raw pkt) \<le> MaxPacketSize \<and> pkt_frames pkt \<noteq> [] \<and>
     (\<exists>peer'. receive_packet addr rcvTime clock (pkt_raw pkt) peer =
      Some (Inr (Some \<lparr>up_encryptionLevel = pkt_encryptionLevel pkt, up_frames = map (peer_frame (pe_now e)) (pkt_frames pkt)\<rparr>),
        peer'))"

abbreviation advanced :: "pack_env \<Rightarrow> path \<Rightarrow> path" where
  "advanced e pth \<equiv> pth\<lparr>pth_generator := snd (generator_Pop (pe_random e) (pth_generator pth))\<rparr>"







text \<open>The packets with a single purpose: CONNECTION\_CLOSE and ACK.\<close>

lemma PackConnectionClose_delivered:
  assumes snd: "send_ok e pth p" and key: "opens_level (ses_cryptoSetup ses) (Peek (pth_generator pth)) (GetSealer (pe_crypto e))"
    and cc: "cc_ErrorCode ccf < 2 ^ 32" "length (cc_ReasonPhrase ccf) \<le> 1200"
    and peer: "peer_ready e pth p clock peer ses"
  shows "\<exists>pkt. PackConnectionClose e ccf pth p = Some (Inr pkt, advanced e pth, p) \<and> pkt_frames pkt = [ConnectionClose ccf] \<and>
    delivered e pth addr t clock peer pkt"
proof -
  obtain level sealer where ls: "GetSealer (pe_crypto e) = (level, sealer)" by fastforce
  define h where "h = getPublicHeader e level pth p"
  have n: "length (header_bytes (pp_version p) (pp_perspective p) h) \<le> 52" "Overhead sealer \<le> 64"
    using public_header_ok(2) [OF snd] key ls by (simp_all add: h_def opens_level_def)
  have fs: "frames_ok (ph_PacketNumber h) (ph_PacketNumberLen h) level [ConnectionClose ccf]"
    using cc by (simp add: frames_ok_def small_paths_def MaxPacketSize_def)
  show ?thesis
    by (rule sealed_as_delivered [where addr = addr and t = t, OF snd h_def refl refl key [unfolded ls] fs _ _ _ peer])
      (use n cc ls in \<open>simp_all add: PackConnectionClose_def h_def [symmetric] delivered_def ConnectionCloseFrame_MinLength_def MaxPacketSize_def\<close>)
qed

lemma PackAckPacket_delivered:
  assumes wf: "packer_wf p" and snd: "send_ok e pth p" and key: "opens_level (ses_cryptoSetup ses) (Peek (pth_generator pth)) (GetSealer (pe_crypto e))"
    and a: "pp_ackFrame p (pth_pathID pth) = Some a" "AckFrame_MinLength a \<le> 1200" "gap_fits (Ack a)"
    and peer: "peer_ready e pth p clock peer ses"
  shows "\<exists>pkt q. PackAckPacket e pth p = Some (Inr pkt, advanced e pth, q) \<and> Ack a \<in> set (pkt_frames pkt) \<and>
    pp_ackFrame q (pth_pathID pth) = None \<and> delivered e pth addr t clock peer pkt"
proof -
  obtain level sealer where ls: "GetSealer (pe_crypto e) = (level, sealer)" by fastforce
  define h where "h = getPublicHeader e level pth p"
  define pid where "pid = pth_pathID pth"
  define q where "q = number_stop_waiting h pth p"
  define q1 where "q1 = q\<lparr>pp_stopWaiting := (pp_stopWaiting q)(pid := None), pp_ackFrame := (pp_ackFrame q)(pid := None)\<rparr>"
  define fs where "fs = Ack a # (case pp_stopWaiting q pid of None \<Rightarrow> [] | Some f \<Rightarrow> [StopWaiting f])"
  have n: "length (header_bytes (pp_version p) (pp_perspective p) h) \<le> 52" "Overhead sealer \<le> 64"
    using public_header_ok(2) [OF snd] key ls by (simp_all add: h_def opens_level_def)
  have st: "stop_ok (ph_PacketNumber h) (ph_PacketNumberLen h) pth q" by (simp add: q_def numbered_stop_ok [OF snd h_def])
  have q: "packer_wf q" "pp_ackFrame q pid = Some a" "pp_version q1 = pp_version p" "pp_perspective q1 = pp_perspective p"
    using wf a(1) by (simp_all add: q1_def q_def number_stop_waiting_def packer_wf_def pid_def)
  have set: "set fs = set (pending pth q)" using q(2) by (auto simp: fs_def pending_def pid_def split: option.splits)
  have ok: "frames_ok (ph_PacketNumber h) (ph_PacketNumberLen h) level fs"
    using pending_ok [OF q(1) st] set by (auto simp: frames_ok_def dest: in_set_butlastD)
  have size: "payload_size fs \<le> 1207" using a(2) st pending_stop [OF st]
    by (cases "pp_stopWaiting q pid") (auto simp: fs_def pid_def stop_ok_def pn_len_defs)
  have eq: "PackAckPacket e pth p = sealed_as e h fs level sealer pth q1"
    by (simp add: PackAckPacket_def a(1) ls h_def [symmetric] Let_def fs_def q1_def q_def pid_def)
  show ?thesis
    by (rule sealed_as_delivered [where addr = addr and t = t, OF snd h_def q(3,4) key [unfolded ls] ok _ _ _ peer])
      (use n size eq a(3) in \<open>auto simp: fs_def q1_def pid_def delivered_def MaxPacketSize_def split: option.splits\<close>)
qed

section \<open>Properties\<close>


text \<open>A client with version 512 that has three bytes of its handshake to send, and a fresh server.\<close>

definition demo_hash :: "bytes \<Rightarrow> 64 word \<times> 64 word" where
  "demo_hash b = (fnv64a b, fnv64a (rev b))"

definition demo_streams :: "bytes option \<Rightarrow> streamsMap" where
  "demo_streams d = (newStreamsMap PerspectiveClient)\<lparr>streams := [1 \<mapsto> (newStream 1)\<lparr>dataForWriting := d\<rparr>], openStreams := [1],
     nextStream := 3, numIncomingStreams := 1\<rparr>"

definition demo_params :: connectionParametersManager where
  "demo_params = NewConnectionParamatersManager PerspectiveClient 512 100 100 30"

definition demo_packer :: "bytes option \<Rightarrow> packetPacker" where
  "demo_packer d = newPacketPacker 77 (newStreamFramer (demo_streams d) (NewFlowControlManager demo_params)) PerspectiveClient 512"

definition demo_pack_env :: pack_env where
  "demo_pack_env = \<lparr>pe_params = demo_params, pe_crypto = NewCryptoSetup demo_hash PerspectiveClient 512, handshakeComplete = False,
     pe_now = 0, pe_random = None\<rparr>"

definition demo_path :: path where
  "demo_path = \<lparr>pth_pathID = 0, pth_open = True, pth_generator = newPacketNumberGenerator SkipPacketAveragePeriodLength,
     lastRcvdPacketNumber = 0, largestRcvdPacketNumber = 0, pth_leastUnacked = 1, lastNetworkActivityTime = 0,
     potentiallyFailed = False, pth_receivedPacketHandler = NewReceivedPacketHandler 512, pth_remoteAddr = ''192.0.2.1:4242''\<rparr>"



lemma demo_packer_wf:
  assumes "d = None \<or> d = Some [1, 2, 3]"
  shows "packer_wf (demo_packer d)"
proof -
  have "sm_inv (demo_streams d)"
    by (simp add: sm_inv_def demo_streams_def newStreamsMap_def own_def)
  moreover have "stream_wf ((newStream 1)\<lparr>dataForWriting := d\<rparr>)"
    using assms by (auto simp: stream_wf_def newStream_def)
  ultimately show ?thesis
    by (simp add: packer_wf_def demo_packer_def newPacketPacker_def framer_wf_def newStreamFramer_def crypto_ready_def demo_streams_def)
qed

lemma demo_send_ok:
  "send_ok demo_pack_env demo_path (demo_packer d)" "send_ok demo_pack_env (demo_path\<lparr>pth_leastUnacked := 1\<rparr>) (demo_packer d)"
  by (simp_all add: send_ok_def demo_pack_env_def demo_path_def demo_packer_def newPacketPacker_def demo_params_def
      NewConnectionParamatersManager_def NewCryptoSetup_def newPacketNumberGenerator_def Peek_def)

lemma demo_opens: "opens_level (NewCryptoSetup demo_hash PerspectiveServer 512) pn (EncryptionUnencrypted, NewNullAEAD demo_hash PerspectiveClient 512)"
proof -
  have "fst (CryptoSetup_Open (NewCryptoSetup demo_hash PerspectiveServer 512)
      (aead_Seal (NewNullAEAD demo_hash PerspectiveClient 512) data pn ad) pn ad) = Some (data, EncryptionUnencrypted)" for data ad
    by (rule null.opened_on_level) (simp_all add: GetSealerWithEncryptionLevel_def NewCryptoSetup_def peer_of_def)
  then show ?thesis
    using null.overhead [of demo_hash PerspectiveClient 512 _ pn] by (auto simp: opens_level_def NewNullAEAD_def)
qed

lemma demo_sealers:
  "GetSealer (pe_crypto demo_pack_env) = (EncryptionUnencrypted, NewNullAEAD demo_hash PerspectiveClient 512)"
  "GetSealerForCryptoStream (pe_crypto demo_pack_env) = (EncryptionUnencrypted, NewNullAEAD demo_hash PerspectiveClient 512)"
  by (simp_all add: GetSealer_def GetSealerForCryptoStream_def demo_pack_env_def NewCryptoSetup_def)




text \<open>
  C39: a PING displaces what else is waiting.  With a STOP_WAITING frame queued for the path,
  \<^verbatim>\<open>PackPing\<close> returns no packet and the PING is gone; without one it returns a packet with the PING
  alone, and the ACK frame queued for the path is forgotten without being sent.
\<close>

theorem ping_displaces_ack:
  assumes "packer_wf p" "send_ok e (pth\<lparr>pth_leastUnacked := least\<rparr>) p"
    and idle: "HasCryptoStreamFrame (pe_params e) (pp_streamFramer p) = Some (False, pp_streamFramer p)"
    and sealer: "GetSealer (pe_crypto e) = (level, sealer)" "Overhead sealer \<le> 64"
      "\<forall>data ad. length (aead_Seal sealer data (Peek (pth_generator pth)) ad) = length data + Overhead sealer"
  shows "if pp_stopWaiting p (pth_pathID pth) \<noteq> None
    then \<exists>pth' q. PackPing e least pth p = Some (Inr None, pth', q) \<and> controlFrames q = controlFrames p
    else \<exists>pkt pth' q. PackPing e least pth p = Some (Inr (Some pkt), pth', q) \<and> pkt_frames pkt = [Ping] \<and>
      controlFrames q = controlFrames p \<and> pp_ackFrame q (pth_pathID pth) = None"
proof -
  let ?pth = "pth\<lparr>pth_leastUnacked := least\<rparr>" and ?p = "p\<lparr>controlFrames := Ping # controlFrames p\<rparr>"
  have snd: "send_ok e ?pth ?p" using assms(2) by (simp add: send_ok_def)
  define h where "h = getPublicHeader e level ?pth ?p"
  define n where "n = length (header_bytes (pp_version ?p) (pp_perspective ?p) h)"
  have ok: "header_ok (pp_perspective ?p) h" and n: "n \<le> 52" using public_header_ok [OF snd] by (simp_all only: h_def n_def)
  have len: "GetLength h (pp_perspective p) = Inr n" using PublicHeader_Write_bytes(2) [OF ok] by (simp add: n_def)
  define q where "q = (number_stop_waiting h ?pth p)"
  have pf: "payload_frames e m c ?pth (number_stop_waiting h ?pth ?p) = Some (Inr [Ping], q)" for m c
    by (simp add: payload_frames_def is_ping_def number_stop_waiting_def q_def)
  have q: "controlFrames q = controlFrames p" "pp_stopWaiting q (pth_pathID pth) = None \<longleftrightarrow> pp_stopWaiting p (pth_pathID pth) = None"
    "pp_version q = pp_version p" "pp_perspective q = pp_perspective p"
    by (simp_all add: q_def number_stop_waiting_def)
  let ?q = "q\<lparr>pp_stopWaiting := (pp_stopWaiting q)(pth_pathID pth := None), pp_ackFrame := (pp_ackFrame q)(pth_pathID pth := None)\<rparr>"
  have pn: "ph_PacketNumber h = Peek (pth_generator pth)" by (simp add: h_def packet_header_fields)
  obtain raw where raw: "writeAndSealPacket e h [Ping] sealer ?pth ?q = Some (Inr raw, advanced e ?pth)"
    by (rule writeAndSealPacket_ok [of ?q h ?pth "[Ping]" level sealer e])
      (use ok pn q n sealer in \<open>auto simp: small_paths_def n_def PingFrame_MinLength_def MaxPacketSize_def\<close>)
  have "PackPing e least pth p = pack_data e ?pth ?p" using idle by (simp add: PackPing_def PackPacket_def)
  also have "\<dots> = (if pp_stopWaiting q (pth_pathID pth) \<noteq> None then Some (Inr None, ?pth, q)
      else Some (Inr (Some (packed h [Ping] level raw)), advanced e ?pth, ?q))"
    using pf raw len unfolding pack_data_def sealer(1) by (simp add: h_def [symmetric] Let_def sealed_as_def)
  finally show ?thesis using q by (auto simp: packed_def)
qed

theorem ping_displaces_ack_witness:
  "\<exists>pkt pth' q. PackPing demo_pack_env 1 demo_path (demo_packer None) = Some (Inr (Some pkt), pth', q) \<and> pkt_frames pkt = [Ping]"
proof -
  have idle: "HasCryptoStreamFrame (pe_params demo_pack_env) (pp_streamFramer (demo_packer None)) =
      Some (False, pp_streamFramer (demo_packer None))"
    by (simp add: HasCryptoStreamFrame_def crypto_stream_def GetOrOpenStream_def demo_packer_def newPacketPacker_def newStreamFramer_def
        demo_streams_def lenOfDataForWriting_def newStream_def)
  have "Overhead (NewNullAEAD demo_hash PerspectiveClient 512) \<le> 64" using demo_opens by (simp add: opens_level_def)
  then show ?thesis
    using ping_displaces_ack [OF demo_packer_wf demo_send_ok(2) idle demo_sealers(1)] null.overhead [of demo_hash PerspectiveClient 512]
    by (auto simp: demo_packer_def newPacketPacker_def)
qed

text \<open>The numbers of a sequence of packets.\<close>

primrec pop_numbers :: "(byte \<times> byte) option list \<Rightarrow> packetNumberGenerator \<Rightarrow> PacketNumber list" where
  "pop_numbers [] g = []"
| "pop_numbers (r # rs) g = (case generator_Pop r g of (n, g') \<Rightarrow> n # pop_numbers rs g')"

lemma pop_numbers_upt:
  "0 < png_next g \<Longrightarrow> nextToSkip g = 0 \<Longrightarrow> png_next g + length rs < 2 ^ 64 \<Longrightarrow>
   pop_numbers rs g = [png_next g..<png_next g + length rs]"
proof (induction rs arbitrary: g)
  case (Cons r rs)
  let ?g = "g\<lparr>png_next := Suc (png_next g)\<rparr>"
  have "generator_Pop r g = (png_next g, ?g)" using Cons.prems by (simp add: generator_Pop_def Let_def add64_small)
  moreover have "pop_numbers rs ?g = [Suc (png_next g)..<Suc (png_next g) + length rs]"
    using Cons.IH [of ?g] Cons.prems by simp
  moreover have "[png_next g..<png_next g + length (r # rs)] = png_next g # [Suc (png_next g)..<Suc (png_next g) + length rs]"
    by (subst upt_conv_Cons) simp_all
  ultimately show ?case by (simp del: upt_Suc)
qed simp

text \<open>
  C40: the generator that is meant to skip packet numbers never does.  From the state it is created in
  it gives the numbers from 1 on without a gap, whatever the random source returns, because the first
  number to skip is never drawn.
\<close>

theorem packet_numbers_never_skipped:
  assumes "length rnds < 2 ^ 64 - 1"
  shows "pop_numbers rnds (newPacketNumberGenerator period) = [1..<Suc (length rnds)]"
  using pop_numbers_upt [of "newPacketNumberGenerator period" rnds] assms by (simp add: newPacketNumberGenerator_def)

theorem packet_numbers_never_skipped_witness:
  "pop_numbers [Some (0, 0), None, Some (0, 1)] (newPacketNumberGenerator SkipPacketAveragePeriodLength) = [1, 2, 3]"
  using packet_numbers_never_skipped [of "[Some (0, 0), None, Some (0, 1)]" SkipPacketAveragePeriodLength]
  by (simp add: upt_rec)

end
