(* ===== verification/Spec2Isabelle.thy ===== *)
theory Spec2Isabelle
  imports Systematic_RLNC XNC_Transfer Session_Streams Packet_Packer
begin

text \<open>
  \<^bold>\<open>Verification of RLNC_Streaming\<close>

  The repository streams files over multipath QUIC with random linear network coding.  Its parts
  are the coding library \<^verbatim>\<open>src/kodr\<close>, the file transfer \<^verbatim>\<open>src/xnc\<close> that codes a file with kodr and sends
  the packets over a QUIC stream, the transport \<^verbatim>\<open>src/mp-quic\<close> and the DASH player \<^verbatim>\<open>src/godash\<close>.  This
  library models the first three down to the frames and packets, in the order in which a byte of a
  file passes through them.  Each theory has the data, the operations in the order of the code, an
  invariant and the properties of one component; a name of the code is kept unless it clashes, and
  then has the type or the file as a prefix or suffix.

  \<^bold>\<open>Conventions.\<close>  A panic of the Go code is \<open>None\<close>; an error is \<open>Inl\<close> or \<open>Some e\<close> of a datatype of
  errors, returned with the state the code leaves behind.  Bytes are \<open>8 word\<close>; counts of bytes and packet
  numbers are natural numbers with the wrap-around of \<^verbatim>\<open>uint64\<close> in \<open>add64\<close> and \<open>sub64\<close>, stream ids use
  \<open>add32\<close> and \<open>sub32\<close>.  Readers of bytes are parsers \<open>bytes \<Rightarrow> wire_error + 'a \<times> bytes\<close>.  The clock, random
  bytes, the order of the iteration over a Go map, the order of goroutines and the sizes of the reads
  on a stream are arguments, and the theorems hold for all of them.

  \<^bold>\<open>Coding\<close> (\<^verbatim>\<open>src/kodr\<close>).
  \<^item> \<open>RLNC_Prelude\<close>: the collections of facts and the lemmas on lists and words the other theories use.
  \<^item> \<open>Galois_Field\<close>, \<open>GF_Vectors\<close>: the field package gfsm is not in the repository; it is the parameter
    \<open>F\<close> of the model, its laws are the locale \<open>galois_field\<close>, interpreted on GF(256).
  \<^item> \<open>Kodr_Data\<close> (\<^verbatim>\<open>data.go\<close>): pieces, splitting, padding, flattening, with their contracts and round trips.
  \<^item> \<open>Kodr_Matrix\<close> (\<^verbatim>\<open>matrix/matrix.go\<close>): the product by a pool of workers is the product over the field in
    every order of the workers.
  \<^item> \<open>Decoder_State\<close> (\<^verbatim>\<open>matrix/decoder_state.go\<close>): the reduction never panics, keeps the linear system and
    reaches the identity exactly for full rank; its goroutines commute.  Rows are values: a coded piece,
    whose slices the code keeps and overwrites, belongs to the decoder it is given to.
  \<^item> \<open>Full_RLNC\<close>, \<open>Systematic_RLNC\<close> (\<^verbatim>\<open>full/\<close>, \<^verbatim>\<open>systematic/\<close>): encoders, decoders, recoder.  The locale
    \<open>piece_decoder\<close> is the contract of a decoder; both decoders satisfy it, the systematic one by refinement
    of the full one.  A decoder returns the original pieces exactly when the coding vectors have full rank;
    what it reports before then, the pieces still required and their length, is characterised with the
    cases in which it is wrong.

  \<^bold>\<open>File transfer\<close> (\<^verbatim>\<open>src/xnc\<close>).
  \<^item> \<open>XNC_Packet\<close> (\<^verbatim>\<open>xnc.go\<close>): packets and their round trips.
  \<^item> \<open>XNC_Transfer\<close> (\<^verbatim>\<open>client.go\<close>, \<^verbatim>\<open>server.go\<close>): the client gets the bytes of the file, coded or not, for every
    way the stream cuts its reads, if the vectors of each chunk have full rank; chunks without are lost.

  \<^bold>\<open>Numbers and parameters\<close> (\<^verbatim>\<open>src/mp-quic/internal\<close>).
  \<^item> \<open>Byte_Order\<close> (\<^verbatim>\<open>utils/byteorder*.go\<close>, \<^verbatim>\<open>float16.go\<close>): fixed-width numbers in both byte orders, the 16-bit float.
  \<^item> \<open>Packet_Number\<close> (\<^verbatim>\<open>protocol/packet_number.go\<close>): truncated packet numbers are recovered, of new packets and of
    late ones.
  \<^item> \<open>Connection_Parameters\<close> (\<^verbatim>\<open>handshake/connection_parameters_manager.go\<close>): the exchange of the hello messages.
  \<^item> \<open>Flow_Control\<close> (\<^verbatim>\<open>flowcontrol\<close>): the step relation \<open>flow_reach\<close> has every order, loss and repetition of
    frames and window updates, and the removal of streams on either side.  A sender that respects its
    windows is never accused of a violation; the connection accounts for open and removed streams.  A
    receiver that read everything makes room for more, if all the window updates it announces arrive.

  \<^bold>\<open>Frames\<close> (\<^verbatim>\<open>src/mp-quic/internal/wire\<close>, \<^verbatim>\<open>ackhandler\<close>).
  \<^item> \<open>Wire_Frames\<close>, \<open>Ack_Frames\<close>, \<open>Packet_Frames\<close>: one parser, writer and length per frame type and their round
    trips; \<open>Frame\<close> is the sum of the frame types, \<open>Frame_Write\<close> the call through the Go interface.
  \<^item> \<open>Received_Packets\<close> (\<^verbatim>\<open>received_packet_*.go\<close>): the history of received packets implements a set; an ACK frame
    acknowledges exactly the packets recorded (step relation \<open>handler_reach\<close>), and within the delay promised
    whatever else arrives (step relation \<open>awaiting_ack\<close>).  \<open>Ack_Frames\<close> shows what of it reaches the peer.

  \<^bold>\<open>Streams\<close> (\<^verbatim>\<open>src/mp-quic\<close>).
  \<^item> \<open>Frame_Sorter\<close> (\<^verbatim>\<open>stream_frame_sorter.go\<close>): queue and gaps.
  \<^item> \<open>Quic_Stream\<close> (\<^verbatim>\<open>stream.go\<close>): what \<^verbatim>\<open>Read\<close> returns is a prefix of what was sent, for every order and cut of
    the frames (step relation \<open>stream_reach\<close>, with the call of \<^verbatim>\<open>Read\<close> that waits).  That it returns all that is
    contiguous, and the end of the stream only after the content, holds if no frame with FIN was cut at its
    end (\<open>fins_uncut\<close>); a theorem shows the early end of the stream otherwise.
  \<^item> \<open>Streams_Map\<close> (\<^verbatim>\<open>streams_map.go\<close>, \<^verbatim>\<open>newStream\<close> and \<^verbatim>\<open>garbageCollectStreams\<close> of \<^verbatim>\<open>session.go\<close>): the
    operations keep the list of open streams, the map, the counters and the flow control manager in step.
  \<^item> \<open>Stream_Framer\<close> (\<^verbatim>\<open>stream_framer.go\<close>): the frames cut from the streams fit the size asked for.
  \<^item> \<open>Session_Streams\<close>: both together over the life of a session (step relation \<open>sm_reach\<close>); the invariant
    holds in every state and the round robin serves every open stream once per round.

  \<^bold>\<open>Packets\<close> (\<^verbatim>\<open>src/mp-quic\<close>).
  \<^item> \<open>Public_Header\<close> (\<^verbatim>\<open>wire/public_header.go\<close>, \<^verbatim>\<open>version_negotiation.go\<close>, \<^verbatim>\<open>protocol/version.go\<close>).
  \<^item> \<open>Packet_Unpacker\<close> (\<^verbatim>\<open>packet_unpacker.go\<close>): the locale \<open>frame_codec\<close> is what the loop over the frames of a
    packet relies on; it is interpreted on the frames of this protocol.
  \<^item> \<open>Packet_Protection\<close> (\<^verbatim>\<open>crypto/null_aead*.go\<close>, \<^verbatim>\<open>handshake/crypto_setup_*.go\<close>): the locale \<open>packet_protection\<close> is
    the contract of the AEADs of two peers, interpreted on the null AEADs; the encryption level of a
    connection never falls (step relation \<open>crypto_run\<close>).
  \<^item> \<open>Packet_Packer\<close> (\<^verbatim>\<open>packet_packer.go\<close>, \<^verbatim>\<open>packet_number_generator.go\<close>, the receiving side of \<^verbatim>\<open>client.go\<close>, \<^verbatim>\<open>server.go\<close>,
    \<^verbatim>\<open>session.go\<close> and \<^verbatim>\<open>path.go\<close>): composes all of these; a packed packet fits and the peer, a server or a client
    with a session of the connection, gets its frames as \<open>peer_frame\<close> says.  An ACK frame that is too long
    or whose first gap needs too many blocks is an error of the packer.

  \<^bold>\<open>Bounds and termination.\<close>  No loop has fuel.  Loops are structural recursions or functions with a
  termination proof, except those that the code itself might not leave, which are partial functions
  with \<open>None\<close> for not returning and theorems that they return: the cutting of a file in
  \<open>XNC_Packet\<close>, the loops of client and reader in \<open>XNC_Transfer\<close>, the read loop of a stream in \<open>Quic_Stream\<close>
  and the opening of the streams up to an id in \<open>Streams_Map\<close>.  The theorems assume what the width of the wire format asks for: contents of a stream below \<open>2^63\<close> bytes,
  packet numbers in ACK frames below \<open>2^48\<close> and in headers below \<open>2^62\<close> with fewer than \<open>2^47\<close> outstanding,
  stream ids that can be raised by 2 within 32 bits, versions of at most three digits, fewer than 85
  paths in a PATHS frame (its \<^verbatim>\<open>MinLength\<close> wraps beyond) and an AEAD overhead of at most 64 bytes.

  \<^bold>\<open>Not modelled.\<close>  The event loops of sessions, clients and servers, the path manager and the scheduler
  are goroutines over sockets, timers and channels.  The handshake and the AEADs of the encrypted
  levels are layers over cryptographic packages; they are parameters of \<open>Packet_Protection\<close>, with what is
  relied on in its locale.  The congestion controllers, and the handler of sent packets that drives
  them, compute with floating-point numbers, as do the adaptation algorithms and quality models of
  \<^verbatim>\<open>src/godash\<close>.  The linked lists of \<^verbatim>\<open>internal/utils\<close> are generated.  Public reset packets are handshake
  messages.  The HTTP layer \<^verbatim>\<open>h2quic\<close>, examples, mocks and log output call libraries outside the
  repository.
\<close>

end
